(* ===== verification/Prelude.thy ===== *)
theory Prelude
  imports
    Complex_Main
    "HOL-Library.Word"
    "HOL-Library.Multiset"
    "HOL-Library.Sublist"
    "HOL-Library.Char_ord"
    "HOL-Library.List_Lexorder"
begin

text \<open>
  Shared vocabulary of the development: the names of the model's basic types, the result
  type of fallible Go functions, first-occurrence deduplication (the \<open>seen\<close>-map idiom that
  the Go code repeats in most components), stable sorting by a key, and the generic lemmas on
  lists and maps that the component proofs use.

  Go strings and byte slices are \<open>string\<close>, a list of 8-bit characters; Go's \<open>int\<close> and
  \<open>int64\<close> are \<open>int\<close> (the code never relies on overflow; the two places that compute with
  64-bit words use \<open>64 word\<close>); \<open>float64\<close> is \<open>real\<close>.
\<close>

named_theorems view_simps \<open>how each store operation acts on the node map\<close>
named_theorems frame_simps \<open>which tables an operation leaves alone\<close>

type_synonym node_id = string
type_synonym bytes = string

text \<open>
  Errors. Go returns \<open>error\<close> values; the model keeps one constructor per kind that callers
  distinguish, and \<open>Failure\<close> with the site's message prefix for the others.
\<close>

datatype error =
    NoRows
  | ForeignKey
  | UniqueViolation
  | Busy
  | Cancelled
  | Failure string

type_synonym 'a result = "error + 'a"

definition bind_result :: "'a result \<Rightarrow> ('a \<Rightarrow> 'b result) \<Rightarrow> 'b result" where
  "bind_result r f = (case r of Inl e \<Rightarrow> Inl e | Inr x \<Rightarrow> f x)"

lemma bind_result_simps [simp]:
  "bind_result (Inl e) f = Inl e"
  "bind_result (Inr x) f = f x"
  by (simp_all add: bind_result_def)

lemma bind_result_InrE:
  assumes "bind_result r f = Inr y"
  obtains x where "r = Inr x" "f x = Inr y"
  using assms by (cases r) auto

text \<open>A loop over a slice that stops at the first error.\<close>

fun fold_result :: "('a \<Rightarrow> 's \<Rightarrow> 's result) \<Rightarrow> 'a list \<Rightarrow> 's \<Rightarrow> 's result" where
  "fold_result f [] s = Inr s"
| "fold_result f (x # xs) s = bind_result (f x s) (fold_result f xs)"

lemma fold_result_append:
  "fold_result f (xs @ ys) s = bind_result (fold_result f xs s) (fold_result f ys)"
proof (induction xs arbitrary: s)
  case (Cons x xs)
  then show ?case by (cases "f x s") simp_all
qed simp

lemma fold_result_invariant:
  assumes "fold_result f xs s = Inr s'"
    and "P s"
    and "\<And>x s s'. x \<in> set xs \<Longrightarrow> P s \<Longrightarrow> f x s = Inr s' \<Longrightarrow> P s'"
  shows "P s'"
  using assms
proof (induction xs arbitrary: s)
  case (Cons x xs)
  from Cons.prems(1) obtain t where "f x s = Inr t" "fold_result f xs t = Inr s'"
    by (auto elim: bind_result_InrE)
  with Cons show ?case by (metis list.set_intros(1) list.set_intros(2))
qed simp

text \<open>
  \<open>errgroup.Wait\<close> over workers that each give a result: the error of the first to fail, in the order
  \<open>sched\<close> in which they end (workers it does not list end last, in their own order), else all values.
\<close>

definition gather :: "nat list \<Rightarrow> 'a result list \<Rightarrow> 'a list result" where
  "gather sched rs =
     (case filter (\<lambda>i. i < length rs \<and> isl (rs ! i)) (sched @ [0..<length rs]) of
        i # _ \<Rightarrow> Inl (projl (rs ! i))
      | [] \<Rightarrow> Inr (map projr rs))"

lemma gather_InrD:
  assumes "gather sched rs = Inr xs"
  shows "rs = map Inr xs"
proof -
  have "filter (\<lambda>i. i < length rs \<and> isl (rs ! i)) (sched @ [0..<length rs]) = []" "xs = map projr rs"
    using assms by (auto simp: gather_def split: list.splits)
  then have "\<not> isl r" if "r \<in> set rs" for r
    using that by (fastforce simp: filter_empty_conv in_set_conv_nth)
  then have "map (Inr \<circ> projr) rs = rs" by (intro map_idI) (metis comp_def sum.collapse(2))
  then show ?thesis using \<open>xs = map projr rs\<close> by (simp add: comp_def)
qed

lemma gather_all_Inr: "gather sched (map Inr xs) = Inr xs"
proof -
  have "filter (\<lambda>i. i < length (map Inr xs) \<and> isl (map Inr xs ! i)) (sched @ [0..<length (map Inr xs)]) = []"
    by (simp add: filter_empty_conv)
  then show ?thesis by (simp add: gather_def comp_def)
qed
subsection \<open>First occurrences\<close>

text \<open>
  \<open>first_occs\<close> keeps the first occurrence of every element: the loop
  \<open>if seen[x] { continue }; seen[x] = true; out = append(out, x)\<close>.
\<close>

fun first_occs_from :: "'a list \<Rightarrow> 'a list \<Rightarrow> 'a list" where
  "first_occs_from seen [] = []"
| "first_occs_from seen (x # xs) =
     (if x \<in> set seen then first_occs_from seen xs else x # first_occs_from (x # seen) xs)"

definition first_occs :: "'a list \<Rightarrow> 'a list" where
  "first_occs = first_occs_from []"

lemma set_first_occs_from: "set (first_occs_from seen xs) = set xs - set seen"
  by (induction seen xs rule: first_occs_from.induct) auto

lemma set_first_occs [simp]: "set (first_occs xs) = set xs"
  by (simp add: first_occs_def set_first_occs_from)

lemma distinct_first_occs_from: "distinct (first_occs_from seen xs)"
  by (induction seen xs rule: first_occs_from.induct) (auto simp: set_first_occs_from)

lemma distinct_first_occs [simp]: "distinct (first_occs xs)"
  by (simp add: first_occs_def distinct_first_occs_from)

lemma first_occs_from_distinct:
  "distinct xs \<Longrightarrow> set xs \<inter> set seen = {} \<Longrightarrow> first_occs_from seen xs = xs"
  by (induction xs arbitrary: seen) auto

lemma first_occs_distinct: "distinct xs \<Longrightarrow> first_occs xs = xs"
  by (simp add: first_occs_def first_occs_from_distinct)

lemma subseq_first_occs_from: "subseq (first_occs_from seen xs) xs"
  by (induction seen xs rule: first_occs_from.induct) auto

lemma subseq_first_occs: "subseq (first_occs xs) xs"
  by (simp add: first_occs_def subseq_first_occs_from)

subsection \<open>Lists of rows with a key\<close>

text \<open>Look up the first row with a key, the reading of a query \<open>WHERE id = ?\<close>.\<close>

definition lookup_by :: "('r \<Rightarrow> 'k) \<Rightarrow> 'k \<Rightarrow> 'r list \<Rightarrow> 'r option" where
  "lookup_by key k rs = find (\<lambda>r. key r = k) rs"

lemma lookup_by_Nil [simp]: "lookup_by key k [] = None"
  by (simp add: lookup_by_def)

lemma lookup_by_Cons [simp]:
  "lookup_by key k (r # rs) = (if key r = k then Some r else lookup_by key k rs)"
  by (simp add: lookup_by_def)

lemma lookup_by_None_iff: "lookup_by key k rs = None \<longleftrightarrow> k \<notin> key ` set rs"
  by (induction rs) auto

lemma lookup_by_SomeD: "lookup_by key k rs = Some r \<Longrightarrow> r \<in> set rs \<and> key r = k"
  by (induction rs) (auto split: if_splits)

lemma lookup_by_mem:
  "distinct (map key rs) \<Longrightarrow> r \<in> set rs \<Longrightarrow> lookup_by key (key r) rs = Some r"
  by (induction rs) auto

lemma lookup_by_same_set:
  assumes "distinct (map key xs)" "distinct (map key ys)" "set xs = set ys"
  shows "lookup_by key k xs = lookup_by key k ys"
proof (cases "lookup_by key k xs")
  case None
  with assms(3) have "lookup_by key k ys = None" by (simp add: lookup_by_None_iff)
  with None show ?thesis by simp
next
  case (Some r)
  then have "r \<in> set ys" "key r = k" using assms(3) lookup_by_SomeD by fastforce+
  with Some lookup_by_mem [OF assms(2)] show ?thesis by fastforce
qed

lemma lookup_by_append:
  "lookup_by key k (xs @ ys) =
     (case lookup_by key k xs of None \<Rightarrow> lookup_by key k ys | Some r \<Rightarrow> Some r)"
  by (induction xs) auto

lemma lookup_by_filter_key:
  "lookup_by key k (filter (\<lambda>r. P (key r)) rs) = (if P k then lookup_by key k rs else None)"
  by (induction rs) auto

lemma lookup_by_map_same_key:
  assumes "\<And>r. key (f r) = key r"
  shows "lookup_by key k (map f rs) = map_option f (lookup_by key k rs)"
  by (induction rs) (auto simp: assms)

lemma lookup_by_update:
  assumes "\<And>r. key r = a \<Longrightarrow> key (f r) = a"
  shows "lookup_by key k (map (\<lambda>r. if key r = a then f r else r) rs) =
    (if k = a then map_option f (lookup_by key k rs) else lookup_by key k rs)"
  by (induction rs) (auto simp: assms)

lemma length_filter_less_iff: "length (filter P xs) < length xs \<longleftrightarrow> (\<exists>x\<in>set xs. \<not> P x)"
  by (metis filter_True length_filter_less linorder_not_less order_refl)

subsection \<open>Sorting by several keys\<close>

text \<open>A stable sort refines the order its input already has: \<open>ORDER BY a, b\<close> is two stable sorts.\<close>

lemma sorted_wrt_insort_key:
  fixes k :: "'a \<Rightarrow> 'b :: linorder"
  assumes "sorted_wrt (\<lambda>x y. k x < k y \<or> k x = k y \<and> R x y) xs" "\<forall>z\<in>set xs. R y z"
  shows "sorted_wrt (\<lambda>x y. k x < k y \<or> k x = k y \<and> R x y) (insort_key k y xs)"
  using assms
proof (induction xs)
  case (Cons x xs)
  show ?case
  proof (cases "k y \<le> k x")
    case True
    with Cons.prems show ?thesis by auto
  next
    case False
    with Cons show ?thesis by (auto simp: set_insort_key)
  qed
qed simp

lemma sorted_wrt_sort_key:
  fixes k :: "'a \<Rightarrow> 'b :: linorder"
  shows "sorted_wrt R xs \<Longrightarrow> sorted_wrt (\<lambda>x y. k x < k y \<or> k x = k y \<and> R x y) (sort_key k xs)"
  by (induction xs) (simp_all add: sorted_wrt_insort_key)

lemma sorted_wrt_sort_key1: "sorted_wrt (\<lambda>x y. k x \<le> k y) (sort_key k xs)"
  using sorted_sort_key [of k xs] by (simp add: sorted_wrt_map)

subsection \<open>Sorting by a key, descending\<close>

text \<open>
  \<open>sort.Slice(xs, func(i, j) bool { return key(xs[i]) > key(xs[j]) })\<close>. Go leaves the order of
  equal keys open; the model keeps their input order, and the theorems use only that the
  result is a permutation in descending order.
\<close>

definition sort_desc :: "('a \<Rightarrow> real) \<Rightarrow> 'a list \<Rightarrow> 'a list" where
  "sort_desc key xs = sort_key (\<lambda>x. - key x) xs"

lemma mset_sort_desc [simp]: "mset (sort_desc key xs) = mset xs"
  by (simp add: sort_desc_def)

lemma set_sort_desc [simp]: "set (sort_desc key xs) = set xs"
  by (simp add: sort_desc_def)

lemma length_sort_desc [simp]: "length (sort_desc key xs) = length xs"
  by (simp add: sort_desc_def)

lemma distinct_sort_desc [simp]: "distinct (sort_desc key xs) = distinct xs"
  by (simp add: sort_desc_def)

lemma sorted_wrt_sort_desc: "sorted_wrt (\<lambda>x y. key y \<le> key x) (sort_desc key xs)"
proof -
  have "sorted (map (\<lambda>x. - key x) (sort_key (\<lambda>x. - key x) xs))"
    by (rule sorted_sort_key)
  then show ?thesis
    by (simp add: sort_desc_def sorted_wrt_map)
qed

end
