(* ===== verification/Go_Strings.thy ===== *)
theory Go_Strings
  imports Prelude
begin

text \<open>
  The functions of Go's \<open>strings\<close>, \<open>bytes\<close>, \<open>strconv\<close>, \<open>unicode/utf8\<close> and
  \<open>path/filepath\<close> packages that the modelled code calls, on byte strings. They model the
  standard library as the source uses it; none of them maps to a line of the repository.
  Paths are Unix paths (separator \<open>/\<close>).
\<close>

subsection \<open>Prefixes, suffixes, substrings\<close>

definition has_prefix :: "bytes \<Rightarrow> bytes \<Rightarrow> bool" where
  "has_prefix s p \<longleftrightarrow> take (length p) s = p"

definition has_suffix :: "bytes \<Rightarrow> bytes \<Rightarrow> bool" where
  "has_suffix s p \<longleftrightarrow> length p \<le> length s \<and> drop (length s - length p) s = p"

definition trim_prefix :: "bytes \<Rightarrow> bytes \<Rightarrow> bytes" where
  "trim_prefix s p = (if has_prefix s p then drop (length p) s else s)"

definition trim_suffix :: "bytes \<Rightarrow> bytes \<Rightarrow> bytes" where
  "trim_suffix s p = (if has_suffix s p then take (length s - length p) s else s)"

text \<open>\<open>strings.Index\<close>: the first position at which \<open>sub\<close> occurs.\<close>

fun str_index :: "bytes \<Rightarrow> bytes \<Rightarrow> nat option" where
  "str_index sub [] = (if sub = [] then Some 0 else None)"
| "str_index sub (c # cs) =
     (if has_prefix (c # cs) sub then Some 0 else map_option Suc (str_index sub cs))"

definition str_contains :: "bytes \<Rightarrow> bytes \<Rightarrow> bool" where
  "str_contains s sub \<longleftrightarrow> str_index sub s \<noteq> None"

definition cut :: "bytes \<Rightarrow> bytes \<Rightarrow> bytes \<times> bytes \<times> bool" where
  "cut s sep = (case str_index sep s of
       None \<Rightarrow> (s, [], False)
     | Some i \<Rightarrow> (take i s, drop (i + length sep) s, True))"

lemma has_prefix_iff: "has_prefix s p \<longleftrightarrow> (\<exists>t. s = p @ t)"
  unfolding has_prefix_def by (metis append_eq_conv_conj append_take_drop_id)

lemma has_prefix_append [simp]: "has_prefix (p @ t) p"
  by (simp add: has_prefix_def)

lemma has_prefix_Nil [simp]: "has_prefix s []"
  by (simp add: has_prefix_def)

lemma has_suffix_iff: "has_suffix s p \<longleftrightarrow> (\<exists>t. s = t @ p)"
proof
  assume "has_suffix s p"
  then have "s = take (length s - length p) s @ p"
    unfolding has_suffix_def by (metis append_take_drop_id)
  then show "\<exists>t. s = t @ p" ..
qed (auto simp: has_suffix_def)

lemma has_suffix_append [simp]: "has_suffix (t @ p) p"
  by (auto simp: has_suffix_iff)

lemma trim_prefix_append [simp]: "trim_prefix (p @ t) p = t"
  by (simp add: trim_prefix_def)

lemma trim_suffix_append [simp]: "trim_suffix (t @ p) p = t"
  by (simp add: trim_suffix_def)

lemma length_trim_prefix_le: "length (trim_prefix s p) \<le> length s"
  by (simp add: trim_prefix_def)

lemma str_index_SomeD:
  "str_index sub s = Some i \<Longrightarrow>
     i + length sub \<le> length s \<and> s = take i s @ sub @ drop (i + length sub) s"
proof (induction s arbitrary: i)
  case (Cons c cs)
  show ?case
  proof (cases "has_prefix (c # cs) sub")
    case True
    then obtain t where t: "c # cs = sub @ t" by (auto simp: has_prefix_iff)
    from True Cons.prems have "i = 0" by simp
    with t show ?thesis by simp
  next
    case False
    with Cons.prems obtain j where j: "str_index sub cs = Some j" "i = Suc j"
      by auto
    from Cons.IH [OF j(1)] j(2) show ?thesis by simp
  qed
qed (auto split: if_splits)

lemma str_index_append_sep: "str_index sub (u @ sub @ v) \<noteq> None"
proof (induction u)
  case Nil
  have "has_prefix (sub @ v) sub" by simp
  then show ?case by (cases "sub @ v") (simp_all del: has_prefix_append)
qed auto

lemma str_contains_iff: "str_contains s sub \<longleftrightarrow> (\<exists>u v. s = u @ sub @ v)"
  using str_index_SomeD str_index_append_sep
  unfolding str_contains_def by (metis not_None_eq)

lemma cut_found: "cut s sep = (a, b, True) \<Longrightarrow> s = a @ sep @ b"
  by (auto simp: cut_def split: option.splits dest: str_index_SomeD)

lemma cut_not_found: "cut s sep = (a, b, False) \<Longrightarrow> a = s \<and> b = [] \<and> \<not> str_contains s sep"
  by (auto simp: cut_def str_contains_def split: option.splits)

subsection \<open>Splitting and joining\<close>

text \<open>\<open>strings.Split(s, c)\<close> for a one-byte separator; never empty.\<close>

fun split_on :: "char \<Rightarrow> bytes \<Rightarrow> bytes list" where
  "split_on c [] = [[]]"
| "split_on c (x # xs) =
     (if x = c then [] # split_on c xs
      else (case split_on c xs of [] \<Rightarrow> [[x]] | w # ws \<Rightarrow> (x # w) # ws))"

text \<open>\<open>strings.SplitN(s, c, n)\<close> for \<open>n > 0\<close>: at most \<open>n\<close> pieces, the last one unsplit.\<close>

fun split_on_n :: "char \<Rightarrow> nat \<Rightarrow> bytes \<Rightarrow> bytes list" where
  "split_on_n c 0 s = []"
| "split_on_n c (Suc 0) s = [s]"
| "split_on_n c (Suc (Suc n)) s =
     (case cut s [c] of (a, b, found) \<Rightarrow> if found then a # split_on_n c (Suc n) b else [s])"

fun join_with :: "bytes \<Rightarrow> bytes list \<Rightarrow> bytes" where
  "join_with sep [] = []"
| "join_with sep [w] = w"
| "join_with sep (w # v # ws) = w @ sep @ join_with sep (v # ws)"

lemma split_on_nonempty [simp]: "split_on c s \<noteq> []"
  by (induction s) (auto split: list.splits)

lemma join_with_Cons: "ws \<noteq> [] \<Longrightarrow> join_with sep (w # ws) = w @ sep @ join_with sep ws"
  by (cases ws) simp_all

lemma join_split_on [simp]: "join_with [c] (split_on c s) = s"
proof (induction s)
  case (Cons x xs)
  show ?case
  proof (cases "split_on c xs")
    case (Cons w ws)
    with \<open>join_with [c] (split_on c xs) = xs\<close> show ?thesis
      by (cases ws) (auto simp: join_with_Cons)
  qed (use split_on_nonempty in blast)
qed simp

lemma split_on_no_sep: "w \<in> set (split_on c s) \<Longrightarrow> c \<notin> set w"
  by (induction s arbitrary: w) (auto split: if_splits list.splits)

lemma split_on_id: "c \<notin> set s \<Longrightarrow> split_on c s = [s]"
  by (induction s) auto

lemma split_on_append: "c \<notin> set w \<Longrightarrow> split_on c (w @ c # s) = w # split_on c s"
  by (induction w) auto

lemma split_join:
  "ws \<noteq> [] \<Longrightarrow> \<forall>w\<in>set ws. c \<notin> set w \<Longrightarrow> split_on c (join_with [c] ws) = ws"
  by (induction "[c]" ws rule: join_with.induct) (auto simp: split_on_id split_on_append)

subsection \<open>Replacing and trimming\<close>

text \<open>\<open>strings.ReplaceAll\<close> for a non-empty \<open>old\<close>: leftmost, non-overlapping.\<close>

function replace_all :: "bytes \<Rightarrow> bytes \<Rightarrow> bytes \<Rightarrow> bytes" where
  "replace_all old new [] = []"
| "replace_all old new (c # cs) =
     (if old \<noteq> [] \<and> has_prefix (c # cs) old
      then new @ replace_all old new (drop (length old) (c # cs))
      else c # replace_all old new cs)"
  by pat_completeness auto
termination
  by (relation "measure (\<lambda>(old, new, s). length s)") auto

text \<open>\<open>strings.TrimRight\<close>, \<open>TrimLeft\<close> and \<open>Trim\<close> with a cutset of single-byte characters.\<close>

definition trim_left_set :: "char set \<Rightarrow> bytes \<Rightarrow> bytes" where
  "trim_left_set cs s = dropWhile (\<lambda>c. c \<in> cs) s"

definition trim_right_set :: "char set \<Rightarrow> bytes \<Rightarrow> bytes" where
  "trim_right_set cs s = rev (dropWhile (\<lambda>c. c \<in> cs) (rev s))"

definition trim_set :: "char set \<Rightarrow> bytes \<Rightarrow> bytes" where
  "trim_set cs s = trim_right_set cs (trim_left_set cs s)"

lemma trim_right_set_snoc [simp]:
  "trim_right_set cs (s @ [c]) = (if c \<in> cs then trim_right_set cs s else s @ [c])"
  by (simp add: trim_right_set_def)

lemma trim_right_set_Nil [simp]: "trim_right_set cs [] = []"
  by (simp add: trim_right_set_def)

lemma trim_right_set_last: "trim_right_set cs s \<noteq> [] \<Longrightarrow> last (trim_right_set cs s) \<notin> cs"
  by (induction s rule: rev_induct) auto

lemma trim_right_set_id: "s = [] \<or> last s \<notin> cs \<Longrightarrow> trim_right_set cs s = s"
  by (cases s rule: rev_cases) auto

lemma trim_right_set_prefix: "\<exists>t. s = trim_right_set cs s @ t \<and> set t \<subseteq> cs"
proof (induction s rule: rev_induct)
  case (snoc c s)
  show ?case
  proof (cases "c \<in> cs")
    case True
    with snoc obtain t where "s = trim_right_set cs s @ t" "set t \<subseteq> cs" by blast
    with True have "s @ [c] = trim_right_set cs (s @ [c]) @ (t @ [c]) \<and> set (t @ [c]) \<subseteq> cs"
      by simp
    then show ?thesis by blast
  qed simp
qed simp

lemma set_trim_right_set: "set (trim_right_set cs s) \<subseteq> set s"
  by (metis set_append sup_ge1 trim_right_set_prefix)

text \<open>
  \<open>unicode.IsSpace\<close> as the UTF-8 encodings of the space characters: the six ASCII ones, U+0085,
  U+00A0, U+1680, U+2000..U+200A, U+2028, U+2029, U+202F, U+205F, U+3000. A string starts
  (ends) with a space rune exactly when it starts (ends) with one of these sequences.
\<close>

definition byte :: "nat \<Rightarrow> char" where
  "byte n = (char_of n)"

definition space_encodings :: "bytes list" where
  "space_encodings =
     map (\<lambda>n. [byte n]) [9, 10, 11, 12, 13, 32] @
     [[byte 0xC2, byte 0x85], [byte 0xC2, byte 0xA0], [byte 0xE1, byte 0x9A, byte 0x80]] @
     map (\<lambda>n. [byte 0xE2, byte 0x80, byte n]) ([0x80..<0x8B] @ [0xA8, 0xA9, 0xAF]) @
     [[byte 0xE2, byte 0x81, byte 0x9F], [byte 0xE3, byte 0x80, byte 0x80]]"

definition leading_space :: "bytes \<Rightarrow> nat option" where
  "leading_space s = map_option length (find (has_prefix s) space_encodings)"

definition trailing_space :: "bytes \<Rightarrow> nat option" where
  "trailing_space s = map_option length (find (has_suffix s) space_encodings)"

lemma space_encodings_nonempty: "e \<in> set space_encodings \<Longrightarrow> e \<noteq> []"
  by (auto simp: space_encodings_def)

lemma leading_space_bounds: "leading_space s = Some n \<Longrightarrow> 0 < n \<and> n \<le> length s"
  unfolding leading_space_def
  by (auto simp: find_Some_iff has_prefix_iff dest!: nth_mem space_encodings_nonempty)

lemma trailing_space_bounds: "trailing_space s = Some n \<Longrightarrow> 0 < n \<and> n \<le> length s"
  unfolding trailing_space_def
  by (auto simp: find_Some_iff has_suffix_def dest!: nth_mem space_encodings_nonempty)

function trim_left_space :: "bytes \<Rightarrow> bytes" where
  "trim_left_space s = (case leading_space s of None \<Rightarrow> s | Some n \<Rightarrow> trim_left_space (drop n s))"
  by pat_completeness auto
termination
  by (relation "measure length") (auto dest: leading_space_bounds)

function trim_right_space :: "bytes \<Rightarrow> bytes" where
  "trim_right_space s =
     (case trailing_space s of None \<Rightarrow> s | Some n \<Rightarrow> trim_right_space (take (length s - n) s))"
  by pat_completeness auto
termination
  by (relation "measure length") (auto dest: trailing_space_bounds)

declare trim_left_space.simps [simp del] trim_right_space.simps [simp del]

definition trim_space :: "bytes \<Rightarrow> bytes" where
  "trim_space s = trim_right_space (trim_left_space s)"

text \<open>\<open>strings.Fields\<close>: the maximal runs of non-space characters.\<close>

function fields_from :: "bytes \<Rightarrow> bytes \<Rightarrow> bytes list" where
  "fields_from acc [] = (if acc = [] then [] else [acc])"
| "fields_from acc (c # cs) =
     (case leading_space (c # cs) of
        Some n \<Rightarrow> (if acc = [] then [] else [acc]) @ fields_from [] (drop n (c # cs))
      | None \<Rightarrow> fields_from (acc @ [c]) cs)"
  by pat_completeness auto
termination
  by (relation "measure (\<lambda>(acc, s). length s)") (auto dest: leading_space_bounds)

definition str_fields :: "bytes \<Rightarrow> bytes list" where
  "str_fields = fields_from []"

lemma trailing_trim_right_space: "trailing_space (trim_right_space s) = None"
  by (induction s rule: trim_right_space.induct)
    (subst trim_right_space.simps, auto split: option.splits)

lemma trim_right_space_prefix: "\<exists>t. s = trim_right_space s @ t"
proof (induction s rule: trim_right_space.induct)
  case (1 s)
  show ?case
  proof (cases "trailing_space s")
    case None
    then show ?thesis by (simp add: trim_right_space.simps [of s])
  next
    case (Some n)
    with "1.IH" obtain t where "take (length s - n) s = trim_right_space (take (length s - n) s) @ t"
      by blast
    then have "s = trim_right_space (take (length s - n) s) @ t @ drop (length s - n) s"
      by (metis append.assoc append_take_drop_id)
    with Some show ?thesis by (auto simp: trim_right_space.simps [of s])
  qed
qed

lemma trim_left_space_suffix: "\<exists>t. s = t @ trim_left_space s"
proof (induction s rule: trim_left_space.induct)
  case (1 s)
  show ?case
  proof (cases "leading_space s")
    case None
    then show ?thesis by (simp add: trim_left_space.simps [of s])
  next
    case (Some n)
    with "1.IH" obtain t where "drop n s = t @ trim_left_space (drop n s)" by blast
    then have "s = (take n s @ t) @ trim_left_space (drop n s)"
      by (metis append.assoc append_take_drop_id)
    moreover from Some have "trim_left_space s = trim_left_space (drop n s)"
      by (simp add: trim_left_space.simps [of s])
    ultimately show ?thesis by metis
  qed
qed

lemma trim_space_infix: "\<exists>u v. s = u @ trim_space s @ v"
proof -
  obtain u where u: "s = u @ trim_left_space s" using trim_left_space_suffix by blast
  obtain v where "trim_left_space s = trim_space s @ v"
    unfolding trim_space_def using trim_right_space_prefix by blast
  with u have "s = u @ trim_space s @ v" by simp
  then show ?thesis by blast
qed

lemma set_trim_space: "set (trim_space s) \<subseteq> set s"
proof -
  obtain u v where "s = u @ trim_space s @ v" using trim_space_infix by blast
  then have "set s = set u \<union> set (trim_space s) \<union> set v" by (metis set_append Un_assoc)
  then show ?thesis by blast
qed

lemma leading_space_append_None: "leading_space (p @ q) = None \<Longrightarrow> leading_space p = None"
  by (auto simp: leading_space_def find_None_iff has_prefix_iff)

lemma leading_trim_left_space: "leading_space (trim_left_space s) = None"
  by (induction s rule: trim_left_space.induct)
    (subst trim_left_space.simps, auto split: option.splits)

lemma trim_space_idem [simp]: "trim_space (trim_space s) = trim_space s"
proof -
  obtain t where t: "trim_left_space s = trim_space s @ t"
    unfolding trim_space_def using trim_right_space_prefix by blast
  then have "leading_space (trim_space s) = None"
    using leading_trim_left_space [of s] leading_space_append_None by metis
  then have "trim_left_space (trim_space s) = trim_space s"
    by (simp add: trim_left_space.simps [of "trim_space s"])
  moreover have "trailing_space (trim_space s) = None"
    by (simp add: trim_space_def trailing_trim_right_space)
  then have "trim_right_space (trim_space s) = trim_space s"
    by (simp add: trim_right_space.simps [of "trim_space s"])
  ultimately show ?thesis by (simp add: trim_space_def)
qed

lemma hd_split_on: "hd (split_on c s) = takeWhile (\<lambda>x. x \<noteq> c) s"
  by (induction s) (auto split: list.splits)

lemma set_tl_split_on:
  "set (tl (split_on c s)) = {takeWhile (\<lambda>x. x \<noteq> c) b | a b. s = a @ c # b}"
proof (induction s)
  case (Cons x xs)
  have parts: "set (split_on c xs) = insert (takeWhile (\<lambda>x. x \<noteq> c) xs) (set (tl (split_on c xs)))"
    by (metis hd_split_on list.collapse list.simps(15) split_on_nonempty)
  show ?case
  proof (cases "x = c")
    case True
    then have "set (tl (split_on c (x # xs))) = set (split_on c xs)" by simp
    also have "\<dots> = {takeWhile (\<lambda>x. x \<noteq> c) b | a b. x # xs = a @ c # b}"
      unfolding parts Cons using True by (auto simp: Cons_eq_append_conv)
    finally show ?thesis .
  next
    case False
    then have "tl (split_on c (x # xs)) = tl (split_on c xs)"
      by (auto split: list.splits)
    with Cons False show ?thesis by (auto simp: Cons_eq_append_conv)
  qed
qed simp

subsection \<open>UTF-8\<close>

definition code :: "char \<Rightarrow> nat" where
  "code c = of_char c"

definition is_cont :: "char \<Rightarrow> bool" where
  "is_cont c \<longleftrightarrow> 0x80 \<le> code c \<and> code c \<le> 0xBF"

text \<open>\<open>utf8.RuneStart\<close>.\<close>

definition rune_start :: "char \<Rightarrow> bool" where
  "rune_start c \<longleftrightarrow> \<not> is_cont c"

text \<open>
  The width \<open>utf8.DecodeRune\<close> (and a \<open>range\<close> loop) consumes: the length of a well-formed
  sequence, 1 for an ASCII byte and for an invalid one.
\<close>

definition second_ok :: "nat \<Rightarrow> nat \<Rightarrow> bool" where
  "second_ok b0 b1 \<longleftrightarrow>
     (if b0 = 0xE0 then 0xA0 \<le> b1 \<and> b1 \<le> 0xBF
      else if b0 = 0xED then 0x80 \<le> b1 \<and> b1 \<le> 0x9F
      else if b0 = 0xF0 then 0x90 \<le> b1 \<and> b1 \<le> 0xBF
      else if b0 = 0xF4 then 0x80 \<le> b1 \<and> b1 \<le> 0x8F
      else 0x80 \<le> b1 \<and> b1 \<le> 0xBF)"

definition lead_len :: "nat \<Rightarrow> nat" where
  "lead_len b = (if 0xC2 \<le> b \<and> b \<le> 0xDF then 2 else if 0xE0 \<le> b \<and> b \<le> 0xEF then 3
     else if 0xF0 \<le> b \<and> b \<le> 0xF4 then 4 else 1)"

definition multibyte_at :: "bytes \<Rightarrow> bool" where
  "multibyte_at s = (case s of
       b0 # b1 # rest \<Rightarrow>
         let k = lead_len (code b0)
         in k > 1 \<and> second_ok (code b0) (code b1) \<and> length rest \<ge> k - 2
            \<and> list_all is_cont (take (k - 2) rest)
     | _ \<Rightarrow> False)"

definition rune_width :: "bytes \<Rightarrow> nat" where
  "rune_width s = (if multibyte_at s then lead_len (code (hd s)) else 1)"

lemma rune_width_pos [simp]: "0 < rune_width s"
  by (simp add: rune_width_def lead_len_def)

lemma rune_width_le_4: "rune_width s \<le> 4"
  by (simp add: rune_width_def lead_len_def)

lemma rune_width_le_length: "s \<noteq> [] \<Longrightarrow> rune_width s \<le> length s"
  by (auto simp: rune_width_def multibyte_at_def Let_def split: list.splits)

function utf8_valid :: "bytes \<Rightarrow> bool" where
  "utf8_valid [] = True"
| "utf8_valid (c # cs) =
     ((code c < 0x80 \<or> multibyte_at (c # cs)) \<and> utf8_valid (drop (rune_width (c # cs)) (c # cs)))"
  by pat_completeness auto
termination
proof (relation "measure length", goal_cases)
  case (2 c cs)
  show ?case using rune_width_pos [of "c # cs"] by (simp del: rune_width_pos)
qed simp

text \<open>The loop \<open>for end > 0 && !utf8.RuneStart(s[end]) { end-- }\<close>.\<close>

fun rune_floor :: "bytes \<Rightarrow> nat \<Rightarrow> nat" where
  "rune_floor s 0 = 0"
| "rune_floor s (Suc n) = (if rune_start (s ! Suc n) then Suc n else rune_floor s n)"

lemma rune_floor_le: "rune_floor s n \<le> n"
  by (induction s n rule: rune_floor.induct) auto

lemma rune_floor_start: "0 < rune_floor s n \<Longrightarrow> rune_start (s ! rune_floor s n)"
  by (induction s n rule: rune_floor.induct) (auto split: if_splits)

subsection \<open>Characters and numbers\<close>

definition is_digit :: "char \<Rightarrow> bool" where
  "is_digit c \<longleftrightarrow> 48 \<le> code c \<and> code c \<le> 57"

definition is_upper :: "char \<Rightarrow> bool" where
  "is_upper c \<longleftrightarrow> 65 \<le> code c \<and> code c \<le> 90"

definition is_lower :: "char \<Rightarrow> bool" where
  "is_lower c \<longleftrightarrow> 97 \<le> code c \<and> code c \<le> 122"

definition to_lower_char :: "char \<Rightarrow> char" where
  "to_lower_char c = (if is_upper c then byte (code c + 32) else c)"

definition to_upper_char :: "char \<Rightarrow> char" where
  "to_upper_char c = (if is_lower c then byte (code c - 32) else c)"

text \<open>ASCII case folding, as SQLite's \<open>LOWER\<close> does; bytes from 0x80 up are kept.\<close>

definition ascii_lower :: "bytes \<Rightarrow> bytes" where
  "ascii_lower = map to_lower_char"

text \<open>
  \<open>strings.ToLower\<close> as far as ASCII results are concerned: besides A-Z, exactly two runes have
  an ASCII lower case, U+212A (Kelvin sign, k) and U+0130 (i). Other non-ASCII runes keep a
  non-ASCII lower case; the callers only compare the result with ASCII words.
\<close>

definition to_lower :: "bytes \<Rightarrow> bytes" where
  "to_lower s = ascii_lower
     (replace_all [byte 0xC4, byte 0xB0] ''i'' (replace_all [byte 0xE2, byte 0x84, byte 0xAA] ''k'' s))"

text \<open>\<open>strconv.Itoa\<close> and \<open>FormatInt(_, 10)\<close>.\<close>

fun digits_of :: "nat \<Rightarrow> bytes" where
  "digits_of n = (if n < 10 then [byte (48 + n)] else digits_of (n div 10) @ [byte (48 + n mod 10)])"

declare digits_of.simps [simp del]

definition itoa :: "int \<Rightarrow> bytes" where
  "itoa i = (if i < 0 then CHR ''-'' # digits_of (nat (- i)) else digits_of (nat i))"

text \<open>Reading digits back, used to show that \<open>itoa\<close> is injective.\<close>

definition digits_val :: "bytes \<Rightarrow> nat" where
  "digits_val ds = foldl (\<lambda>a c. 10 * a + (code c - 48)) 0 ds"

lemma code_byte [simp]: "n < 256 \<Longrightarrow> code (byte n) = n"
  by (simp add: code_def byte_def)

lemma digits_val_digits_of [simp]: "digits_val (digits_of n) = n"
proof (induction n rule: digits_of.induct)
  case (1 n)
  then show ?case
    by (subst digits_of.simps) (auto simp: digits_val_def)
qed

lemma digits_of_digits: "c \<in> set (digits_of n) \<Longrightarrow> is_digit c"
proof (induction n rule: digits_of.induct)
  case (1 n)
  have "n mod 10 < 10" by simp
  with 1 show ?case
    by (subst (asm) digits_of.simps) (auto simp: is_digit_def split: if_splits)
qed

lemma digits_of_inj: "digits_of m = digits_of n \<Longrightarrow> m = n"
  by (metis digits_val_digits_of)

lemma digits_of_not_minus: "digits_of m \<noteq> CHR ''-'' # cs"
proof
  assume "digits_of m = CHR ''-'' # cs"
  then have "is_digit (CHR ''-'')" using digits_of_digits [of "CHR ''-''" m] by simp
  then show False by (simp add: is_digit_def code_def)
qed

lemma itoa_inj: "itoa i = itoa j \<Longrightarrow> i = j"
  using digits_of_not_minus digits_of_not_minus [symmetric]
  by (auto simp: itoa_def dest!: digits_of_inj split: if_splits)

lemma itoa_no_sep: "byte 0 \<notin> set (itoa i)"
proof -
  have zero: "code (byte 0) = 0" by simp
  have minus: "code (CHR ''-'') = 45" by (simp add: code_def)
  have "byte 0 \<noteq> CHR ''-''"
  proof
    assume "byte 0 = CHR ''-''"
    with zero have "code (CHR ''-'') = 0" by simp
    with minus show False by simp
  qed
  moreover have "byte 0 \<notin> set (digits_of n)" for n
    using digits_of_digits [of "byte 0" n] zero by (auto simp: is_digit_def)
  ultimately show ?thesis by (simp add: itoa_def)
qed

subsection \<open>Paths\<close>

text \<open>
  \<open>filepath.Clean\<close> on Unix: drop empty and \<open>.\<close> elements, let \<open>..\<close> remove the element before
  it, keep a leading \<open>..\<close> only in a relative path.
\<close>

definition dot :: bytes where
  "dot = ''.''"

definition dotdot :: bytes where
  "dotdot = ''..''"

fun clean_step :: "bool \<Rightarrow> bytes list \<Rightarrow> bytes list \<Rightarrow> bytes list" where
  "clean_step rooted out [] = rev out"
| "clean_step rooted out (p # ps) =
     (if p = [] \<or> p = dot then clean_step rooted out ps
      else if p = dotdot then
        (case out of
           [] \<Rightarrow> clean_step rooted (if rooted then [] else [dotdot]) ps
         | q # qs \<Rightarrow> if q = dotdot then clean_step rooted (dotdot # out) ps
                   else clean_step rooted qs ps)
      else clean_step rooted (p # out) ps)"

definition is_abs :: "bytes \<Rightarrow> bool" where
  "is_abs p = has_prefix p ''/''"

definition clean :: "bytes \<Rightarrow> bytes" where
  "clean p =
     (let parts = clean_step (is_abs p) [] (split_on (CHR ''/'') p)
      in if is_abs p then CHR ''/'' # join_with ''/'' parts
         else if parts = [] then dot else join_with ''/'' parts)"

text \<open>Everything up to and including the last \<open>/\<close>, and what follows it.\<close>

definition dir_part :: "bytes \<Rightarrow> bytes" where
  "dir_part p = rev (dropWhile (\<lambda>c. c \<noteq> CHR ''/'') (rev p))"

definition file_part :: "bytes \<Rightarrow> bytes" where
  "file_part p = rev (takeWhile (\<lambda>c. c \<noteq> CHR ''/'') (rev p))"

definition path_dir :: "bytes \<Rightarrow> bytes" where
  "path_dir p = clean (dir_part p)"

text \<open>\<open>filepath.Ext\<close>: from the last dot of the last element.\<close>

definition path_ext :: "bytes \<Rightarrow> bytes" where
  "path_ext p =
     (let f = file_part p
      in if CHR ''.'' \<in> set f
         then CHR ''.'' # rev (takeWhile (\<lambda>c. c \<noteq> CHR ''.'') (rev f)) else [])"

text \<open>
  \<open>filepath.Rel(base, target)\<close> for two absolute paths (the only use in the modelled code that
  succeeds on other inputs is two relative ones, treated alike): drop the common leading
  elements, go up once per remaining element of the base. None is Go's error.
\<close>

fun drop_common :: "bytes list \<Rightarrow> bytes list \<Rightarrow> bytes list \<times> bytes list" where
  "drop_common (x # xs) (y # ys) = (if x = y then drop_common xs ys else (x # xs, y # ys))"
| "drop_common xs ys = (xs, ys)"

definition path_elems :: "bytes \<Rightarrow> bytes list" where
  "path_elems p = clean_step (is_abs p) [] (split_on (CHR ''/'') p)"

definition path_rel :: "bytes \<Rightarrow> bytes \<Rightarrow> bytes option" where
  "path_rel base targ =
     (if is_abs base \<noteq> is_abs targ then None
      else (case drop_common (path_elems base) (path_elems targ) of (b, t) \<Rightarrow>
        if dotdot \<in> set b then None
        else if b = [] \<and> t = [] then Some dot
        else Some (join_with ''/'' (replicate (length b) dotdot @ t))))"

lemma clean_step_no_empty:
  "\<forall>q\<in>set out. q \<noteq> [] \<and> q \<noteq> dot \<Longrightarrow> q \<in> set (clean_step r out ps) \<Longrightarrow> q \<noteq> [] \<and> q \<noteq> dot"
proof (induction r out ps rule: clean_step.induct)
  case (2 rooted out p ps)
  then show ?case
    by (auto simp: dot_def dotdot_def split: if_splits list.splits)
qed auto

lemma drop_common_append: "drop_common (xs @ ys) (xs @ zs) = drop_common ys zs"
  by (induction xs) auto

lemma drop_common_prefix [simp]: "drop_common xs (xs @ zs) = ([], zs)"
  using drop_common_append [of xs "[]" zs] by simp

end
