(* ===== verification/Store.thy ===== *)
theory Store
  imports Go_Strings
begin

text \<open>
  The SQLite schema (\<open>migrations/*.sql\<close>) as a record of tables, and transactions
  (\<open>pkg/store/db.go\<close>). A table is the list of its rows in rowid order. The column value NULL of
  \<open>parent_id\<close> is the empty string, as \<open>parentIDParam\<close> and \<open>scanNode\<close> convert it. The record also
  holds the autoincrement counters, the clock that \<open>unixepoch()\<close> reads, and the flag of
  \<open>PRAGMA defer_foreign_keys\<close>, which lasts until the transaction ends.
\<close>

record node =
  n_id :: node_id
  n_parent :: node_id
  n_source :: bytes
  n_type :: bytes
  n_depth :: int
  n_label :: bytes
  n_content :: bytes
  n_format :: bytes
  n_tokens :: int
  n_hash :: bytes
  n_temp :: real
  n_access :: int
  n_last :: "int option"
  n_created :: int
  n_updated :: int
  n_pinned :: bool
  n_seed_pinned :: bool
  n_seed_temp :: "real option"

record snapshot =
  s_id :: int
  s_cursor :: bytes
  s_parent :: "int option"
  s_message :: bytes
  s_root :: bytes
  s_created :: int

record diff_row =
  r_snap :: int
  r_node :: node_id
  r_op :: bytes
  r_old_hash :: bytes
  r_new_hash :: bytes
  r_old_content :: bytes
  r_new_content :: bytes
  r_old_parent :: "bytes option"
  r_old_source :: "bytes option"
  r_old_type :: "bytes option"
  r_old_depth :: "int option"
  r_old_label :: "bytes option"
  r_old_format :: "bytes option"
  r_old_tokens :: "int option"

record relation =
  l_id :: int
  l_source :: node_id
  l_target :: node_id
  l_weight :: real
  l_origin :: bytes
  l_created :: int

record pending_relation =
  p_id :: int
  p_source :: node_id
  p_label :: bytes
  p_file :: bytes
  p_hint :: bytes
  p_weight :: real
  p_origin :: bytes
  p_created :: int

record db =
  db_nodes :: "node list"
  db_snapshots :: "snapshot list"
  db_diffs :: "diff_row list"
  db_head :: "int option"
  db_relations :: "relation list"
  db_pending :: "pending_relation list"
  db_next_snapshot :: int
  db_next_relation :: int
  db_next_pending :: int
  db_now :: int
  db_defer :: bool

definition empty_db :: db where
  "empty_db = \<lparr>db_nodes = [], db_snapshots = [], db_diffs = [], db_head = None,
     db_relations = [], db_pending = [], db_next_snapshot = 1, db_next_relation = 1,
     db_next_pending = 1, db_now = 0, db_defer = False\<rparr>"

definition node_ids :: "db \<Rightarrow> node_id list" where
  "node_ids db = map n_id (db_nodes db)"

definition snapshot_ids :: "db \<Rightarrow> int list" where
  "snapshot_ids db = map s_id (db_snapshots db)"

subsection \<open>Referential integrity\<close>

text \<open>The foreign keys of the schema, one per \<open>REFERENCES\<close> clause.\<close>

definition parents_ok :: "db \<Rightarrow> bool" where
  "parents_ok db = list_all (\<lambda>n. n_parent n = [] \<or> n_parent n \<in> set (node_ids db)) (db_nodes db)"

definition snapshots_ok :: "db \<Rightarrow> bool" where
  "snapshots_ok db =
     (list_all (\<lambda>s. case s_parent s of None \<Rightarrow> True | Some p \<Rightarrow> p \<in> set (snapshot_ids db))
        (db_snapshots db)
      \<and> list_all (\<lambda>d. r_snap d \<in> set (snapshot_ids db)) (db_diffs db)
      \<and> (case db_head db of None \<Rightarrow> True | Some h \<Rightarrow> h \<in> set (snapshot_ids db)))"

definition edges_ok :: "db \<Rightarrow> bool" where
  "edges_ok db =
     (list_all (\<lambda>r. l_source r \<in> set (node_ids db) \<and> l_target r \<in> set (node_ids db)) (db_relations db)
      \<and> list_all (\<lambda>p. p_source p \<in> set (node_ids db)) (db_pending db))"

definition fk_ok :: "db \<Rightarrow> bool" where
  "fk_ok db = (parents_ok db \<and> snapshots_ok db \<and> edges_ok db)"

text \<open>The keys of the schema: primary keys, and the UNIQUE clauses on the cursor hash and on edges.\<close>

definition keys_ok :: "db \<Rightarrow> bool" where
  "keys_ok db =
     (distinct (node_ids db) \<and> distinct (snapshot_ids db)
      \<and> distinct (map s_cursor (db_snapshots db))
      \<and> distinct (map (\<lambda>r. (l_source r, l_target r, l_origin r)) (db_relations db))
      \<and> list_all (\<lambda>s. s_id s < db_next_snapshot db) (db_snapshots db))"

definition db_ok :: "db \<Rightarrow> bool" where
  "db_ok db = (keys_ok db \<and> fk_ok db)"

lemma defer_ids [simp]:
  "node_ids (db\<lparr>db_defer := b\<rparr>) = node_ids db" "snapshot_ids (db\<lparr>db_defer := b\<rparr>) = snapshot_ids db"
  by (simp_all add: node_ids_def snapshot_ids_def)

lemma defer_ok [simp]:
  "parents_ok (db\<lparr>db_defer := b\<rparr>) = parents_ok db" "edges_ok (db\<lparr>db_defer := b\<rparr>) = edges_ok db"
  "snapshots_ok (db\<lparr>db_defer := b\<rparr>) = snapshots_ok db" "keys_ok (db\<lparr>db_defer := b\<rparr>) = keys_ok db"
  by (simp_all add: parents_ok_def edges_ok_def snapshots_ok_def keys_ok_def cong: option.case_cong)

lemma db_ok_defer [simp]: "db_ok (db\<lparr>db_defer := b\<rparr>) = db_ok db" "fk_ok (db\<lparr>db_defer := b\<rparr>) = fk_ok db"
  by (simp_all add: db_ok_def fk_ok_def)

subsection \<open>Transactions\<close>

text \<open>
  A transaction body reads and writes the tables and may fail. \<open>run_tx\<close> commits when the body
  succeeds and no deferred foreign key is violated, and rolls back otherwise.
\<close>

type_synonym 'a tx = "db \<Rightarrow> ('a \<times> db) result"

definition run_tx :: "'a tx \<Rightarrow> db \<Rightarrow> 'a result \<times> db" where
  "run_tx fn db =
     (case fn db of
        Inl e \<Rightarrow> (Inl e, db)
      | Inr (x, db') \<Rightarrow>
          if fk_ok db' then (Inr x, db'\<lparr>db_defer := False\<rparr>) else (Inl ForeignKey, db))"

definition is_busy :: "error \<Rightarrow> bool" where
  "is_busy e = (case e of Busy \<Rightarrow> True
     | Failure msg \<Rightarrow> str_contains msg ''SQLITE_BUSY'' \<or> str_contains msg ''database is locked''
     | _ \<Rightarrow> False)"

definition max_attempts :: nat where
  "max_attempts = 6"

text \<open>
  \<open>Store.Tx\<close>. What the environment does to each attempt is a parameter: \<open>fault k\<close> is the error
  the driver raises on attempt \<open>k\<close> (at begin, in the body or at commit, the transaction being
  rolled back), \<open>awake k\<close> tells whether the backoff sleep after it ran to its end.
\<close>

definition attempt_tx :: "(nat \<Rightarrow> error option) \<Rightarrow> nat \<Rightarrow> 'a tx \<Rightarrow> db \<Rightarrow> 'a result \<times> db" where
  "attempt_tx fault k fn db = (case fault k of Some e \<Rightarrow> (Inl e, db) | None \<Rightarrow> run_tx fn db)"

function tx_loop :: "(nat \<Rightarrow> error option) \<Rightarrow> (nat \<Rightarrow> bool) \<Rightarrow> 'a tx \<Rightarrow> nat \<Rightarrow> db
    \<Rightarrow> 'a result \<times> db \<times> nat" where
  "tx_loop fault awake fn k db =
     (case attempt_tx fault k fn db of
        (Inr x, db') \<Rightarrow> (Inr x, db', Suc k)
      | (Inl e, db') \<Rightarrow>
          if max_attempts - 1 \<le> k \<or> \<not> is_busy e then (Inl e, db', Suc k)
          else if awake k then tx_loop fault awake fn (Suc k) db'
          else (Inl Cancelled, db', Suc k))"
  by pat_completeness auto

termination
  by (relation "measure (\<lambda>(fault, awake, fn, k, db). max_attempts - k)")
    (auto simp: max_attempts_def)

definition store_tx :: "(nat \<Rightarrow> error option) \<Rightarrow> (nat \<Rightarrow> bool) \<Rightarrow> 'a tx \<Rightarrow> db
    \<Rightarrow> 'a result \<times> db \<times> nat" where
  "store_tx fault awake fn db = tx_loop fault awake fn 0 db"

declare tx_loop.simps [simp del]

lemma run_tx_Inl: "run_tx fn db = (Inl e, db') \<Longrightarrow> db' = db"
  by (auto simp: run_tx_def split: sum.splits if_splits)

lemma attempt_tx_Inl: "attempt_tx fault k fn db = (Inl e, db') \<Longrightarrow> db' = db"
  by (auto simp: attempt_tx_def dest: run_tx_Inl split: option.splits)

lemma tx_loop_result:
  "tx_loop fault awake fn k db = (r, db', n) \<Longrightarrow> k \<le> max_attempts - 1 \<Longrightarrow>
     n \<le> max_attempts \<and>
     (case r of Inl e \<Rightarrow> db' = db
      | Inr x \<Rightarrow> \<exists>db''. fn db = Inr (x, db'') \<and> fk_ok db'' \<and> db' = db''\<lparr>db_defer := False\<rparr>)"
proof (induction fault awake fn k db rule: tx_loop.induct)
  case (1 fault awake fn k db)
  obtain q db1 where a: "attempt_tx fault k fn db = (q, db1)" by fastforce
  show ?case
  proof (cases q)
    case (Inl e)
    with a have db1: "db1 = db" using attempt_tx_Inl by blast
    show ?thesis
    proof (cases "max_attempts - 1 \<le> k \<or> \<not> is_busy e \<or> \<not> awake k")
      case True
      with "1.prems" a Inl db1 show ?thesis
        by (subst (asm) tx_loop.simps) (auto simp: max_attempts_def split: if_splits)
    next
      case False
      with "1.prems"(1) a Inl db1 have "tx_loop fault awake fn (Suc k) db = (r, db', n)"
        by (subst (asm) tx_loop.simps) auto
      with "1.IH" [of q db1 e] a Inl db1 False show ?thesis by auto
    qed
  next
    case (Inr x)
    with "1.prems" a show ?thesis
      by (subst (asm) tx_loop.simps)
        (auto simp: attempt_tx_def run_tx_def max_attempts_def
          split: option.splits sum.splits if_splits prod.splits)
  qed
qed

lemma store_tx_no_fault:
  assumes "fn db = Inr (x, db')" "fk_ok db'"
  shows "store_tx (\<lambda>_. None) awake fn db = (Inr x, db'\<lparr>db_defer := False\<rparr>, 1)"
  by (simp add: store_tx_def tx_loop.simps [of _ _ _ 0] attempt_tx_def run_tx_def assms)


end
