(* ===== verification/Store_Nodes.thy ===== *)
theory Store_Nodes
  imports Store
begin

text \<open>
  The nodes table (\<open>pkg/store/node.go\<close> with its queries in \<open>queries.go\<close>): upsert, the three ways
  of deleting, and the tree queries. Deletion follows the schema row by row: the BEFORE DELETE
  trigger turns the edges into a row into pending relations, the row goes, and ON DELETE CASCADE
  removes its relations, its pending relations and its children.
\<close>

datatype delete_mode = DeleteStrict | DeleteCascade | DeleteReparent

definition delete_mode_string :: "delete_mode \<Rightarrow> bytes" where
  "delete_mode_string m = (case m of DeleteStrict \<Rightarrow> ''strict'' | DeleteCascade \<Rightarrow> ''cascade''
     | DeleteReparent \<Rightarrow> ''reparent'')"

definition parse_delete_mode :: "bytes \<Rightarrow> delete_mode result" where
  "parse_delete_mode s =
     (if s = '''' \<or> s = ''strict'' then Inr DeleteStrict
      else if s = ''cascade'' then Inr DeleteCascade
      else if s = ''reparent'' then Inr DeleteReparent
      else Inl (Failure ''unknown delete mode''))"

lemma parse_delete_mode_string: "parse_delete_mode (delete_mode_string m) = Inr m"
  by (cases m) (simp_all add: parse_delete_mode_def delete_mode_string_def)

subsection \<open>Reading rows\<close>

definition node_at :: "db \<Rightarrow> node_id \<Rightarrow> node option" where
  "node_at db i = lookup_by n_id i (db_nodes db)"

definition get_node :: "db \<Rightarrow> node_id \<Rightarrow> node result" where
  "get_node db i = (case node_at db i of None \<Rightarrow> Inl NoRows | Some n \<Rightarrow> Inr n)"

definition nodes_by_file :: "db \<Rightarrow> bytes \<Rightarrow> node list" where
  "nodes_by_file db path = filter (\<lambda>n. n_source n = path) (db_nodes db)"

definition nodes_by_files :: "db \<Rightarrow> bytes list \<Rightarrow> node list" where
  "nodes_by_files db paths =
     (if paths = [] then [] else filter (\<lambda>n. n_source n \<in> set paths) (db_nodes db))"

definition nodes_by_ids :: "db \<Rightarrow> node_id list \<Rightarrow> node list" where
  "nodes_by_ids db is =
     (if is = [] then [] else filter (\<lambda>n. n_id n \<in> set is) (db_nodes db))"

text \<open>The snapshot of the most recent diff of a node, if it has one.\<close>

definition latest_snap :: "db \<Rightarrow> node_id \<Rightarrow> int option" where
  "latest_snap db i = (case map r_snap (filter (\<lambda>d. r_node d = i) (db_diffs db)) of
      [] \<Rightarrow> None | s # ss \<Rightarrow> Some (fold max ss s))"

definition nodes_by_compile_root :: "db \<Rightarrow> bytes \<Rightarrow> node list" where
  "nodes_by_compile_root db croot = filter (\<lambda>n.
     case latest_snap db (n_id n) of None \<Rightarrow> False
     | Some sid \<Rightarrow> (case lookup_by s_id sid (db_snapshots db) of
         None \<Rightarrow> False | Some s \<Rightarrow> s_root s = croot)) (db_nodes db)"

definition children_of :: "db \<Rightarrow> node_id \<Rightarrow> node list" where
  "children_of db i = (if i = [] then [] else filter (\<lambda>n. n_parent n = i) (db_nodes db))"

definition child_ids :: "db \<Rightarrow> node_id \<Rightarrow> node_id list" where
  "child_ids db i = sort (map n_id (children_of db i))"

text \<open>
  The recursive queries. SQLite evaluates a UNION ALL recursion until no new row appears, so on
  cyclic parents the unbounded ones would not end; the model gives them as many rounds as there
  are rows and answers \<open>None\<close> when they would need more (\<open>ancestors_total\<close> and
  \<open>descendants_total\<close> show this does not happen for acyclic parents).
\<close>

fun ancestors_from :: "db \<Rightarrow> nat \<Rightarrow> node_id \<Rightarrow> node list option" where
  "ancestors_from db k i =
     (case node_at db i of
        None \<Rightarrow> Some []
      | Some n \<Rightarrow>
          (case k of
             0 \<Rightarrow> None
           | Suc k' \<Rightarrow> if n_parent n = [] then Some [n]
                      else map_option ((#) n) (ancestors_from db k' (n_parent n))))"

definition get_ancestors :: "db \<Rightarrow> node_id \<Rightarrow> node list option" where
  "get_ancestors db i = ancestors_from db (length (db_nodes db)) i"

definition next_level :: "db \<Rightarrow> node_id list \<Rightarrow> node_id list" where
  "next_level db is = concat (map (\<lambda>i. map n_id (children_of db i)) is)"

fun levels :: "db \<Rightarrow> nat \<Rightarrow> node_id list \<Rightarrow> node_id list list" where
  "levels db 0 is = []"
| "levels db (Suc k) is = is # levels db k (next_level db is)"

definition get_descendants :: "db \<Rightarrow> node_id \<Rightarrow> int \<Rightarrow> node list" where
  "get_descendants db i max_depth =
     nodes_by_ids db (concat (levels db (nat (max 1 max_depth)) (next_level db [i])))"

definition descendant_ids :: "db \<Rightarrow> node_id \<Rightarrow> node_id list option" where
  "descendant_ids db i =
     (let ls = levels db (Suc (length (db_nodes db))) (next_level db [i])
      in if last ls = [] then Some (sort (concat ls)) else None)"

definition get_siblings :: "db \<Rightarrow> node_id \<Rightarrow> node list" where
  "get_siblings db i =
     (case node_at db i of
        None \<Rightarrow> []
      | Some n \<Rightarrow> filter (\<lambda>m. n_id m \<noteq> i) (children_of db (n_parent n)))"

definition order_nodes :: "node list \<Rightarrow> node list" where
  "order_nodes ns = sort_key n_source (sort_key n_depth ns)"

definition get_root_nodes :: "db \<Rightarrow> node list" where
  "get_root_nodes db = order_nodes (filter (\<lambda>n. n_parent n = []) (db_nodes db))"

definition get_all_nodes :: "db \<Rightarrow> node list" where
  "get_all_nodes db = order_nodes (db_nodes db)"

definition build_tree :: "node list \<Rightarrow> node list \<times> (node_id \<Rightarrow> node list)" where
  "build_tree ns = (filter (\<lambda>n. n_parent n = []) ns,
     \<lambda>i. if i = [] then [] else filter (\<lambda>n. n_parent n = i) ns)"

record file_summary =
  fs_path :: bytes
  fs_nodes :: int
  fs_tokens :: int
  fs_root :: bytes

text \<open>The latest snapshot among all diffs of all nodes of one file.\<close>

definition file_latest :: "db \<Rightarrow> bytes \<Rightarrow> int option" where
  "file_latest db path =
     (case concat (map (\<lambda>n. case latest_snap db (n_id n) of None \<Rightarrow> [] | Some s \<Rightarrow> [s])
        (nodes_by_file db path)) of [] \<Rightarrow> None | s # ss \<Rightarrow> Some (fold max ss s))"

definition file_root :: "db \<Rightarrow> bytes \<Rightarrow> bytes option" where
  "file_root db path = (case file_latest db path of None \<Rightarrow> None
     | Some sid \<Rightarrow> map_option s_root (lookup_by s_id sid (db_snapshots db)))"

definition file_summary_of :: "db \<Rightarrow> bytes \<Rightarrow> file_summary" where
  "file_summary_of db path =
     \<lparr>fs_path = path, fs_nodes = int (length (nodes_by_file db path)),
      fs_tokens = sum_list (map n_tokens (nodes_by_file db path)),
      fs_root = (case file_root db path of None \<Rightarrow> [] | Some r \<Rightarrow> r)\<rparr>"

text \<open>Ordered by root and then by path; SQLite orders the NULL root of a file without diffs first.\<close>

definition list_file_summaries :: "db \<Rightarrow> file_summary list" where
  "list_file_summaries db =
     map (file_summary_of db)
       (sort_key (\<lambda>path. file_root db path \<noteq> None)
         (sort_key (\<lambda>path. case file_root db path of None \<Rightarrow> [] | Some r \<Rightarrow> r)
           (sort (remdups (map n_source (db_nodes db))))))"

subsection \<open>Upsert\<close>

definition inserted_row :: "db \<Rightarrow> node \<Rightarrow> node" where
  "inserted_row db n = n\<lparr>
     n_temp := (case n_seed_temp n of Some t \<Rightarrow> t | None \<Rightarrow> 1 / 2),
     n_access := 0, n_last := None, n_created := db_now db, n_updated := db_now db,
     n_pinned := n_seed_pinned n, n_seed_pinned := False, n_seed_temp := None\<rparr>"

definition updated_row :: "db \<Rightarrow> node \<Rightarrow> node \<Rightarrow> node" where
  "updated_row db n old = (inserted_row db n)\<lparr>
     n_temp := (case n_seed_temp n of Some t \<Rightarrow> t | None \<Rightarrow> n_temp old),
     n_access := n_access old, n_last := n_last old, n_created := n_created old,
     n_pinned := n_pinned old\<rparr>"

definition put_row :: "node \<Rightarrow> db \<Rightarrow> db" where
  "put_row n db = db\<lparr>db_nodes :=
     (if n_id n \<in> set (node_ids db)
      then map (\<lambda>old. if n_id old = n_id n then updated_row db n old else old) (db_nodes db)
      else db_nodes db @ [inserted_row db n])\<rparr>"

definition upsert_node :: "node \<Rightarrow> db \<Rightarrow> db result" where
  "upsert_node n db =
     (let db' = put_row n db in
      if db_defer db \<or> n_parent n = [] \<or> n_parent n \<in> set (node_ids db') then Inr db'
      else Inl ForeignKey)"

subsection \<open>Delete\<close>

definition repend :: "db \<Rightarrow> node \<Rightarrow> pending_relation list" where
  "repend db old = map (\<lambda>(k, r).
       \<lparr>p_id = db_next_pending db + int k, p_source = l_source r, p_label = n_label old,
        p_file = n_source old, p_hint = [], p_weight = l_weight r, p_origin = l_origin r,
        p_created = db_now db\<rparr>)
     (enumerate 0 (filter (\<lambda>r. l_target r = n_id old) (db_relations db)))"

definition delete_row :: "node \<Rightarrow> db \<Rightarrow> db" where
  "delete_row old db = db\<lparr>
     db_nodes := filter (\<lambda>n. n_id n \<noteq> n_id old) (db_nodes db),
     db_relations := filter (\<lambda>r. l_source r \<noteq> n_id old \<and> l_target r \<noteq> n_id old) (db_relations db),
     db_pending := filter (\<lambda>p. p_source p \<noteq> n_id old) (db_pending db @ repend db old),
     db_next_pending := db_next_pending db + int (length (repend db old))\<rparr>"

lemma node_at_SomeD: "node_at db i = Some n \<Longrightarrow> n \<in> set (db_nodes db) \<and> n_id n = i"
  unfolding node_at_def by (rule lookup_by_SomeD)

lemma node_at_None_iff: "node_at db i = None \<longleftrightarrow> i \<notin> set (node_ids db)"
  by (simp add: node_at_def node_ids_def lookup_by_None_iff)

lemma node_at_Some_iff: "(\<exists>n. node_at db i = Some n) \<longleftrightarrow> i \<in> set (node_ids db)"
  using node_at_None_iff [of db i] by (cases "node_at db i") auto

function delete_rows :: "node_id list \<Rightarrow> db \<Rightarrow> db" where
  "delete_rows [] db = db"
| "delete_rows (i # is) db =
     (case node_at db i of
        None \<Rightarrow> delete_rows is db
      | Some old \<Rightarrow> delete_rows (map n_id (children_of db i) @ is) (delete_row old db))"
  by pat_completeness auto

termination
proof (relation "measures [\<lambda>(is, db). length (db_nodes db), \<lambda>(is, db). length is]", goal_cases)
  case (3 i "is" db old)
  then have "length (filter (\<lambda>n. n_id n \<noteq> n_id old) (db_nodes db)) < length (db_nodes db)"
    by (auto simp: length_filter_less_iff dest: node_at_SomeD)
  then show ?case by (simp add: delete_row_def)
qed simp_all

definition delete_node :: "node_id \<Rightarrow> db \<Rightarrow> db" where
  "delete_node i db = delete_rows [i] db"

definition delete_nodes_by_files :: "bytes list \<Rightarrow> db \<Rightarrow> db" where
  "delete_nodes_by_files paths db =
     (if paths = [] then db else delete_rows (map n_id (nodes_by_files db paths)) db)"

definition reparent_children :: "node_id \<Rightarrow> node_id \<Rightarrow> db \<Rightarrow> db" where
  "reparent_children new_parent i db = db\<lparr>db_nodes := map (\<lambda>n.
     if n_parent n = i \<and> i \<noteq> [] then n\<lparr>n_parent := new_parent, n_updated := db_now db\<rparr> else n)
     (db_nodes db)\<rparr>"

definition delete_node_tx :: "node_id \<Rightarrow> delete_mode \<Rightarrow> node_id list tx" where
  "delete_node_tx i mode db =
     (case node_at db i of
        None \<Rightarrow> Inl (Failure ''node not found'')
      | Some n \<Rightarrow>
          let kids = child_ids db i in
          (case mode of
             DeleteStrict \<Rightarrow>
               if kids \<noteq> [] then Inl (Failure ''node has children; pass mode=cascade or mode=reparent'')
               else Inr ([i], delete_node i db)
           | DeleteCascade \<Rightarrow>
               (case descendant_ids db i of
                  None \<Rightarrow> Inl (Failure ''failed to load: descendants'')
                | Some ds \<Rightarrow> Inr (i # ds, delete_node i db))
           | DeleteReparent \<Rightarrow>
               Inr (i # kids, delete_node i (reparent_children (n_parent n) i db))))"


subsection \<open>What upsert does\<close>

lemma ids_updated [simp]:
  "n_id (inserted_row db n) = n_id n" "n_id (updated_row db n old) = n_id n"
  "n_parent (inserted_row db n) = n_parent n" "n_parent (updated_row db n old) = n_parent n"
  by (simp_all add: inserted_row_def updated_row_def)

lemma node_ids_put_row:
  "node_ids (put_row n db) =
     (if n_id n \<in> set (node_ids db) then node_ids db else node_ids db @ [n_id n])"
  by (auto simp: put_row_def node_ids_def)

lemma node_at_put_row [view_simps]:
  "node_at (put_row n db) i =
     (if i = n_id n then
        Some (case node_at db i of None \<Rightarrow> inserted_row db n | Some old \<Rightarrow> updated_row db n old)
      else node_at db i)"
proof (cases "node_at db (n_id n)")
  case None
  then have "db_nodes (put_row n db) = db_nodes db @ [inserted_row db n]"
    by (simp add: put_row_def node_at_None_iff)
  with None show ?thesis
    by (cases "lookup_by n_id i (db_nodes db)") (auto simp: node_at_def lookup_by_append)
next
  case (Some old)
  then have "n_id n \<in> set (node_ids db)" by (metis node_at_Some_iff)
  then have "db_nodes (put_row n db) =
      map (\<lambda>old. if n_id old = n_id n then updated_row db n old else old) (db_nodes db)"
    by (simp add: put_row_def)
  with Some show ?thesis
    using lookup_by_update [of n_id "n_id n" "updated_row db n" i "db_nodes db"]
    by (simp add: node_at_def)
qed

lemma put_row_frame [frame_simps]:
  "db_snapshots (put_row n db) = db_snapshots db"
  "db_diffs (put_row n db) = db_diffs db"
  "db_head (put_row n db) = db_head db"
  "db_relations (put_row n db) = db_relations db"
  "db_pending (put_row n db) = db_pending db"
  "db_next_snapshot (put_row n db) = db_next_snapshot db"
  "db_now (put_row n db) = db_now db"
  "db_defer (put_row n db) = db_defer db"
  by (simp_all add: put_row_def)

lemma upsert_node_Inr: "upsert_node n db = Inr db' \<Longrightarrow> db' = put_row n db"
  by (auto simp: upsert_node_def Let_def split: if_splits)

lemma parents_ok_alt:
  "parents_ok db \<longleftrightarrow> (\<forall>n\<in>set (db_nodes db). n_parent n = [] \<or> n_parent n \<in> set (node_ids db))"
  by (simp add: parents_ok_def list_all_iff)

lemma set_db_nodes_put_row:
  "set (db_nodes (put_row n db)) \<subseteq> {inserted_row db n} \<union> range (updated_row db n) \<union> set (db_nodes db)"
  by (auto simp: put_row_def)

lemma parents_ok_put_row:
  assumes "parents_ok db" "n_parent n = [] \<or> n_parent n \<in> set (node_ids (put_row n db))"
  shows "parents_ok (put_row n db)"
  unfolding parents_ok_alt
proof
  fix m assume "m \<in> set (db_nodes (put_row n db))"
  then consider "n_parent m = n_parent n" | "m \<in> set (db_nodes db)"
    using set_db_nodes_put_row [of n db] by (auto dest: subsetD)
  then show "n_parent m = [] \<or> n_parent m \<in> set (node_ids (put_row n db))"
    by cases (use assms in \<open>auto simp: parents_ok_alt node_ids_put_row\<close>)
qed

lemma edges_ok_mono:
  assumes "edges_ok db" "set (node_ids db) \<subseteq> set (node_ids db')"
    "db_relations db' = db_relations db" "db_pending db' = db_pending db"
  shows "edges_ok db'"
  using assms by (auto simp: edges_ok_def list_all_iff)

lemma snapshots_ok_frame:
  "\<lbrakk>db_snapshots db' = db_snapshots db; db_diffs db' = db_diffs db; db_head db' = db_head db\<rbrakk>
    \<Longrightarrow> snapshots_ok db' = snapshots_ok db"
proof -
  assume f: "db_snapshots db' = db_snapshots db" "db_diffs db' = db_diffs db" "db_head db' = db_head db"
  then have "snapshot_ids db' = snapshot_ids db" by (simp add: snapshot_ids_def)
  with f show ?thesis by (simp only: snapshots_ok_def)
qed

lemma keys_ok_put_row [simp]: "keys_ok db \<Longrightarrow> keys_ok (put_row n db)"
  by (auto simp: keys_ok_def node_ids_put_row snapshot_ids_def frame_simps)

lemma edges_ok_put_row [simp]: "edges_ok db \<Longrightarrow> edges_ok (put_row n db)"
  by (erule edges_ok_mono) (auto simp: node_ids_put_row frame_simps)

lemma snapshots_ok_put_row [simp]: "snapshots_ok (put_row n db) = snapshots_ok db"
  by (rule snapshots_ok_frame) (simp_all add: frame_simps)

lemma upsert_node_ok:
  assumes "db_ok db" "\<not> db_defer db" "upsert_node n db = Inr db'"
  shows "db_ok db'"
  using assms by (auto simp: upsert_node_def Let_def db_ok_def fk_ok_def parents_ok_put_row split: if_splits)

text \<open>C9:
  An upsert writes exactly one row. The row gets the node's place, text, hash and token count; a new
  row starts at the seed temperature or 0.5 and is pinned when the seed says so, while an existing
  row keeps its access statistics, its creation time and its pin, and its temperature unless the
  caller seeds one. Every other row is untouched, all constraints of the schema keep holding, and
  the upsert fails only when the parent does not exist.
\<close>

theorem upsert_node_effect:
  assumes "db_ok db" "\<not> db_defer db"
  shows "case upsert_node n db of
      Inl e \<Rightarrow> e = ForeignKey \<and> n_parent n \<noteq> [] \<and> n_parent n \<noteq> n_id n \<and> node_at db (n_parent n) = None
    | Inr db' \<Rightarrow> db_ok db' \<and>
       (\<forall>i. node_at db' i = (if i \<noteq> n_id n then node_at db i
          else Some (n\<lparr>n_seed_pinned := False, n_seed_temp := None, n_updated := db_now db,
             n_temp := (case n_seed_temp n of Some t \<Rightarrow> t
               | None \<Rightarrow> (case node_at db i of None \<Rightarrow> 1 / 2 | Some old \<Rightarrow> n_temp old)),
             n_access := (case node_at db i of None \<Rightarrow> 0 | Some old \<Rightarrow> n_access old),
             n_last := (case node_at db i of None \<Rightarrow> None | Some old \<Rightarrow> n_last old),
             n_created := (case node_at db i of None \<Rightarrow> db_now db | Some old \<Rightarrow> n_created old),
             n_pinned := (case node_at db i of None \<Rightarrow> n_seed_pinned n | Some old \<Rightarrow> n_pinned old)\<rparr>)))"
proof (cases "upsert_node n db")
  case (Inl e)
  then show ?thesis
    by (auto simp: upsert_node_def Let_def node_ids_put_row node_at_None_iff split: if_splits)
next
  case (Inr db')
  then have "db_ok db'" using upsert_node_ok assms by blast
  moreover from Inr have "db' = put_row n db" by (rule upsert_node_Inr)
  ultimately show ?thesis
    using Inr by (auto simp: view_simps inserted_row_def updated_row_def split: option.splits)
qed

definition blank_node :: "node_id \<Rightarrow> node_id \<Rightarrow> bytes \<Rightarrow> node" where
  "blank_node i p c = \<lparr>n_id = i, n_parent = p, n_source = ''a.md'', n_type = ''heading'', n_depth = 1,
     n_label = i, n_content = c, n_format = ''plain'', n_tokens = 1, n_hash = ''h'' @ c, n_temp = 0,
     n_access = 0, n_last = None, n_created = 0, n_updated = 0, n_pinned = False,
     n_seed_pinned = False, n_seed_temp = None\<rparr>"

theorem upsert_node_effect_witness:
  "case upsert_node (blank_node ''a'' [] ''x'') empty_db of
      Inl e \<Rightarrow> False
    | Inr db' \<Rightarrow> db_ok db' \<and> map_option n_temp (node_at db' ''a'') = Some (1 / 2)"
proof -
  have "db_ok empty_db" "\<not> db_defer empty_db"
    by (simp_all add: empty_db_def db_ok_def keys_ok_def fk_ok_def parents_ok_def snapshots_ok_def
        edges_ok_def node_ids_def snapshot_ids_def)
  from upsert_node_effect [OF this, of "blank_node ''a'' [] ''x''"] show ?thesis
    by (cases "upsert_node (blank_node ''a'' [] ''x'') empty_db")
      (auto simp: blank_node_def empty_db_def node_at_def)
qed


subsection \<open>What deletion does\<close>

definition tree_edges :: "db \<Rightarrow> (node_id \<times> node_id) set" where
  "tree_edges db = {(n_parent n, n_id n) | n. n \<in> set (db_nodes db) \<and> n_parent n \<noteq> []}"

lemma tree_edges_set: "tree_edges db =
    set (map (\<lambda>n. (n_parent n, n_id n)) (filter (\<lambda>n. n_parent n \<noteq> []) (db_nodes db)))"
  by (auto simp: tree_edges_def)

lemma set_children_of: "n_id ` set (children_of db i) = {c. (i, c) \<in> tree_edges db}"
  by (auto simp: children_of_def tree_edges_def)

lemma node_ids_delete_row: "set (node_ids (delete_row old db)) = set (node_ids db) - {n_id old}"
  by (auto simp: node_ids_def delete_row_def)

lemma tree_edges_delete_row:
  "tree_edges (delete_row old db) = {(a, b). (a, b) \<in> tree_edges db \<and> b \<noteq> n_id old}"
  by (auto simp: tree_edges_def delete_row_def)

lemma delete_row_frame [frame_simps]:
  "db_snapshots (delete_row old db) = db_snapshots db"
  "db_diffs (delete_row old db) = db_diffs db"
  "db_head (delete_row old db) = db_head db"
  "db_next_snapshot (delete_row old db) = db_next_snapshot db"
  "db_now (delete_row old db) = db_now db"
  "db_defer (delete_row old db) = db_defer db"
  by (simp_all add: delete_row_def)

lemma delete_rows_frame [frame_simps]:
  "db_snapshots (delete_rows is db) = db_snapshots db"
  "db_diffs (delete_rows is db) = db_diffs db"
  "db_head (delete_rows is db) = db_head db"
  "db_next_snapshot (delete_rows is db) = db_next_snapshot db"
  "db_now (delete_rows is db) = db_now db"
  "db_defer (delete_rows is db) = db_defer db"
  by (induction "is" db rule: delete_rows.induct) (auto simp: frame_simps split: option.splits)

text \<open>A path that is cut at its last visit of a removed row continues from one of its children.\<close>

lemma reach_split:
  assumes "(w, n) \<in> E\<^sup>*"
  shows "n = i \<or> (w \<noteq> i \<and> (w, n) \<in> {(a, b). (a, b) \<in> E \<and> b \<noteq> i}\<^sup>*)
    \<or> (\<exists>c. (i, c) \<in> E \<and> c \<noteq> i \<and> (c, n) \<in> {(a, b). (a, b) \<in> E \<and> b \<noteq> i}\<^sup>*)"
  using assms
proof induction
  case (step y z)
  show ?case
  proof (cases "z = i")
    case False
    with step.hyps(2) have "(y, z) \<in> {(a, b). (a, b) \<in> E \<and> b \<noteq> i}" by simp
    moreover from False step.hyps(2) have "y = i \<Longrightarrow> (i, z) \<in> E \<and> z \<noteq> i" by simp
    ultimately show ?thesis using step.IH by (blast intro: rtrancl_into_rtrancl)
  qed simp
qed simp

definition doomed :: "node_id list \<Rightarrow> db \<Rightarrow> node_id set" where
  "doomed is db = {j. \<exists>w. w \<in> set is \<and> w \<in> set (node_ids db) \<and> (w, j) \<in> (tree_edges db)\<^sup>*}"

lemma doomed_step:
  assumes "node_at db i = Some old"
  shows "doomed (i # is) db =
    insert i (doomed (map n_id (children_of db i) @ is) (delete_row old db))"
proof -
  let ?E = "tree_edges db" and ?E1 = "tree_edges (delete_row old db)"
  have old: "n_id old = i" and i: "i \<in> set (node_ids db)"
    using assms node_at_SomeD by (auto simp: node_ids_def)
  have sub: "?E1\<^sup>* \<subseteq> ?E\<^sup>*" by (rule rtrancl_mono) (auto simp: tree_edges_delete_row)
  have ids: "set (node_ids (delete_row old db)) = set (node_ids db) - {i}"
    by (simp add: node_ids_delete_row old)
  have mem: "c \<in> set (node_ids db)" if "(i, c) \<in> ?E" for c
    using that by (auto simp: tree_edges_def node_ids_def)
  have E1: "?E1 = {(a, b). (a, b) \<in> ?E \<and> b \<noteq> i}"
    by (simp add: tree_edges_delete_row old)
  show ?thesis
  proof (intro set_eqI iffI)
    fix j assume "j \<in> doomed (i # is) db"
    then obtain w where w: "w = i \<or> w \<in> set is" "w \<in> set (node_ids db)" "(w, j) \<in> ?E\<^sup>*"
      by (auto simp: doomed_def)
    from reach_split [OF w(3), of i]
    show "j \<in> insert i (doomed (map n_id (children_of db i) @ is) (delete_row old db))"
      unfolding E1 [symmetric] using w mem ids set_children_of [of db i]
      by (auto simp: doomed_def)
  next
    fix j assume "j \<in> insert i (doomed (map n_id (children_of db i) @ is) (delete_row old db))"
    then consider "j = i" | w where "w \<in> set is" "w \<in> set (node_ids db)" "(w, j) \<in> ?E1\<^sup>*"
      | c where "(i, c) \<in> ?E" "(c, j) \<in> ?E1\<^sup>*"
      using ids set_children_of [of db i] by (auto simp: doomed_def)
    then show "j \<in> doomed (i # is) db"
      using i sub by cases (auto simp: doomed_def intro: converse_rtrancl_into_rtrancl)
  qed
qed

lemma doomed_skip:
  "node_at db i = None \<Longrightarrow> doomed (i # is) db = doomed is db"
  by (auto simp: doomed_def node_at_None_iff)

lemma db_nodes_delete_rows:
  "db_nodes (delete_rows is db) = filter (\<lambda>n. n_id n \<notin> doomed is db) (db_nodes db)"
proof (induction "is" db rule: delete_rows.induct)
  case (1 db)
  then show ?case by (simp add: doomed_def)
next
  case (2 i "is" db)
  show ?case
  proof (cases "node_at db i")
    case None
    with 2 show ?thesis by (simp add: doomed_skip)
  next
    case (Some old)
    then have "n_id old = i" using node_at_SomeD by blast
    with 2 Some show ?thesis
      by (auto simp: doomed_step delete_row_def intro!: filter_cong)
  qed
qed

lemma doomed_subset: "doomed is db \<subseteq> set (node_ids db)"
proof
  fix j assume "j \<in> doomed is db"
  then obtain w where w: "w \<in> set (node_ids db)" "(w, j) \<in> (tree_edges db)\<^sup>*"
    by (auto simp: doomed_def)
  from w(2,1) show "j \<in> set (node_ids db)"
    by cases (auto simp: tree_edges_def node_ids_def)
qed

lemma db_relations_delete_rows:
  "db_relations (delete_rows is db) =
     filter (\<lambda>r. l_source r \<notin> doomed is db \<and> l_target r \<notin> doomed is db) (db_relations db)"
proof (induction "is" db rule: delete_rows.induct)
  case (1 db)
  then show ?case by (simp add: doomed_def)
next
  case (2 i "is" db)
  show ?case
  proof (cases "node_at db i")
    case None
    with 2 show ?thesis by (simp add: doomed_skip)
  next
    case (Some old)
    then have "n_id old = i" using node_at_SomeD by blast
    with 2 Some show ?thesis
      by (auto simp: doomed_step delete_row_def intro!: filter_cong)
  qed
qed

text \<open>What a pending relation says, without its key and its creation time.\<close>

definition pending_body :: "pending_relation \<Rightarrow> node_id \<times> bytes \<times> bytes \<times> bytes \<times> real \<times> bytes" where
  "pending_body p = (p_source p, p_label p, p_file p, p_hint p, p_weight p, p_origin p)"

definition repended :: "node_id set \<Rightarrow> db \<Rightarrow> (node_id \<times> bytes \<times> bytes \<times> bytes \<times> real \<times> bytes) set" where
  "repended gone db = {(l_source r, n_label t, n_source t, [], l_weight r, l_origin r) | r t.
     r \<in> set (db_relations db) \<and> t \<in> set (db_nodes db) \<and> l_target r = n_id t
     \<and> n_id t \<in> gone \<and> l_source r \<notin> gone}"

lemma map_snd_enumerate_eq: "map (\<lambda>x. f (snd x)) (enumerate n xs) = map f xs"
  using map_snd_enumerate [of n xs] by (metis (no_types, lifting) list.map_comp comp_apply map_eq_conv)

lemma set_repend: "pending_body ` set (repend db old) =
    {(l_source r, n_label old, n_source old, [], l_weight r, l_origin r) | r.
      r \<in> set (db_relations db) \<and> l_target r = n_id old}"
proof -
  have "pending_body ` set (repend db old) =
      (\<lambda>r. (l_source r, n_label old, n_source old, [], l_weight r, l_origin r)) `
        set (filter (\<lambda>r. l_target r = n_id old) (db_relations db))"
  proof -
    have "map pending_body (repend db old) =
        map (\<lambda>r. (l_source r, n_label old, n_source old, [], l_weight r, l_origin r))
          (filter (\<lambda>r. l_target r = n_id old) (db_relations db))"
      by (simp add: repend_def comp_def case_prod_unfold pending_body_def) (rule map_snd_enumerate_eq)
    from arg_cong [OF this, of set] show ?thesis by simp
  qed
  then show ?thesis by auto
qed

lemma p_source_body: "p_source p = fst (pending_body p)"
  by (simp add: pending_body_def)

lemma pending_delete_row:
  "pending_body ` set (db_pending (delete_row old db)) =
     {b \<in> pending_body ` set (db_pending db). fst b \<noteq> n_id old} \<union>
     {(l_source r, n_label old, n_source old, [], l_weight r, l_origin r) | r.
        r \<in> set (db_relations db) \<and> l_target r = n_id old \<and> l_source r \<noteq> n_id old}"
proof -
  have "pending_body ` set (db_pending (delete_row old db)) =
      {b \<in> pending_body ` set (db_pending db) \<union> pending_body ` set (repend db old). fst b \<noteq> n_id old}"
    by (auto simp: delete_row_def p_source_body)
  then show ?thesis unfolding set_repend by auto
qed

lemma repended_insert:
  assumes "old \<in> set (db_nodes db)" "n_id old = i"
    and "\<And>t. t \<in> set (db_nodes db) \<Longrightarrow> n_id t = i \<Longrightarrow> t = old" and "i \<notin> D"
  shows "repended (insert i D) db = repended D (delete_row old db) \<union>
    {(l_source r, n_label old, n_source old, [], l_weight r, l_origin r) | r.
      r \<in> set (db_relations db) \<and> l_target r = i \<and> l_source r \<noteq> i \<and> l_source r \<notin> D}" (is "?L = ?A \<union> ?B")
proof (intro set_eqI iffI)
  fix b assume "b \<in> ?L"
  then obtain r t where rt: "r \<in> set (db_relations db)" "t \<in> set (db_nodes db)"
      "l_target r = n_id t" "n_id t \<in> insert i D" "l_source r \<notin> insert i D"
      "b = (l_source r, n_label t, n_source t, [], l_weight r, l_origin r)"
    unfolding repended_def by blast
  show "b \<in> ?A \<union> ?B"
  proof (cases "n_id t = i")
    case True
    with assms(3) rt(2) have "t = old" by blast
    with rt True show ?thesis by auto
  next
    case False
    with rt assms(2) have "r \<in> set (db_relations (delete_row old db))"
      "t \<in> set (db_nodes (delete_row old db))" by (simp_all add: delete_row_def)
    with rt False have "b \<in> ?A" unfolding repended_def by blast
    then show ?thesis by simp
  qed
next
  fix b assume "b \<in> ?A \<union> ?B"
  then show "b \<in> ?L"
  proof
    assume "b \<in> ?A"
    then show ?thesis using assms(2) unfolding repended_def delete_row_def by fastforce
  next
    assume "b \<in> ?B"
    then obtain r where r: "b = (l_source r, n_label old, n_source old, [], l_weight r, l_origin r)"
        "r \<in> set (db_relations db)" "l_target r = i" "l_source r \<noteq> i" "l_source r \<notin> D"
      by auto
    then have "l_target r = n_id old" "n_id old \<in> insert i D" "l_source r \<notin> insert i D"
      using assms(2) by simp_all
    with r(1,2) assms(1) show ?thesis unfolding repended_def by blast
  qed
qed

lemma db_pending_delete_rows:
  assumes "distinct (node_ids db)"
  shows "pending_body ` set (db_pending (delete_rows is db)) =
     {b \<in> pending_body ` set (db_pending db). fst b \<notin> doomed is db} \<union> repended (doomed is db) db"
  using assms
proof (induction "is" db rule: delete_rows.induct)
  case (1 db)
  then show ?case by (auto simp: doomed_def repended_def)
next
  case (2 i "is" db)
  show ?case
  proof (cases "node_at db i")
    case None
    with 2 show ?thesis by (simp add: doomed_skip)
  next
    case (Some old)
    let ?db1 = "delete_row old db" and ?D = "doomed (map n_id (children_of db i) @ is) (delete_row old db)"
    have old: "old \<in> set (db_nodes db)" "n_id old = i" using Some node_at_SomeD by auto
    have "distinct (node_ids ?db1)"
      using "2.prems" by (simp add: node_ids_def delete_row_def distinct_map_filter)
    with 2 Some have IH: "pending_body ` set (db_pending (delete_rows (i # is) db)) =
        {b \<in> pending_body ` set (db_pending ?db1). fst b \<notin> ?D} \<union> repended ?D ?db1" by simp
    have uniq: "\<And>t. t \<in> set (db_nodes db) \<Longrightarrow> n_id t = i \<Longrightarrow> t = old"
      using old "2.prems" by (auto simp: node_ids_def distinct_map inj_on_def)
    have "i \<notin> ?D" using doomed_subset [of "map n_id (children_of db i) @ is" ?db1]
      by (auto simp: node_ids_delete_row old)
    from repended_insert [OF old uniq this] have "repended (insert i ?D) db = repended ?D ?db1 \<union>
        {(l_source r, n_label old, n_source old, [], l_weight r, l_origin r) | r.
          r \<in> set (db_relations db) \<and> l_target r = i \<and> l_source r \<noteq> i \<and> l_source r \<notin> ?D}" .
    then show ?thesis
      unfolding IH doomed_step [OF Some] pending_delete_row by (auto simp: old)
  qed
qed

lemma node_ids_delete_rows: "set (node_ids (delete_rows is db)) = set (node_ids db) - doomed is db"
  by (auto simp: node_ids_def db_nodes_delete_rows)

lemma delete_rows_keys_ok: "keys_ok db \<Longrightarrow> keys_ok (delete_rows is db)"
  by (auto simp: keys_ok_def node_ids_def snapshot_ids_def frame_simps
      db_nodes_delete_rows db_relations_delete_rows distinct_map_filter)

lemma delete_rows_parents_ok:
  assumes "parents_ok db"
  shows "parents_ok (delete_rows is db)"
  unfolding parents_ok_alt
proof
  fix n assume "n \<in> set (db_nodes (delete_rows is db))"
  then have n: "n \<in> set (db_nodes db)" "n_id n \<notin> doomed is db"
    by (auto simp: db_nodes_delete_rows)
  have "n_parent n \<notin> doomed is db" if "n_parent n \<noteq> []"
  proof
    assume "n_parent n \<in> doomed is db"
    then obtain w where "w \<in> set is" "w \<in> set (node_ids db)" "(w, n_parent n) \<in> (tree_edges db)\<^sup>*"
      by (auto simp: doomed_def)
    moreover have "(n_parent n, n_id n) \<in> tree_edges db"
      using n(1) that by (auto simp: tree_edges_def)
    ultimately show False using n(2) by (auto simp: doomed_def intro: rtrancl_into_rtrancl)
  qed
  then show "n_parent n = [] \<or> n_parent n \<in> set (node_ids (delete_rows is db))"
    using n(1) assms by (auto simp: parents_ok_alt node_ids_delete_rows)
qed

lemma delete_rows_edges_ok:
  assumes "edges_ok db" "distinct (node_ids db)"
  shows "edges_ok (delete_rows is db)"
proof -
  have "fst b \<in> set (node_ids (delete_rows is db))"
    if b: "b \<in> pending_body ` set (db_pending (delete_rows is db))" for b
  proof -
    from b assms(2) consider "b \<in> pending_body ` set (db_pending db)" "fst b \<notin> doomed is db"
      | "b \<in> repended (doomed is db) db"
      by (auto simp: db_pending_delete_rows)
    then show ?thesis
      by cases (use assms(1) in \<open>auto simp: edges_ok_def list_all_iff p_source_body repended_def
          node_ids_delete_rows\<close>)
  qed
  then show ?thesis
    using assms(1) by (auto simp: edges_ok_def list_all_iff db_relations_delete_rows p_source_body
        node_ids_delete_rows)
qed

lemma delete_rows_ok:
  assumes "db_ok db"
  shows "db_ok (delete_rows is db)"
proof -
  have "snapshots_ok (delete_rows is db) = snapshots_ok db"
    by (rule snapshots_ok_frame) (simp_all add: frame_simps)
  with assms show ?thesis
    by (simp add: db_ok_def fk_ok_def delete_rows_keys_ok delete_rows_parents_ok)
      (simp add: keys_ok_def delete_rows_edges_ok)
qed

text \<open>C7:
  Deleting a node removes exactly the node and its descendants, in one statement: the other rows
  stay untouched and in order, edges with a removed end disappear, and every edge from a surviving
  node into a removed one comes back as a pending relation that carries the label and the file of
  the removed node, next to the pending relations of the survivors. The schema's constraints keep
  holding.
\<close>

theorem delete_node_cascades:
  assumes "db_ok db" "i \<in> set (node_ids db)"
  shows "db_nodes (delete_node i db) = filter (\<lambda>n. (i, n_id n) \<notin> (tree_edges db)\<^sup>*) (db_nodes db)
    \<and> db_relations (delete_node i db) = filter (\<lambda>r. (i, l_source r) \<notin> (tree_edges db)\<^sup>*
          \<and> (i, l_target r) \<notin> (tree_edges db)\<^sup>*) (db_relations db)
    \<and> pending_body ` set (db_pending (delete_node i db)) =
        {b \<in> pending_body ` set (db_pending db). (i, fst b) \<notin> (tree_edges db)\<^sup>*} \<union>
        {(l_source r, n_label t, n_source t, [], l_weight r, l_origin r) | r t.
           r \<in> set (db_relations db) \<and> t \<in> set (db_nodes db) \<and> l_target r = n_id t
           \<and> (i, n_id t) \<in> (tree_edges db)\<^sup>* \<and> (i, l_source r) \<notin> (tree_edges db)\<^sup>*}
    \<and> db_ok (delete_node i db)"
proof -
  have "doomed [i] db = {j. (i, j) \<in> (tree_edges db)\<^sup>*}"
    using assms(2) by (auto simp: doomed_def)
  then show ?thesis
    using assms(1) delete_rows_ok [OF assms(1), of "[i]"]
      db_pending_delete_rows [of db "[i]"]
    by (simp add: delete_node_def db_nodes_delete_rows db_relations_delete_rows repended_def
        db_ok_def keys_ok_def del: delete_rows.simps)
qed

definition sample_db :: db where
  "sample_db = empty_db\<lparr>db_nodes := [blank_node ''r'' [] ''root'', blank_node ''p'' ''r'' ''mid'',
       blank_node ''c'' ''p'' ''leaf'', blank_node ''x'' [] ''other''],
     db_relations := [\<lparr>l_id = 1, l_source = ''x'', l_target = ''c'', l_weight = 1,
       l_origin = ''parsed'', l_created = 0\<rparr>],
     db_next_relation := 2\<rparr>"

lemma sample_db_ok: "db_ok sample_db" "\<not> db_defer sample_db"
  by (simp_all add: sample_db_def empty_db_def db_ok_def keys_ok_def fk_ok_def parents_ok_def
      snapshots_ok_def edges_ok_def node_ids_def snapshot_ids_def blank_node_def)

theorem delete_node_cascades_witness:
  "db_ok (delete_node ''p'' sample_db)
   \<and> node_ids (delete_node ''p'' sample_db) = [''r'', ''x'']
   \<and> (''x'', ''c'', ''a.md'', [], 1, ''parsed'') \<in>
       pending_body ` set (db_pending (delete_node ''p'' sample_db))"
proof -
  have "''p'' \<in> set (node_ids sample_db)"
    by (simp add: sample_db_def empty_db_def node_ids_def blank_node_def)
  from delete_node_cascades [OF sample_db_ok(1) this] have "db_ok (delete_node ''p'' sample_db)"
    by (elim conjE)
  moreover
  have "node_ids (delete_node ''p'' sample_db) = [''r'', ''x'']"
    "pending_body ` set (db_pending (delete_node ''p'' sample_db)) = {(''x'', ''c'', ''a.md'', [], 1, ''parsed'')}"
    by (simp_all add: sample_db_def empty_db_def delete_node_def node_at_def children_of_def
        delete_row_def repend_def blank_node_def node_ids_def pending_body_def)
  ultimately show ?thesis by simp
qed

declare delete_rows.simps [simp del]

subsection \<open>The recursive queries\<close>

lemma set_next_level: "set (next_level db is) = {c. \<exists>i\<in>set is. (i, c) \<in> tree_edges db}"
  using set_children_of by (auto simp: next_level_def)

lemma in_concat_nth: "x \<in> set (concat xss) \<longleftrightarrow> (\<exists>k<length xss. x \<in> set (xss ! k))"
  by (metis UN_iff in_set_conv_nth set_concat)

lemma relpow_Suc_left: "(a, c) \<in> E ^^ Suc n \<longleftrightarrow> (\<exists>b. (a, b) \<in> E \<and> (b, c) \<in> E ^^ n)"
  by (meson relpow_Suc_D2 relpow_Suc_I2)

lemma levels_nth:
  "n < k \<Longrightarrow> set (levels db k is ! n) = {c. \<exists>i\<in>set is. (i, c) \<in> tree_edges db ^^ n}"
proof (induction db k "is" arbitrary: n rule: levels.induct)
  case (2 db k "is")
  show ?case
  proof (cases n)
    case (Suc m)
    with 2 have "set (levels db (Suc k) is ! n) =
        {c. \<exists>i\<in>set (next_level db is). (i, c) \<in> tree_edges db ^^ m}" by simp
    also have "\<dots> = {c. \<exists>i\<in>set is. (i, c) \<in> tree_edges db ^^ n}"
      unfolding set_next_level Suc mem_Collect_eq relpow_Suc_left by blast
    finally show ?thesis .
  qed simp
qed simp

lemma length_levels [simp]: "length (levels db k is) = k"
  by (induction db k "is" rule: levels.induct) simp_all

lemma relpow_path:
  assumes "acyclic E" "(a, b) \<in> E ^^ n"
  obtains f where "f 0 = a" "f n = b" "\<And>k. k < n \<Longrightarrow> (f k, f (Suc k)) \<in> E" "inj_on f {0..n}"
proof -
  from assms(2) obtain f where f: "f 0 = a" "f n = b" "\<And>k. k < n \<Longrightarrow> (f k, f (Suc k)) \<in> E"
    by (auto simp: relpow_fun_conv)
  have walk: "(f j, f (j + Suc d)) \<in> E\<^sup>+" if "j + d < n" for j d
    using that
  proof (induction d)
    case 0
    then show ?case using f(3) [of j] by simp
  next
    case (Suc d)
    then have "(f j, f (j + Suc d)) \<in> E\<^sup>+" "(f (j + Suc d), f (j + Suc (Suc d))) \<in> E"
      using f(3) [of "j + Suc d"] by simp_all
    then show ?case by (rule trancl_into_trancl)
  qed
  have "f j \<noteq> f k" if "j < k" "k \<le> n" for j k
  proof -
    from that have "(f j, f (j + Suc (k - j - 1))) \<in> E\<^sup>+" by (intro walk) simp
    with that have "(f j, f k) \<in> E\<^sup>+" by simp
    with assms(1) show ?thesis unfolding acyclic_def by metis
  qed
  then have "inj_on f {0..n}" by (intro inj_onI) (metis atLeastAtMost_iff linorder_neqE_nat)
  with f show thesis by (rule that)
qed

lemma relpow_bound:
  assumes "acyclic E" "(a, b) \<in> E ^^ n" "snd ` E \<subseteq> set xs"
  shows "n \<le> length xs" "a \<in> set xs \<Longrightarrow> n < length xs"
proof -
  obtain f where f: "f 0 = a" "\<And>k. k < n \<Longrightarrow> (f k, f (Suc k)) \<in> E" "inj_on f {0..n}"
    using relpow_path [OF assms(1,2)] by blast
  have later: "f ` {1..n} \<subseteq> set xs"
  proof
    fix y assume "y \<in> f ` {1..n}"
    then obtain k where "y = f (Suc k)" "k < n" by (auto simp: image_iff) (metis Suc_le_D Suc_le_eq)
    with f(2) assms(3) show "y \<in> set xs" by force
  qed
  have "inj_on f {1..n}" by (rule inj_on_subset [OF f(3)]) auto
  with later have "card {1..n} \<le> card (set xs)" by (metis card_inj_on_le finite_set)
  also have "\<dots> \<le> length xs" by (rule card_length)
  finally show "n \<le> length xs" by simp
  assume "a \<in> set xs"
  moreover have "{0..n} = insert 0 {1..n}" by auto
  ultimately have "f ` {0..n} \<subseteq> set xs" using later f(1) by simp
  with f(3) have "card {0..n} \<le> card (set xs)" by (metis card_inj_on_le finite_set)
  also have "\<dots> \<le> length xs" by (rule card_length)
  finally show "n < length xs" by simp
qed

lemma snd_tree_edges: "snd ` tree_edges db \<subseteq> set (node_ids db)"
  by (auto simp: tree_edges_def node_ids_def)

lemma ancestors_none:
  "ancestors_from db k i = None \<Longrightarrow> \<exists>a. (a, i) \<in> tree_edges db ^^ k \<and> a \<in> set (node_ids db)"
proof (induction db k i rule: ancestors_from.induct)
  case (1 db k i)
  then obtain n where n: "node_at db i = Some n" by (auto split: option.splits)
  then have row: "n \<in> set (db_nodes db)" "n_id n = i" by (auto dest: node_at_SomeD)
  show ?case
  proof (cases k)
    case 0
    then show ?thesis using row by (auto simp: node_ids_def)
  next
    case (Suc k')
    with 1(2) n have par: "n_parent n \<noteq> []" "ancestors_from db k' (n_parent n) = None"
      by (auto split: if_splits)
    from 1(1) [OF n Suc par] obtain a where "(a, n_parent n) \<in> tree_edges db ^^ k'" "a \<in> set (node_ids db)"
      by blast
    moreover have "(n_parent n, i) \<in> tree_edges db" using row par(1) by (auto simp: tree_edges_def)
    ultimately show ?thesis using Suc by auto
  qed
qed

lemma ancestors_total:
  assumes "acyclic (tree_edges db)"
  shows "\<exists>ns. get_ancestors db i = Some ns"
proof (rule ccontr)
  assume "\<not> ?thesis"
  then have "ancestors_from db (length (db_nodes db)) i = None" by (simp add: get_ancestors_def)
  from ancestors_none [OF this] obtain a where
    "(a, i) \<in> tree_edges db ^^ length (db_nodes db)" "a \<in> set (node_ids db)" by blast
  then show False
    using relpow_bound(2) [OF assms _ snd_tree_edges] by (fastforce simp: node_ids_def)
qed

lemma descendants_total:
  assumes "acyclic (tree_edges db)"
  shows "\<exists>ds. descendant_ids db i = Some ds \<and> set ds = {j. (i, j) \<in> (tree_edges db)\<^sup>+}"
proof -
  let ?N = "Suc (length (db_nodes db))" and ?E = "tree_edges db"
  have len: "length (node_ids db) = length (db_nodes db)" by (simp add: node_ids_def)
  have nth: "set (levels db ?N (next_level db [i]) ! k) = {c. (i, c) \<in> ?E ^^ Suc k}" if "k < ?N" for k
    unfolding levels_nth [OF that] set_next_level mem_Collect_eq relpow_Suc_left by auto
  have none: "?E ^^ Suc k = {}" if "length (db_nodes db) \<le> k" for k
    using relpow_bound(1) [OF assms _ snd_tree_edges] len that by (metis equals0I not_less_eq_eq surj_pair)
  have "set (last (levels db ?N (next_level db [i]))) = {}"
    using nth [of "length (db_nodes db)"] none [of "length (db_nodes db)"]
    by (subst last_conv_nth) auto
  moreover have "set (concat (levels db ?N (next_level db [i]))) = {j. (i, j) \<in> ?E\<^sup>+}"
  proof (intro set_eqI iffI)
    fix j assume "j \<in> set (concat (levels db ?N (next_level db [i])))"
    then obtain k where "k < ?N" "j \<in> set (levels db ?N (next_level db [i]) ! k)"
      unfolding in_concat_nth length_levels by blast
    then have "(i, j) \<in> ?E ^^ Suc k" using nth by blast
    then show "j \<in> {j. (i, j) \<in> ?E\<^sup>+}" unfolding trancl_power by blast
  next
    fix j assume "j \<in> {j. (i, j) \<in> ?E\<^sup>+}"
    then obtain n where n: "0 < n" "(i, j) \<in> ?E ^^ n" unfolding trancl_power by blast
    then obtain k where nk: "n = Suc k" by (cases n) auto
    with n have k: "(i, j) \<in> ?E ^^ Suc k" by blast
    have "k < ?N"
    proof (rule ccontr)
      assume "\<not> k < ?N"
      then have "?E ^^ Suc k = {}" by (intro none) simp
      with k show False by blast
    qed
    with k nth [of k] show "j \<in> set (concat (levels db ?N (next_level db [i])))"
      unfolding in_concat_nth length_levels by blast
  qed
  ultimately show ?thesis by (simp add: descendant_ids_def Let_def)
qed

subsection \<open>The delete modes\<close>

lemma node_at_delete_node:
  "node_at (delete_rows is db) j = (if j \<in> doomed is db then None else node_at db j)"
  using lookup_by_filter_key [of n_id j "\<lambda>k. k \<notin> doomed is db" "db_nodes db"]
  by (simp add: node_at_def db_nodes_delete_rows)

lemma node_at_reparent:
  "node_at (reparent_children p i db) j = map_option (\<lambda>n.
     if n_parent n = i \<and> i \<noteq> [] then n\<lparr>n_parent := p, n_updated := db_now db\<rparr> else n) (node_at db j)"
  by (simp add: node_at_def reparent_children_def lookup_by_map_same_key)

lemma node_ids_reparent [simp]: "node_ids (reparent_children p i db) = node_ids db"
  by (simp add: node_ids_def reparent_children_def)

lemma reparent_ok:
  assumes "db_ok db" "p = [] \<or> p \<in> set (node_ids db)"
  shows "db_ok (reparent_children p i db)"
proof -
  let ?db' = "reparent_children p i db"
  have f: "db_snapshots ?db' = db_snapshots db" "db_diffs ?db' = db_diffs db" "db_head ?db' = db_head db"
    "db_relations ?db' = db_relations db" "db_pending ?db' = db_pending db"
    "db_next_snapshot ?db' = db_next_snapshot db"
    by (simp_all add: reparent_children_def)
  have "parents_ok ?db'"
    using assms by (auto simp: parents_ok_alt db_ok_def fk_ok_def)
      (auto simp: reparent_children_def)
  moreover have "snapshots_ok ?db' = snapshots_ok db"
    by (rule snapshots_ok_frame) (simp_all add: f)
  then have "snapshots_ok ?db'"
    using assms by (simp add: db_ok_def fk_ok_def)
  moreover have "edges_ok ?db'"
    by (rule edges_ok_mono [of db]) (use assms in \<open>simp_all add: f db_ok_def fk_ok_def\<close>)
  moreover have "keys_ok ?db'"
    using assms by (simp add: keys_ok_def f db_ok_def snapshot_ids_def)
  ultimately show ?thesis by (simp add: db_ok_def fk_ok_def)
qed

lemma doomed_single: "i \<in> set (node_ids db) \<Longrightarrow> doomed [i] db = {j. (i, j) \<in> (tree_edges db)\<^sup>*}"
  by (auto simp: doomed_def)

lemma no_edges_reach: "(\<And>c. (i, c) \<notin> E) \<Longrightarrow> {j. (i, j) \<in> E\<^sup>*} = {i}"
  by (auto elim: converse_rtranclE)

lemma doomed_after_reparent:
  assumes "i \<in> set (node_ids db)" "p \<noteq> i"
  shows "doomed [i] (reparent_children p i db) = {i}"
proof -
  have "(i, c) \<notin> tree_edges (reparent_children p i db)" for c
    using assms(2) by (auto simp: tree_edges_def reparent_children_def split: if_splits)
  then show ?thesis using assms(1) by (simp add: doomed_single no_edges_reach)
qed

lemma set_child_ids: "set (child_ids db i) = {c. (i, c) \<in> tree_edges db}"
  using set_children_of [of db i] by (simp add: child_ids_def)

lemma delete_strict_leaf:
  assumes "db_ok db" "node_at db i = Some n" "child_ids db i = []"
  shows "node_at (delete_node i db) = (node_at db)(i := None)"
proof -
  have "i \<in> set (node_ids db)" using assms(2) by (metis node_at_Some_iff)
  then have "doomed [i] db = {i}"
    using assms(3) set_child_ids [of db i] by (simp add: doomed_single no_edges_reach)
  then show ?thesis by (simp add: delete_node_def fun_eq_iff node_at_delete_node)
qed

lemma reparent_ready:
  assumes "db_ok db" "acyclic (tree_edges db)" "i \<noteq> []" "n \<in> set (db_nodes db)" "n_id n = i"
  shows "n_parent n = [] \<or> n_parent n \<in> set (node_ids db)" "n_parent n \<noteq> i"
proof -
  show "n_parent n = [] \<or> n_parent n \<in> set (node_ids db)"
    using assms by (auto simp: db_ok_def fk_ok_def parents_ok_alt)
  show "n_parent n \<noteq> i"
  proof
    assume "n_parent n = i"
    then have "(i, i) \<in> tree_edges db" using assms(3-5) by (auto simp: tree_edges_def)
    with assms(2) show False unfolding acyclic_def by blast
  qed
qed

text \<open>C8:
  The three modes of deletion over acyclic parents. Strict deletes one row and refuses a node with
  children; cascade deletes the node and its descendants and reports exactly those; reparent deletes
  one row, hands its children to its parent and reports it and the children. No mode changes any
  other row, the schema's constraints survive, and the only errors are an unknown node and a strict
  deletion of a node with children.
\<close>

theorem delete_modes:
  assumes "db_ok db" "acyclic (tree_edges db)" "i \<noteq> []"
  shows "case delete_node_tx i mode db of
      Inl e \<Rightarrow> node_at db i = None \<or> (mode = DeleteStrict \<and> (\<exists>c. (i, c) \<in> tree_edges db))
    | Inr (affected, db') \<Rightarrow> db_ok db' \<and> (case mode of
        DeleteStrict \<Rightarrow> affected = [i] \<and> node_at db' = (node_at db)(i := None)
      | DeleteCascade \<Rightarrow> set affected = {j. (i, j) \<in> (tree_edges db)\<^sup>*}
          \<and> node_at db' = (\<lambda>j. if (i, j) \<in> (tree_edges db)\<^sup>* then None else node_at db j)
      | DeleteReparent \<Rightarrow> set affected = insert i {c. (i, c) \<in> tree_edges db}
          \<and> node_at db' = (\<lambda>j. if j = i then None else map_option (\<lambda>n. if n_parent n = i
               then n\<lparr>n_parent := n_parent (the (node_at db i)), n_updated := db_now db\<rparr> else n)
               (node_at db j)))"
proof (cases "node_at db i")
  case None
  then show ?thesis by (simp add: delete_node_tx_def)
next
  case (Some n)
  then have i: "i \<in> set (node_ids db)" and n: "n \<in> set (db_nodes db)" "n_id n = i"
    using node_at_Some_iff node_at_SomeD by (metis, blast+)
  show ?thesis
  proof (cases mode)
    case DeleteStrict
    then show ?thesis
      using Some assms(1) delete_strict_leaf [OF assms(1) Some] set_child_ids [of db i]
      by (cases "child_ids db i")
        (auto simp: delete_node_tx_def delete_node_def delete_rows_ok)
  next
    case DeleteCascade
    obtain ds where ds: "descendant_ids db i = Some ds" "set ds = {j. (i, j) \<in> (tree_edges db)\<^sup>+}"
      using descendants_total [OF assms(2), of i] by blast
    have "insert i (set ds) = {j. (i, j) \<in> (tree_edges db)\<^sup>*}"
      unfolding ds(2) by (auto simp: rtrancl_eq_or_trancl)
    with Some DeleteCascade ds(1) i show ?thesis
      by (simp add: delete_node_tx_def delete_node_def delete_rows_ok assms(1) fun_eq_iff
          node_at_delete_node doomed_single)
  next
    case DeleteReparent
    with Some i assms(1,3) reparent_ready [OF assms n] show ?thesis
      by (auto simp: delete_node_tx_def delete_node_def delete_rows_ok reparent_ok fun_eq_iff
          node_at_delete_node doomed_after_reparent node_at_reparent set_child_ids cong: if_cong)
  qed
qed

lemma sample_db_acyclic: "acyclic (tree_edges sample_db)"
proof -
  have "tree_edges sample_db = {(''r'', ''p''), (''p'', ''c'')}"
    by (simp add: tree_edges_set sample_db_def empty_db_def blank_node_def)
  then have "tree_edges sample_db \<subseteq> measure (\<lambda>i. if i = ''r'' then 0 else if i = ''p'' then 1 else 2)"
    by simp
  then show ?thesis by (rule acyclic_subset [rotated]) (rule wf_acyclic, rule wf_measure)
qed

theorem delete_modes_witness:
  "case delete_node_tx ''p'' DeleteReparent sample_db of
      Inl e \<Rightarrow> False
    | Inr (affected, db') \<Rightarrow> db_ok db' \<and> node_at db' ''p'' = None
        \<and> map_option n_parent (node_at db' ''c'') = Some ''r''"
proof -
  obtain ids db' where run: "delete_node_tx ''p'' DeleteReparent sample_db = Inr (ids, db')"
    by (simp add: delete_node_tx_def node_at_def sample_db_def empty_db_def blank_node_def)
  have at: "the (node_at sample_db ''p'') = blank_node ''p'' ''r'' ''mid''"
    "node_at sample_db ''c'' = Some (blank_node ''c'' ''p'' ''leaf'')"
    by (simp_all add: node_at_def sample_db_def empty_db_def blank_node_def)
  from delete_modes [OF sample_db_ok(1) sample_db_acyclic, of "''p''" DeleteReparent] run
  have "db_ok db'" "node_at db' ''p'' = None" "map_option n_parent (node_at db' ''c'') = Some ''r''"
    by (simp_all add: at) (simp add: blank_node_def)
  with run show ?thesis by simp
qed

end
