(* ===== verification/Store_Snapshots.thy ===== *)
theory Store_Snapshots
  imports Store_Nodes
begin

text \<open>
  Snapshots, diffs, the HEAD cursor, and the computation of an earlier state by undoing diffs
  (\<open>pkg/store/snapshot.go\<close>). The Go map of nodes that \<open>RestoreToSnapshot\<close> returns is a list of nodes
  with distinct identifiers, since every key is the identifier of its node.
\<close>

definition has_old_metadata :: "diff_row \<Rightarrow> bool" where
  "has_old_metadata d = (r_old_source d \<noteq> None)"

definition set_old_metadata :: "node \<Rightarrow> diff_row \<Rightarrow> diff_row" where
  "set_old_metadata n d = d\<lparr>
     r_old_parent := (if n_parent n \<noteq> [] then Some (n_parent n) else None),
     r_old_source := Some (n_source n), r_old_type := Some (n_type n), r_old_depth := Some (n_depth n),
     r_old_label := Some (n_label n), r_old_format := Some (n_format n),
     r_old_tokens := Some (n_tokens n)\<rparr>"

record snapshot_options =
  o_cursor :: bytes
  o_message :: bytes
  o_root :: bytes
  o_parent :: int
  o_has_parent :: bool

definition create_snapshot :: "snapshot_options \<Rightarrow> int tx" where
  "create_snapshot o' db =
     (let par = (if o_has_parent o' then (if 0 < o_parent o' then Some (o_parent o') else None)
                 else db_head db);
          sid = db_next_snapshot db
      in if o_cursor o' \<in> set (map s_cursor (db_snapshots db)) then Inl UniqueViolation
         else if \<not> db_defer db \<and> (case par of None \<Rightarrow> False | Some p \<Rightarrow> p \<noteq> sid \<and> p \<notin> set (snapshot_ids db))
           then Inl ForeignKey
         else Inr (sid, db\<lparr>db_snapshots := db_snapshots db @
             [\<lparr>s_id = sid, s_cursor = o_cursor o', s_parent = par, s_message = o_message o',
               s_root = o_root o', s_created = db_now db\<rparr>],
             db_next_snapshot := sid + 1\<rparr>))"

definition insert_diff :: "diff_row \<Rightarrow> db \<Rightarrow> db result" where
  "insert_diff d db =
     (if \<not> db_defer db \<and> r_snap d \<notin> set (snapshot_ids db) then Inl ForeignKey
      else Inr (db\<lparr>db_diffs := db_diffs db @ [d]\<rparr>))"

definition advance_cursor :: "int \<Rightarrow> db \<Rightarrow> db result" where
  "advance_cursor sid db =
     (if \<not> db_defer db \<and> sid \<notin> set (snapshot_ids db) then Inl ForeignKey
      else Inr (db\<lparr>db_head := Some sid\<rparr>))"

definition get_snapshot :: "db \<Rightarrow> int \<Rightarrow> snapshot result" where
  "get_snapshot db sid =
     (case lookup_by s_id sid (db_snapshots db) of None \<Rightarrow> Inl NoRows | Some s \<Rightarrow> Inr s)"

definition head_snapshot_id :: "db \<Rightarrow> int" where
  "head_snapshot_id db = (case db_head db of None \<Rightarrow> 0 | Some sid \<Rightarrow> sid)"

definition head_cursor_hash :: "db \<Rightarrow> bytes" where
  "head_cursor_hash db = (case db_head db of None \<Rightarrow> []
     | Some sid \<Rightarrow> (case lookup_by s_id sid (db_snapshots db) of None \<Rightarrow> [] | Some s \<Rightarrow> s_cursor s))"

text \<open>\<open>LIMIT\<close>: a negative limit means no limit in SQLite.\<close>

definition sql_limit :: "int \<Rightarrow> 'a list \<Rightarrow> 'a list" where
  "sql_limit k xs = (if k < 0 then xs else take (nat k) xs)"

definition list_snapshots :: "db \<Rightarrow> int \<Rightarrow> snapshot list" where
  "list_snapshots db limit = sql_limit limit (rev (sort_key s_id (db_snapshots db)))"

definition latest_compile_root :: "db \<Rightarrow> bytes" where
  "latest_compile_root db =
     (case filter (\<lambda>s. s_root s \<noteq> []) (rev (sort_key s_id (db_snapshots db))) of
        [] \<Rightarrow> [] | s # _ \<Rightarrow> s_root s)"

definition diffs_by_snapshot :: "db \<Rightarrow> int \<Rightarrow> diff_row list" where
  "diffs_by_snapshot db sid = filter (\<lambda>d. r_snap d = sid) (db_diffs db)"

definition diffs_since :: "db \<Rightarrow> int \<Rightarrow> int \<Rightarrow> diff_row list" where
  "diffs_since db since limit =
     sql_limit limit (sort_key r_snap (filter (\<lambda>d. since < r_snap d) (db_diffs db)))"

definition diffs_between :: "db \<Rightarrow> int \<Rightarrow> int \<Rightarrow> diff_row list" where
  "diffs_between db a b = sort_key r_snap (filter (\<lambda>d. a < r_snap d \<and> r_snap d \<le> b) (db_diffs db))"

definition diffs_for_node :: "db \<Rightarrow> node_id \<Rightarrow> diff_row list" where
  "diffs_for_node db i = sort_key r_snap (filter (\<lambda>d. r_node d = i) (db_diffs db))"

definition later_diffs :: "db \<Rightarrow> int \<Rightarrow> diff_row list" where
  "later_diffs db target = sort_key r_snap (filter (\<lambda>d. target < r_snap d) (db_diffs db))"

definition diffs_after :: "db \<Rightarrow> int \<Rightarrow> diff_row list" where
  "diffs_after db target = rev (later_diffs db target)"

subsection \<open>Undoing diffs\<close>

definition str_of :: "bytes option \<Rightarrow> bytes" where
  "str_of v = (case v of None \<Rightarrow> [] | Some s \<Rightarrow> s)"

definition int_of_null :: "int option \<Rightarrow> int" where
  "int_of_null v = (case v of None \<Rightarrow> 0 | Some i \<Rightarrow> i)"

definition apply_old_metadata :: "diff_row \<Rightarrow> node \<Rightarrow> node" where
  "apply_old_metadata d n = n\<lparr>n_parent := str_of (r_old_parent d), n_source := str_of (r_old_source d),
     n_type := str_of (r_old_type d), n_depth := int_of_null (r_old_depth d),
     n_label := str_of (r_old_label d), n_format := str_of (r_old_format d),
     n_tokens := int_of_null (r_old_tokens d)\<rparr>"

definition zero_node :: node where
  "zero_node = \<lparr>n_id = [], n_parent = [], n_source = [], n_type = [], n_depth = 0, n_label = [],
     n_content = [], n_format = [], n_tokens = 0, n_hash = [], n_temp = 0, n_access = 0,
     n_last = None, n_created = 0, n_updated = 0, n_pinned = False, n_seed_pinned = False,
     n_seed_temp = None\<rparr>"

definition restored_node :: "diff_row \<Rightarrow> node" where
  "restored_node d =
     (apply_old_metadata d zero_node)\<lparr>n_id := r_node d, n_content := r_old_content d, n_hash := r_old_hash d\<rparr>"

definition undo_mod :: "diff_row \<Rightarrow> node \<Rightarrow> node" where
  "undo_mod d n = (let m = n\<lparr>n_content := r_old_content d, n_hash := r_old_hash d\<rparr>
     in if has_old_metadata d then apply_old_metadata d m else m)"

record skipped_restore =
  sk_node :: node_id
  sk_reason :: bytes

record restore_result =
  rr_nodes :: "node list"
  rr_skipped :: "skipped_restore list"

definition reverse_apply_diff :: "diff_row \<Rightarrow> restore_result \<Rightarrow> restore_result" where
  "reverse_apply_diff d st =
     (if r_op d = ''add'' then st\<lparr>rr_nodes := filter (\<lambda>n. n_id n \<noteq> r_node d) (rr_nodes st)\<rparr>
      else if r_op d = ''mod'' then
        st\<lparr>rr_nodes := map (\<lambda>n. if n_id n = r_node d then undo_mod d n else n) (rr_nodes st)\<rparr>
      else if r_op d = ''rem'' then
        (if \<not> has_old_metadata d then
           st\<lparr>rr_skipped := rr_skipped st @ [\<lparr>sk_node = r_node d,
              sk_reason = ''pre-migration OpRem; node metadata unavailable''\<rparr>]\<rparr>
         else st\<lparr>rr_nodes := filter (\<lambda>n. n_id n \<noteq> r_node d) (rr_nodes st) @ [restored_node d]\<rparr>)
      else st)"

definition restore_to_snapshot :: "db \<Rightarrow> int \<Rightarrow> restore_result result" where
  "restore_to_snapshot db target =
     (case get_snapshot db target of
        Inl NoRows \<Rightarrow> Inl (Failure ''snapshot not found'')
      | Inl e \<Rightarrow> Inl e
      | Inr _ \<Rightarrow> Inr (fold reverse_apply_diff (diffs_after db target)
                   \<lparr>rr_nodes = get_all_nodes db, rr_skipped = []\<rparr>))"

subsection \<open>Pruning\<close>

definition prune_snapshots_after :: "int \<Rightarrow> int \<Rightarrow> int tx" where
  "prune_snapshots_after target keep db =
     (let doomed_snap = (\<lambda>sid. target < sid \<and> sid \<noteq> keep)
      in Inr (int (length (filter (\<lambda>s. doomed_snap (s_id s)) (db_snapshots db))),
          db\<lparr>db_defer := True,
             db_diffs := filter (\<lambda>d. \<not> doomed_snap (r_snap d)) (db_diffs db),
             db_snapshots := filter (\<lambda>s. \<not> doomed_snap (s_id s)) (db_snapshots db)\<rparr>))"


subsection \<open>What diffs mean\<close>

text \<open>
  The part of a node that snapshots restore: everything but the access statistics, the timestamps
  and the pin. A view maps identifiers to such parts.
\<close>

definition core_of :: "node \<Rightarrow> node" where
  "core_of n = n\<lparr>n_temp := 0, n_access := 0, n_last := None, n_created := 0, n_updated := 0,
     n_pinned := False, n_seed_pinned := False, n_seed_temp := None\<rparr>"

type_synonym view = "node_id \<Rightarrow> node option"

definition cores :: "node list \<Rightarrow> view" where
  "cores ns i = map_option core_of (lookup_by n_id i ns)"

definition core_view :: "db \<Rightarrow> view" where
  "core_view db i = map_option core_of (node_at db i)"

definition matches_old :: "diff_row \<Rightarrow> node \<Rightarrow> bool" where
  "matches_old d b \<longleftrightarrow> n_id b = r_node d \<and> b = core_of b \<and> r_old_hash d = n_hash b
     \<and> r_old_content d = n_content b \<and> set_old_metadata b d = d"

definition matches_new :: "diff_row \<Rightarrow> node \<Rightarrow> bool" where
  "matches_new d a \<longleftrightarrow> r_new_hash d = n_hash a \<and> r_new_content d = n_content a"

text \<open>A diff row truthfully records the change of its node between two states.\<close>

definition truthful :: "diff_row \<Rightarrow> node option \<Rightarrow> node option \<Rightarrow> bool" where
  "truthful d before after =
     ((r_op d = ''add'' \<and> before = None \<and> (\<exists>a. after = Some a \<and> matches_new d a))
      \<or> (r_op d = ''mod'' \<and> (\<exists>b. before = Some b \<and> matches_old d b) \<and> (\<exists>a. after = Some a \<and> matches_new d a))
      \<or> (r_op d = ''rem'' \<and> (\<exists>b. before = Some b \<and> matches_old d b) \<and> after = None))"

inductive recorded :: "diff_row list \<Rightarrow> view \<Rightarrow> view \<Rightarrow> bool" where
  recorded_Nil: "recorded [] v v"
| recorded_Cons: "\<lbrakk>truthful d (v (r_node d)) x; (\<And>a. x = Some a \<Longrightarrow> n_id a = r_node d);
     recorded ds (v(r_node d := x)) w\<rbrakk> \<Longrightarrow> recorded (d # ds) v w"

inductive_cases recorded_NilE: "recorded [] v w"
inductive_cases recorded_ConsE: "recorded (d # ds) v w"

lemma recorded_append: "recorded ds v u \<Longrightarrow> recorded es u w \<Longrightarrow> recorded (ds @ es) v w"
  by (induction rule: recorded.induct) (auto intro: recorded.intros)

lemma core_of_idem [simp]: "core_of (core_of n) = core_of n"
  by (simp add: core_of_def)

lemma n_id_core_of [simp]: "n_id (core_of n) = n_id n"
  by (simp add: core_of_def)

lemma n_id_undo [simp]: "n_id (undo_mod d n) = n_id n" "n_id (restored_node d) = r_node d"
  by (simp_all add: undo_mod_def apply_old_metadata_def restored_node_def Let_def)

lemma set_old_metadata_eq: "set_old_metadata b d = d \<longleftrightarrow>
    r_old_parent d = (if n_parent b \<noteq> [] then Some (n_parent b) else None)
    \<and> r_old_source d = Some (n_source b) \<and> r_old_type d = Some (n_type b)
    \<and> r_old_depth d = Some (n_depth b) \<and> r_old_label d = Some (n_label b)
    \<and> r_old_format d = Some (n_format b) \<and> r_old_tokens d = Some (n_tokens b)"
  by (cases d) (auto simp: set_old_metadata_def)

lemma matches_old_metadata: "matches_old d b \<Longrightarrow> has_old_metadata d"
  by (auto simp: matches_old_def set_old_metadata_eq has_old_metadata_def)

lemma core_of_node: "core_of n = core_of m \<longleftrightarrow> n_id n = n_id m \<and> n_parent n = n_parent m
    \<and> n_source n = n_source m \<and> n_type n = n_type m \<and> n_depth n = n_depth m \<and> n_label n = n_label m
    \<and> n_content n = n_content m \<and> n_format n = n_format m \<and> n_tokens n = n_tokens m \<and> n_hash n = n_hash m"
  by (cases n; cases m) (auto simp: core_of_def)

lemma matches_old_restores:
  assumes "matches_old d b"
  shows "core_of (restored_node d) = b" "n_id n = r_node d \<Longrightarrow> core_of (undo_mod d n) = b"
proof -
  have b: "b = core_of b" using assms by (simp add: matches_old_def)
  have "core_of (restored_node d) = core_of b"
    using assms unfolding core_of_node
    by (auto simp: restored_node_def apply_old_metadata_def matches_old_def
        set_old_metadata_eq str_of_def int_of_null_def)
  with b show "core_of (restored_node d) = b" by simp
  assume "n_id n = r_node d"
  then have "core_of (undo_mod d n) = core_of b"
    using assms matches_old_metadata [OF assms] unfolding core_of_node
    by (auto simp: undo_mod_def Let_def apply_old_metadata_def matches_old_def
        set_old_metadata_eq str_of_def int_of_null_def)
  with b show "core_of (undo_mod d n) = b" by simp
qed

lemma cores_filter: "cores (filter (\<lambda>n. n_id n \<noteq> j) ns) = (cores ns)(j := None)"
  using lookup_by_filter_key [of n_id _ "\<lambda>k. k \<noteq> j" ns] by (auto simp: cores_def fun_eq_iff)

lemma cores_append1: "cores (ns @ [m]) i =
    (case cores ns i of None \<Rightarrow> if n_id m = i then Some (core_of m) else None | Some c \<Rightarrow> Some c)"
  by (auto simp: cores_def lookup_by_append split: option.splits)

lemma cores_map_undo:
  assumes "matches_old d b" "cores ns (r_node d) \<noteq> None"
  shows "cores (map (\<lambda>n. if n_id n = r_node d then undo_mod d n else n) ns) = (cores ns)(r_node d := Some b)"
proof
  fix i
  obtain y where y: "lookup_by n_id (r_node d) ns = Some y"
    using assms(2) by (auto simp: cores_def)
  then have "n_id y = r_node d" using lookup_by_SomeD by fast
  then have "core_of (undo_mod d y) = b" by (rule matches_old_restores(2) [OF assms(1)])
  then show "cores (map (\<lambda>n. if n_id n = r_node d then undo_mod d n else n) ns) i = ((cores ns)(r_node d := Some b)) i"
    using y lookup_by_update [of n_id "r_node d" "undo_mod d" i ns]
    by (auto simp: cores_def)
qed

lemma reverse_truthful:
  assumes "truthful d (v (r_node d)) x" "cores (rr_nodes st) = v(r_node d := x)"
  shows "cores (rr_nodes (reverse_apply_diff d st)) = v \<and> rr_skipped (reverse_apply_diff d st) = rr_skipped st"
proof -
  consider "r_op d = ''add''" "v (r_node d) = None"
    | b where "r_op d = ''mod''" "v (r_node d) = Some b" "matches_old d b" "x \<noteq> None"
    | b where "r_op d = ''rem''" "v (r_node d) = Some b" "matches_old d b" "x = None"
    using assms(1) by (auto simp: truthful_def)
  then show ?thesis
  proof cases
    case 1
    then show ?thesis by (auto simp: reverse_apply_diff_def cores_filter assms(2))
  next
    case 2
    then show ?thesis
      using assms(2) by (auto simp: reverse_apply_diff_def cores_map_undo)
  next
    case 3
    then show ?thesis
      using assms(2) by (auto simp: reverse_apply_diff_def matches_old_metadata fun_eq_iff cores_append1
          cores_filter matches_old_restores split: option.splits)
  qed
qed

lemma fold_reverse_recorded:
  assumes "recorded ds v w" "cores (rr_nodes st) = w"
  shows "cores (rr_nodes (fold reverse_apply_diff (rev ds) st)) = v
    \<and> rr_skipped (fold reverse_apply_diff (rev ds) st) = rr_skipped st"
  using assms
proof (induction arbitrary: st rule: recorded.induct)
  case (recorded_Cons d v x ds w)
  let ?mid = "fold reverse_apply_diff (rev ds) st"
  have mid: "cores (rr_nodes ?mid) = v(r_node d := x)" "rr_skipped ?mid = rr_skipped st"
    using recorded_Cons.IH [OF recorded_Cons.prems] by blast+
  have "fold reverse_apply_diff (rev (d # ds)) st = reverse_apply_diff d ?mid" by simp
  then show ?case
    using reverse_truthful [of d v x ?mid, OF recorded_Cons.hyps(1) mid(1)] mid(2) by simp
qed simp

definition restorable :: "db \<Rightarrow> int \<Rightarrow> view \<Rightarrow> bool" where
  "restorable db target v = recorded (later_diffs db target) v (core_view db)"

lemma cores_all_nodes: "distinct (node_ids db) \<Longrightarrow> cores (get_all_nodes db) = core_view db"
proof
  fix i assume d: "distinct (node_ids db)"
  have "mset (map n_id (get_all_nodes db)) = mset (map n_id (db_nodes db))"
    by (simp add: get_all_nodes_def order_nodes_def)
  with d have "distinct (map n_id (get_all_nodes db))"
    unfolding node_ids_def by (metis mset_eq_imp_distinct_iff)
  then have "lookup_by n_id i (get_all_nodes db) = lookup_by n_id i (db_nodes db)"
    using d by (intro lookup_by_same_set) (simp_all add: node_ids_def get_all_nodes_def order_nodes_def)
  then show "cores (get_all_nodes db) i = core_view db i"
    by (simp add: cores_def core_view_def node_at_def)
qed

lemma restored_exactly:
  assumes "db_ok db" "target \<in> set (snapshot_ids db)" "restorable db target v"
  shows "\<exists>st. restore_to_snapshot db target = Inr st \<and> cores (rr_nodes st) = v \<and> rr_skipped st = []"
proof -
  have "lookup_by s_id target (db_snapshots db) \<noteq> None"
    using assms(2) by (auto simp: lookup_by_None_iff snapshot_ids_def)
  moreover have "cores (get_all_nodes db) = core_view db"
    using assms(1) by (intro cores_all_nodes) (simp add: db_ok_def keys_ok_def)
  ultimately show ?thesis
    using fold_reverse_recorded [OF assms(3) [unfolded restorable_def],
        of "\<lparr>rr_nodes = get_all_nodes db, rr_skipped = []\<rparr>"]
    by (auto simp: restore_to_snapshot_def get_snapshot_def diffs_after_def)
qed

text \<open>C5:
  \<open>RestoreToSnapshot\<close> is exact: when the diffs recorded after a snapshot are truthful (which every
  compile establishes, see \<open>emit_preserves_history\<close>), undoing them from HEAD gives exactly the
  nodes that the snapshot had, with place, text, hash and token count, and skips none.
\<close>

theorem restore_exact:
  assumes "db_ok db" "target \<in> set (snapshot_ids db)" "restorable db target v"
  shows "\<exists>st. restore_to_snapshot db target = Inr st \<and> cores (rr_nodes st) = v \<and> rr_skipped st = []"
  using restored_exactly [OF assms] .

definition sample_mod :: diff_row where
  "sample_mod = set_old_metadata (blank_node ''a'' [] ''1'')
     \<lparr>r_snap = 2, r_node = ''a'', r_op = ''mod'', r_old_hash = ''h1'', r_new_hash = ''h2'',
      r_old_content = ''1'', r_new_content = ''2'', r_old_parent = None, r_old_source = None,
      r_old_type = None, r_old_depth = None, r_old_label = None, r_old_format = None,
      r_old_tokens = None\<rparr>"

definition sample_snapshot :: "int \<Rightarrow> int option \<Rightarrow> snapshot" where
  "sample_snapshot i p = \<lparr>s_id = i, s_cursor = (if i = 1 then ''c1'' else ''c2''), s_parent = p, s_message = [], s_root = ''/m'',
     s_created = 0\<rparr>"

definition sample_history :: db where
  "sample_history = empty_db\<lparr>db_nodes := [blank_node ''a'' [] ''2''],
     db_snapshots := [sample_snapshot 1 None, sample_snapshot 2 (Some 1)],
     db_diffs := [sample_mod], db_head := Some 2, db_next_snapshot := 3\<rparr>"

lemma sample_history_ok: "db_ok sample_history" "1 \<in> set (snapshot_ids sample_history)"
  by (simp_all add: sample_history_def sample_snapshot_def sample_mod_def set_old_metadata_def
      empty_db_def db_ok_def keys_ok_def fk_ok_def parents_ok_def snapshots_ok_def edges_ok_def
      node_ids_def snapshot_ids_def blank_node_def itoa_def)

theorem restore_exact_witness:
  "\<exists>st. restore_to_snapshot sample_history 1 = Inr st
     \<and> cores (rr_nodes st) ''a'' = Some (core_of (blank_node ''a'' [] ''1''))"
proof -
  let ?b = "core_of (blank_node ''a'' [] ''1'')" and ?w = "core_view sample_history"
  have w: "?w = [''a'' \<mapsto> core_of (blank_node ''a'' [] ''2'')]"
    by (auto simp: core_view_def node_at_def sample_history_def empty_db_def blank_node_def)
  have t: "truthful sample_mod (Some ?b) (Some (core_of (blank_node ''a'' [] ''2'')))"
    by (simp add: truthful_def matches_old_def matches_new_def set_old_metadata_eq)
      (simp add: sample_mod_def set_old_metadata_def blank_node_def core_of_def)
  have "later_diffs sample_history 1 = [sample_mod]"
    by (simp add: later_diffs_def sample_history_def sample_mod_def set_old_metadata_def empty_db_def)
  moreover have "r_node sample_mod = ''a''" by (simp add: sample_mod_def set_old_metadata_def)
  then have "recorded [sample_mod] [''a'' \<mapsto> ?b] ?w"
    unfolding w using t
    by (intro recorded_Cons [where x = "Some (core_of (blank_node ''a'' [] ''2''))"])
      (auto simp: blank_node_def intro: recorded_Nil)
  ultimately have "restorable sample_history 1 [''a'' \<mapsto> ?b]"
    by (simp add: restorable_def)
  from restore_exact [OF sample_history_ok this] show ?thesis by auto
qed

subsection \<open>How the tables grow\<close>

lemma diff_snap_less: "db_ok db \<Longrightarrow> d \<in> set (db_diffs db) \<Longrightarrow> r_snap d < db_next_snapshot db"
  by (fastforce simp: db_ok_def keys_ok_def fk_ok_def snapshots_ok_def list_all_iff snapshot_ids_def)

lemma sort_key_append_larger:
  assumes "\<And>x y. x \<in> set xs \<Longrightarrow> y \<in> set ys \<Longrightarrow> (k x :: int) \<le> k y" "sorted (map k ys)"
  shows "sort_key k (xs @ ys) = sort_key k xs @ ys"
proof (rule properties_for_sort_key)
  show "mset (sort_key k xs @ ys) = mset (xs @ ys)" by simp
  show "filter (\<lambda>x. k z = k x) (sort_key k xs @ ys) = filter (\<lambda>x. k z = k x) (xs @ ys)" for z
    using sort_key_stable [of k "k z" xs] by (simp add: eq_commute)
  show "sorted (map k (sort_key k xs @ ys))"
    using assms by (auto simp: sorted_append)
qed

lemma later_diffs_append:
  assumes "db_ok db" "\<And>d. d \<in> set ds \<Longrightarrow> r_snap d = db_next_snapshot db" "target < db_next_snapshot db"
    "db_diffs db' = db_diffs db @ ds"
  shows "later_diffs db' target = later_diffs db target @ ds"
proof -
  have "filter (\<lambda>d. target < r_snap d) ds = ds" using assms(2,3) by simp
  moreover have "sort_key r_snap (filter (\<lambda>d. target < r_snap d) (db_diffs db) @ ds) =
      sort_key r_snap (filter (\<lambda>d. target < r_snap d) (db_diffs db)) @ ds"
    using assms(2) diff_snap_less [OF assms(1)]
    by (intro sort_key_append_larger) (force, auto simp: sorted_iff_nth_mono)
  ultimately show ?thesis by (simp add: later_diffs_def assms(4))
qed

lemma later_diffs_none:
  assumes "db_ok db" "db_next_snapshot db \<le> target + 1"
  shows "later_diffs db target = []"
proof -
  have "filter (\<lambda>d. target < r_snap d) (db_diffs db) = []"
    using assms(2) by (auto simp: filter_empty_conv dest!: diff_snap_less [OF assms(1)])
  then show ?thesis by (simp add: later_diffs_def)
qed

lemma restorable_head: "db_ok db \<Longrightarrow> db_next_snapshot db \<le> target + 1 \<Longrightarrow> restorable db target (core_view db)"
  by (simp add: restorable_def later_diffs_none recorded_Nil)

lemma restorable_step:
  assumes "db_ok db" "restorable db target v" "target < db_next_snapshot db"
    and "\<And>d. d \<in> set ds \<Longrightarrow> r_snap d = db_next_snapshot db" "db_diffs db' = db_diffs db @ ds"
    and "recorded ds (core_view db) (core_view db')"
  shows "restorable db' target v"
proof -
  have "later_diffs db' target = later_diffs db target @ ds"
    by (rule later_diffs_append [OF assms(1) _ assms(3,5)]) (rule assms(4))
  then show ?thesis
    using recorded_append [OF assms(2) [unfolded restorable_def] assms(6)]
    by (simp add: restorable_def)
qed

lemma snapshots_ok_alt: "snapshots_ok db \<longleftrightarrow>
    (\<forall>s\<in>set (db_snapshots db). \<forall>p. s_parent s = Some p \<longrightarrow> p \<in> set (snapshot_ids db))
    \<and> (\<forall>d\<in>set (db_diffs db). r_snap d \<in> set (snapshot_ids db))
    \<and> (\<forall>h. db_head db = Some h \<longrightarrow> h \<in> set (snapshot_ids db))"
  by (auto simp: snapshots_ok_def list_all_iff split: option.splits)

lemma create_snapshot_InrD:
  assumes "create_snapshot o' db = Inr (sid, db')"
  shows "sid = db_next_snapshot db" "o_cursor o' \<notin> set (map s_cursor (db_snapshots db))"
    "db_nodes db' = db_nodes db" "db_diffs db' = db_diffs db" "db_head db' = db_head db"
    "db_relations db' = db_relations db" "db_pending db' = db_pending db" "db_defer db' = db_defer db"
    "\<exists>s. db_snapshots db' = db_snapshots db @ [s] \<and> s_id s = sid \<and> s_cursor s = o_cursor o'
       \<and> s_parent s = (if o_has_parent o' then (if 0 < o_parent o' then Some (o_parent o') else None)
            else db_head db)
       \<and> (db_defer db \<or> (\<forall>p. s_parent s = Some p \<longrightarrow> p = sid \<or> p \<in> set (snapshot_ids db)))"
    "db_next_snapshot db' = sid + 1" "snapshot_ids db' = snapshot_ids db @ [sid]" "db_now db' = db_now db"
  using assms by (auto simp: create_snapshot_def Let_def snapshot_ids_def split: if_splits option.splits)

lemma create_snapshot_ok:
  assumes "db_ok db" "\<not> db_defer db \<or> o_parent o' \<in> set (snapshot_ids db)"
    "create_snapshot o' db = Inr (sid, db')"
  shows "db_ok db'"
proof -
  note c = create_snapshot_InrD [OF assms(3)]
  have n: "node_ids db' = node_ids db" by (simp add: node_ids_def c)
  obtain s where s: "db_snapshots db' = db_snapshots db @ [s]" "s_id s = sid" "s_cursor s = o_cursor o'"
      "\<And>p. s_parent s = Some p \<Longrightarrow> p = sid \<or> p \<in> set (snapshot_ids db) \<or> db_head db = Some p"
    using c(9) assms(2) by (auto split: if_splits)
  have k: "keys_ok db" and f: "snapshots_ok db" using assms(1) by (simp_all add: db_ok_def fk_ok_def)
  have less: "\<And>s. s \<in> set (db_snapshots db) \<Longrightarrow> s_id s < sid"
    using k by (simp add: keys_ok_def list_all_iff c(1))
  then have "sid \<notin> set (snapshot_ids db)" by (auto simp: snapshot_ids_def)
  then have "keys_ok db'"
    using k c(2) less s by (auto simp: keys_ok_def n c list_all_iff order.strict_implies_order)
  moreover have "snapshots_ok db'"
    using f s(2,4) unfolding snapshots_ok_alt c s(1) by auto
  moreover have "parents_ok db'" "edges_ok db'"
    using assms(1) by (simp_all add: db_ok_def fk_ok_def parents_ok_def edges_ok_def n c)
  ultimately show ?thesis by (simp add: db_ok_def fk_ok_def)
qed

text \<open>
  A new snapshot gets an identifier that no snapshot has had, becomes a child of HEAD unless the
  caller names a parent, and touches no other table; it is refused exactly when its cursor hash is
  taken or the named parent does not exist.
\<close>

lemma create_snapshot_effect:
  assumes "db_ok db" "\<not> db_defer db"
  shows "case create_snapshot o' db of
      Inl e \<Rightarrow> (e = UniqueViolation \<and> (\<exists>s\<in>set (db_snapshots db). s_cursor s = o_cursor o'))
        \<or> (e = ForeignKey \<and> o_has_parent o' \<and> 0 < o_parent o' \<and> o_parent o' \<notin> set (snapshot_ids db))
    | Inr (sid, db') \<Rightarrow> db_ok db' \<and> sid \<notin> set (snapshot_ids db)
        \<and> (\<exists>s. db' = db\<lparr>db_snapshots := db_snapshots db @ [s], db_next_snapshot := sid + 1\<rparr>
            \<and> s_id s = sid \<and> s_cursor s = o_cursor o' \<and> s_root s = o_root o'
            \<and> s_parent s = (if \<not> o_has_parent o' then db_head db
                else if 0 < o_parent o' then Some (o_parent o') else None))"
proof (cases "create_snapshot o' db")
  case (Inl e)
  have "db_head db = Some h \<Longrightarrow> h \<in> set (snapshot_ids db)" for h
    using assms(1) by (simp add: db_ok_def fk_ok_def snapshots_ok_def)
  with Inl show ?thesis
    by (auto simp: create_snapshot_def Let_def split: if_splits option.splits)
next
  case (Inr r)
  obtain sid db' where r: "r = (sid, db')" by fastforce
  have "sid \<notin> set (snapshot_ids db)"
    using Inr r assms(1) create_snapshot_InrD(1) [of o' db sid db']
    by (auto simp: db_ok_def keys_ok_def list_all_iff snapshot_ids_def)
  moreover have "db_ok db'" using create_snapshot_ok [OF assms(1)] assms(2) Inr r by blast
  ultimately show ?thesis
    using Inr r by (auto simp: create_snapshot_def Let_def split: if_splits)
qed

lemma create_snapshot_effect_witness:
  "case create_snapshot \<lparr>o_cursor = ''x'', o_message = [], o_root = [], o_parent = 0, o_has_parent = False\<rparr>
      sample_history of Inl e \<Rightarrow> False | Inr (sid, db') \<Rightarrow> db_ok db' \<and> sid = 3"
  using create_snapshot_effect [OF sample_history_ok(1), of
    "\<lparr>o_cursor = ''x'', o_message = [], o_root = [], o_parent = 0, o_has_parent = False\<rparr>"]
  by (simp split: sum.splits) (auto simp: create_snapshot_def Let_def sample_history_def empty_db_def
      sample_snapshot_def snapshot_ids_def split: if_splits)

end
