(* ===== verification/Content_Id.thy ===== *)
theory Content_Id
  imports Go_Strings
begin

text \<open>
  \<open>internal/contentid\<close> and \<open>internal/tokens\<close>: content hashes, node identifiers and the token
  estimate. The 64-bit hash (\<open>github.com/cespare/xxhash\<close>) is a parameter \<open>xxh\<close>; nothing is
  assumed of it here. What the package itself adds, the base62 and hexadecimal encodings and
  the separator-joined hash inputs, is shown to lose no information.
\<close>

type_synonym hash64 = "bytes \<Rightarrow> 64 word"

definition base62_alphabet :: bytes where
  "base62_alphabet = ''0123456789ABCDEFGHIJKLMNOPQRSTUVWXYZabcdefghijklmnopqrstuvwxyz''"

definition id_len :: nat where
  "id_len = 11"

definition sep :: bytes where
  "sep = [byte 0]"

text \<open>\<open>binary.BigEndian.PutUint64\<close> followed by \<open>hex.EncodeToString\<close>.\<close>

definition put_uint64_be :: "64 word \<Rightarrow> bytes" where
  "put_uint64_be v = map (\<lambda>i. byte (unat v div 256 ^ (7 - i) mod 256)) [0..<8]"

definition hex_digit :: "nat \<Rightarrow> char" where
  "hex_digit n = ''0123456789abcdef'' ! n"

definition hex_encode :: "bytes \<Rightarrow> bytes" where
  "hex_encode bs = concat (map (\<lambda>c. [hex_digit (code c div 16), hex_digit (code c mod 16)]) bs)"

definition content_hash :: "hash64 \<Rightarrow> bytes \<Rightarrow> bytes" where
  "content_hash xxh content = hex_encode (put_uint64_be (xxh content))"

text \<open>The loop fills the buffer from its last position.\<close>

fun encode_loop :: "nat \<Rightarrow> 64 word \<Rightarrow> bytes \<Rightarrow> bytes" where
  "encode_loop 0 v buf = buf"
| "encode_loop (Suc i) v buf = encode_loop i (v div 62) (base62_alphabet ! unat (v mod 62) # buf)"

definition encode_base62 :: "64 word \<Rightarrow> bytes" where
  "encode_base62 v = encode_loop 11 v []"

definition node_input :: "bytes \<Rightarrow> node_id \<Rightarrow> int \<Rightarrow> bytes" where
  "node_input source parent i = source @ sep @ parent @ sep @ itoa i"

definition identify_node :: "hash64 \<Rightarrow> bytes \<Rightarrow> node_id \<Rightarrow> int \<Rightarrow> node_id" where
  "identify_node xxh source parent i = take id_len (encode_base62 (xxh (node_input source parent i)))"

definition identify_payload :: "hash64 \<Rightarrow> bytes \<Rightarrow> bytes \<Rightarrow> node_id" where
  "identify_payload xxh namespace payload =
     take id_len (encode_base62 (xxh (namespace @ sep @ payload)))"

text \<open>
  \<open>tokens.Estimate\<close>: the ceiling of a quarter of the byte length. The float product is exact
  (0.25 is a power of two), so real arithmetic gives the same integer.
\<close>

definition estimate :: "bytes \<Rightarrow> int" where
  "estimate s = (if length s = 0 then 0 else \<lceil>real (length s) * (1 / 4)\<rceil>)"

lemma estimate_eq: "estimate s = (int (length s) + 3) div 4"
proof -
  have "\<lceil>real n * (1 / 4)\<rceil> = (int n + 3) div 4" for n
  proof -
    have "\<lceil>real_of_int (int n) / real_of_int 4\<rceil> = - (- int n div 4)"
      by (rule ceiling_divide_eq_div)
    moreover have "- (- int n div 4) = (int n + 3) div 4" by presburger
    ultimately show ?thesis by simp
  qed
  then show ?thesis by (simp add: estimate_def)
qed

subsection \<open>Base62\<close>

definition base62_value :: "char \<Rightarrow> nat" where
  "base62_value c =
     (if is_digit c then code c - 48 else if is_upper c then code c - 55 else code c - 61)"

definition decode_base62 :: "bytes \<Rightarrow> nat" where
  "decode_base62 s = foldl (\<lambda>a c. 62 * a + base62_value c) 0 s"

definition is_base62 :: "char \<Rightarrow> bool" where
  "is_base62 c \<longleftrightarrow> is_digit c \<or> is_upper c \<or> is_lower c"

lemma base62_table:
  "\<forall>n\<in>set [0..<62]. base62_value (base62_alphabet ! n) = n \<and> is_base62 (base62_alphabet ! n)"
  by (simp add: upt_rec base62_alphabet_def base62_value_def is_base62_def is_digit_def is_upper_def
      is_lower_def code_def)

lemma base62_value_nth [simp]: "n < 62 \<Longrightarrow> base62_value (base62_alphabet ! n) = n"
  using base62_table by simp

lemma is_base62_nth [simp]: "n < 62 \<Longrightarrow> is_base62 (base62_alphabet ! n)"
  using base62_table by simp

lemma unat_mod_62 [simp]: "unat (v mod 62 :: 64 word) = unat v mod 62"
  by (simp add: unat_mod)

lemma unat_div_62 [simp]: "unat (v div 62 :: 64 word) = unat v div 62"
  by (simp add: unat_div)

lemma length_encode_loop: "length (encode_loop n v buf) = n + length buf"
  by (induction n v buf rule: encode_loop.induct) simp_all

lemma length_encode_base62 [simp]: "length (encode_base62 v) = 11"
  by (simp add: encode_base62_def length_encode_loop)

lemma encode_loop_base62:
  "\<forall>c\<in>set buf. is_base62 c \<Longrightarrow> c \<in> set (encode_loop n v buf) \<Longrightarrow> is_base62 c"
  by (induction n v buf rule: encode_loop.induct) auto

lemma decode_fold_shift:
  "foldl (\<lambda>a c. 62 * a + base62_value c) k s = 62 ^ length s * k + decode_base62 s"
proof (induction s arbitrary: k)
  case (Cons c s)
  have "decode_base62 (c # s) = 62 ^ length s * base62_value c + decode_base62 s"
    using Cons [of "base62_value c"] by (simp add: decode_base62_def)
  with Cons [of "62 * k + base62_value c"] show ?case by (simp add: algebra_simps)
qed (simp add: decode_base62_def)

lemma decode_base62_Cons:
  "decode_base62 (c # s) = 62 ^ length s * base62_value c + decode_base62 s"
  using decode_fold_shift [of "base62_value c" s] by (simp add: decode_base62_def)

lemma decode_encode_loop:
  "decode_base62 (encode_loop n v buf) =
     (unat v mod 62 ^ n) * 62 ^ length buf + decode_base62 buf"
proof (induction n v buf rule: encode_loop.induct)
  case (2 i v buf)
  have split: "unat v mod (62 * 62 ^ i) = 62 * (unat v div 62 mod 62 ^ i) + unat v mod 62"
    by (rule mod_mult2_eq)
  from 2 show ?case by (simp add: decode_base62_Cons split algebra_simps)
qed (simp add: decode_base62_def)

lemma decode_encode_base62 [simp]: "decode_base62 (encode_base62 v) = unat v"
proof -
  have "unat v < 62 ^ 11"
    using unsigned_less [of v, where 'a = nat] by simp
  then show ?thesis
    by (simp add: encode_base62_def decode_encode_loop) (simp add: decode_base62_def)
qed

text \<open>
  C19: Eleven base62 digits are enough for every 64-bit hash: the encoding is always
  eleven characters of the alphabet, decoding it gives the hash back (so two different hashes
  never share an identifier), and slicing it to \<open>idLen\<close> never fails or drops a digit.
\<close>

theorem base62_round_trip:
  "decode_base62 (encode_base62 v) = unat v \<and> length (encode_base62 v) = id_len
     \<and> set (encode_base62 v) \<subseteq> {c. is_base62 c} \<and> inj encode_base62"
proof (intro conjI)
  show "set (encode_base62 v) \<subseteq> {c. is_base62 c}"
    using encode_loop_base62 [of "[]"] by (auto simp: encode_base62_def)
  show "inj encode_base62"
    by (rule injI) (metis decode_encode_base62 word_unat_eq_iff)
qed (simp_all add: id_len_def)

lemma encode_base62_inj: "encode_base62 v = encode_base62 w \<Longrightarrow> v = w"
  by (metis decode_encode_base62 word_unat_eq_iff)

lemma encode_base62_base62: "c \<in> set (encode_base62 v) \<Longrightarrow> is_base62 c"
  using encode_loop_base62 [of "[]"] by (auto simp: encode_base62_def)

lemma length_identify_node [simp]: "length (identify_node xxh src par i) = 11"
  by (simp add: identify_node_def id_len_def)

lemma length_identify_payload [simp]: "length (identify_payload xxh ns pl) = 11"
  by (simp add: identify_payload_def id_len_def)

lemma identify_node_nonempty [simp]: "identify_node xxh src par i \<noteq> []"
  by (metis length_identify_node list.size(3) numeral_eq_Suc old.nat.distinct(1))

lemma identify_payload_nonempty [simp]: "identify_payload xxh ns pl \<noteq> []"
  by (metis length_identify_payload list.size(3) numeral_eq_Suc old.nat.distinct(1))

lemma identify_node_base62: "c \<in> set (identify_node xxh src par i) \<Longrightarrow> is_base62 c"
  by (auto simp: identify_node_def dest!: in_set_takeD intro: encode_base62_base62)

lemma base62_not_nul: "is_base62 c \<Longrightarrow> c \<noteq> byte 0"
  by (auto simp: is_base62_def is_digit_def is_upper_def is_lower_def)

lemma identify_node_no_nul: "byte 0 \<notin> set (identify_node xxh src par i)"
  using base62_not_nul identify_node_base62 by blast

text \<open>An identifier is equal for two inputs exactly when the 64-bit hashes are.\<close>

lemma identify_node_eq_iff:
  "identify_node xxh s p i = identify_node xxh s' p' i' \<longleftrightarrow>
     xxh (node_input s p i) = xxh (node_input s' p' i')"
proof -
  have "take 11 (encode_base62 v) = encode_base62 v" for v by simp
  then show ?thesis
    using encode_base62_inj by (auto simp only: identify_node_def id_len_def)
qed

lemma split_at_first:
  "x \<notin> set u \<Longrightarrow> x \<notin> set u' \<Longrightarrow> u @ x # v = u' @ x # v' \<Longrightarrow> u = u' \<and> v = v'"
proof (induction u arbitrary: u')
  case Nil
  then show ?case by (cases u') auto
next
  case (Cons a u)
  then show ?case by (cases u') auto
qed

text \<open>The separator keeps the three parts of an identifier's hash input apart.\<close>

lemma node_input_inj:
  assumes "byte 0 \<notin> set s" "byte 0 \<notin> set s'" "byte 0 \<notin> set p" "byte 0 \<notin> set p'"
    and "node_input s p i = node_input s' p' i'"
  shows "s = s' \<and> p = p' \<and> i = i'"
proof -
  from assms(5) have "s @ byte 0 # (p @ byte 0 # itoa i) = s' @ byte 0 # (p' @ byte 0 # itoa i')"
    by (simp add: node_input_def sep_def)
  with assms(1,2) have s: "s = s'" and "p @ byte 0 # itoa i = p' @ byte 0 # itoa i'"
    using split_at_first [of "byte 0" s s'] by simp_all
  then have "p = p'" "itoa i = itoa i'"
    using assms(3,4) split_at_first [of "byte 0" p p'] by simp_all
  with s show ?thesis using itoa_inj by simp
qed

subsection \<open>Content hashes\<close>

definition hex_value :: "char \<Rightarrow> nat" where
  "hex_value c = (if is_digit c then code c - 48 else code c - 87)"

lemma hex_value_digit [simp]: "n < 16 \<Longrightarrow> hex_value (hex_digit n) = n"
proof -
  have "\<forall>n\<in>set [0..<16]. hex_value (hex_digit n) = n"
    by (simp add: upt_rec hex_digit_def hex_value_def is_digit_def code_def)
  then show "n < 16 \<Longrightarrow> hex_value (hex_digit n) = n" by simp
qed

lemma code_less_256 [simp]: "code c < 256"
  by (simp add: code_def)

lemma byte_code [simp]: "byte (code c) = c"
  by (simp add: byte_def code_def)

lemma hex_digit_inj: "m < 16 \<Longrightarrow> n < 16 \<Longrightarrow> hex_digit m = hex_digit n \<Longrightarrow> m = n"
  by (metis hex_value_digit)

lemma hex_encode_inj: "hex_encode xs = hex_encode ys \<Longrightarrow> xs = ys"
proof (induction xs arbitrary: ys)
  case Nil
  then show ?case by (cases ys) (simp_all add: hex_encode_def)
next
  case (Cons x xs)
  then obtain y zs where ys: "ys = y # zs"
    by (cases ys) (simp_all add: hex_encode_def)
  have le: "code c div 16 < 16" "code c mod 16 < 16" for c
    using code_less_256 [of c] by (simp_all add: less_mult_imp_div_less del: code_less_256)
  from Cons.prems ys have "hex_digit (code x div 16) = hex_digit (code y div 16)"
    and "hex_digit (code x mod 16) = hex_digit (code y mod 16)"
    by (simp_all add: hex_encode_def)
  then have "code x div 16 = code y div 16" "code x mod 16 = code y mod 16"
    using le hex_digit_inj by blast+
  then have "code x = code y" by (metis div_mult_mod_eq)
  then have "x = y" by (metis byte_code)
  moreover from Cons.prems ys have "hex_encode xs = hex_encode zs"
    by (simp add: hex_encode_def)
  ultimately show ?case using Cons.IH ys by simp
qed

lemma put_uint64_be_inj:
  assumes "put_uint64_be v = put_uint64_be w"
  shows "v = w"
proof -
  have eq: "unat v div 256 ^ k mod 256 = unat w div 256 ^ k mod 256" if "k < 8" for k
  proof -
    from that have "put_uint64_be v ! (7 - k) = put_uint64_be w ! (7 - k)" using assms by simp
    moreover from that have "7 - k < 8" "7 - (7 - k) = k" by auto
    ultimately have "byte (unat v div 256 ^ k mod 256) = byte (unat w div 256 ^ k mod 256)"
      by (simp add: put_uint64_be_def)
    then have "code (byte (unat v div 256 ^ k mod 256)) = code (byte (unat w div 256 ^ k mod 256))"
      by (rule arg_cong)
    then show ?thesis by simp
  qed
  have "unat v mod 256 ^ n = unat w mod 256 ^ n" if "n \<le> 8" for n
    using that
  proof (induction n)
    case (Suc n)
    have "x mod 256 ^ Suc n = 256 ^ n * (x div 256 ^ n mod 256) + x mod 256 ^ n" for x :: nat
      using mod_mult2_eq [of x "256 ^ n" 256] by (simp add: mult.commute)
    with Suc eq [of n] show ?case by simp
  qed simp
  from this [of 8] have "unat v mod 256 ^ 8 = unat w mod 256 ^ 8" by simp
  moreover have "unat v < 256 ^ 8" "unat w < 256 ^ 8"
    using unsigned_less [of v, where 'a = nat] unsigned_less [of w, where 'a = nat] by simp_all
  ultimately show ?thesis by (simp add: word_unat_eq_iff)
qed

lemma length_hex_encode: "length (hex_encode bs) = 2 * length bs"
  by (induction bs) (simp_all add: hex_encode_def)

lemma length_content_hash [simp]: "length (content_hash xxh c) = 16"
  by (simp add: content_hash_def length_hex_encode put_uint64_be_def)

text \<open>
  The 16-character content hash is equal for two contents exactly when
  their 64-bit hashes are: neither the byte order nor the hexadecimal form adds collisions.
\<close>

lemma content_hash_faithful:
  "content_hash xxh c = content_hash xxh d \<longleftrightarrow> xxh c = xxh d"
  by (auto simp: content_hash_def dest!: hex_encode_inj put_uint64_be_inj)

text \<open>
  Structural identifiers separate positions: if two nodes with different
  (source, parent, sibling index) get the same identifier, and neither source name holds a NUL
  byte, then the 64-bit hash itself has collided on two different inputs.
\<close>

lemma identify_node_separates:
  assumes "byte 0 \<notin> set s" "byte 0 \<notin> set s'"
    and "p = [] \<or> (\<exists>a b k. p = identify_node xxh a b k)"
    and "p' = [] \<or> (\<exists>a b k. p' = identify_node xxh a b k)"
    and "(s, p, i) \<noteq> (s', p', i')"
    and "identify_node xxh s p i = identify_node xxh s' p' i'"
  shows "node_input s p i \<noteq> node_input s' p' i'
     \<and> xxh (node_input s p i) = xxh (node_input s' p' i')"
proof
  have "byte 0 \<notin> set p" "byte 0 \<notin> set p'"
    using assms(3,4) identify_node_no_nul by auto
  then show "node_input s p i \<noteq> node_input s' p' i'"
    using node_input_inj [OF assms(1,2)] assms(5) by blast
  show "xxh (node_input s p i) = xxh (node_input s' p' i')"
    using assms(6) by (simp add: identify_node_eq_iff)
qed

lemma identify_node_separates_witness:
  "node_input ''a.md'' [] 0 \<noteq> node_input ''b.md'' [] 0
     \<and> (\<lambda>_. 7) (node_input ''a.md'' [] 0) = (\<lambda>_. 7) (node_input ''b.md'' [] 0 :: bytes)"
proof -
  have n: "byte 0 \<notin> set ''a.md''" "byte 0 \<notin> set ''b.md''"
    by (simp_all add: byte_def char_of_def)
  have same: "identify_node (\<lambda>_. 7) ''a.md'' [] 0 = identify_node (\<lambda>_. 7) ''b.md'' [] 0"
    by (simp add: identify_node_def)
  show ?thesis
    using identify_node_separates [OF n _ _ _ same] by simp
qed

end
