(* ===== verification/Wikilink.thy ===== *)
theory Wikilink
  imports Content_Id
begin

text \<open>
  \<open>pkg/parser/wikilink.go\<close>: the \<open>[[Label; w=2; source=f; id=x]]\<close> references in a payload.
  \<open>strconv.ParseFloat\<close> is the parameter \<open>pf\<close> (None is its error); weights are real numbers, so
  the non-finite results of \<open>ParseFloat\<close> are outside the model. The two regular expressions are
  written out: a link is \<open>[[\<close>, a non-empty run without brackets, \<open>]]\<close>; a parameter candidate is
  optional blanks, a word, optional blanks and an equals sign.
\<close>

record wikilink_ref =
  ref_label :: bytes
  ref_source :: bytes
  ref_id_hint :: bytes
  ref_weight :: real

definition wikilink_id_len :: nat where
  "wikilink_id_len = 11"

definition not_bracket :: "char \<Rightarrow> bool" where
  "not_bracket c \<longleftrightarrow> c \<noteq> CHR ''['' \<and> c \<noteq> CHR '']''"

text \<open>\<open>wikilinkRe\<close> anchored at the start of \<open>s\<close>: the submatch, if it matches there.\<close>

definition wikilink_at :: "bytes \<Rightarrow> bytes option" where
  "wikilink_at s =
     (if has_prefix s ''[[''
      then let inner = takeWhile not_bracket (drop 2 s)
           in if inner \<noteq> [] \<and> has_prefix (drop (2 + length inner) s) '']]'' then Some inner else None
      else None)"

text \<open>\<open>kvCandidateRe\<close>; \<open>\s\<close> and \<open>\w\<close> are ASCII classes.\<close>

definition re_space :: "char \<Rightarrow> bool" where
  "re_space c \<longleftrightarrow> code c \<in> {9, 10, 12, 13, 32}"

definition re_word :: "char \<Rightarrow> bool" where
  "re_word c \<longleftrightarrow> is_base62 c \<or> c = CHR ''_''"

definition kv_candidate :: "bytes \<Rightarrow> bool" where
  "kv_candidate p =
     (let a = dropWhile re_space p
      in takeWhile re_word a \<noteq> [] \<and> has_prefix (dropWhile re_space (dropWhile re_word a)) ''='')"

text \<open>
  \<open>isBareID\<close> ranges over runes; a rune outside ASCII is not in the alphabet and neither is any
  byte of its encoding, so testing bytes gives the same answer.
\<close>

definition is_bare_id :: "bytes \<Rightarrow> bool" where
  "is_bare_id s \<longleftrightarrow> length s = wikilink_id_len \<and> list_all is_base62 s"

definition apply_wikilink_param ::
  "(bytes \<Rightarrow> real option) \<Rightarrow> wikilink_ref \<Rightarrow> bytes \<Rightarrow> wikilink_ref" where
  "apply_wikilink_param pf ref segment =
     (case cut segment ''='' of (raw_key, raw_val, ok) \<Rightarrow>
        if \<not> ok then ref
        else let key = trim_space raw_key; val = trim_space raw_val
             in if key = ''w'' then
                  (case pf val of Some f \<Rightarrow> ref\<lparr>ref_weight := f\<rparr> | None \<Rightarrow> ref)
                else if key = ''source'' then ref\<lparr>ref_source := val\<rparr>
                else if key = ''id'' then ref\<lparr>ref_id_hint := val\<rparr>
                else ref)"

definition with_label :: "bytes \<Rightarrow> wikilink_ref" where
  "with_label label =
     \<lparr>ref_label = label, ref_source = [], ref_id_hint = (if is_bare_id label then label else []),
      ref_weight = 1\<rparr>"

definition parse_wikilink :: "(bytes \<Rightarrow> real option) \<Rightarrow> bytes \<Rightarrow> wikilink_ref option" where
  "parse_wikilink pf inner =
     (let parts = split_on (CHR '';'') inner
      in if \<not> list_ex kv_candidate (tl parts)
         then let label = trim_space inner
              in if label = [] then None else Some (with_label label)
         else let label = trim_space (hd parts)
              in if label = [] then None
                 else Some (foldl (apply_wikilink_param pf) (with_label label) (tl parts)))"

text \<open>
  \<open>ExtractWikilinks\<close>: the text with every well-formed link reduced to \<open>[[Label]]\<close>, and the
  references in order. A link whose label is empty stays as it was. The loop over the matches
  and the copying of the text between them are one scan here.
\<close>

function extract_wikilinks ::
  "(bytes \<Rightarrow> real option) \<Rightarrow> bytes \<Rightarrow> bytes \<times> wikilink_ref list" where
  "extract_wikilinks pf [] = ([], [])"
| "extract_wikilinks pf (c # cs) =
     (case wikilink_at (c # cs) of
        None \<Rightarrow> (case extract_wikilinks pf cs of (out, refs) \<Rightarrow> (c # out, refs))
      | Some inner \<Rightarrow>
          (case extract_wikilinks pf (drop (length inner + 4) (c # cs)) of (out, refs) \<Rightarrow>
             case parse_wikilink pf inner of
               None \<Rightarrow> (take (length inner + 4) (c # cs) @ out, refs)
             | Some ref \<Rightarrow> (''[['' @ ref_label ref @ '']]'' @ out, ref # refs)))"
  by pat_completeness auto
termination
  by (relation "measure (\<lambda>(pf, s). length s)") auto

declare extract_wikilinks.simps [simp del]

subsection \<open>Lemmas\<close>

lemma wikilink_at_SomeD:
  assumes "wikilink_at s = Some inner"
  shows "s = ''[['' @ inner @ '']]'' @ drop (length inner + 4) s" "inner \<noteq> []"
    and "list_all not_bracket inner"
proof -
  from assms have pre: "has_prefix s ''[[''" and inner: "inner = takeWhile not_bracket (drop 2 s)"
    and ne: "inner \<noteq> []" and suf: "has_prefix (drop (2 + length inner) s) '']]''"
    by (auto simp: wikilink_at_def Let_def split: if_splits)
  from pre obtain t where t: "s = ''[['' @ t" by (auto simp: has_prefix_iff)
  from suf t obtain v where v: "drop (length inner) t = '']]'' @ v" by (auto simp: has_prefix_iff)
  have "inner = takeWhile not_bracket t" using inner t by simp
  then have "take (length inner) t = inner" by (metis takeWhile_eq_take)
  with v have "t = inner @ '']]'' @ v" by (metis append_take_drop_id)
  with t show "s = ''[['' @ inner @ '']]'' @ drop (length inner + 4) s" by (simp add: eval_nat_numeral)
  show "inner \<noteq> []" by (fact ne)
  show "list_all not_bracket inner"
    using inner by (auto simp: list_all_iff dest: set_takeWhileD)
qed

lemma takeWhile_append_stop:
  "list_all P xs \<Longrightarrow> \<not> P y \<Longrightarrow> takeWhile P (xs @ y # ys) = xs"
  by (induction xs) auto

lemma wikilink_at_link:
  "list_all not_bracket inner \<Longrightarrow> inner \<noteq> [] \<Longrightarrow> wikilink_at (''[['' @ inner @ '']]'' @ t) = Some inner"
  by (simp add: wikilink_at_def has_prefix_def Let_def takeWhile_append_stop not_bracket_def)

lemma wikilink_at_no_bracket: "not_bracket c \<Longrightarrow> wikilink_at (c # cs) = None"
  by (auto simp: wikilink_at_def has_prefix_def not_bracket_def)

lemma wikilink_at_close: "wikilink_at (CHR '']'' # cs) = None"
  by (simp add: wikilink_at_def has_prefix_def)

lemma foldl_param_label:
  "ref_label (foldl (apply_wikilink_param pf) r ps) = ref_label r"
proof (induction ps arbitrary: r)
  case (Cons p ps)
  have "ref_label (apply_wikilink_param pf r p) = ref_label r"
    by (auto simp: apply_wikilink_param_def Let_def split: prod.splits option.splits)
  with Cons show ?case by simp
qed simp

text \<open>The parameter pattern, declaratively; it reads a prefix, so it survives any extension.\<close>

lemma kv_candidate_iff:
  "kv_candidate p \<longleftrightarrow> (\<exists>a w b r. p = a @ w @ b @ CHR ''='' # r \<and> list_all re_space a \<and> w \<noteq> []
     \<and> list_all re_word w \<and> list_all re_space b)"
proof
  assume kv: "kv_candidate p"
  define a where "a = dropWhile re_space p"
  define d where "d = dropWhile re_space (dropWhile re_word a)"
  from kv have w: "takeWhile re_word a \<noteq> []" and "has_prefix d ''=''"
    by (simp_all add: kv_candidate_def a_def d_def Let_def)
  then obtain r where "d = CHR ''='' # r" by (auto simp: has_prefix_iff)
  then have "p = takeWhile re_space p @ takeWhile re_word a
      @ takeWhile re_space (dropWhile re_word a) @ CHR ''='' # r"
    unfolding a_def d_def by (metis takeWhile_dropWhile_id)
  moreover have "list_all P (takeWhile P xs)" for P and xs :: bytes
    by (auto simp: list_all_iff dest: set_takeWhileD)
  ultimately show "\<exists>a w b r. p = a @ w @ b @ CHR ''='' # r \<and> list_all re_space a \<and> w \<noteq> []
     \<and> list_all re_word w \<and> list_all re_space b" using w by blast
next
  assume "\<exists>a w b r. p = a @ w @ b @ CHR ''='' # r \<and> list_all re_space a \<and> w \<noteq> []
     \<and> list_all re_word w \<and> list_all re_space b"
  then obtain a w b r where p: "p = a @ w @ b @ CHR ''='' # r" "list_all re_space a" "w \<noteq> []"
    "list_all re_word w" "list_all re_space b" by blast
  have word_space: "re_word c \<Longrightarrow> \<not> re_space c" for c
    by (auto simp: re_word_def re_space_def is_base62_def is_digit_def is_upper_def is_lower_def code_def)
  have eq: "\<not> re_word (CHR ''='')" "\<not> re_space (CHR ''='')"
    by (auto simp: re_word_def re_space_def is_base62_def is_digit_def is_upper_def is_lower_def code_def)
  from p(3,4) obtain h t where w: "w = h # t" "re_word h" by (cases w) auto
  have d1: "dropWhile re_space p = w @ b @ CHR ''='' # r"
    using p(1,2) w word_space by (simp add: dropWhile_append list_all_iff)
  have "\<not> re_word (hd (b @ CHR ''='' # r))"
    using p(5) eq word_space by (cases b) auto
  then have d2: "takeWhile re_word (w @ b @ CHR ''='' # r) = w"
    and d3: "dropWhile re_word (w @ b @ CHR ''='' # r) = b @ CHR ''='' # r"
    using p(4) by (cases b; auto simp: takeWhile_append dropWhile_append list_all_iff)+
  have "dropWhile re_space (b @ CHR ''='' # r) = CHR ''='' # r"
    using p(5) eq by (simp add: dropWhile_append list_all_iff)
  with d1 d2 d3 p(3) show "kv_candidate p"
    by (simp add: kv_candidate_def Let_def has_prefix_def)
qed

lemma kv_candidate_append: "kv_candidate p \<Longrightarrow> kv_candidate (p @ q)"
  unfolding kv_candidate_iff by (metis append.assoc append_Cons)

lemma no_param_infix:
  assumes "\<not> list_ex kv_candidate (tl (split_on c (u @ l @ v)))"
  shows "\<not> list_ex kv_candidate (tl (split_on c l))"
proof
  assume "list_ex kv_candidate (tl (split_on c l))"
  then obtain a b where l: "l = a @ c # b" and kv: "kv_candidate (takeWhile (\<lambda>x. x \<noteq> c) b)"
    by (auto simp: list_ex_iff set_tl_split_on)
  have "\<exists>q. takeWhile (\<lambda>x. x \<noteq> c) (b @ v) = takeWhile (\<lambda>x. x \<noteq> c) b @ q"
    by (cases "\<forall>x\<in>set b. x \<noteq> c") (auto simp: takeWhile_append takeWhile_eq_all_conv [THEN iffD2])
  with kv have "kv_candidate (takeWhile (\<lambda>x. x \<noteq> c) (b @ v))"
    using kv_candidate_append by metis
  moreover have "u @ l @ v = (u @ a) @ c # (b @ v)" using l by simp
  ultimately have "list_ex kv_candidate (tl (split_on c (u @ l @ v)))"
    unfolding list_ex_iff set_tl_split_on by blast
  with assms show False by contradiction
qed

lemma parse_wikilink_label:
  assumes "parse_wikilink pf inner = Some ref"
  shows "ref_label ref \<noteq> []" "set (ref_label ref) \<subseteq> set inner"
    and "\<exists>ref'. parse_wikilink pf (ref_label ref) = Some ref' \<and> ref_label ref' = ref_label ref"
proof -
  let ?parts = "split_on (CHR '';'') inner" and ?l = "ref_label ref"
  have l: "?l \<noteq> [] \<and> (if list_ex kv_candidate (tl ?parts) then ?l = trim_space (hd ?parts)
      else ?l = trim_space inner)"
    using assms by (auto simp: parse_wikilink_def Let_def foldl_param_label with_label_def
        split: if_splits)
  then show "?l \<noteq> []" by blast
  have hd_sub: "set (hd ?parts) \<subseteq> set inner"
    by (auto simp: hd_split_on dest: set_takeWhileD)
  show "set ?l \<subseteq> set inner"
    using l hd_sub set_trim_space [of inner] set_trim_space [of "hd ?parts"]
    by (auto split: if_splits)
  have "\<not> list_ex kv_candidate (tl (split_on (CHR '';'') ?l))"
  proof (cases "list_ex kv_candidate (tl ?parts)")
    case True
    then have "set ?l \<subseteq> set (hd ?parts)" using l set_trim_space by simp
    then have "CHR '';'' \<notin> set ?l" by (auto simp: hd_split_on dest: set_takeWhileD)
    then show ?thesis by (simp add: split_on_id)
  next
    case False
    obtain u v where "inner = u @ trim_space inner @ v" using trim_space_infix by blast
    with False l no_param_infix show ?thesis by metis
  qed
  moreover have "trim_space ?l = ?l" using l by (auto split: if_splits)
  ultimately show "\<exists>ref'. parse_wikilink pf ?l = Some ref' \<and> ref_label ref' = ?l"
    using l by (simp add: parse_wikilink_def with_label_def Let_def)
qed

subsection \<open>The rewritten text\<close>

abbreviation rewritten :: "(bytes \<Rightarrow> real option) \<Rightarrow> bytes \<Rightarrow> bytes" where
  "rewritten pf s \<equiv> fst (extract_wikilinks pf s)"

lemma rewritten_Nil [simp]: "rewritten pf [] = []"
  by (simp add: extract_wikilinks.simps)

lemma rewritten_None:
  "wikilink_at (c # cs) = None \<Longrightarrow> rewritten pf (c # cs) = c # rewritten pf cs"
  by (simp add: extract_wikilinks.simps split: prod.splits)

lemma rewritten_link:
  assumes "list_all not_bracket inner" "inner \<noteq> []"
  shows "rewritten pf (''[['' @ inner @ '']]'' @ t) =
    (case parse_wikilink pf inner of None \<Rightarrow> ''[['' @ inner @ '']]''
       | Some ref \<Rightarrow> ''[['' @ ref_label ref @ '']]'') @ rewritten pf t"
proof -
  have "wikilink_at (''[['' @ inner @ '']]'' @ t) = Some inner"
    using assms by (rule wikilink_at_link)
  then show ?thesis
    by (simp add: extract_wikilinks.simps eval_nat_numeral split: prod.splits option.splits)
qed

lemma rewritten_run: "list_all not_bracket r \<Longrightarrow> rewritten pf (r @ t) = r @ rewritten pf t"
  by (induction r) (auto simp: rewritten_None wikilink_at_no_bracket)

lemma rewritten_close: "rewritten pf (CHR '']'' # t) = CHR '']'' # rewritten pf t"
  by (simp add: rewritten_None wikilink_at_close)

lemma rewritten_bracket:
  assumes "rewritten pf s = r"
  shows "r = [] \<longleftrightarrow> s = []"
    and "s \<noteq> [] \<Longrightarrow> not_bracket (hd r) \<longleftrightarrow> not_bracket (hd s)"
    and "s \<noteq> [] \<Longrightarrow> wikilink_at s \<noteq> None \<Longrightarrow> \<exists>t. r = ''[['' @ t"
    and "s \<noteq> [] \<Longrightarrow> hd r = hd s"
proof -
  have link: "\<exists>t. rewritten pf s = ''[['' @ t" if "wikilink_at s \<noteq> None"
  proof -
    from that obtain inner where "wikilink_at s = Some inner" by blast
    note D = wikilink_at_SomeD [OF this]
    show ?thesis
      by (subst D(1), subst rewritten_link [OF D(3,2)]) (auto split: option.splits)
  qed
  have head: "rewritten pf s \<noteq> [] \<and> hd (rewritten pf s) = hd s" if "s \<noteq> []"
  proof (cases "wikilink_at s")
    case None
    with that show ?thesis by (cases s) (simp_all add: rewritten_None)
  next
    case (Some inner)
    then have "hd s = CHR ''[''" by (subst wikilink_at_SomeD(1) [OF Some]) simp
    with Some link show ?thesis by fastforce
  qed
  show "r = [] \<longleftrightarrow> s = []" "s \<noteq> [] \<Longrightarrow> not_bracket (hd r) \<longleftrightarrow> not_bracket (hd s)"
    "s \<noteq> [] \<Longrightarrow> hd r = hd s"
    using head assms by auto
  show "s \<noteq> [] \<Longrightarrow> wikilink_at s \<noteq> None \<Longrightarrow> \<exists>t. r = ''[['' @ t"
    using link assms by auto
qed

lemma rewritten_eq_close:
  assumes "rewritten pf s = CHR '']'' # v"
  shows "\<exists>x. s = CHR '']'' # x \<and> rewritten pf x = v"
proof -
  from assms have "s \<noteq> []" by auto
  with assms have "hd s = CHR '']''" using rewritten_bracket(4) [OF assms] by simp
  with \<open>s \<noteq> []\<close> obtain x where "s = CHR '']'' # x" by (cases s) auto
  with assms show ?thesis by (simp add: rewritten_close)
qed

lemma run_then_close:
  assumes "rewritten pf s = inner @ CHR '']'' # v" "list_all not_bracket inner"
  shows "\<exists>x. s = inner @ CHR '']'' # x \<and> rewritten pf x = v"
proof -
  define r d where "r = takeWhile not_bracket s" and "d = dropWhile not_bracket s"
  have s: "s = r @ d" by (simp add: r_def d_def)
  have r: "list_all not_bracket r" by (auto simp: r_def list_all_iff dest: set_takeWhileD)
  have eq: "r @ rewritten pf d = inner @ CHR '']'' # v"
    using assms(1) s r by (simp add: rewritten_run)
  have close: "\<not> not_bracket (CHR '']'')" by (simp add: not_bracket_def)
  have "d \<noteq> []"
  proof
    assume "d = []"
    with eq r close show False by (auto simp: list_all_iff)
  qed
  then have "\<not> not_bracket (hd d)" using hd_dropWhile [of not_bracket s] by (simp add: d_def)
  with \<open>d \<noteq> []\<close> have "rewritten pf d \<noteq> []" "\<not> not_bracket (hd (rewritten pf d))"
    using rewritten_bracket [where pf = pf and s = d, OF refl] by auto
  then obtain h t where ht: "rewritten pf d = h # t" "\<not> not_bracket h"
    by (cases "rewritten pf d") auto
  have "takeWhile not_bracket (r @ h # t) = r"
    using r ht(2) by (rule takeWhile_append_stop)
  moreover have "takeWhile not_bracket (inner @ CHR '']'' # v) = inner"
    using assms(2) close by (rule takeWhile_append_stop)
  ultimately have "r = inner" using eq ht(1) by simp
  with eq have "rewritten pf d = CHR '']'' # v" by simp
  then obtain x where "d = CHR '']'' # x" "rewritten pf x = v"
    using rewritten_eq_close by blast
  with s \<open>r = inner\<close> show ?thesis by simp
qed

lemma rewriting_makes_no_link:
  assumes "wikilink_at (c # cs) = None"
  shows "wikilink_at (c # rewritten pf cs) = None"
proof (rule ccontr)
  assume "wikilink_at (c # rewritten pf cs) \<noteq> None"
  then obtain inner where at: "wikilink_at (c # rewritten pf cs) = Some inner" by blast
  note D = wikilink_at_SomeD [OF at]
  define v where "v = drop (length inner + 4) (c # rewritten pf cs)"
  from D(1) have "c # rewritten pf cs = ''[['' @ inner @ '']]'' @ v" unfolding v_def .
  then have c: "c = CHR ''[''" and out: "rewritten pf cs = CHR ''['' # inner @ '']]'' @ v"
    by simp_all
  then have "cs \<noteq> []" by auto
  then have "hd cs = CHR ''[''" using rewritten_bracket(4) [OF out] by simp
  with \<open>cs \<noteq> []\<close> obtain ds where cs: "cs = CHR ''['' # ds" by (cases cs) auto
  have "wikilink_at cs = None"
  proof (rule ccontr)
    assume "wikilink_at cs \<noteq> None"
    with \<open>cs \<noteq> []\<close> obtain t where "rewritten pf cs = ''[['' @ t"
      using rewritten_bracket(3) [where pf = pf and s = cs, OF refl] by blast
    with out have "hd inner = CHR ''[''" using D(2) by (cases inner) auto
    with D(2,3) show False by (cases inner) (auto simp: not_bracket_def)
  qed
  with cs out have "rewritten pf ds = inner @ CHR '']'' # (CHR '']'' # v)"
    by (simp add: rewritten_None)
  then obtain x where x: "ds = inner @ CHR '']'' # x" "rewritten pf x = CHR '']'' # v"
    using run_then_close D(3) by blast
  then obtain y where "x = CHR '']'' # y" using rewritten_eq_close by blast
  with x cs c have eq: "c # cs = ''[['' @ inner @ '']]'' @ y" by simp
  have "wikilink_at (c # cs) = Some inner"
    unfolding eq by (rule wikilink_at_link [OF D(3,2)])
  with assms show False by simp
qed

text \<open>
  Rewriting the links of a payload to \<open>[[Label]]\<close> is idempotent: a
  payload that has been through the parser once (as every stored payload has) is not changed
  by a second pass, whatever brackets, parameters or malformed links it contains.
\<close>

lemma wikilink_rewrite_idempotent:
  "fst (extract_wikilinks pf (fst (extract_wikilinks pf s))) = fst (extract_wikilinks pf s)"
proof (induction pf s rule: extract_wikilinks.induct)
  case (2 pf c cs)
  show ?case
  proof (cases "wikilink_at (c # cs)")
    case None
    then show ?thesis
      using "2.IH"(1) rewriting_makes_no_link by (simp add: rewritten_None)
  next
    case (Some inner)
    note D = wikilink_at_SomeD [OF Some]
    define rest where "rest = drop (length inner + 4) (c # cs)"
    from Some "2.IH"(2) have IH: "rewritten pf (rewritten pf rest) = rewritten pf rest"
      by (simp add: rest_def)
    have s: "c # cs = ''[['' @ inner @ '']]'' @ rest" using D(1) unfolding rest_def .
    show ?thesis
    proof (cases "parse_wikilink pf inner")
      case None
      then have "rewritten pf (''[['' @ inner @ '']]'' @ t) = ''[['' @ inner @ '']]'' @ rewritten pf t" for t
        by (subst rewritten_link [OF D(3,2)]) simp
      then show ?thesis unfolding s by (simp only: IH)
    next
      case (Some ref)
      note L = parse_wikilink_label [OF Some]
      have nb: "list_all not_bracket (ref_label ref)"
        using L(2) D(3) by (auto simp: list_all_iff)
      have first: "rewritten pf (''[['' @ inner @ '']]'' @ t) = ''[['' @ ref_label ref @ '']]'' @ rewritten pf t"
        for t by (subst rewritten_link [OF D(3,2)]) (simp add: Some)
      have "rewritten pf (''[['' @ ref_label ref @ '']]'' @ t) = ''[['' @ ref_label ref @ '']]'' @ rewritten pf t"
        for t using L(3) by (subst rewritten_link [OF nb L(1)]) auto
      then show ?thesis unfolding s by (simp only: first IH)
    qed
  qed
qed simp

end
