(* ===== verification/Context_Tree.thy ===== *)
theory Context_Tree
  imports Wikilink
begin

text \<open>
  \<open>pkg/parser/ast.go\<close>: the tree every parser produces. A Go \<open>ContextNode\<close> is a record with a
  slice of child pointers; the model separates the record \<open>cnode\<close> (all fields but the children)
  from the tree \<open>ctree\<close>. Code that walks the flattened slice and mutates each node through its
  pointer is a map over the tree (\<open>map_tree\<close>).
\<close>

record cnode =
  c_refs :: "wikilink_ref list"
  c_id :: node_id
  c_parent :: node_id
  c_source :: bytes
  c_label :: bytes
  c_content :: bytes
  c_hash :: bytes
  c_format :: bytes
  c_temp :: "real option"
  c_depth :: int
  c_tokens :: int
  c_pin :: bool
  c_type :: bytes

datatype ctree = CTree (cdata: cnode) (ckids: "ctree list")

text \<open>Node types and formats are strings in the code, with these constants.\<close>

definition node_heading :: bytes where "node_heading = ''heading''"
definition node_list :: bytes where "node_list = ''list''"
definition node_table :: bytes where "node_table = ''table''"
definition node_code :: bytes where "node_code = ''code''"
definition node_text :: bytes where "node_text = ''text''"
definition node_kv :: bytes where "node_kv = ''kv''"
definition node_preamble :: bytes where "node_preamble = ''preamble''"
definition node_embed :: bytes where "node_embed = ''embed''"

definition format_plain :: bytes where "format_plain = ''plain''"
definition format_toon :: bytes where "format_toon = ''toon''"
definition format_mathml :: bytes where "format_mathml = ''mathml''"
definition format_latex :: bytes where "format_latex = ''latex''"

definition max_inline_fields :: nat where "max_inline_fields = 5"

lemmas node_type_defs = node_heading_def node_list_def node_table_def node_code_def node_text_def
  node_kv_def node_preamble_def node_embed_def

lemmas format_defs = format_plain_def format_toon_def format_mathml_def format_latex_def

text \<open>The zero value of a \<open>ContextNode\<close>, from which the composite literals of the code start.\<close>

definition zero_cnode :: cnode where
  "zero_cnode = \<lparr>c_refs = [], c_id = [], c_parent = [], c_source = [], c_label = [], c_content = [],
     c_hash = [], c_format = [], c_temp = None, c_depth = 0, c_tokens = 0, c_pin = False, c_type = []\<rparr>"

fun collect_nodes :: "cnode list \<Rightarrow> ctree list \<Rightarrow> cnode list" where
  "collect_nodes out [] = out"
| "collect_nodes out (CTree n ks # ts) = collect_nodes (collect_nodes (out @ [n]) ks) ts"

definition flatten :: "ctree list \<Rightarrow> cnode list" where
  "flatten roots = collect_nodes [] roots"

text \<open>A later node with the same identifier overwrites an earlier one.\<close>

definition flatten_map :: "ctree list \<Rightarrow> node_id \<Rightarrow> cnode option" where
  "flatten_map roots = map_of (rev (map (\<lambda>n. (c_id n, n)) (flatten roots)))"

fun map_tree :: "(cnode \<Rightarrow> cnode) \<Rightarrow> ctree \<Rightarrow> ctree" where
  "map_tree f (CTree n ks) = CTree (f n) (map (map_tree f) ks)"

lemma collect_nodes_append: "collect_nodes (out @ acc) ts = out @ collect_nodes acc ts"
  by (induction acc ts arbitrary: out rule: collect_nodes.induct) simp_all

lemma collect_nodes_acc: "collect_nodes out ts = out @ collect_nodes [] ts"
  using collect_nodes_append [of out "[]" ts] by simp

lemma flatten_Nil [simp]: "flatten [] = []"
  by (simp add: flatten_def)

lemma flatten_Cons [simp]: "flatten (CTree n ks # ts) = n # flatten ks @ flatten ts"
  by (simp add: flatten_def collect_nodes_acc [of "[n]"] collect_nodes_acc [of "n # collect_nodes [] ks"])

lemma flatten_append [simp]: "flatten (xs @ ys) = flatten xs @ flatten ys"
proof (induction xs)
  case (Cons t xs)
  then show ?case by (cases t) simp
qed simp

text \<open>Induction over a forest: first child, next sibling.\<close>

lemma forest_induct [case_names Nil Cons]:
  assumes "P []" and "\<And>n ks ts. P ks \<Longrightarrow> P ts \<Longrightarrow> P (CTree n ks # ts)"
  shows "P ts"
proof -
  have "P ts" for out :: "cnode list"
    by (induction out ts rule: collect_nodes.induct) (auto intro: assms)
  then show ?thesis .
qed

lemma flatten_map_tree: "flatten (map (map_tree f) ts) = map f (flatten ts)"
  by (induction ts rule: forest_induct) simp_all

lemma flatten_map_lookup:
  assumes "distinct (map c_id (flatten roots))" "n \<in> set (flatten roots)"
  shows "flatten_map roots (c_id n) = Some n"
  using assms by (auto simp: flatten_map_def rev_map [symmetric] comp_def intro!: map_of_is_SomeI)

lemma flatten_map_None: "flatten_map roots i = None \<longleftrightarrow> i \<notin> c_id ` set (flatten roots)"
  by (auto simp: flatten_map_def map_of_eq_None_iff image_iff)

lemma flatten_map_SomeD: "flatten_map roots i = Some n \<Longrightarrow> n \<in> set (flatten roots) \<and> c_id n = i"
  by (auto simp: flatten_map_def dest!: map_of_SomeD)

end
