(* ===== verification/Diff_Engine.thy ===== *)
theory Diff_Engine
  imports Context_Tree
begin

text \<open>
  \<open>pkg/diff\<close>: deltas between a flattened tree and a previous state, and the cursor hashes. The Go
  map \<open>prev\<close> is an association list (its range loop only collects keys that are sorted
  afterwards). A delta's \<open>Op\<close> is the datatype \<open>op\<close>; the rows of the diffs table store its
  string.
\<close>

datatype op = OpAdd | OpMod | OpRem

definition op_string :: "op \<Rightarrow> bytes" where
  "op_string o' = (case o' of OpAdd \<Rightarrow> ''add'' | OpMod \<Rightarrow> ''mod'' | OpRem \<Rightarrow> ''rem'')"

record delta =
  d_node :: node_id
  d_old_hash :: bytes
  d_new_hash :: bytes
  d_old_content :: bytes
  d_new_content :: bytes
  d_op :: op

record node_state =
  st_hash :: bytes
  st_content :: bytes

type_synonym prev_state = "(node_id \<times> node_state) list"

definition snapshot_from_nodes :: "ctree list \<Rightarrow> prev_state" where
  "snapshot_from_nodes roots =
     rev (map (\<lambda>n. (c_id n, \<lparr>st_hash = c_hash n, st_content = c_content n\<rparr>)) (flatten roots))"

definition add_delta :: "cnode \<Rightarrow> delta" where
  "add_delta n = \<lparr>d_node = c_id n, d_old_hash = [], d_new_hash = c_hash n,
     d_old_content = [], d_new_content = c_content n, d_op = OpAdd\<rparr>"

definition mod_delta :: "node_state \<Rightarrow> cnode \<Rightarrow> delta" where
  "mod_delta old n = \<lparr>d_node = c_id n, d_old_hash = st_hash old, d_new_hash = c_hash n,
     d_old_content = st_content old, d_new_content = c_content n, d_op = OpMod\<rparr>"

definition rem_delta_of :: "node_id \<Rightarrow> node_state \<Rightarrow> delta" where
  "rem_delta_of i old = \<lparr>d_node = i, d_old_hash = st_hash old, d_new_hash = [],
     d_old_content = st_content old, d_new_content = [], d_op = OpRem\<rparr>"

definition node_deltas :: "prev_state \<Rightarrow> cnode \<Rightarrow> delta list" where
  "node_deltas prev n =
     (case map_of prev (c_id n) of
        None \<Rightarrow> [add_delta n]
      | Some old \<Rightarrow> if st_hash old \<noteq> c_hash n then [mod_delta old n] else [])"

definition removed_ids :: "cnode list \<Rightarrow> prev_state \<Rightarrow> node_id list" where
  "removed_ids flat prev =
     sort (filter (\<lambda>i. i \<notin> c_id ` set flat) (remdups (map fst prev)))"

definition diff_flat :: "cnode list \<Rightarrow> prev_state \<Rightarrow> delta list" where
  "diff_flat flat prev =
     concat (map (node_deltas prev) flat) @
     map (\<lambda>i. rem_delta_of i (the (map_of prev i))) (removed_ids flat prev)"

definition diff_roots :: "ctree list \<Rightarrow> prev_state \<Rightarrow> delta list" where
  "diff_roots roots prev = diff_flat (flatten roots) prev"

subsection \<open>Cursor hashes\<close>

text \<open>
  \<open>xxhash.Digest\<close> is a streaming hash: \<open>Sum64\<close> after several writes is the hash of the
  concatenation of what was written.
\<close>

definition write_id :: "int \<Rightarrow> bytes" where
  "write_id i = put_uint64_be (word_of_int i)"

definition flat_pairs :: "cnode list \<Rightarrow> bytes" where
  "flat_pairs flat = concat (sort (map (\<lambda>n. c_id n @ '':'' @ c_hash n) flat))"

definition delta_pairs :: "delta list \<Rightarrow> bytes" where
  "delta_pairs ds = concat (sort (map (\<lambda>d. op_string (d_op d) @ '':'' @ d_node d @ '':''
       @ d_old_hash d @ '':'' @ d_new_hash d) ds))"

definition sum_hex :: "hash64 \<Rightarrow> bytes \<Rightarrow> bytes" where
  "sum_hex xxh s = hex_encode (put_uint64_be (xxh s))"

definition cursor_hash_flat :: "hash64 \<Rightarrow> cnode list \<Rightarrow> bytes" where
  "cursor_hash_flat xxh flat = sum_hex xxh (flat_pairs flat)"

definition cursor_hash :: "hash64 \<Rightarrow> ctree list \<Rightarrow> bytes" where
  "cursor_hash xxh roots = cursor_hash_flat xxh (flatten roots)"

definition cursor_hash_for_compile :: "hash64 \<Rightarrow> int \<Rightarrow> cnode list \<Rightarrow> bytes" where
  "cursor_hash_for_compile xxh prev_head flat = sum_hex xxh (write_id prev_head @ flat_pairs flat)"

definition cursor_hash_for_change :: "hash64 \<Rightarrow> int \<Rightarrow> delta list \<Rightarrow> bytes" where
  "cursor_hash_for_change xxh prev_head ds = sum_hex xxh (write_id prev_head @ delta_pairs ds)"

definition cursor_hash_for_rollback :: "hash64 \<Rightarrow> int \<Rightarrow> int \<Rightarrow> delta list \<Rightarrow> bytes" where
  "cursor_hash_for_rollback xxh prev_head target ds =
     sum_hex xxh (write_id prev_head @ write_id target @ delta_pairs ds)"

text \<open>The cursor hash does not depend on the order in which nodes are visited.\<close>

lemma cursor_hash_order_free:
  assumes "mset flat = mset flat'"
  shows "cursor_hash_for_compile xxh prev_head flat = cursor_hash_for_compile xxh prev_head flat'"
proof -
  let ?f = "\<lambda>n. c_id n @ '':'' @ c_hash n"
  have "mset (sort (map ?f flat')) = mset (map ?f flat)"
    using assms by simp
  then have "sort (map ?f flat) = sort (map ?f flat')"
    by (rule properties_for_sort) simp
  then show ?thesis by (simp add: cursor_hash_for_compile_def flat_pairs_def)
qed

lemma write_id_inj:
  assumes "0 \<le> i" "i < 2 ^ 63" "0 \<le> j" "j < 2 ^ 63" "write_id i = write_id j"
  shows "i = j"
proof -
  have "(word_of_int i :: 64 word) = word_of_int j"
    using assms(5) put_uint64_be_inj by (simp add: write_id_def)
  then have "uint (word_of_int i :: 64 word) = uint (word_of_int j :: 64 word)" by simp
  then have "i mod 2 ^ 64 = j mod 2 ^ 64" by (simp add: uint_word_of_int)
  with assms(1-4) show ?thesis by simp
qed

subsection \<open>What a delta list does to a state\<close>

definition delta_target :: "delta \<Rightarrow> node_state option" where
  "delta_target d = (case d_op d of
       OpRem \<Rightarrow> None | _ \<Rightarrow> Some \<lparr>st_hash = d_new_hash d, st_content = d_new_content d\<rparr>)"

definition delta_source :: "delta \<Rightarrow> node_state option" where
  "delta_source d = (case d_op d of
       OpAdd \<Rightarrow> None | _ \<Rightarrow> Some \<lparr>st_hash = d_old_hash d, st_content = d_old_content d\<rparr>)"

definition apply_deltas :: "delta list \<Rightarrow> (node_id \<rightharpoonup> node_state) \<Rightarrow> (node_id \<rightharpoonup> node_state)" where
  "apply_deltas ds m = fold (\<lambda>d m. m(d_node d := delta_target d)) ds m"

definition undo_deltas :: "delta list \<Rightarrow> (node_id \<rightharpoonup> node_state) \<Rightarrow> (node_id \<rightharpoonup> node_state)" where
  "undo_deltas ds m = fold (\<lambda>d m. m(d_node d := delta_source d)) (rev ds) m"

definition state_of :: "cnode list \<Rightarrow> node_id \<rightharpoonup> node_state" where
  "state_of flat = map_of (map (\<lambda>n. (c_id n, \<lparr>st_hash = c_hash n, st_content = c_content n\<rparr>)) flat)"

lemma fold_update_lookup:
  assumes "distinct (map k xs)"
  shows "fold (\<lambda>x m. m(k x := f x)) xs m i =
    (case lookup_by k i xs of None \<Rightarrow> m i | Some x \<Rightarrow> f x)"
  using assms
proof (induction xs arbitrary: m)
  case (Cons x xs)
  then have "k x = i \<Longrightarrow> lookup_by k i xs = None" by (auto simp: lookup_by_None_iff)
  with Cons show ?case by (auto split: option.splits)
qed simp

lemma lookup_by_rev:
  assumes "distinct (map k xs)"
  shows "lookup_by k i (rev xs) = lookup_by k i xs"
proof (cases "lookup_by k i xs")
  case (Some x)
  then have "x \<in> set (rev xs)" "k x = i" by (auto dest: lookup_by_SomeD)
  then have "lookup_by k i (rev xs) = Some x"
    using assms lookup_by_mem [of k "rev xs" x] by (auto simp: rev_map [symmetric])
  with Some show ?thesis by simp
next
  case None
  then have "lookup_by k i (rev xs) = None" by (simp add: lookup_by_None_iff)
  with None show ?thesis by simp
qed

lemma apply_deltas_lookup:
  "distinct (map d_node ds) \<Longrightarrow> apply_deltas ds m i =
     (case lookup_by d_node i ds of None \<Rightarrow> m i | Some d \<Rightarrow> delta_target d)"
  by (simp add: apply_deltas_def fold_update_lookup)

lemma undo_deltas_lookup:
  "distinct (map d_node ds) \<Longrightarrow> undo_deltas ds m i =
     (case lookup_by d_node i ds of None \<Rightarrow> m i | Some d \<Rightarrow> delta_source d)"
  by (simp add: undo_deltas_def fold_update_lookup rev_map [symmetric] lookup_by_rev)

lemma node_deltas_node: "d \<in> set (node_deltas prev n) \<Longrightarrow> d_node d = c_id n"
  by (auto simp: node_deltas_def add_delta_def mod_delta_def split: option.splits if_splits)

lemma set_removed_ids: "set (removed_ids flat prev) = dom (map_of prev) - c_id ` set flat"
  by (auto simp: removed_ids_def dom_map_of_conv_image_fst)

lemma distinct_removed_ids [simp]: "distinct (removed_ids flat prev)"
  by (simp add: removed_ids_def)

lemma map_d_node_diff:
  "map d_node (diff_flat flat prev) =
     concat (map (\<lambda>n. map d_node (node_deltas prev n)) flat) @ removed_ids flat prev"
  by (simp add: diff_flat_def map_concat comp_def rem_delta_of_def)

lemma distinct_node_deltas:
  assumes "distinct (map c_id flat)"
  shows "distinct (concat (map (\<lambda>n. map d_node (node_deltas prev n)) flat))
    \<and> set (concat (map (\<lambda>n. map d_node (node_deltas prev n)) flat)) \<subseteq> c_id ` set flat"
  using assms
proof (induction flat)
  case (Cons n flat)
  then show ?case
    by (auto simp: node_deltas_def add_delta_def mod_delta_def split: option.splits)
qed simp

lemma distinct_diff_flat:
  assumes "distinct (map c_id flat)"
  shows "distinct (map d_node (diff_flat flat prev))"
  unfolding map_d_node_diff using distinct_node_deltas [OF assms, of prev]
  by (auto simp: set_removed_ids)

lemma lookup_concat_node_deltas:
  assumes "distinct (map c_id flat)" "n \<in> set flat"
  shows "lookup_by d_node (c_id n) (concat (map (node_deltas prev) flat)) =
    lookup_by d_node (c_id n) (node_deltas prev n)"
  using assms
proof (induction flat)
  case (Cons m flat)
  show ?case
  proof (cases "m = n")
    case True
    have "lookup_by d_node (c_id n) (concat (map (node_deltas prev) flat)) = None"
      using Cons.prems True by (auto simp: lookup_by_None_iff image_iff dest!: node_deltas_node)
    with True show ?thesis by (simp add: lookup_by_append split: option.splits)
  next
    case False
    with Cons.prems have "c_id m \<noteq> c_id n" "n \<in> set flat" by auto
    then have "lookup_by d_node (c_id n) (node_deltas prev m) = None"
      by (auto simp: lookup_by_None_iff dest!: node_deltas_node)
    with Cons False show ?thesis by (simp add: lookup_by_append)
  qed
qed simp

lemma lookup_diff_flat_live:
  assumes "distinct (map c_id flat)" "n \<in> set flat"
  shows "lookup_by d_node (c_id n) (diff_flat flat prev) =
    (case map_of prev (c_id n) of None \<Rightarrow> Some (add_delta n)
       | Some old \<Rightarrow> if st_hash old \<noteq> c_hash n then Some (mod_delta old n) else None)"
proof -
  have "lookup_by d_node (c_id n)
      (map (\<lambda>i. rem_delta_of i (the (map_of prev i))) (removed_ids flat prev)) = None"
    using assms(2) by (auto simp: lookup_by_None_iff rem_delta_of_def set_removed_ids)
  then show ?thesis
    by (auto simp: diff_flat_def lookup_by_append lookup_concat_node_deltas [OF assms]
        node_deltas_def add_delta_def mod_delta_def split: option.splits)
qed

lemma lookup_diff_flat_gone:
  assumes "i \<notin> c_id ` set flat"
  shows "lookup_by d_node i (diff_flat flat prev) = map_option (rem_delta_of i) (map_of prev i)"
proof -
  have "lookup_by d_node i (concat (map (node_deltas prev) flat)) = None"
    using assms by (auto simp: lookup_by_None_iff dest!: node_deltas_node)
  moreover have "lookup_by d_node i (map (\<lambda>i. rem_delta_of i (the (map_of prev i))) is) =
      (if i \<in> set is then Some (rem_delta_of i (the (map_of prev i))) else None)" for "is"
    by (induction "is") (auto simp: rem_delta_of_def)
  ultimately show ?thesis
    using assms by (auto simp: diff_flat_def lookup_by_append set_removed_ids split: option.splits)
qed


subsection \<open>Exactness of a diff\<close>

text \<open>
  Only hashes are compared, so a diff is exact for the contents when equal hashes of one node mean
  equal contents (which \<open>content_hash_faithful\<close> derives for a collision-free hash).
\<close>

definition hashes_agree :: "cnode list \<Rightarrow> prev_state \<Rightarrow> bool" where
  "hashes_agree flat prev = list_all (\<lambda>n. case map_of prev (c_id n) of
       None \<Rightarrow> True
     | Some old \<Rightarrow> st_hash old = c_hash n \<longrightarrow> st_content old = c_content n) flat"

lemma state_of_mem:
  assumes "distinct (map c_id flat)" "n \<in> set flat"
  shows "state_of flat (c_id n) = Some \<lparr>st_hash = c_hash n, st_content = c_content n\<rparr>"
  unfolding state_of_def
  by (rule map_of_is_SomeI) (use assms in \<open>auto simp: comp_def\<close>)

lemma state_of_None: "i \<notin> c_id ` set flat \<Longrightarrow> state_of flat i = None"
  by (auto simp: state_of_def map_of_eq_None_iff image_iff)

lemma hashes_agreeD:
  "\<lbrakk>hashes_agree flat prev; n \<in> set flat; map_of prev (c_id n) = Some old; st_hash old = c_hash n\<rbrakk>
    \<Longrightarrow> old = \<lparr>st_hash = c_hash n, st_content = c_content n\<rparr>"
  by (auto simp: hashes_agree_def list_all_iff split: option.splits)

lemma delta_ends [simp]:
  "delta_target (add_delta n) = Some \<lparr>st_hash = c_hash n, st_content = c_content n\<rparr>"
  "delta_target (mod_delta old n) = Some \<lparr>st_hash = c_hash n, st_content = c_content n\<rparr>"
  "delta_target (rem_delta_of i old) = None"
  "delta_source (add_delta n) = None"
  "delta_source (mod_delta old n) = Some old"
  "delta_source (rem_delta_of i old) = Some old"
  by (simp_all add: delta_target_def delta_source_def add_delta_def mod_delta_def rem_delta_of_def)

lemma diff_apply_lookup:
  assumes "distinct (map c_id flat)" "hashes_agree flat prev"
  shows "apply_deltas (diff_flat flat prev) (map_of prev) i = state_of flat i"
proof (cases "i \<in> c_id ` set flat")
  case True
  then obtain n where n: "n \<in> set flat" "i = c_id n" by auto
  then show ?thesis
    by (auto simp: apply_deltas_lookup distinct_diff_flat assms lookup_diff_flat_live state_of_mem
        split: option.splits dest: hashes_agreeD [OF assms(2)])
next
  case False
  then show ?thesis
    by (auto simp: apply_deltas_lookup distinct_diff_flat assms lookup_diff_flat_gone state_of_None
        split: option.splits)
qed

lemma diff_undo_lookup:
  assumes "distinct (map c_id flat)" "hashes_agree flat prev"
  shows "undo_deltas (diff_flat flat prev) (state_of flat) i = map_of prev i"
proof (cases "i \<in> c_id ` set flat")
  case True
  then obtain n where n: "n \<in> set flat" "i = c_id n" by auto
  then show ?thesis
    by (auto simp: undo_deltas_lookup distinct_diff_flat assms lookup_diff_flat_live state_of_mem
        split: option.splits dest: hashes_agreeD [OF assms(2)])
next
  case False
  then show ?thesis
    by (auto simp: undo_deltas_lookup distinct_diff_flat assms lookup_diff_flat_gone state_of_None
        split: option.splits)
qed

text \<open>C6:
  \<open>DiffFlat\<close> is exact: replaying its deltas on the previous state yields the state of the
  new tree, undoing them in reverse order on the new state yields the previous one, each node has
  at most one delta, and there is no delta at all exactly when nothing changed.
\<close>

theorem diff_flat_exact:
  assumes "distinct (map c_id flat)" "hashes_agree flat prev"
  shows "apply_deltas (diff_flat flat prev) (map_of prev) = state_of flat
    \<and> undo_deltas (diff_flat flat prev) (state_of flat) = map_of prev
    \<and> distinct (map d_node (diff_flat flat prev))
    \<and> (diff_flat flat prev = [] \<longleftrightarrow> map_of prev = state_of flat)"
proof -
  have a: "apply_deltas (diff_flat flat prev) (map_of prev) = state_of flat"
    using diff_apply_lookup [OF assms] by blast
  have "diff_flat flat prev = []" if eq: "map_of prev = state_of flat"
  proof -
    have "node_deltas prev n = []" if "n \<in> set flat" for n
      using that eq by (simp add: node_deltas_def state_of_mem assms(1))
    moreover have "removed_ids flat prev = []"
    proof -
      have "dom (state_of flat) \<subseteq> c_id ` set flat" using state_of_None by fastforce
      then have "set (removed_ids flat prev) = {}" using eq by (auto simp: set_removed_ids)
      then show ?thesis by simp
    qed
    ultimately show ?thesis by (simp add: diff_flat_def)
  qed
  moreover have "map_of prev = state_of flat" if "diff_flat flat prev = []"
    using a that by (simp add: apply_deltas_def)
  ultimately show ?thesis
    using a diff_undo_lookup [OF assms] distinct_diff_flat [OF assms(1)] by blast
qed

definition sample_node :: "node_id \<Rightarrow> bytes \<Rightarrow> cnode" where
  "sample_node i c = zero_cnode\<lparr>c_id := i, c_content := c, c_hash := ''h'' @ c\<rparr>"

theorem diff_flat_exact_witness:
  "let flat = [sample_node ''a'' ''1'', sample_node ''b'' ''2''];
       prev = [(''a'', \<lparr>st_hash = ''h0'', st_content = ''0''\<rparr>), (''c'', \<lparr>st_hash = ''h3'', st_content = ''3''\<rparr>)]
   in apply_deltas (diff_flat flat prev) (map_of prev) = state_of flat
    \<and> undo_deltas (diff_flat flat prev) (state_of flat) = map_of prev
    \<and> distinct (map d_node (diff_flat flat prev))
    \<and> (diff_flat flat prev = [] \<longleftrightarrow> map_of prev = state_of flat)"
  unfolding Let_def
  by (rule diff_flat_exact) (simp_all add: hashes_agree_def sample_node_def)



end
