(* ===== verification/Emitter.thy ===== *)
theory Emitter
  imports Store_Snapshots Diff_Engine
begin

text \<open>
  \<open>pkg/emitter\<close>: one transaction that applies the deltas of a compile to the nodes table, creates a
  snapshot, records one diff row per delta with the previous place of its node, and moves HEAD.
\<close>

record emit_options =
  e_roots :: "ctree list"
  e_deltas :: "delta list"
  e_cursor :: bytes
  e_message :: bytes
  e_root :: bytes

definition node_from_context :: "cnode \<Rightarrow> node" where
  "node_from_context cn = \<lparr>n_id = c_id cn, n_parent = c_parent cn, n_source = c_source cn,
     n_type = c_type cn, n_depth = c_depth cn, n_label = c_label cn, n_content = c_content cn,
     n_format = c_format cn, n_tokens = c_tokens cn, n_hash = c_hash cn, n_temp = 0, n_access = 0,
     n_last = None, n_created = 0, n_updated = 0, n_pinned = False, n_seed_pinned = c_pin cn,
     n_seed_temp = c_temp cn\<rparr>"

definition capture_pre_state :: "db \<Rightarrow> delta list \<Rightarrow> node_id \<Rightarrow> node option" where
  "capture_pre_state db ds i =
     (if list_ex (\<lambda>d. d_op d \<noteq> OpAdd \<and> d_node d = i) ds then node_at db i else None)"

definition emit_delta :: "(node_id \<Rightarrow> cnode option) \<Rightarrow> delta \<Rightarrow> db \<Rightarrow> db result" where
  "emit_delta node_map d db =
     (case d_op d of
        OpRem \<Rightarrow> Inr (delete_node (d_node d) db)
      | _ \<Rightarrow> (case node_map (d_node d) of
            None \<Rightarrow> Inl (Failure ''emitter: node not found in tree'')
          | Some cn \<Rightarrow> upsert_node (node_from_context cn) db))"

definition diff_record :: "int \<Rightarrow> (node_id \<Rightarrow> node option) \<Rightarrow> delta \<Rightarrow> diff_row" where
  "diff_record sid pre d =
     (let rec = \<lparr>r_snap = sid, r_node = d_node d, r_op = op_string (d_op d), r_old_hash = d_old_hash d,
          r_new_hash = d_new_hash d, r_old_content = d_old_content d, r_new_content = d_new_content d,
          r_old_parent = None, r_old_source = None, r_old_type = None, r_old_depth = None,
          r_old_label = None, r_old_format = None, r_old_tokens = None\<rparr>
      in case pre (d_node d) of None \<Rightarrow> rec | Some n \<Rightarrow> set_old_metadata n rec)"

definition emit :: "emit_options \<Rightarrow> db \<Rightarrow> db result" where
  "emit o' db =
     (let node_map = flatten_map (e_roots o'); pre = capture_pre_state db (e_deltas o')
      in bind_result (fold_result (emit_delta node_map) (e_deltas o') db) (\<lambda>db1.
         bind_result (create_snapshot \<lparr>o_cursor = e_cursor o', o_message = e_message o',
             o_root = e_root o', o_parent = 0, o_has_parent = False\<rparr> db1) (\<lambda>(sid, db2).
         bind_result (fold_result (\<lambda>d. insert_diff (diff_record sid pre d)) (e_deltas o') db2) (\<lambda>db3.
           advance_cursor sid db3))))"

definition emit_tx :: "emit_options \<Rightarrow> unit tx" where
  "emit_tx o' db =
     (if e_deltas o' = [] then Inr ((), db) else bind_result (emit o' db) (\<lambda>db'. Inr ((), db')))"

definition emit_in_store :: "(nat \<Rightarrow> error option) \<Rightarrow> (nat \<Rightarrow> bool) \<Rightarrow> emit_options \<Rightarrow> db
    \<Rightarrow> unit result \<times> db \<times> nat" where
  "emit_in_store fault awake o' db =
     (if e_deltas o' = [] then (Inr (), db, 0) else store_tx fault awake (emit_tx o') db)"

subsection \<open>What upserts and deletions do to the view\<close>

lemma core_view_put_row: "core_view (put_row n db) = (core_view db)(n_id n := Some (core_of n))"
  by (auto simp: fun_eq_iff core_view_def view_simps core_of_node inserted_row_def updated_row_def
      split: option.splits)

lemma core_view_delete_rows:
  "core_view (delete_rows is db) = (\<lambda>j. if j \<in> doomed is db then None else core_view db j)"
  by (auto simp: core_view_def node_at_delete_node)

definition closed_in :: "node_id set \<Rightarrow> db \<Rightarrow> bool" where
  "closed_in R db \<longleftrightarrow> (\<forall>(a, b)\<in>tree_edges db. a \<in> R \<longrightarrow> b \<in> R)"

lemma closed_in_doomed:
  assumes "closed_in R db" "i \<in> R"
  shows "doomed [i] db \<subseteq> R"
proof
  fix j assume "j \<in> doomed [i] db"
  then have "(i, j) \<in> (tree_edges db)\<^sup>*" by (auto simp: doomed_def)
  then show "j \<in> R"
    by (induction rule: rtrancl_induct) (use assms in \<open>auto simp: closed_in_def\<close>)
qed

lemma closed_in_delete: "closed_in R db \<Longrightarrow> closed_in R (delete_rows is db)"
  by (auto simp: closed_in_def tree_edges_def db_nodes_delete_rows)

text \<open>Deleting the nodes of a child-closed set one after the other removes exactly that set.\<close>

lemma fold_deletes:
  assumes "closed_in R db" "set ds \<subseteq> {d. d_op d = OpRem \<and> d_node d \<in> R}" "db_ok db"
  shows "\<exists>db'. fold_result (emit_delta m) ds db = Inr db' \<and> db_ok db' \<and> db_defer db' = db_defer db
    \<and> db_snapshots db' = db_snapshots db \<and> db_diffs db' = db_diffs db \<and> db_head db' = db_head db
    \<and> db_next_snapshot db' = db_next_snapshot db
    \<and> (\<forall>j. core_view db' j = core_view db j \<or> (core_view db' j = None \<and> j \<in> R))
    \<and> (\<forall>d\<in>set ds. core_view db' (d_node d) = None)"
  using assms
proof (induction ds arbitrary: db)
  case (Cons d ds)
  let ?db1 = "delete_node (d_node d) db"
  have step: "emit_delta m d db = Inr ?db1" using Cons.prems(2) by (simp add: emit_delta_def)
  have "closed_in R ?db1" "db_ok ?db1" "set ds \<subseteq> {d. d_op d = OpRem \<and> d_node d \<in> R}"
    using Cons.prems by (auto simp: delete_node_def closed_in_delete delete_rows_ok)
  from Cons.IH [OF this(1,3,2)] obtain db' where db': "fold_result (emit_delta m) ds ?db1 = Inr db'" "db_ok db'"
    "db_defer db' = db_defer ?db1" "db_snapshots db' = db_snapshots ?db1" "db_diffs db' = db_diffs ?db1"
    "db_head db' = db_head ?db1" "db_next_snapshot db' = db_next_snapshot ?db1"
    "\<forall>j. core_view db' j = core_view ?db1 j \<or> (core_view db' j = None \<and> j \<in> R)"
    "\<forall>d\<in>set ds. core_view db' (d_node d) = None" by blast
  have view1: "core_view ?db1 = (\<lambda>j. if j \<in> doomed [d_node d] db then None else core_view db j)"
    by (simp add: delete_node_def core_view_delete_rows)
  have "d_node d \<in> R" using Cons.prems(2) by simp
  then have sub: "doomed [d_node d] db \<subseteq> R" by (rule closed_in_doomed [OF Cons.prems(1)])
  have "core_view ?db1 (d_node d) = None"
  proof (cases "d_node d \<in> set (node_ids db)")
    case True
    then show ?thesis by (simp add: view1 doomed_single)
  next
    case False
    then show ?thesis by (simp add: view1 core_view_def node_at_None_iff)
  qed
  then have "core_view db' (d_node d) = None" using db'(8) by metis
  moreover have "\<forall>j. core_view db' j = core_view db j \<or> (core_view db' j = None \<and> j \<in> R)"
    using db'(8) sub unfolding view1 by (metis subsetD)
  ultimately show ?case
    using db' step by (auto simp: delete_node_def frame_simps)
qed simp

subsection \<open>What upserts need\<close>

text \<open>Every upserted node finds its parent: it is a root, in the table, or upserted earlier.\<close>

fun parents_first :: "node_id set \<Rightarrow> node list \<Rightarrow> bool" where
  "parents_first ids [] = True"
| "parents_first ids (n # ns) =
     ((n_parent n = [] \<or> n_parent n \<in> ids \<or> n_parent n = n_id n) \<and> parents_first (insert (n_id n) ids) ns)"

lemma fold_upserts:
  assumes "db_ok db" "\<not> db_defer db" "parents_first (set (node_ids db)) ns"
    and "list_all2 (\<lambda>d n. d_op d \<noteq> OpRem \<and> (\<exists>cn. m (d_node d) = Some cn \<and> n = node_from_context cn)) ds ns"
  shows "\<exists>db'. fold_result (emit_delta m) ds db = Inr db' \<and> db_ok db' \<and> db_defer db' = db_defer db
    \<and> db_snapshots db' = db_snapshots db \<and> db_diffs db' = db_diffs db \<and> db_head db' = db_head db
    \<and> db_next_snapshot db' = db_next_snapshot db
    \<and> db' = fold put_row ns db"
  using assms(4,1,2,3)
proof (induction ds ns arbitrary: db rule: list_all2_induct)
  case (Cons d ds n ns)
  let ?db1 = "put_row n db"
  have "emit_delta m d db = upsert_node n db"
    using Cons.hyps(1) by (cases "d_op d") (auto simp: emit_delta_def)
  moreover have up: "upsert_node n db = Inr ?db1"
    using Cons.prems(3) by (auto simp: upsert_node_def Let_def node_ids_put_row)
  moreover have "db_ok ?db1" using upsert_node_ok [OF Cons.prems(1,2) up] .
  moreover have "parents_first (set (node_ids ?db1)) ns"
    using Cons.prems(3) by (auto simp: node_ids_put_row insert_absorb)
  ultimately show ?case using Cons.IH [of ?db1] Cons.prems(2) by (auto simp: frame_simps)
qed simp

lemma rows_fold_put:
  assumes "b \<in> set (db_nodes (fold put_row ns db))"
  shows "(b \<in> set (db_nodes db) \<and> n_id b \<notin> n_id ` set ns)
    \<or> (\<exists>n\<in>set ns. n_id b = n_id n \<and> n_parent b = n_parent n)"
  using assms
proof (induction ns arbitrary: db)
  case (Cons n ns)
  have row: "b \<in> set (db_nodes (put_row n db)) \<Longrightarrow>
      (n_id b = n_id n \<and> n_parent b = n_parent n) \<or> (b \<in> set (db_nodes db) \<and> n_id b \<noteq> n_id n)"
    by (auto simp: put_row_def node_ids_def split: if_splits) (metis image_eqI)
  from Cons show ?case using row by fastforce
qed simp

lemma core_view_fold_put:
  "core_view (fold put_row ns db) i =
    (if i \<in> n_id ` set ns then Some (core_of (the (lookup_by n_id i (rev ns)))) else core_view db i)"
proof (induction ns arbitrary: db)
  case (Cons n ns)
  have "lookup_by n_id i (rev ns) = None \<longleftrightarrow> i \<notin> n_id ` set ns"
    by (simp add: lookup_by_None_iff)
  with Cons show ?case
    by (cases "lookup_by n_id i (rev ns)") (auto simp: core_view_put_row lookup_by_append)
qed simp

lemma node_from_context_simps [simp]:
  "n_id (node_from_context cn) = c_id cn" "n_parent (node_from_context cn) = c_parent cn"
  "n_content (node_from_context cn) = c_content cn" "n_hash (node_from_context cn) = c_hash cn"
  by (simp_all add: node_from_context_def)

subsection \<open>Deltas that fit the table\<close>

definition upserts :: "delta list \<Rightarrow> delta list" where
  "upserts ds = filter (\<lambda>d. d_op d \<noteq> OpRem) ds"

definition removals :: "delta list \<Rightarrow> delta list" where
  "removals ds = filter (\<lambda>d. d_op d = OpRem) ds"

definition upserted_nodes :: "emit_options \<Rightarrow> node list" where
  "upserted_nodes o' =
     map (\<lambda>d. node_from_context (the (flatten_map (e_roots o') (d_node d)))) (upserts (e_deltas o'))"

definition fits :: "db \<Rightarrow> delta \<Rightarrow> bool" where
  "fits db d = (case node_at db (d_node d) of
      None \<Rightarrow> d_op d = OpAdd
    | Some b \<Rightarrow> d_op d \<noteq> OpAdd \<and> n_hash b = d_old_hash d \<and> n_content b = d_old_content d)"

definition tells_new :: "(node_id \<Rightarrow> cnode option) \<Rightarrow> delta \<Rightarrow> bool" where
  "tells_new node_map d = (case node_map (d_node d) of
      None \<Rightarrow> False
    | Some cn \<Rightarrow> d_new_hash d = c_hash cn \<and> d_new_content d = c_content cn)"

text \<open>
  What the caller owes: one delta per node, removals last; an addition of a missing node, a change or
  removal of a node whose old text and hash are those of the table, with the new text and hash of the
  node that is upserted; parents before children; no
  upserted node below a removed one, and with a removed node all rows below it that are not moved
  away; a cursor hash that no snapshot has.
\<close>

definition emit_ready :: "db \<Rightarrow> emit_options \<Rightarrow> bool" where
  "emit_ready db o' =
     (let ds = e_deltas o'; gone = d_node ` set (removals ds); ns = upserted_nodes o'
      in ds = upserts ds @ removals ds \<and> distinct (map d_node ds)
         \<and> list_all (tells_new (flatten_map (e_roots o'))) (upserts ds)
         \<and> list_all (fits db) ds
         \<and> parents_first (set (node_ids db)) ns
         \<and> list_all (\<lambda>n. n_parent n \<notin> gone) ns
         \<and> list_all (\<lambda>b. n_parent b \<in> gone \<longrightarrow> n_id b \<in> gone \<or> n_id b \<in> n_id ` set ns) (db_nodes db)
         \<and> e_cursor o' \<notin> set (map s_cursor (db_snapshots db)))"

lemma recorded_distinct:
  assumes "distinct (map r_node ds)"
    and "\<And>d. d \<in> set ds \<Longrightarrow> truthful d (v (r_node d)) (w (r_node d))"
    and "\<And>d a. d \<in> set ds \<Longrightarrow> w (r_node d) = Some a \<Longrightarrow> n_id a = r_node d"
    and "\<And>i. i \<notin> r_node ` set ds \<Longrightarrow> w i = v i"
  shows "recorded ds v w"
  using assms
proof (induction ds arbitrary: v)
  case Nil
  then have "w = v" by auto
  then show ?case by (simp add: recorded_Nil)
next
  case (Cons d ds)
  have other: "r_node e \<noteq> r_node d" if "e \<in> set ds" for e
    using Cons.prems(1) that by (auto simp: image_iff)
  have "recorded ds (v(r_node d := w (r_node d))) w"
  proof (rule Cons.IH)
    show "distinct (map r_node ds)" using Cons.prems(1) by simp
    show "truthful e ((v(r_node d := w (r_node d))) (r_node e)) (w (r_node e))" if "e \<in> set ds" for e
      using Cons.prems(2) [of e] other [OF that] that by simp
    show "w i = (v(r_node d := w (r_node d))) i" if "i \<notin> r_node ` set ds" for i
      using Cons.prems(4) [of i] that by auto
  qed (use Cons.prems(3) in auto)
  with Cons.prems(2,3) show ?case by (intro recorded_Cons [where x = "w (r_node d)"]) auto
qed

lemma diff_record_simps [simp]:
  "r_snap (diff_record sid pre d) = sid" "r_node (diff_record sid pre d) = d_node d"
  "r_op (diff_record sid pre d) = op_string (d_op d)"
  "r_old_hash (diff_record sid pre d) = d_old_hash d" "r_old_content (diff_record sid pre d) = d_old_content d"
  "r_new_hash (diff_record sid pre d) = d_new_hash d" "r_new_content (diff_record sid pre d) = d_new_content d"
  by (simp_all add: diff_record_def Let_def set_old_metadata_def split: option.splits)

lemma diff_record_matches:
  assumes "pre (d_node d) = Some b" "n_id b = d_node d" "n_hash b = d_old_hash d" "n_content b = d_old_content d"
  shows "matches_old (diff_record sid pre d) (core_of b)"
  using assms by (simp add: matches_old_def set_old_metadata_eq)
    (simp add: core_of_def diff_record_def Let_def set_old_metadata_def)

lemma core_view_id: "core_view db i = Some a \<Longrightarrow> n_id a = i"
  by (auto simp: core_view_def dest: node_at_SomeD)

lemma fold_insert_diffs:
  assumes "set (map r_snap rs) \<subseteq> set (snapshot_ids db)"
  shows "fold_result insert_diff rs db = Inr (db\<lparr>db_diffs := db_diffs db @ rs\<rparr>)"
  using assms
proof (induction rs arbitrary: db)
  case (Cons r rs)
  from Cons.prems have "insert_diff r db = Inr (db\<lparr>db_diffs := db_diffs db @ [r]\<rparr>)"
    by (simp add: insert_diff_def)
  moreover have "snapshot_ids (db\<lparr>db_diffs := db_diffs db @ [r]\<rparr>) = snapshot_ids db"
    by (simp add: snapshot_ids_def)
  ultimately show ?case using Cons by simp
qed simp

lemma fold_result_map: "fold_result (\<lambda>x. f (g x)) xs s = fold_result f (map g xs) s"
proof (induction xs arbitrary: s)
  case (Cons x xs)
  then show ?case by (cases "f (g x) s") simp_all
qed simp

lemma emit_applies:
  assumes "db_ok db" "\<not> db_defer db" "emit_ready db o'"
  shows "\<exists>db1. fold_result (emit_delta (flatten_map (e_roots o'))) (e_deltas o') db = Inr db1
    \<and> db_ok db1 \<and> \<not> db_defer db1 \<and> db_snapshots db1 = db_snapshots db \<and> db_diffs db1 = db_diffs db
    \<and> db_head db1 = db_head db \<and> db_next_snapshot db1 = db_next_snapshot db
    \<and> (\<forall>i. i \<notin> d_node ` set (e_deltas o') \<longrightarrow> core_view db1 i = core_view db i)
    \<and> (\<forall>d\<in>set (e_deltas o'). core_view db1 (d_node d) =
         (if d_op d = OpRem then None
          else Some (core_of (node_from_context (the (flatten_map (e_roots o') (d_node d)))))))"
proof -
  let ?m = "flatten_map (e_roots o')" and ?ds = "e_deltas o'" and ?ns = "upserted_nodes o'"
  let ?gone = "d_node ` set (removals ?ds)"
  note ready = assms(3) [unfolded emit_ready_def Let_def]
  have nodes: "d \<in> set (upserts ?ds) \<Longrightarrow> \<exists>cn. ?m (d_node d) = Some cn \<and> c_id cn = d_node d" for d
    using ready flatten_map_SomeD by (fastforce simp: list_all_iff tells_new_def split: option.splits)
  have ids: "map n_id ?ns = map d_node (upserts ?ds)"
    using nodes by (fastforce simp: upserted_nodes_def)
  have "list_all2 (\<lambda>d n. d_op d \<noteq> OpRem \<and> (\<exists>cn. ?m (d_node d) = Some cn \<and> n = node_from_context cn))
      (upserts ?ds) ?ns"
    using nodes by (fastforce simp: upserted_nodes_def list_all2_map2 upserts_def intro!: list.rel_refl_strong)
  from fold_upserts [OF assms(1,2) _ this] ready
  obtain db1 where db1: "fold_result (emit_delta ?m) (upserts ?ds) db = Inr db1" "db_ok db1"
    "db_defer db1 = db_defer db" "db_snapshots db1 = db_snapshots db" "db_diffs db1 = db_diffs db"
    "db_head db1 = db_head db" "db_next_snapshot db1 = db_next_snapshot db" "db1 = fold put_row ?ns db"
    by blast
  have dist: "distinct (map d_node (upserts ?ds @ removals ?ds))" using ready by simp
  have apart: "set (map n_id ?ns) \<inter> ?gone = {}" using dist unfolding ids by auto
  have "closed_in ?gone db1"
    unfolding closed_in_def
  proof clarify
    fix a i d assume "(d_node d, i) \<in> tree_edges db1" "d \<in> set (removals ?ds)"
    then obtain b where b: "b \<in> set (db_nodes db1)" "n_id b = i" "n_parent b = d_node d"
      by (auto simp: tree_edges_def)
    with \<open>d \<in> set (removals ?ds)\<close> have "n_parent b \<in> ?gone" by simp
    note b = b(1,2) this
    from rows_fold_put [of b ?ns db] b(1) db1(8)
    have "b \<in> set (db_nodes db) \<and> n_id b \<notin> n_id ` set ?ns"
      using ready b(3) by (auto simp: list_all_iff)
    with ready b show "i \<in> ?gone" by (auto simp: list_all_iff)
  qed
  from fold_deletes [OF this _ db1(2), of "removals ?ds" ?m]
  obtain db2 where db2: "fold_result (emit_delta ?m) (removals ?ds) db1 = Inr db2" "db_ok db2"
    "db_defer db2 = db_defer db1" "db_snapshots db2 = db_snapshots db1" "db_diffs db2 = db_diffs db1"
    "db_head db2 = db_head db1" "db_next_snapshot db2 = db_next_snapshot db1"
    "\<forall>j. core_view db2 j = core_view db1 j \<or> (core_view db2 j = None \<and> j \<in> ?gone)"
    "\<forall>d\<in>set (removals ?ds). core_view db2 (d_node d) = None"
    by (auto simp: removals_def)
  have "fold_result (emit_delta ?m) (upserts ?ds @ removals ?ds) db = Inr db2"
    using db1(1) db2(1) by (simp add: fold_result_append)
  then have run: "fold_result (emit_delta ?m) ?ds db = Inr db2" using ready by simp
  have ns_set: "n_id ` set ?ns = d_node ` set (upserts ?ds)" using arg_cong [OF ids, of set] by simp
  have out: "core_view db2 i = core_view db i" if "i \<notin> d_node ` set ?ds" for i
  proof -
    have "i \<notin> n_id ` set ?ns" "i \<notin> ?gone" using that unfolding ns_set by (auto simp: upserts_def removals_def)
    then have "core_view db1 i = core_view db i" by (simp add: db1(8) core_view_fold_put)
    then show ?thesis using db2(8) \<open>i \<notin> ?gone\<close> by metis
  qed
  have inn: "core_view db2 (d_node d) = (if d_op d = OpRem then None
      else Some (core_of (node_from_context (the (?m (d_node d))))))" if "d \<in> set ?ds" for d
  proof (cases "d_op d = OpRem")
    case True
    with that db2(9) show ?thesis by (auto simp: removals_def)
  next
    case False
    with that have up: "d \<in> set (upserts ?ds)" by (simp add: upserts_def)
    then have mem: "d_node d \<in> n_id ` set ?ns" by (simp add: ns_set)
    let ?n = "node_from_context (the (?m (d_node d)))"
    have "?n \<in> set ?ns" using up unfolding upserted_nodes_def set_map by blast
    moreover have "n_id ?n = d_node d" using nodes [OF up] by auto
    moreover have "distinct (map n_id (rev ?ns))"
      using dist ids by (simp add: rev_map [symmetric])
    ultimately have "?n \<in> set (rev ?ns)" "n_id ?n = d_node d" "distinct (map n_id (rev ?ns))" by simp_all
    then have "lookup_by n_id (d_node d) (rev ?ns) = Some ?n"
      using lookup_by_mem by fastforce
    then have "core_view db1 (d_node d) = Some (core_of ?n)"
      using mem by (simp add: db1(8) core_view_fold_put)
    moreover have "d_node d \<notin> ?gone" using apart mem by auto
    ultimately show ?thesis using db2(8) False by (metis (full_types))
  qed
  show ?thesis
    using run db2(2-7) db1(3-7) assms(2) out inn by (intro exI [of _ db2]) simp
qed

lemma deltas_recorded:
  assumes "distinct (map d_node ds)" "list_all (fits db) ds"
    and "\<And>i. i \<notin> d_node ` set ds \<Longrightarrow> core_view db1 i = core_view db i"
    and "\<And>d. d \<in> set ds \<Longrightarrow> core_view db1 (d_node d) = None \<longleftrightarrow> d_op d = OpRem"
    and "\<And>d a. d \<in> set ds \<Longrightarrow> core_view db1 (d_node d) = Some a \<Longrightarrow>
      d_new_hash d = n_hash a \<and> d_new_content d = n_content a"
  shows "recorded (map (diff_record sid (capture_pre_state db ds)) ds) (core_view db) (core_view db1)"
proof (rule recorded_distinct)
  let ?pre = "capture_pre_state db ds"
  show "distinct (map r_node (map (diff_record sid ?pre) ds))"
    using assms(1) by (simp add: comp_def)
  show "core_view db1 i = core_view db i"
    if "i \<notin> r_node ` set (map (diff_record sid ?pre) ds)" for i
    using that assms(3) by (auto simp: image_image)
  show "\<And>d a. core_view db1 (r_node d) = Some a \<Longrightarrow> n_id a = r_node d"
    by (rule core_view_id)
  fix r assume "r \<in> set (map (diff_record sid ?pre) ds)"
  then obtain d where d: "d \<in> set ds" "r = diff_record sid ?pre d" by auto
  then have fit: "fits db d" using assms(2) by (simp add: list_all_iff)
  have new: "(\<exists>a. core_view db1 (r_node r) = Some a \<and> matches_new r a) \<longleftrightarrow> d_op d \<noteq> OpRem"
    using assms(4,5) [OF d(1)] d(2) by (cases "core_view db1 (d_node d)") (auto simp: matches_new_def)
  show "truthful r (core_view db (r_node r)) (core_view db1 (r_node r))"
  proof (cases "d_op d = OpAdd")
    case True
    with fit have "node_at db (d_node d) = None" by (auto simp: fits_def split: option.splits)
    then have "core_view db (r_node r) = None" using d(2) by (simp add: core_view_def)
    with True new show ?thesis by (auto simp: truthful_def op_string_def d(2))
  next
    case False
    with fit obtain b where b: "node_at db (d_node d) = Some b" "n_hash b = d_old_hash d"
      "n_content b = d_old_content d" by (auto simp: fits_def split: option.splits)
    moreover have "?pre (d_node d) = Some b"
      using b(1) d(1) False by (auto simp: capture_pre_state_def list_ex_iff)
    moreover have "n_id b = d_node d" using node_at_SomeD b(1) by blast
    ultimately have "matches_old r (core_of b)" unfolding d(2) by (intro diff_record_matches)
    moreover have "core_view db (r_node r) = Some (core_of b)"
      using b(1) d(2) by (simp add: core_view_def)
    moreover have "core_view db1 (r_node r) = None \<longleftrightarrow> d_op d = OpRem"
      using assms(4) [OF d(1)] d(2) by simp
    moreover have "r_op r = op_string (d_op d)" using d(2) by simp
    ultimately show ?thesis using False new
      by (cases "d_op d") (simp_all add: truthful_def op_string_def)
  qed
qed

lemma emit_history:
  assumes "db_ok db" "\<not> db_defer db" "emit_ready db o'"
  shows "\<exists>db'. emit o' db = Inr db' \<and> db_ok db' \<and> db_head db' = Some (db_next_snapshot db)
    \<and> core_view db' = (\<lambda>i. if i \<in> d_node ` set (removals (e_deltas o')) then None
         else if i \<in> d_node ` set (upserts (e_deltas o'))
           then Some (core_of (node_from_context (the (flatten_map (e_roots o') i))))
         else core_view db i)
    \<and> {(t, v). t < db_next_snapshot db \<and> restorable db t v} \<subseteq> {(t, v). restorable db' t v}
    \<and> restorable db' (db_next_snapshot db) (core_view db')
    \<and> restorable db' (db_next_snapshot db - 1) (core_view db)"
proof -
  let ?m = "flatten_map (e_roots o')" and ?ds = "e_deltas o'" and ?sid = "db_next_snapshot db"
  let ?rs = "map (diff_record ?sid (capture_pre_state db ?ds)) ?ds"
  let ?so = "\<lparr>o_cursor = e_cursor o', o_message = e_message o', o_root = e_root o', o_parent = 0,
      o_has_parent = False\<rparr>"
  obtain db1 where db1: "fold_result (emit_delta ?m) ?ds db = Inr db1" "db_ok db1" "\<not> db_defer db1"
      "db_snapshots db1 = db_snapshots db" "db_diffs db1 = db_diffs db" "db_head db1 = db_head db"
      "db_next_snapshot db1 = ?sid"
      "\<forall>i. i \<notin> d_node ` set ?ds \<longrightarrow> core_view db1 i = core_view db i"
      "\<forall>d\<in>set ?ds. core_view db1 (d_node d) = (if d_op d = OpRem then None
         else Some (core_of (node_from_context (the (?m (d_node d))))))"
    using emit_applies [OF assms] by blast
  have fresh: "e_cursor o' \<notin> set (map s_cursor (db_snapshots db1))"
    using assms(3) by (simp add: emit_ready_def Let_def db1(4))
  have head: "(case db_head db1 of None \<Rightarrow> False | Some p \<Rightarrow> p \<noteq> ?sid \<and> p \<notin> set (snapshot_ids db1)) = False"
    using db1(2) by (auto simp: db_ok_def fk_ok_def snapshots_ok_def split: option.splits)
  obtain db2 where c: "create_snapshot ?so db1 = Inr (?sid, db2)"
    using fresh head db1(7) by (auto simp: create_snapshot_def Let_def)
  note db2 = create_snapshot_InrD [OF c]
  have ok2: "db_ok db2" by (rule create_snapshot_ok [OF db1(2) disjI1 [OF db1(3)] c])
  have sid2: "?sid \<in> set (snapshot_ids db2)" by (simp add: db2(11))
  let ?db' = "db2\<lparr>db_diffs := db_diffs db2 @ ?rs, db_head := Some ?sid\<rparr>"
  have "fold_result insert_diff ?rs db2 = Inr (db2\<lparr>db_diffs := db_diffs db2 @ ?rs\<rparr>)"
    by (rule fold_insert_diffs) (use sid2 in auto)
  then have "emit o' db = Inr ?db'"
    using db1(1) c sid2
    by (simp add: emit_def Let_def fold_result_map advance_cursor_def snapshot_ids_def)
  moreover have "db_ok ?db'"
  proof -
    have "snapshots_ok db2" using ok2 by (simp add: db_ok_def fk_ok_def)
    then have "snapshots_ok ?db'"
      using sid2 by (auto simp: snapshots_ok_alt snapshot_ids_def)
    with ok2 show ?thesis
      by (simp add: db_ok_def keys_ok_def fk_ok_def parents_ok_def edges_ok_def node_ids_def snapshot_ids_def)
  qed
  moreover have view': "core_view ?db' = core_view db1"
    by (simp add: core_view_def node_at_def db2(3) fun_eq_iff)
  moreover have "core_view db1 = (\<lambda>i. if i \<in> d_node ` set (removals ?ds) then None
         else if i \<in> d_node ` set (upserts ?ds) then Some (core_of (node_from_context (the (?m i))))
         else core_view db i)"
  proof
    fix i
    have "d_node ` set ?ds = d_node ` set (upserts ?ds) \<union> d_node ` set (removals ?ds)"
      by (auto simp: upserts_def removals_def)
    then show "core_view db1 i = (if i \<in> d_node ` set (removals ?ds) then None
         else if i \<in> d_node ` set (upserts ?ds) then Some (core_of (node_from_context (the (?m i))))
         else core_view db i)"
      using db1(8,9) by (auto simp: removals_def upserts_def)
  qed
  moreover have told: "d_new_hash d = n_hash a \<and> d_new_content d = n_content a"
    if w: "d \<in> set ?ds" "core_view db1 (d_node d) = Some a" for d a
  proof -
    have "d_op d \<noteq> OpRem" "a = core_of (node_from_context (the (?m (d_node d))))"
      using db1(9) w by (auto split: if_splits)
    moreover from this(1) w(1) assms(3) have "tells_new ?m d"
      by (simp add: emit_ready_def Let_def list_all_iff upserts_def)
    ultimately show ?thesis by (auto simp: tells_new_def core_of_def node_from_context_def split: option.splits)
  qed
  have rec: "recorded ?rs (core_view db) (core_view ?db')"
    unfolding view' using assms(3) db1(8,9)
    by (intro deltas_recorded told) (auto simp: emit_ready_def Let_def)
  have snaps: "r_snap d = ?sid" if "d \<in> set ?rs" for d using that by auto
  have diffs: "db_diffs ?db' = db_diffs db @ ?rs" by (simp add: db2(4) db1(5))
  have old: "restorable ?db' t v" if "restorable db t v" "t < ?sid" for t v
    by (rule restorable_step [OF assms(1) that snaps diffs rec])
  moreover have "restorable ?db' (?sid - 1) (core_view db)"
    by (rule old [OF restorable_head [OF assms(1)]]) simp_all
  moreover have "restorable ?db' ?sid (core_view ?db')"
    using \<open>db_ok ?db'\<close> by (rule restorable_head) (simp add: db2(10))
  ultimately show ?thesis by auto
qed

text \<open>C2:
  Emitting deltas that fit the table succeeds, and it keeps the whole history exact: the nodes table
  then holds precisely the emitted nodes next to the untouched ones, HEAD is a new snapshot that
  follows the old HEAD, every snapshot that could be restored exactly before still can, the state
  before the emit included, and the new snapshot restores to the new state.
\<close>

theorem emit_preserves_history:
  assumes "db_ok db" "\<not> db_defer db" "emit_ready db o'"
  shows "\<exists>db'. emit o' db = Inr db' \<and> db_ok db' \<and> db_head db' = Some (db_next_snapshot db)
    \<and> core_view db' = (\<lambda>i. if i \<in> d_node ` set (removals (e_deltas o')) then None
         else if i \<in> d_node ` set (upserts (e_deltas o'))
           then Some (core_of (node_from_context (the (flatten_map (e_roots o') i))))
         else core_view db i)
    \<and> {(t, v). t < db_next_snapshot db \<and> restorable db t v} \<subseteq> {(t, v). restorable db' t v}
    \<and> restorable db' (db_next_snapshot db) (core_view db')
    \<and> restorable db' (db_next_snapshot db - 1) (core_view db)"
  using emit_history [OF assms] .

definition sample_roots :: "ctree list" where
  "sample_roots = [CTree (sample_node ''a'' ''3'') [CTree ((sample_node ''b'' ''4'')\<lparr>c_parent := ''a''\<rparr>) []]]"

definition sample_emit :: emit_options where
  "sample_emit = \<lparr>e_roots = sample_roots,
     e_deltas = diff_flat (flatten sample_roots) [(''a'', \<lparr>st_hash = ''h2'', st_content = ''2''\<rparr>)],
     e_cursor = ''c3'', e_message = [], e_root = ''/m''\<rparr>"

lemma sample_emit_ready: "emit_ready sample_history sample_emit"
proof -
  have f: "flatten sample_roots = [sample_node ''a'' ''3'', (sample_node ''b'' ''4'')\<lparr>c_parent := ''a''\<rparr>]"
    by (simp add: sample_roots_def)
  then have ds: "e_deltas sample_emit = [mod_delta \<lparr>st_hash = ''h2'', st_content = ''2''\<rparr> (sample_node ''a'' ''3''),
      add_delta ((sample_node ''b'' ''4'')\<lparr>c_parent := ''a''\<rparr>)]"
    by (simp add: sample_emit_def diff_flat_def node_deltas_def removed_ids_def) (simp add: sample_node_def)
  have m: "flatten_map (e_roots sample_emit) = [''a'' \<mapsto> sample_node ''a'' ''3'',
      ''b'' \<mapsto> (sample_node ''b'' ''4'')\<lparr>c_parent := ''a''\<rparr>]"
    using f by (auto simp: flatten_map_def sample_emit_def sample_node_def)
  have h: "db_nodes sample_history = [blank_node ''a'' [] ''2'']"
    by (simp add: sample_history_def empty_db_def)
  show ?thesis
    unfolding emit_ready_def Let_def upserted_nodes_def m ds
    by (simp add: upserts_def removals_def mod_delta_def add_delta_def fits_def tells_new_def node_at_def node_ids_def h)
      (simp add: sample_node_def blank_node_def zero_cnode_def sample_history_def sample_snapshot_def
        sample_emit_def empty_db_def)
qed

theorem emit_preserves_history_witness:
  "\<exists>db'. emit sample_emit sample_history = Inr db' \<and> db_ok db' \<and> db_head db' = Some 3
     \<and> restorable db' 3 (core_view db') \<and> restorable db' 2 (core_view sample_history)"
proof -
  have n: "db_next_snapshot sample_history = 3" "\<not> db_defer sample_history"
    by (simp_all add: sample_history_def empty_db_def)
  from emit_preserves_history [OF sample_history_ok(1) n(2) sample_emit_ready] show ?thesis
    unfolding n(1) by auto
qed

end
