(* ===== verification/Versions.thy ===== *)
theory Versions
  imports Emitter
begin

text \<open>
  The store as a versioned map: what \<open>RestoreToSnapshot\<close> answers for every snapshot, and what a
  successful emit does to these answers. The tools that change nodes are shown to refine operations
  on this map.
\<close>

subsection \<open>What a successful emit leaves\<close>

lemma insert_diffs_frame:
  assumes "fold_result insert_diff rs db = Inr db'"
  shows "db_nodes db' = db_nodes db" "db_relations db' = db_relations db" "db_pending db' = db_pending db"
    "db_snapshots db' = db_snapshots db" "db_defer db' = db_defer db"
    "db_next_snapshot db' = db_next_snapshot db"
  using assms
proof (induction rs arbitrary: db)
  case (Cons r rs)
  {
    case 1
    with Cons show ?case by (auto simp: insert_diff_def elim!: bind_result_InrE split: if_splits)
  next
    case 2
    with Cons show ?case by (auto simp: insert_diff_def elim!: bind_result_InrE split: if_splits)
  next
    case 3
    with Cons show ?case by (auto simp: insert_diff_def elim!: bind_result_InrE split: if_splits)
  next
    case 4
    with Cons show ?case by (auto simp: insert_diff_def elim!: bind_result_InrE split: if_splits)
  next
    case 6
    with Cons show ?case by (auto simp: insert_diff_def elim!: bind_result_InrE split: if_splits)
  next
    case 5
    with Cons show ?case by (auto simp: insert_diff_def elim!: bind_result_InrE split: if_splits)
  }
qed simp_all

lemma emit_rows:
  assumes "emit o' db = Inr db'"
  shows "\<exists>db1. fold_result (emit_delta (flatten_map (e_roots o'))) (e_deltas o') db = Inr db1
    \<and> db_nodes db' = db_nodes db1 \<and> db_relations db' = db_relations db1 \<and> db_pending db' = db_pending db1
    \<and> e_cursor o' \<notin> set (map s_cursor (db_snapshots db1)) \<and> snapshot_ids db' = snapshot_ids db1 @ [db_next_snapshot db1] \<and> db_next_snapshot db' = db_next_snapshot db1 + 1 \<and> db_defer db' = db_defer db1"
proof -
  obtain db1 sid db2 db3 where run:
    "fold_result (emit_delta (flatten_map (e_roots o'))) (e_deltas o') db = Inr db1"
    "create_snapshot \<lparr>o_cursor = e_cursor o', o_message = e_message o', o_root = e_root o', o_parent = 0,
      o_has_parent = False\<rparr> db1 = Inr (sid, db2)"
    "fold_result (\<lambda>d. insert_diff (diff_record sid (capture_pre_state db (e_deltas o')) d)) (e_deltas o') db2 = Inr db3"
    "advance_cursor sid db3 = Inr db'"
    using assms by (auto simp: emit_def Let_def elim!: bind_result_InrE)
  note c = create_snapshot_InrD [OF run(2)]
  note i = insert_diffs_frame [OF run(3) [unfolded fold_result_map]]
  have "db_nodes db' = db_nodes db3" "db_relations db' = db_relations db3" "db_pending db' = db_pending db3"
    "db_snapshots db' = db_snapshots db3" "db_next_snapshot db' = db_next_snapshot db3" "db_defer db' = db_defer db3"
    using run(4) by (auto simp: advance_cursor_def split: if_splits)
  with run(1) c i show ?thesis by (auto simp: snapshot_ids_def)
qed

lemma emit_in_store_result:
  assumes "emit_in_store fault awake o' db = (r, db', k)"
  shows "case r of Inl e \<Rightarrow> db' = db
    | Inr _ \<Rightarrow> if e_deltas o' = [] then db' = db
        else \<exists>db1. emit o' db = Inr db1 \<and> db' = db1\<lparr>db_defer := False\<rparr>"
  using assms tx_loop_result [of fault awake "emit_tx o'" 0 db r db' k]
  by (auto simp: emit_in_store_def store_tx_def emit_tx_def max_attempts_def elim!: bind_result_InrE
      split: sum.splits if_splits)

lemma emit_delta_frame:
  assumes "emit_delta m d db = Inr db'"
  shows "db_snapshots db' = db_snapshots db \<and> db_next_snapshot db' = db_next_snapshot db \<and> db_defer db' = db_defer db"
  using assms by (auto simp: emit_delta_def upsert_node_def Let_def delete_node_def frame_simps split: op.splits option.splits if_splits)

lemma emit_deltas_frame:
  "fold_result (emit_delta m) ds db = Inr db' \<Longrightarrow>
     db_snapshots db' = db_snapshots db \<and> db_next_snapshot db' = db_next_snapshot db \<and> db_defer db' = db_defer db"
proof (induction ds arbitrary: db)
  case (Cons d ds)
  then show ?case by (auto elim!: bind_result_InrE dest: emit_delta_frame)
qed simp

subsection \<open>The versions of a database\<close>

definition versions :: "db \<Rightarrow> int \<Rightarrow> view option" where
  "versions db t = (case restore_to_snapshot db t of Inl _ \<Rightarrow> None | Inr st \<Rightarrow> Some (cores (rr_nodes st)))"

text \<open>A database is exact when all constraints hold and every snapshot can be restored exactly.\<close>

definition exact :: "db \<Rightarrow> bool" where
  "exact db \<longleftrightarrow> db_ok db \<and> \<not> db_defer db \<and> (\<forall>t\<in>set (snapshot_ids db). \<exists>v. restorable db t v)"

lemma versions_restorable:
  assumes "db_ok db" "t \<in> set (snapshot_ids db)" "restorable db t v"
  shows "versions db t = Some v"
  using restored_exactly [OF assms] by (auto simp: versions_def)

lemma versions_none: "t \<notin> set (snapshot_ids db) \<Longrightarrow> versions db t = None"
proof -
  assume "t \<notin> set (snapshot_ids db)"
  then have "lookup_by s_id t (db_snapshots db) = None" by (auto simp: lookup_by_None_iff snapshot_ids_def)
  then show ?thesis by (simp add: versions_def restore_to_snapshot_def get_snapshot_def)
qed

lemma exact_restorable: "exact db \<Longrightarrow> versions db t = Some v \<Longrightarrow> restorable db t v"
  using versions_none [of t db] versions_restorable [of db t] by (force simp: exact_def)

lemma fresh_snapshot: "db_ok db \<Longrightarrow> t \<in> set (snapshot_ids db) \<Longrightarrow> t < db_next_snapshot db"
  by (auto simp: db_ok_def keys_ok_def list_all_iff snapshot_ids_def)

lemma committed_versions:
  assumes "exact db" "db_ok db'" "\<not> db_defer db'" "snapshot_ids db' = snapshot_ids db @ [db_next_snapshot db]"
    and "{(t, v). t < db_next_snapshot db \<and> restorable db t v} \<subseteq> {(t, v). restorable db' t v}"
    and "restorable db' (db_next_snapshot db) (core_view db')"
  shows "exact db' \<and> versions db' = (versions db)(db_next_snapshot db \<mapsto> core_view db')"
proof
  have old: "\<exists>v. restorable db t v \<and> restorable db' t v" if "t \<in> set (snapshot_ids db)" for t
    using assms(1,5) fresh_snapshot [OF _ that] that by (fastforce simp: exact_def)
  show "exact db'" using old assms(2,3,4,6) by (fastforce simp: exact_def)
  show "versions db' = (versions db)(db_next_snapshot db \<mapsto> core_view db')"
  proof
    fix t
    consider "t = db_next_snapshot db" | "t \<in> set (snapshot_ids db)" "t \<noteq> db_next_snapshot db"
      | "t \<notin> set (snapshot_ids db)" "t \<noteq> db_next_snapshot db" by blast
    then show "versions db' t = ((versions db)(db_next_snapshot db \<mapsto> core_view db')) t"
    proof cases
      case 1
      then show ?thesis using versions_restorable [OF assms(2) _ assms(6)] assms(4) by simp
    next
      case 2
      with old obtain v where "restorable db t v" "restorable db' t v" by blast
      then have "versions db t = Some v" "versions db' t = Some v"
        using 2 assms(1,2,4) by (simp_all add: versions_restorable exact_def)
      with 2 show ?thesis by simp
    next
      case 3
      then show ?thesis using versions_none [of t db] versions_none [of t db'] assms(4) by simp
    qed
  qed
qed

lemma emit_versions:
  assumes "exact db" "emit_ready db o'" "emit o' db = Inr db'"
  shows "exact db'" "versions db' = (versions db)(db_next_snapshot db \<mapsto> core_view db')"
    "core_view db' = (\<lambda>i. if i \<in> d_node ` set (removals (e_deltas o')) then None
         else if i \<in> d_node ` set (upserts (e_deltas o'))
           then Some (core_of (node_from_context (the (flatten_map (e_roots o') i))))
         else core_view db i)"
    "db_head db' = Some (db_next_snapshot db)" "db_next_snapshot db' = db_next_snapshot db + 1"
proof -
  have ok: "db_ok db" "\<not> db_defer db" using assms(1) by (simp_all add: exact_def)
  note h = emit_history [OF ok assms(2)]
  from h assms(3) have h': "db_ok db'" "db_head db' = Some (db_next_snapshot db)"
    "core_view db' = (\<lambda>i. if i \<in> d_node ` set (removals (e_deltas o')) then None
         else if i \<in> d_node ` set (upserts (e_deltas o'))
           then Some (core_of (node_from_context (the (flatten_map (e_roots o') i))))
         else core_view db i)"
    "{(t, v). t < db_next_snapshot db \<and> restorable db t v} \<subseteq> {(t, v). restorable db' t v}"
    "restorable db' (db_next_snapshot db) (core_view db')" by auto
  from emit_rows [OF assms(3)] have ids: "snapshot_ids db' = snapshot_ids db @ [db_next_snapshot db]"
    by (auto simp: snapshot_ids_def dest: emit_deltas_frame)
  show "db_next_snapshot db' = db_next_snapshot db + 1"
    using emit_rows [OF assms(3)] by (auto dest: emit_deltas_frame)
  have "\<not> db_defer db'" using emit_rows [OF assms(3)] ok(2) by (auto dest: emit_deltas_frame)
  from committed_versions [OF assms(1) h'(1) this ids h'(4,5)]
  show "exact db'" "versions db' = (versions db)(db_next_snapshot db \<mapsto> core_view db')" by auto
  show "core_view db' = (\<lambda>i. if i \<in> d_node ` set (removals (e_deltas o')) then None
         else if i \<in> d_node ` set (upserts (e_deltas o'))
           then Some (core_of (node_from_context (the (flatten_map (e_roots o') i))))
         else core_view db i)" "db_head db' = Some (db_next_snapshot db)"
    by (fact h')+
qed

lemma same_versions:
  assumes "exact db" "db_ok db'" "\<not> db_defer db'" "core_view db' = core_view db"
    and "db_diffs db' = db_diffs db" "db_snapshots db' = db_snapshots db"
  shows "exact db'" "versions db' = versions db"
proof -
  have r: "restorable db' t v = restorable db t v" for t v
    by (simp add: restorable_def later_diffs_def assms(4,5))
  have ids: "snapshot_ids db' = snapshot_ids db" by (simp add: snapshot_ids_def assms(6))
  show "exact db'" using assms(1,2,3) by (simp add: exact_def r ids)
  show "versions db' = versions db"
  proof
    fix t
    show "versions db' t = versions db t"
    proof (cases "t \<in> set (snapshot_ids db)")
      case True
      then obtain v where "restorable db t v" using assms(1) by (auto simp: exact_def)
      then show ?thesis
        using True assms(1,2) ids r by (simp add: versions_restorable exact_def)
    next
      case False
      then show ?thesis by (simp add: versions_none ids)
    qed
  qed
qed

end
