(* ===== verification/Redaction.thy ===== *)
theory Redaction
  imports Go_Strings
begin

text \<open>
  \<open>internal/redaction\<close>: secrets are cut out of node contents before they are hashed and stored. The
  regular expressions of the built-in kinds are data; how a regular expression matches is the
  parameter \<open>engine\<close> (Go's \<open>regexp\<close>): \<open>None\<close> for one that does not compile, otherwise
  \<open>FindAllStringIndex\<close>, the list of half-open spans of a text.
\<close>

type_synonym span_finder = "bytes \<Rightarrow> (nat \<times> nat) list"
type_synonym regex_engine = "bytes \<Rightarrow> span_finder option"

record hit =
  h_kind :: bytes
  h_start :: nat
  h_end :: nat

type_synonym kind_pattern = "bytes \<times> span_finder"

text \<open>A nil \<open>*Redactor\<close> is \<open>None\<close>.\<close>

type_synonym redactor = "kind_pattern list option"

definition bslash :: bytes where
  "bslash = [CHR 0x5C]"

definition builtin_kind_order :: "bytes list" where
  "builtin_kind_order =
    [''aws_access_key'', ''gcp_oauth_client_secret'', ''google_api_key'', ''github_pat'',
     ''github_fine_grained_pat'', ''gitlab_pat'', ''anthropic_api_key'',
     ''huggingface_token'', ''openai_api_key'', ''stripe_secret_key'',
     ''stripe_webhook_secret'', ''discord_bot_token'', ''discord_webhook'', ''slack_token'',
     ''slack_webhook'', ''mailgun_api_key'', ''sendgrid_api_key'', ''npm_token'',
     ''pypi_token'', ''linear_api_key'', ''jwt'', ''db_connection_string'',
     ''bearer_auth_header'', ''basic_auth_url'', ''private_key_block'',
     ''env_secret_assignment'']"

definition builtin_patterns :: "(bytes \<times> bytes) list" where
  "builtin_patterns =
   [(''aws_access_key'', ''(?:AKIA|ASIA)[0-9A-Z]{16}''),
    (''gcp_oauth_client_secret'', ''GOCSPX-[A-Za-z0-9_-]{28}''),
    (''google_api_key'', ''AIza[0-9A-Za-z_-]{35}''),
    (''github_pat'', ''gh[pousr]_[A-Za-z0-9]{36,255}''),
    (''github_fine_grained_pat'', ''github_pat_[A-Za-z0-9_]{82}''),
    (''gitlab_pat'', ''glpat-[A-Za-z0-9_-]{20,40}''),
    (''anthropic_api_key'', ''sk-ant-(?:api|sid)'' @ bslash @ ''w*-[A-Za-z0-9_-]{32,255}''),
    (''huggingface_token'', ''hf_[A-Za-z0-9]{34,40}''),
    (''openai_api_key'', ''sk-(?:(?:proj|svcacct|admin)-[A-Za-z0-9_-]{58,74}T3BlbkFJ[A-Za-z0-9_-]{58,74}|[A-Za-z0-9]{20}T3BlbkFJ[A-Za-z0-9]{20})''),
    (''stripe_secret_key'', ''(?:sk|rk)_(?:live|test)_[0-9a-zA-Z]{24,99}''),
    (''stripe_webhook_secret'', ''whsec_[A-Za-z0-9]{32,80}''),
    (''discord_bot_token'', ''[MNO][A-Za-z0-9_-]{23,25}'' @ bslash @ ''.[A-Za-z0-9_-]{6,7}'' @ bslash
        @ ''.[A-Za-z0-9_-]{27,40}''),
    (''discord_webhook'', ''https?://(?:(?:canary|ptb)'' @ bslash @ ''.)?discord(?:app)?'' @ bslash
        @ ''.com/api/webhooks/[0-9]{15,25}/[A-Za-z0-9_-]{50,100}''),
    (''slack_token'', ''xox[abcdeoprs]-[A-Za-z0-9-]{15,200}''),
    (''slack_webhook'', ''https://hooks'' @ bslash @ ''.slack'' @ bslash
        @ ''.com/services/T[A-Z0-9]{8,12}/B[A-Z0-9]{8,12}/[A-Za-z0-9]{20,30}''),
    (''mailgun_api_key'', ''key-[a-f0-9]{32}''),
    (''sendgrid_api_key'', ''SG'' @ bslash @ ''.[A-Za-z0-9_-]{22}'' @ bslash @ ''.[A-Za-z0-9_-]{43}''),
    (''npm_token'', ''npm_[A-Za-z0-9]{36}''),
    (''pypi_token'', ''pypi-AgEIcHlwaS5vcmc[A-Za-z0-9_-]{50,200}''),
    (''linear_api_key'', ''lin_api_[A-Za-z0-9]{40}''),
    (''jwt'', ''eyJ[A-Za-z0-9_-]{10,500}'' @ bslash @ ''.eyJ[A-Za-z0-9_-]{10,1000}'' @ bslash
        @ ''.[A-Za-z0-9_-]{10,500}''),
    (''db_connection_string'', ''(?i)(?:postgres(?:ql)?|mysql|mongodb(?:'' @ bslash
        @ ''+srv)?|redis|amqp|mssql)://[^:@'' @ bslash @ ''s/]{1,255}:[^@'' @ bslash
        @ ''s/]{1,255}@[^'' @ bslash @ ''s/]{1,500}''),
    (''bearer_auth_header'', ''(?i)authorization:'' @ bslash @ ''s*bearer'' @ bslash
        @ ''s+[A-Za-z0-9._-]{20,1000}''),
    (''basic_auth_url'', ''(?i)https?://[^:@'' @ bslash @ ''s/]{1,255}:[^@'' @ bslash @ ''s/]{1,255}@[^''
        @ bslash @ ''s/]{1,500}''),
    (''private_key_block'', ''(?s)-----BEGIN [A-Z ]*PRIVATE KEY-----.*?-----END [A-Z ]*PRIVATE KEY-----''),
    (''env_secret_assignment'', ''[A-Z][A-Z0-9_]{0,64}(TOKEN|KEY|SECRET|PASSWORD|API_KEY)'' @ bslash @ ''s*=''
        @ bslash @ ''s*'' @ bslash @ ''S{1,500}'')]"

record redaction_config =
  cfg_builtin :: "bytes list"
  cfg_custom :: "(bytes \<times> bytes) list"

definition default_redaction :: redaction_config where
  "default_redaction = \<lparr>cfg_builtin = builtin_kind_order, cfg_custom = []\<rparr>"

fun add_builtin :: "regex_engine \<Rightarrow> bytes \<Rightarrow> kind_pattern list \<Rightarrow> kind_pattern list result" where
  "add_builtin engine kind pats =
     (case map_of builtin_patterns kind of
        None \<Rightarrow> Inl (Failure (''unknown built-in kind: '' @ kind))
      | Some p \<Rightarrow> Inr (pats @ [(kind, the (engine p))]))"

fun add_custom :: "regex_engine \<Rightarrow> bytes \<times> bytes \<Rightarrow> kind_pattern list \<Rightarrow> kind_pattern list result" where
  "add_custom engine (kind, p) pats =
     (if kind = [] then Inl (Failure ''custom pattern kind must be non-empty'')
      else case engine p of
        None \<Rightarrow> Inl (Failure (''failed to compile: custom pattern '' @ kind))
      | Some f \<Rightarrow> Inr (pats @ [(kind, f)]))"

definition new_redactor :: "regex_engine \<Rightarrow> redaction_config \<Rightarrow> redactor result" where
  "new_redactor engine cfg =
     bind_result (fold_result (add_builtin engine) (cfg_builtin cfg) []) (\<lambda>pats.
     bind_result (fold_result (add_custom engine) (cfg_custom cfg) pats) (\<lambda>pats. Inr (Some pats)))"

subsection \<open>Scrubbing\<close>

definition find_hits :: "kind_pattern list \<Rightarrow> bytes \<Rightarrow> hit list" where
  "find_hits pats s =
     concat (map (\<lambda>(kind, f). map (\<lambda>(a, b). \<lparr>h_kind = kind, h_start = a, h_end = b\<rparr>) (f s)) pats)"

text \<open>Earliest first, longest first among those.\<close>

definition sort_hits :: "hit list \<Rightarrow> hit list" where
  "sort_hits hits = sort_key h_start (sort_key (\<lambda>h. - int (h_end h)) hits)"

text \<open>The loop that builds \<open>accepted\<close>, with its last element at hand: overlapping spans are merged.\<close>

fun merge_hits :: "hit \<Rightarrow> hit list \<Rightarrow> hit list" where
  "merge_hits cur [] = [cur]"
| "merge_hits cur (h # hs) =
     (if h_start h < h_end cur then merge_hits (cur\<lparr>h_end := max (h_end cur) (h_end h)\<rparr>) hs
      else cur # merge_hits h hs)"

fun accept_hits :: "hit list \<Rightarrow> hit list" where
  "accept_hits [] = []"
| "accept_hits (h # hs) = merge_hits h hs"

definition marker :: "hit \<Rightarrow> bytes" where
  "marker h = [byte 0xC2, byte 0xAB] @ ''redacted:'' @ h_kind h @ [byte 0xC2, byte 0xBB]"

fun cut_hits :: "bytes \<Rightarrow> nat \<Rightarrow> hit list \<Rightarrow> bytes" where
  "cut_hits s cursor [] = drop cursor s"
| "cut_hits s cursor (h # hs) =
     drop cursor (take (h_start h) s) @ marker h @ cut_hits s (h_end h) hs"

definition scrub :: "redactor \<Rightarrow> bytes \<Rightarrow> bytes \<times> hit list" where
  "scrub r s =
     (case r of None \<Rightarrow> (s, [])
      | Some pats \<Rightarrow>
          if s = [] \<or> pats = [] then (s, [])
          else let hits = find_hits pats s
               in if hits = [] then (s, [])
                  else let accepted = accept_hits (sort_hits hits)
                       in (cut_hits s 0 accepted, accepted))"

text \<open>A nil map is the empty map.\<close>

definition kind_counts :: "hit list \<Rightarrow> bytes \<Rightarrow> nat option" where
  "kind_counts hits k =
     (case length (filter (\<lambda>h. h_kind h = k) hits) of 0 \<Rightarrow> None | n \<Rightarrow> Some n)"

lemma builtin_pattern_kinds: "map fst builtin_patterns = builtin_kind_order"
  by (simp only: builtin_kind_order_def builtin_patterns_def list.map fst_conv)

lemma builtin_kinds_have_patterns: "k \<in> set builtin_kind_order \<Longrightarrow> map_of builtin_patterns k \<noteq> None"
  unfolding map_of_eq_None_iff by (metis builtin_pattern_kinds set_map)

lemma default_redactor_works: "\<exists>pats. new_redactor engine default_redaction = Inr (Some pats)
    \<and> map fst pats = builtin_kind_order"
proof -
  have "fold_result (add_builtin engine) ks pats
      = Inr (pats @ map (\<lambda>k. (k, the (engine (the (map_of builtin_patterns k))))) ks)"
    if "set ks \<subseteq> set builtin_kind_order" for ks pats
    using that
  proof (induction ks arbitrary: pats)
    case (Cons k ks)
    then obtain p where "map_of builtin_patterns k = Some p"
      using builtin_kinds_have_patterns [of k] by auto
    with Cons show ?case by simp
  qed simp
  then show ?thesis by (simp add: new_redactor_def default_redaction_def comp_def)
qed

subsection \<open>The accepted spans\<close>

text \<open>Position \<open>i\<close> lies in one of the spans.\<close>

definition flagged :: "hit list \<Rightarrow> nat \<Rightarrow> bool" where
  "flagged hs i \<longleftrightarrow> list_ex (\<lambda>h. h_start h \<le> i \<and> i < h_end h) hs"

definition in_text :: "bytes \<Rightarrow> hit list \<Rightarrow> bool" where
  "in_text s hs \<longleftrightarrow> list_all (\<lambda>h. h_start h \<le> h_end h \<and> h_end h \<le> length s) hs"

definition disjoint_spans :: "hit list \<Rightarrow> bool" where
  "disjoint_spans hs \<longleftrightarrow> sorted_wrt (\<lambda>a b. h_end a \<le> h_start b) hs"

lemma flagged_simps [simp]:
  "flagged [] i = False"
  "flagged (h # hs) i \<longleftrightarrow> (h_start h \<le> i \<and> i < h_end h) \<or> flagged hs i"
  by (simp_all add: flagged_def)

lemma in_text_simps [simp]:
  "in_text s []"
  "in_text s (h # hs) \<longleftrightarrow> h_start h \<le> h_end h \<and> h_end h \<le> length s \<and> in_text s hs"
  by (simp_all add: in_text_def)

lemma set_sort_hits [simp]: "set (sort_hits hs) = set hs"
  by (simp add: sort_hits_def)

lemma flagged_set: "set hs = set hs' \<Longrightarrow> flagged hs i = flagged hs' i"
  by (simp add: flagged_def list_ex_iff)

lemma in_text_set: "set hs = set hs' \<Longrightarrow> in_text s hs = in_text s hs'"
  by (simp add: in_text_def list_all_iff)

lemma sorted_sort_hits: "sorted_wrt (\<lambda>a b. h_start a \<le> h_start b) (sort_hits hs)"
  unfolding sort_hits_def by (rule sorted_wrt_sort_key1)

lemma merge_hits_starts:
  "sorted_wrt (\<lambda>a b. h_start a \<le> h_start b) (cur # hs) \<Longrightarrow> x \<in> set (merge_hits cur hs)
     \<Longrightarrow> h_start cur \<le> h_start x"
  by (induction cur hs rule: merge_hits.induct) (force split: if_splits)+

lemma merge_hits_spec:
  assumes "sorted_wrt (\<lambda>a b. h_start a \<le> h_start b) (cur # hs)" "in_text s (cur # hs)"
  shows "disjoint_spans (merge_hits cur hs) \<and> in_text s (merge_hits cur hs)
    \<and> (\<forall>i. flagged (merge_hits cur hs) i \<longleftrightarrow> flagged (cur # hs) i)"
  using assms
proof (induction cur hs rule: merge_hits.induct)
  case (1 cur)
  then show ?case by (simp add: disjoint_spans_def)
next
  case (2 cur h hs)
  show ?case
  proof (cases "h_start h < h_end cur")
    case True
    let ?c = "cur\<lparr>h_end := max (h_end cur) (h_end h)\<rparr>"
    have "disjoint_spans (merge_hits ?c hs) \<and> in_text s (merge_hits ?c hs)
      \<and> (\<forall>i. flagged (merge_hits ?c hs) i \<longleftrightarrow> flagged (?c # hs) i)"
      using True 2 by auto
    moreover have "flagged (?c # hs) i \<longleftrightarrow> flagged (cur # h # hs) i" for i
      using True "2.prems"(1) by (auto simp: max_def)
    ultimately show ?thesis using True by simp
  next
    case False
    then have "disjoint_spans (merge_hits h hs) \<and> in_text s (merge_hits h hs)
      \<and> (\<forall>i. flagged (merge_hits h hs) i \<longleftrightarrow> flagged (h # hs) i)"
      using 2 by auto
    moreover have "\<forall>x\<in>set (merge_hits h hs). h_end cur \<le> h_start x"
      using False "2.prems"(1) merge_hits_starts [of h hs] by fastforce
    ultimately show ?thesis using False "2.prems"(2) by (auto simp: disjoint_spans_def)
  qed
qed

lemma accepted_spans:
  assumes "in_text s hits"
  shows "disjoint_spans (accept_hits (sort_hits hits))" "in_text s (accept_hits (sort_hits hits))"
    "flagged (accept_hits (sort_hits hits)) i \<longleftrightarrow> flagged hits i"
proof -
  have s: "in_text s (sort_hits hits)" "flagged (sort_hits hits) i \<longleftrightarrow> flagged hits i"
    using assms in_text_set [of "sort_hits hits" hits s] flagged_set [of "sort_hits hits" hits i] by simp_all
  note sorted = sorted_sort_hits [of hits]
  show "disjoint_spans (accept_hits (sort_hits hits))" "in_text s (accept_hits (sort_hits hits))"
    "flagged (accept_hits (sort_hits hits)) i \<longleftrightarrow> flagged hits i"
    using s sorted merge_hits_spec [where s = s]
    by (cases "sort_hits hits"; force simp: disjoint_spans_def)+
qed

text \<open>The pieces of the text between the accepted spans.\<close>

fun gaps :: "bytes \<Rightarrow> nat \<Rightarrow> hit list \<Rightarrow> bytes list" where
  "gaps s cursor [] = [drop cursor s]"
| "gaps s cursor (h # hs) = drop cursor (take (h_start h) s) # gaps s (h_end h) hs"

fun interleave :: "bytes list \<Rightarrow> bytes list \<Rightarrow> bytes" where
  "interleave (g # gs) (m # ms) = g @ m @ interleave gs ms"
| "interleave gs ms = concat gs @ concat ms"

lemma cut_hits_gaps: "cut_hits s c hs = interleave (gaps s c hs) (map marker hs)"
  by (induction s c hs rule: cut_hits.induct) simp_all

lemma nths_interval: "a \<le> b \<Longrightarrow> b \<le> length s \<Longrightarrow> nths s {i. a \<le> i \<and> i < b} = drop a (take b s)"
proof (induction s arbitrary: a b)
  case (Cons x xs)
  show ?case
  proof (cases a)
    case 0
    then show ?thesis
    proof (cases b)
      case (Suc b')
      then have "{j. Suc j < b} = {i. 0 \<le> i \<and> i < b'}" by auto
      with Cons.IH [of 0 b'] Cons.prems 0 Suc show ?thesis by (simp add: nths_Cons)
    qed simp
  next
    case (Suc a')
    then obtain b' where b: "b = Suc b'" using Cons.prems by (cases b) auto
    then have "{j. Suc j \<in> {i. a \<le> i \<and> i < b}} = {i. a' \<le> i \<and> i < b'}" using Suc by auto
    with Cons.IH [of a' b'] Cons.prems Suc b show ?thesis by (simp add: nths_Cons)
  qed
qed simp

lemma nths_split_at:
  fixes s :: bytes
  assumes "\<forall>i\<in>A. i < k" "\<forall>i\<in>B. k \<le> i"
  shows "nths s (A \<union> B) = nths s A @ nths s B"
proof -
  have ex: "nths s C = nths (take k s) C @ nths (drop k s) {j. j + min k (length s) \<in> C}" for C
    using nths_append [of "take k s" "drop k s" C] by (simp add: min.commute)
  have none: "nths xs C = []" if "\<forall>i\<in>C. length xs \<le> i" for xs :: bytes and C
    using that by (auto simp: nths_def filter_empty_conv dest!: set_zip_rightD)
  have A: "nths (drop k s) {j. j + min k (length s) \<in> A} = []"
    by (rule none) (use assms(1) in \<open>auto simp: min_def split: if_splits\<close>)
  have B: "nths (take k s) B = []" by (rule none) (use assms(2) in auto)
  have "nths (take k s) (A \<union> B) = nths (take k s) A"
    using assms(2) by (auto simp: nths_def intro!: arg_cong [of _ _ "map fst"] filter_cong dest!: set_zip_rightD)
  moreover have "nths (drop k s) {j. j + min k (length s) \<in> A \<union> B}
      = nths (drop k s) {j. j + min k (length s) \<in> B}"
    using assms(1) by (auto simp: nths_def min_def intro!: arg_cong [of _ _ "map fst"] filter_cong dest!: set_zip_rightD)
  ultimately show ?thesis using ex [of "A \<union> B"] ex [of A] ex [of B] A B by simp
qed

lemma concat_gaps:
  assumes "disjoint_spans hs" "in_text s hs" "\<forall>h\<in>set hs. c \<le> h_start h" "c \<le> length s"
  shows "concat (gaps s c hs) = nths s {i. c \<le> i \<and> \<not> flagged hs i}"
  using assms
proof (induction s c hs rule: gaps.induct)
  case (1 s c)
  have "nths s {i. c \<le> i} = nths s {i. c \<le> i \<and> i < length s}"
    by (auto simp: nths_def intro!: arg_cong [of _ _ "map fst"] filter_cong dest!: set_zip_rightD)
  then show ?case using 1 nths_interval [of c "length s" s] by simp
next
  case (2 s c h hs)
  let ?A = "{i. c \<le> i \<and> i < h_start h}" and ?B = "{i. h_end h \<le> i \<and> \<not> flagged hs i}"
  have early: "\<not> flagged hs i" if "i < h_end h" for i
    using that 2(2) by (fastforce simp: flagged_def disjoint_spans_def list_ex_iff)
  have "{i. c \<le> i \<and> \<not> flagged (h # hs) i} = ?A \<union> ?B"
    using 2(3,4) early by auto
  then have "nths s {i. c \<le> i \<and> \<not> flagged (h # hs) i} = nths s ?A @ nths s ?B"
    using nths_split_at [of ?A "h_end h" ?B] 2(3) by auto
  moreover have "nths s ?A = drop c (take (h_start h) s)"
    using 2(3,4) by (intro nths_interval) auto
  moreover have "concat (gaps s (h_end h) hs) = nths s ?B"
    using 2 by (intro "2.IH") (auto simp: disjoint_spans_def)
  ultimately show ?case by simp
qed

lemma cut_hits_agree:
  assumes "disjoint_spans hs" "in_text s hs" "\<forall>h\<in>set hs. c \<le> h_start h" "length s' = length s"
    and "\<forall>i<length s. c \<le> i \<and> \<not> flagged hs i \<longrightarrow> s' ! i = s ! i"
  shows "cut_hits s' c hs = cut_hits s c hs"
  using assms
proof (induction s c hs rule: cut_hits.induct)
  case (1 s c)
  then show ?case by (simp add: list_eq_iff_nth_eq)
next
  case (2 s c h hs)
  have "drop c (take (h_start h) s') = drop c (take (h_start h) s)"
  proof (rule nth_equalityI)
    fix i assume "i < length (drop c (take (h_start h) s'))"
    then have i: "c + i < h_start h" "c + i < length s" using 2(5) by auto
    moreover have "\<not> flagged (h # hs) (c + i)"
      using i 2(2,3) by (fastforce simp: flagged_def disjoint_spans_def list_ex_iff)
    ultimately show "drop c (take (h_start h) s') ! i = drop c (take (h_start h) s) ! i"
      using 2(5,6) by simp
  qed (simp add: 2(5))
  moreover have "cut_hits s' (h_end h) hs = cut_hits s (h_end h) hs"
    using 2 by (intro "2.IH") (auto simp: disjoint_spans_def)
  ultimately show ?case by simp
qed

text \<open>C16:
  Scrubbing cuts out exactly the bytes that some pattern matched: the reported spans are disjoint and
  cover precisely the matched positions, the output is the unmatched bytes in their order with one
  marker per span between them, and it does not depend on the matched bytes: another text with the
  same matches and the same bytes outside them has the same output.
\<close>

theorem scrub_redacts_exactly:
  assumes "in_text s (find_hits pats s)"
  shows "let out = fst (scrub (Some pats) s); acc = snd (scrub (Some pats) s); hits = find_hits pats s
    in disjoint_spans acc \<and> (\<forall>i. flagged acc i \<longleftrightarrow> flagged hits i)
       \<and> (\<exists>gs. length gs = Suc (length acc) \<and> out = interleave gs (map marker acc)
            \<and> concat gs = nths s {i. \<not> flagged hits i})
       \<and> (\<forall>s'. length s' = length s \<and> find_hits pats s' = hits
            \<and> (\<forall>i<length s. \<not> flagged hits i \<longrightarrow> s' ! i = s ! i) \<longrightarrow> scrub (Some pats) s' = scrub (Some pats) s)"
proof -
  let ?hits = "find_hits pats s" and ?acc = "accept_hits (sort_hits (find_hits pats s))"
  note spans = accepted_spans [OF assms]
  have len: "length (gaps s c hs) = Suc (length hs)" for c hs
    by (induction s c hs rule: gaps.induct) simp_all
  consider "s = []" | "pats = []" | "s \<noteq> []" "pats \<noteq> []" by blast
  then show ?thesis
  proof cases
    case 1
    moreover have "\<not> flagged ?hits i" for i
      using assms 1 by (auto simp: flagged_def in_text_def list_ex_iff list_all_iff)
    ultimately show ?thesis
      by (auto simp: scrub_def Let_def disjoint_spans_def intro!: exI [of _ "[[]]"])
  next
    case 2
    then have "nths s {i. \<not> flagged ?hits i} = s" by (simp add: find_hits_def nths_all)
    moreover have "scrub (Some pats) t = (t, [])" for t
      using 2 by (simp add: scrub_def find_hits_def)
    moreover have "s' = s" if "length s' = length s" "\<forall>i<length s. \<not> flagged ?hits i \<longrightarrow> s' ! i = s ! i" for s'
      using that 2 by (auto intro!: nth_equalityI simp: find_hits_def)
    ultimately show ?thesis
      using 2 by (auto simp: disjoint_spans_def Let_def find_hits_def intro!: exI [of _ "[s]"])
  next
    case 3
    then have out: "scrub (Some pats) s = (cut_hits s 0 ?acc, ?acc)"
      by (simp add: scrub_def Let_def sort_hits_def)
    have "concat (gaps s 0 ?acc) = nths s {i. \<not> flagged ?hits i}"
      using concat_gaps [OF spans(1,2), of 0] spans(3) by simp
    moreover have "scrub (Some pats) s' = scrub (Some pats) s"
      if s': "length s' = length s" "find_hits pats s' = ?hits" "\<forall>i<length s. \<not> flagged ?hits i \<longrightarrow> s' ! i = s ! i" for s'
    proof -
      have "cut_hits s' 0 ?acc = cut_hits s 0 ?acc"
        by (rule cut_hits_agree [OF spans(1,2)]) (use s' spans(3) in auto)
      moreover have "s' \<noteq> []" using 3 s'(1) by auto
      ultimately show ?thesis
        unfolding out using 3 s'(2) by (cases "?hits = []") (simp_all add: scrub_def Let_def sort_hits_def)
    qed
    ultimately show ?thesis
      using spans(1,3) len by (auto simp: out Let_def cut_hits_gaps intro!: exI [of _ "gaps s 0 ?acc"])
  qed
qed

text \<open>A finder for one literal token, to apply the theorem.\<close>

definition sample_finder :: span_finder where
  "sample_finder s = (case str_index ''AKIA'' s of None \<Rightarrow> [] | Some i \<Rightarrow> [(i, i + 4)])"

theorem scrub_redacts_exactly_witness:
  "disjoint_spans (snd (scrub (Some [(''k'', sample_finder)]) ''xAKIAy''))
   \<and> flagged (snd (scrub (Some [(''k'', sample_finder)]) ''xAKIAy'')) 4
   \<and> scrub (Some [(''k'', sample_finder)]) ''xAKIAy''
       = ([CHR ''x''] @ marker \<lparr>h_kind = ''k'', h_start = 1, h_end = 5\<rparr> @ [CHR ''y''],
          [\<lparr>h_kind = ''k'', h_start = 1, h_end = 5\<rparr>])"
proof -
  have hits: "find_hits [(''k'', sample_finder)] ''xAKIAy'' = [\<lparr>h_kind = ''k'', h_start = 1, h_end = 5\<rparr>]"
    by (simp add: find_hits_def sample_finder_def has_prefix_def)
  then have out: "scrub (Some [(''k'', sample_finder)]) ''xAKIAy''
       = ([CHR ''x''] @ marker \<lparr>h_kind = ''k'', h_start = 1, h_end = 5\<rparr> @ [CHR ''y''],
          [\<lparr>h_kind = ''k'', h_start = 1, h_end = 5\<rparr>])"
    by (simp add: scrub_def sort_hits_def)
  have "in_text ''xAKIAy'' (find_hits [(''k'', sample_finder)] ''xAKIAy'')"
    unfolding hits by simp
  from scrub_redacts_exactly [OF this] show ?thesis
    unfolding Let_def hits using out by simp
qed

end
