(* ===== verification/Rollback.thy ===== *)
theory Rollback
  imports Emitter
begin

text \<open>
  The rollback tool (\<open>pkg/mcp/tools/rollback.go\<close>): restore an earlier snapshot as a new one, in one
  transaction with deferred foreign keys, optionally deleting the snapshots in between. The two Go
  maps of nodes are lists with distinct identifiers; the deltas are sorted by identifier, so the
  order in which the maps are traversed does not matter.
\<close>

record rollback_input =
  rb_snapshot :: int
  rb_drop_after :: bool

definition node_equal :: "node \<Rightarrow> node \<Rightarrow> bool" where
  "node_equal a b = (n_hash a = n_hash b \<and> n_parent a = n_parent b \<and> n_source a = n_source b
     \<and> n_type a = n_type b \<and> n_depth a = n_depth b \<and> n_label a = n_label b
     \<and> n_format a = n_format b \<and> n_tokens a = n_tokens b)"

definition rollback_removed :: "node list \<Rightarrow> node list \<Rightarrow> delta list" where
  "rollback_removed current target =
     map (\<lambda>c. \<lparr>d_node = n_id c, d_old_hash = n_hash c, d_new_hash = [], d_old_content = n_content c,
        d_new_content = [], d_op = OpRem\<rparr>)
       (filter (\<lambda>c. lookup_by n_id (n_id c) target = None) current)"

definition rollback_written :: "node list \<Rightarrow> node \<Rightarrow> delta list" where
  "rollback_written current t =
     (case lookup_by n_id (n_id t) current of
        None \<Rightarrow> [\<lparr>d_node = n_id t, d_old_hash = [], d_new_hash = n_hash t, d_old_content = [],
          d_new_content = n_content t, d_op = OpAdd\<rparr>]
      | Some c \<Rightarrow> if node_equal c t then []
          else [\<lparr>d_node = n_id t, d_old_hash = n_hash c, d_new_hash = n_hash t,
            d_old_content = n_content c, d_new_content = n_content t, d_op = OpMod\<rparr>])"

definition compute_rollback_deltas :: "node list \<Rightarrow> node list \<Rightarrow> delta list" where
  "compute_rollback_deltas current target =
     sort_key d_node (rollback_removed current target @ concat (map (rollback_written current) target))"

definition rollback_mutation :: "node list \<Rightarrow> delta \<Rightarrow> db \<Rightarrow> db result" where
  "rollback_mutation target d db =
     (case d_op d of
        OpRem \<Rightarrow> Inr (delete_node (d_node d) db)
      | _ \<Rightarrow> (case lookup_by n_id (d_node d) target of
            None \<Rightarrow> Inl (Failure ''failed to apply: rollback target missing node'')
          | Some n \<Rightarrow> upsert_node n db))"

definition skipped_warnings :: "skipped_restore list \<Rightarrow> bytes" where
  "skipped_warnings sk =
     (if sk = [] then []
      else [CHR 0x0A] @ ''warning: '' @ itoa (int (length sk)) @ '' node(s) could not be fully restored:''
        @ concat (map (\<lambda>s. [CHR 0x0A] @ ''  - '' @ sk_node s @ '': '' @ sk_reason s) sk))"

definition format_rollback_result :: "int \<Rightarrow> int \<Rightarrow> int \<Rightarrow> int \<Rightarrow> bool \<Rightarrow> skipped_restore list \<Rightarrow> bytes" where
  "format_rollback_result target new affected pruned drop_after sk =
     ''rolled back to snapshot '' @ itoa target @ '' (new snapshot '' @ itoa new @ '', '' @ itoa affected
       @ '' nodes affected)'' @ (if drop_after then ''; pruned '' @ itoa pruned @ '' intermediate snapshot(s)'' else [])
       @ skipped_warnings sk"

definition format_no_change :: "int \<Rightarrow> skipped_restore list \<Rightarrow> bytes" where
  "format_no_change target sk =
     ''no rollback applied; computed state matches HEAD for snapshot '' @ itoa target @ skipped_warnings sk"

definition insert_rollback_diffs :: "int \<Rightarrow> (node_id \<Rightarrow> node option) \<Rightarrow> delta list \<Rightarrow> db \<Rightarrow> db result" where
  "insert_rollback_diffs sid pre = fold_result (\<lambda>d. insert_diff (diff_record sid pre d))"

text \<open>The writes of the transaction, once the deltas are known: the new snapshot and the number pruned.\<close>

definition write_rollback :: "hash64 \<Rightarrow> int \<Rightarrow> int \<Rightarrow> bool \<Rightarrow> node list \<Rightarrow> delta list \<Rightarrow> (int \<times> int) tx" where
  "write_rollback xxh head target drop_after nodes ds db0 =
     (let cursor = cursor_hash_for_rollback xxh head target ds;
          par = (if drop_after then target else head);
          db = db0\<lparr>db_defer := True\<rparr>;
          pre = capture_pre_state db ds
      in bind_result (fold_result (rollback_mutation nodes) ds db) (\<lambda>db1.
         bind_result (create_snapshot \<lparr>o_cursor = cursor, o_message = ''rollback to '' @ itoa target,
             o_root = [], o_parent = par, o_has_parent = True\<rparr> db1) (\<lambda>(sid, db2).
         bind_result (insert_rollback_diffs sid pre ds db2) (\<lambda>db3.
         bind_result (advance_cursor sid db3) (\<lambda>db4.
         if drop_after
         then bind_result (prune_snapshots_after target sid db4) (\<lambda>(pruned, db5). Inr ((sid, pruned), db5))
         else Inr ((sid, 0), db4))))))"

definition rollback_tx :: "hash64 \<Rightarrow> int \<Rightarrow> bool \<Rightarrow> (bytes \<times> bool) tx" where
  "rollback_tx xxh target drop_after db =
     (let head = head_snapshot_id db
      in if head = target
         then Inr ((''already at snapshot '' @ itoa target @ ''; nothing to do'', False), db)
         else if head < target then Inl (Failure ''snapshot is ahead of HEAD'')
         else bind_result (restore_to_snapshot db target) (\<lambda>restore.
           let ds = compute_rollback_deltas (get_all_nodes db) (rr_nodes restore)
           in if ds = [] then Inr ((format_no_change target (rr_skipped restore), False), db)
              else bind_result (write_rollback xxh head target drop_after (rr_nodes restore) ds db)
                (\<lambda>((sid, pruned), db'). Inr ((format_rollback_result target sid (int (length ds)) pruned
                   drop_after (rr_skipped restore), True), db'))))"

definition handle_rollback :: "(nat \<Rightarrow> error option) \<Rightarrow> (nat \<Rightarrow> bool) \<Rightarrow> hash64 \<Rightarrow> rollback_input \<Rightarrow> db
    \<Rightarrow> (bytes \<times> bool) result \<times> db" where
  "handle_rollback fault awake xxh input db =
     (if rb_snapshot input \<le> 0 then (Inl (Failure ''invalid snapshot_id: expected positive integer''), db)
      else case store_tx fault awake (rollback_tx xxh (rb_snapshot input) (rb_drop_after input)) db of
        (r, db', _) \<Rightarrow> (r, db'))"

subsection \<open>The deltas of a rollback\<close>

definition rollback_delta_of :: "node list \<Rightarrow> node list \<Rightarrow> node_id \<Rightarrow> delta option" where
  "rollback_delta_of current target i =
     lookup_by d_node i (rollback_removed current target @ concat (map (rollback_written current) target))"

lemma rollback_removed_nodes:
  "map d_node (rollback_removed current target) =
     filter (\<lambda>i. lookup_by n_id i target = None) (map n_id current)"
  by (induction current) (simp_all add: rollback_removed_def)

lemma rollback_written_node: "d \<in> set (rollback_written current t) \<Longrightarrow> d_node d = n_id t"
  by (auto simp: rollback_written_def split: option.splits if_splits)

lemma distinct_rollback_written:
  "distinct (map n_id target) \<Longrightarrow> distinct (map d_node (concat (map (rollback_written current) target)))
    \<and> d_node ` set (concat (map (rollback_written current) target)) \<subseteq> n_id ` set target"
proof (induction target)
  case (Cons t target)
  have "distinct (map d_node (rollback_written current t))"
    by (simp add: rollback_written_def split: option.splits)
  with Cons show ?case using rollback_written_node by (fastforce dest: rollback_written_node)
qed simp

lemma distinct_rollback_deltas:
  assumes "distinct (map n_id current)" "distinct (map n_id target)"
  shows "distinct (map d_node (compute_rollback_deltas current target))"
proof -
  let ?ds = "rollback_removed current target @ concat (map (rollback_written current) target)"
  have "distinct (map d_node ?ds)"
    using assms distinct_rollback_written [OF assms(2), of current]
    by (auto simp: rollback_removed_nodes lookup_by_None_iff)
  moreover have "mset (map d_node (compute_rollback_deltas current target)) = mset (map d_node ?ds)"
    by (simp add: compute_rollback_deltas_def)
  ultimately show ?thesis by (metis mset_eq_imp_distinct_iff)
qed

lemma set_rollback_deltas:
  "d \<in> set (compute_rollback_deltas current target) \<longleftrightarrow>
     d \<in> set (rollback_removed current target) \<or> (\<exists>t\<in>set target. d \<in> set (rollback_written current t))"
  by (auto simp: compute_rollback_deltas_def)

lemma rollback_delta_cases:
  assumes "distinct (map n_id current)" "distinct (map n_id target)"
    and "d \<in> set (compute_rollback_deltas current target)"
  obtains
    (removed) c where "d_op d = OpRem" "lookup_by n_id (d_node d) current = Some c"
      "lookup_by n_id (d_node d) target = None" "d_old_hash d = n_hash c" "d_old_content d = n_content c"
  | (added) t where "d_op d = OpAdd" "lookup_by n_id (d_node d) current = None"
      "lookup_by n_id (d_node d) target = Some t" "d_new_hash d = n_hash t" "d_new_content d = n_content t"
  | (changed) c t where "d_op d = OpMod" "lookup_by n_id (d_node d) current = Some c"
      "lookup_by n_id (d_node d) target = Some t" "d_old_hash d = n_hash c" "d_old_content d = n_content c"
      "d_new_hash d = n_hash t" "d_new_content d = n_content t"
proof -
  from assms(3) consider c where "c \<in> set current" "lookup_by n_id (n_id c) target = None"
      "d = \<lparr>d_node = n_id c, d_old_hash = n_hash c, d_new_hash = [], d_old_content = n_content c,
        d_new_content = [], d_op = OpRem\<rparr>"
    | t where "t \<in> set target" "d \<in> set (rollback_written current t)"
    unfolding set_rollback_deltas by (auto simp: rollback_removed_def)
  then show thesis
  proof cases
    case 1
    then show thesis using removed lookup_by_mem [OF assms(1)] by simp
  next
    case (2 t)
    then have "lookup_by n_id (n_id t) target = Some t" using lookup_by_mem [OF assms(2)] by simp
    with 2(2) show thesis
      by (auto simp: rollback_written_def split: option.splits if_splits intro: added changed)
  qed
qed

lemma node_equal_core:
  assumes "node_equal a b" "n_id a = n_id b" "n_hash a = n_hash b \<Longrightarrow> n_content a = n_content b"
  shows "core_of a = core_of b"
  using assms by (simp add: node_equal_def core_of_node)

lemma same_core_no_delta:
  assumes "distinct (map n_id target)" "cores current = cores target"
  shows "compute_rollback_deltas current target = []"
proof -
  have "lookup_by n_id (n_id c) target \<noteq> None" if "c \<in> set current" for c
  proof -
    have "cores current (n_id c) \<noteq> None" using that by (auto simp: cores_def lookup_by_None_iff)
    then show ?thesis by (simp add: assms(2) cores_def)
  qed
  then have "rollback_removed current target = []" by (simp add: rollback_removed_def filter_empty_conv)
  moreover have "rollback_written current t = []" if "t \<in> set target" for t
  proof -
    have "cores target (n_id t) = Some (core_of t)"
      using lookup_by_mem [OF assms(1) that] by (simp add: cores_def)
    then obtain c where "lookup_by n_id (n_id t) current = Some c" "core_of c = core_of t"
      by (auto simp: assms(2) [symmetric] cores_def)
    then show ?thesis by (auto simp: rollback_written_def node_equal_def core_of_node)
  qed
  then have "concat (map (rollback_written current) target) = []" by (simp add: concat_eq_Nil_conv)
  ultimately show ?thesis by (simp only: compute_rollback_deltas_def) simp
qed

lemma rollback_mutations_frame:
  "fold_result (rollback_mutation target) ds db = Inr db' \<Longrightarrow> db_snapshots db' = db_snapshots db"
proof (induction ds arbitrary: db)
  case (Cons d ds)
  from Cons.prems obtain db1 where db1: "rollback_mutation target d db = Inr db1"
    "fold_result (rollback_mutation target) ds db1 = Inr db'" by (auto elim: bind_result_InrE)
  then have "db_snapshots db1 = db_snapshots db"
    by (auto simp: rollback_mutation_def upsert_node_def Let_def delete_node_def frame_simps
        split: op.splits option.splits if_splits)
  with Cons.IH [OF db1(2)] show ?case by simp
qed simp

lemma write_rollback_fresh:
  assumes "write_rollback xxh head target drop_after ns ds db = Inr r"
  shows "cursor_hash_for_rollback xxh head target ds \<notin> set (map s_cursor (db_snapshots db))"
proof -
  obtain db1 sid db2 where "fold_result (rollback_mutation ns) ds (db\<lparr>db_defer := True\<rparr>) = Inr db1"
    "create_snapshot \<lparr>o_cursor = cursor_hash_for_rollback xxh head target ds, o_message = ''rollback to '' @ itoa target,
        o_root = [], o_parent = (if drop_after then target else head), o_has_parent = True\<rparr> db1 = Inr (sid, db2)"
    using assms by (auto simp: write_rollback_def Let_def elim!: bind_result_InrE)
  from create_snapshot_InrD(2) [OF this(2)] rollback_mutations_frame [OF this(1)] show ?thesis by simp
qed

lemma no_delta_same_core:
  assumes "distinct (map n_id target)"
    and "i \<notin> d_node ` set (compute_rollback_deltas current target)"
    and "\<And>c t. lookup_by n_id i current = Some c \<Longrightarrow> lookup_by n_id i target = Some t \<Longrightarrow>
      n_hash c = n_hash t \<Longrightarrow> n_content c = n_content t"
  shows "cores current i = cores target i"
proof (cases "lookup_by n_id i target")
  case None
  have "lookup_by n_id i current = None"
  proof (rule ccontr)
    assume "lookup_by n_id i current \<noteq> None"
    then have "i \<in> set (map d_node (rollback_removed current target))"
      using None by (auto simp: rollback_removed_nodes lookup_by_None_iff)
    with assms(2) show False by (auto simp: compute_rollback_deltas_def)
  qed
  with None show ?thesis by (simp add: cores_def)
next
  case (Some t)
  then have t: "t \<in> set target" "n_id t = i" using lookup_by_SomeD by fast+
  have none: "rollback_written current t = []"
  proof (rule ccontr)
    assume "rollback_written current t \<noteq> []"
    then obtain d where "d \<in> set (rollback_written current t)" by (cases "rollback_written current t") auto
    then have "d_node d = i" "d \<in> set (compute_rollback_deltas current target)"
      using t rollback_written_node unfolding set_rollback_deltas by blast+
    with assms(2) show False by blast
  qed
  then obtain c where c: "lookup_by n_id i current = Some c" "node_equal c t"
    using t(2) by (auto simp: rollback_written_def split: option.splits if_splits)
  moreover have "n_id c = n_id t" using c(1) t(2) lookup_by_SomeD by fastforce
  ultimately have "core_of c = core_of t" using node_equal_core assms(3) [OF c(1) Some] by blast
  then show ?thesis using c(1) Some by (simp add: cores_def)
qed

subsection \<open>Applying the deltas\<close>

lemma closed_in_put_row:
  assumes "closed_in R db" "n_parent n \<notin> R"
  shows "closed_in R (put_row n db)"
  using assms rows_fold_put [of _ "[n]" db] unfolding closed_in_def tree_edges_def by fastforce

lemma fold_rollback:
  assumes "set ds \<subseteq> {d. (d_op d = OpRem \<and> d_node d \<in> R) \<or> (d_op d \<noteq> OpRem \<and> d_node d \<notin> R
      \<and> (\<exists>t. lookup_by n_id (d_node d) target = Some t \<and> n_parent t \<notin> R))}"
    and "distinct (map d_node ds)" "closed_in R db" "db_defer db" "keys_ok db" "edges_ok db"
  shows "\<exists>db'. fold_result (rollback_mutation target) ds db = Inr db' \<and> db_defer db' \<and> keys_ok db'
    \<and> edges_ok db' \<and> db_snapshots db' = db_snapshots db \<and> db_diffs db' = db_diffs db
    \<and> db_head db' = db_head db \<and> db_next_snapshot db' = db_next_snapshot db
    \<and> (\<forall>i. i \<notin> d_node ` set ds \<longrightarrow> core_view db' i = core_view db i \<or> (core_view db' i = None \<and> i \<in> R))
    \<and> (\<forall>d\<in>set ds. core_view db' (d_node d) =
         (if d_op d = OpRem then None else map_option core_of (lookup_by n_id (d_node d) target)))"
  using assms
proof (induction ds arbitrary: db)
  case (Cons d ds)
  have "\<exists>db1. rollback_mutation target d db = Inr db1 \<and> closed_in R db1 \<and> db_defer db1 \<and> keys_ok db1
    \<and> edges_ok db1 \<and> db_snapshots db1 = db_snapshots db \<and> db_diffs db1 = db_diffs db
    \<and> db_head db1 = db_head db \<and> db_next_snapshot db1 = db_next_snapshot db
    \<and> (\<forall>i. i \<noteq> d_node d \<longrightarrow> core_view db1 i = core_view db i \<or> (core_view db1 i = None \<and> i \<in> R))
    \<and> core_view db1 (d_node d) = (if d_op d = OpRem then None else map_option core_of (lookup_by n_id (d_node d) target))
    \<and> (d_op d \<noteq> OpRem \<longrightarrow> d_node d \<notin> R)"
  proof (cases "d_op d = OpRem")
    case True
    let ?db1 = "delete_node (d_node d) db"
    have R: "d_node d \<in> R" using True Cons.prems(1) by simp
    have sub: "doomed [d_node d] db \<subseteq> R" by (rule closed_in_doomed [OF Cons.prems(3) R])
    have "core_view ?db1 (d_node d) = None"
      by (cases "d_node d \<in> set (node_ids db)")
        (simp_all add: delete_node_def core_view_delete_rows doomed_single core_view_def node_at_None_iff
          node_at_delete_node)
    moreover have "core_view ?db1 i = core_view db i \<or> (core_view ?db1 i = None \<and> i \<in> R)" for i
      using sub by (auto simp: delete_node_def core_view_delete_rows)
    moreover have "distinct (node_ids db)" using Cons.prems(5) by (simp add: keys_ok_def)
    ultimately show ?thesis
      using True Cons.prems by (simp add: rollback_mutation_def)
        (simp add: delete_node_def closed_in_delete delete_rows_keys_ok delete_rows_edges_ok frame_simps)
  next
    case False
    then obtain t where t: "lookup_by n_id (d_node d) target = Some t" "n_parent t \<notin> R" "d_node d \<notin> R"
      using Cons.prems(1) by auto
    then have id: "n_id t = d_node d" using lookup_by_SomeD by fastforce
    have "rollback_mutation target d db = Inr (put_row t db)"
      using False t(1) Cons.prems(4) by (cases "d_op d") (auto simp: rollback_mutation_def upsert_node_def Let_def)
    then show ?thesis
      using False t id Cons.prems closed_in_put_row [OF Cons.prems(3) t(2)]
      by (simp add: frame_simps core_view_put_row)
  qed
  then obtain db1 where db1: "rollback_mutation target d db = Inr db1" "closed_in R db1" "db_defer db1"
    "keys_ok db1" "edges_ok db1" "db_snapshots db1 = db_snapshots db" "db_diffs db1 = db_diffs db"
    "db_head db1 = db_head db" "db_next_snapshot db1 = db_next_snapshot db"
    "\<forall>i. i \<noteq> d_node d \<longrightarrow> core_view db1 i = core_view db i \<or> (core_view db1 i = None \<and> i \<in> R)"
    "core_view db1 (d_node d) = (if d_op d = OpRem then None else map_option core_of (lookup_by n_id (d_node d) target))"
    "d_op d \<noteq> OpRem \<longrightarrow> d_node d \<notin> R" by blast
  obtain db' where db': "fold_result (rollback_mutation target) ds db1 = Inr db'" "db_defer db'" "keys_ok db'"
    "edges_ok db'" "db_snapshots db' = db_snapshots db1" "db_diffs db' = db_diffs db1"
    "db_head db' = db_head db1" "db_next_snapshot db' = db_next_snapshot db1"
    "\<forall>i. i \<notin> d_node ` set ds \<longrightarrow> core_view db' i = core_view db1 i \<or> (core_view db' i = None \<and> i \<in> R)"
    "\<forall>d\<in>set ds. core_view db' (d_node d) =
         (if d_op d = OpRem then None else map_option core_of (lookup_by n_id (d_node d) target))"
    using Cons.IH [of db1] Cons.prems(1,2) db1(2-5) by auto
  have "core_view db' (d_node d) = core_view db1 (d_node d) \<or> core_view db' (d_node d) = None \<and> d_node d \<in> R"
    using db'(9) Cons.prems(2) by auto
  then have "core_view db' (d_node d) =
      (if d_op d = OpRem then None else map_option core_of (lookup_by n_id (d_node d) target))"
    using db1(11,12) by auto
  moreover have "core_view db' i = core_view db i \<or> (core_view db' i = None \<and> i \<in> R)"
    if "i \<notin> d_node ` set (d # ds)" for i
    using that db'(9) [rule_format, of i] db1(10) [rule_format, of i] by auto
  ultimately show ?case
    using db1(1,6-9) db' by (intro exI [of _ db']) auto
qed simp

subsection \<open>The rollback transaction\<close>

text \<open>
  When a rollback is safe: the rows below a row that the target state lacks are missing there too,
  the target's parents exist in it, and equal hashes of one node mean equal texts.
\<close>

definition rollback_safe :: "db \<Rightarrow> view \<Rightarrow> bool" where
  "rollback_safe db v \<longleftrightarrow>
     [] \<notin> set (node_ids db) \<and> closed_in {i. i \<noteq> [] \<and> v i = None} db
     \<and> (\<forall>i b. v i = Some b \<longrightarrow> n_parent b = [] \<or> v (n_parent b) \<noteq> None)
     \<and> (\<forall>i b c. core_view db i = Some b \<longrightarrow> v i = Some c \<longrightarrow> n_hash b = n_hash c \<longrightarrow> n_content b = n_content c)"

lemma distinct_reverse_apply:
  "distinct (map n_id (rr_nodes st)) \<Longrightarrow> distinct (map n_id (rr_nodes (reverse_apply_diff d st)))"
proof -
  have "n_id \<circ> (\<lambda>n. if n_id n = r_node d then undo_mod d n else n) = n_id"
    by (simp add: fun_eq_iff)
  then show "distinct (map n_id (rr_nodes st)) \<Longrightarrow> distinct (map n_id (rr_nodes (reverse_apply_diff d st)))"
    by (simp add: reverse_apply_diff_def distinct_map_filter) (auto simp: image_iff)
qed

lemma distinct_fold_reverse:
  "distinct (map n_id (rr_nodes st)) \<Longrightarrow> distinct (map n_id (rr_nodes (fold reverse_apply_diff ds st)))"
  by (induction ds arbitrary: st) (simp_all add: distinct_reverse_apply)

lemma distinct_all_nodes: "distinct (node_ids db) \<Longrightarrow> distinct (map n_id (get_all_nodes db))"
proof -
  have "mset (map n_id (get_all_nodes db)) = mset (map n_id (db_nodes db))"
    by (simp add: get_all_nodes_def order_nodes_def)
  then show "distinct (node_ids db) \<Longrightarrow> distinct (map n_id (get_all_nodes db))"
    unfolding node_ids_def by (metis mset_eq_imp_distinct_iff)
qed

lemma lookup_all_nodes:
  "distinct (node_ids db) \<Longrightarrow> lookup_by n_id i (get_all_nodes db) = node_at db i"
  unfolding node_at_def using distinct_all_nodes [of db]
  by (intro lookup_by_same_set) (simp_all add: node_ids_def get_all_nodes_def order_nodes_def)

lemma core_of_fields [simp]: "n_hash (core_of n) = n_hash n" "n_content (core_of n) = n_content n"
  "n_parent (core_of n) = n_parent n"
  by (simp_all add: core_of_def)

lemma rollback_applies:
  assumes "keys_ok db" "edges_ok db" "db_defer db" "rollback_safe db v"
    and ns: "distinct (map n_id ns)" "cores ns = v"
    and ds: "ds = compute_rollback_deltas (get_all_nodes db) ns"
  shows "\<exists>db1. fold_result (rollback_mutation ns) ds db = Inr db1 \<and> db_defer db1 \<and> keys_ok db1
    \<and> parents_ok db1 \<and> edges_ok db1 \<and> db_snapshots db1 = db_snapshots db \<and> db_diffs db1 = db_diffs db
    \<and> db_head db1 = db_head db \<and> db_next_snapshot db1 = db_next_snapshot db \<and> core_view db1 = v
    \<and> distinct (map d_node ds) \<and> list_all (fits db) ds
    \<and> (\<forall>i. i \<notin> d_node ` set ds \<longrightarrow> v i = core_view db i)
    \<and> (\<forall>d\<in>set ds. v (d_node d) = None \<longleftrightarrow> d_op d = OpRem)
    \<and> (\<forall>d\<in>set ds. \<forall>a. v (d_node d) = Some a \<longrightarrow> d_new_hash d = n_hash a \<and> d_new_content d = n_content a)"
proof -
  let ?R = "{i. i \<noteq> [] \<and> v i = None}" and ?cur = "get_all_nodes db"
  have dist: "distinct (node_ids db)" using assms(1) by (simp add: keys_ok_def)
  note safe = assms(4) [unfolded rollback_safe_def]
  have v: "v i = map_option core_of (lookup_by n_id i ns)" for i using ns(2) by (auto simp: cores_def)
  have cur: "lookup_by n_id i ?cur = node_at db i" for i by (rule lookup_all_nodes [OF dist])
  have same: "n_content c = n_content t"
    if "lookup_by n_id i ?cur = Some c" "lookup_by n_id i ns = Some t" "n_hash c = n_hash t" for i c t
  proof -
    have "core_view db i = Some (core_of c)" "v i = Some (core_of t)"
      using that by (simp_all add: core_view_def cur v)
    with safe that(3) have "n_content (core_of c) = n_content (core_of t)" by (metis core_of_fields(1))
    then show ?thesis by simp
  qed
  have d_ds: "distinct (map d_node ds)"
    unfolding ds by (rule distinct_rollback_deltas [OF distinct_all_nodes [OF dist] ns(1)])
  have facts: "fits db d \<and> (v (d_node d) = None \<longleftrightarrow> d_op d = OpRem)
      \<and> (\<forall>a. v (d_node d) = Some a \<longrightarrow> d_new_hash d = n_hash a \<and> d_new_content d = n_content a)
      \<and> ((d_op d = OpRem \<and> d_node d \<in> ?R) \<or> (d_op d \<noteq> OpRem \<and> d_node d \<notin> ?R
        \<and> (\<exists>t. lookup_by n_id (d_node d) ns = Some t \<and> n_parent t \<notin> ?R)))" if "d \<in> set ds" for d
  proof (cases rule: rollback_delta_cases [OF distinct_all_nodes [OF dist] ns(1) that [unfolded ds]])
    case (1 c)
    note removed = this
    then have "d_node d \<noteq> []"
      using safe by (metis cur node_at_Some_iff)
    with removed show ?thesis by (simp add: fits_def cur v)
  next
    case (2 t)
    note added = this
    then have "n_parent t = [] \<or> v (n_parent t) \<noteq> None" using safe v [of "d_node d"] by fastforce
    with added show ?thesis by (auto simp: fits_def cur v)
  next
    case (3 c t)
    note changed = this
    then have "n_parent t = [] \<or> v (n_parent t) \<noteq> None" using safe v [of "d_node d"] by fastforce
    with changed show ?thesis by (auto simp: fits_def cur v)
  qed
  have out: "v i = core_view db i" if "i \<notin> d_node ` set ds" for i
    using no_delta_same_core [OF ns(1) that [unfolded ds] same] ns(2)
    by (simp add: cores_def cur core_view_def fun_eq_iff)
  have "set ds \<subseteq> {d. (d_op d = OpRem \<and> d_node d \<in> ?R) \<or> (d_op d \<noteq> OpRem \<and> d_node d \<notin> ?R
        \<and> (\<exists>t. lookup_by n_id (d_node d) ns = Some t \<and> n_parent t \<notin> ?R))}"
    using facts by blast
  from fold_rollback [OF this d_ds _ assms(3,1,2)] safe obtain db1 where
    db1: "fold_result (rollback_mutation ns) ds db = Inr db1" "db_defer db1" "keys_ok db1" "edges_ok db1"
      "db_snapshots db1 = db_snapshots db" "db_diffs db1 = db_diffs db" "db_head db1 = db_head db"
      "db_next_snapshot db1 = db_next_snapshot db"
      "\<forall>i. i \<notin> d_node ` set ds \<longrightarrow> core_view db1 i = core_view db i \<or> (core_view db1 i = None \<and> i \<in> ?R)"
      "\<forall>d\<in>set ds. core_view db1 (d_node d) =
         (if d_op d = OpRem then None else map_option core_of (lookup_by n_id (d_node d) ns))"
    by blast
  have view: "core_view db1 = v"
  proof
    fix i
    show "core_view db1 i = v i"
    proof (cases "i \<in> d_node ` set ds")
      case True
      then obtain d where "d \<in> set ds" "i = d_node d" by auto
      then show ?thesis using db1(10) facts by (auto simp: v)
    next
      case False
      then show ?thesis using db1(9) out [OF False] by force
    qed
  qed
  have "parents_ok db1"
    unfolding parents_ok_alt
  proof
    fix n assume n: "n \<in> set (db_nodes db1)"
    have "distinct (node_ids db1)" using db1(3) by (simp add: keys_ok_def)
    then have "core_view db1 (n_id n) = Some (core_of n)"
      using n lookup_by_mem [of n_id "db_nodes db1" n] by (simp add: core_view_def node_at_def node_ids_def)
    then have "n_parent n = [] \<or> core_view db1 (n_parent n) \<noteq> None"
      using safe unfolding view by (metis core_of_fields(3))
    then show "n_parent n = [] \<or> n_parent n \<in> set (node_ids db1)"
      by (auto simp: core_view_def node_at_None_iff [symmetric])
  qed
  with db1 view d_ds facts out show ?thesis by (auto simp: list_all_iff)
qed

definition rollback_deltas :: "db \<Rightarrow> int \<Rightarrow> delta list" where
  "rollback_deltas db target = (case restore_to_snapshot db target of
      Inl _ \<Rightarrow> [] | Inr st \<Rightarrow> compute_rollback_deltas (get_all_nodes db) (rr_nodes st))"

text \<open>The state of the transaction before a prune.\<close>

definition rolled_back :: "db \<Rightarrow> int \<Rightarrow> view \<Rightarrow> db \<Rightarrow> bool" where
  "rolled_back db par v db4 \<longleftrightarrow> db_ok db4 \<and> core_view db4 = v
     \<and> db_head db4 = Some (db_next_snapshot db) \<and> db_next_snapshot db4 = db_next_snapshot db + 1
     \<and> (\<exists>s. db_snapshots db4 = db_snapshots db @ [s] \<and> s_id s = db_next_snapshot db \<and> s_parent s = Some par)
     \<and> (\<exists>rs. db_diffs db4 = db_diffs db @ rs \<and> (\<forall>r\<in>set rs. r_snap r = db_next_snapshot db)
          \<and> recorded rs (core_view db) v)"

lemma write_rollback_state:
  fixes xxh target h drop_after db
  defines "ds \<equiv> rollback_deltas db target"
  defines "par \<equiv> if drop_after then target else h"
  assumes ok: "db_ok db" and safe: "rollback_safe db v"
    and ids: "0 < h" "0 < target" "h \<in> set (snapshot_ids db)" "target \<in> set (snapshot_ids db)"
    and fresh: "cursor_hash_for_rollback xxh h target ds \<notin> set (map s_cursor (db_snapshots db))"
    and st: "restore_to_snapshot db target = Inr st" "cores (rr_nodes st) = v"
  shows "(ds = [] \<longrightarrow> v = core_view db) \<and> (\<exists>db4. rolled_back db par v db4 \<and> db_defer db4 \<and>
    write_rollback xxh h target drop_after (rr_nodes st) ds db =
      (if drop_after then bind_result (prune_snapshots_after target (db_next_snapshot db) db4)
           (\<lambda>(pruned, db5). Inr ((db_next_snapshot db, pruned), db5))
       else Inr ((db_next_snapshot db, 0), db4)))"
proof -
  let ?db = "db\<lparr>db_defer := True\<rparr>" and ?sid = "db_next_snapshot db" and ?ns = "rr_nodes st"
  let ?so = "\<lparr>o_cursor = cursor_hash_for_rollback xxh h target ds, o_message = ''rollback to '' @ itoa target,
             o_root = [], o_parent = par, o_has_parent = True\<rparr>"
  have same: "core_view ?db = core_view db" "node_ids ?db = node_ids db" "tree_edges ?db = tree_edges db"
      "get_all_nodes ?db = get_all_nodes db"
    by (simp_all add: core_view_def node_at_def fun_eq_iff node_ids_def tree_edges_def get_all_nodes_def)
  have ok': "db_ok ?db" "keys_ok ?db" "edges_ok ?db" using ok by simp_all (simp_all add: db_ok_def fk_ok_def)
  have dist: "distinct (map n_id ?ns)"
  proof -
    have "distinct (node_ids db)" using ok by (simp add: db_ok_def keys_ok_def)
    then have "distinct (map n_id (get_all_nodes db))" by (rule distinct_all_nodes)
    then show ?thesis
      using st(1) distinct_fold_reverse [of "\<lparr>rr_nodes = get_all_nodes db, rr_skipped = []\<rparr>"]
      by (auto simp: restore_to_snapshot_def split: sum.splits error.splits)
  qed
  have ds: "ds = compute_rollback_deltas (get_all_nodes ?db) ?ns"
    by (simp add: ds_def rollback_deltas_def st(1) same)
  have safe': "rollback_safe ?db v" using safe by (simp add: rollback_safe_def closed_in_def same)
  obtain db1 where db1: "fold_result (rollback_mutation ?ns) ds ?db = Inr db1" "db_defer db1" "keys_ok db1"
      "parents_ok db1" "edges_ok db1" "db_snapshots db1 = db_snapshots db" "db_diffs db1 = db_diffs db"
      "db_head db1 = db_head db" "db_next_snapshot db1 = ?sid" "core_view db1 = v"
      "distinct (map d_node ds)" "list_all (fits ?db) ds"
      "\<forall>i. i \<notin> d_node ` set ds \<longrightarrow> v i = core_view db i"
      "\<forall>d\<in>set ds. v (d_node d) = None \<longleftrightarrow> d_op d = OpRem"
      "\<forall>d\<in>set ds. \<forall>a. v (d_node d) = Some a \<longrightarrow> d_new_hash d = n_hash a \<and> d_new_content d = n_content a"
    using rollback_applies [OF ok'(2,3) _ safe' dist st(2) ds] by (auto simp: same)
  have "snapshots_ok db1 = snapshots_ok db" by (rule snapshots_ok_frame) (simp_all add: db1)
  then have ok1: "db_ok db1" using ok db1(3-5) by (simp add: db_ok_def fk_ok_def)
  have par: "0 < par" "par \<in> set (snapshot_ids db1)"
    using ids db1(6) by (simp_all add: par_def snapshot_ids_def)
  obtain db2 where c: "create_snapshot ?so db1 = Inr (?sid, db2)"
    using fresh par db1(2,6,9) by (auto simp: create_snapshot_def Let_def)
  note db2 = create_snapshot_InrD [OF c]
  have ok2: "db_ok db2" by (rule create_snapshot_ok [OF ok1 _ c]) (simp add: par)
  have sid2: "?sid \<in> set (snapshot_ids db2)" by (simp add: db2(11))
  let ?rs = "map (diff_record ?sid (capture_pre_state ?db ds)) ds"
  let ?db4 = "db2\<lparr>db_diffs := db_diffs db2 @ ?rs, db_head := Some ?sid\<rparr>"
  have ins: "insert_rollback_diffs ?sid (capture_pre_state ?db ds) ds db2 = Inr (db2\<lparr>db_diffs := db_diffs db2 @ ?rs\<rparr>)"
    unfolding insert_rollback_diffs_def fold_result_map by (rule fold_insert_diffs) (use sid2 in auto)
  have adv: "advance_cursor ?sid (db2\<lparr>db_diffs := db_diffs db2 @ ?rs\<rparr>) = Inr ?db4"
    using sid2 by (simp add: advance_cursor_def snapshot_ids_def)
  have "db_ok ?db4"
  proof -
    have "snapshots_ok ?db4"
      using ok2 sid2 by (auto simp: db_ok_def fk_ok_def snapshots_ok_alt snapshot_ids_def)
    with ok2 show ?thesis
      by (simp add: db_ok_def keys_ok_def fk_ok_def parents_ok_def edges_ok_def node_ids_def snapshot_ids_def)
  qed
  moreover have "core_view ?db4 = v"
    using db1(10) by (simp add: core_view_def node_at_def db2(3) fun_eq_iff)
  moreover have "\<exists>rs. db_diffs ?db4 = db_diffs db @ rs \<and> (\<forall>r\<in>set rs. r_snap r = ?sid) \<and> recorded rs (core_view db) v"
  proof (intro exI conjI)
    show "db_diffs ?db4 = db_diffs db @ ?rs" by (simp add: db2(4) db1(7))
    show "\<forall>r\<in>set ?rs. r_snap r = ?sid" by simp
    show "recorded ?rs (core_view db) v"
      using deltas_recorded [OF db1(11,12), of db1] db1(10,13,14,15) by (simp add: same)
  qed
  moreover have "db_head ?db4 = Some ?sid" "db_next_snapshot ?db4 = ?sid + 1" by (simp_all add: db2(10))
  moreover have "\<exists>s. db_snapshots ?db4 = db_snapshots db @ [s] \<and> s_id s = ?sid \<and> s_parent s = Some par"
    using db2(9) par(1) by (simp add: db1(6)) blast
  ultimately have "rolled_back db par v ?db4"
    unfolding rolled_back_def by blast
  moreover have "write_rollback xxh h target drop_after ?ns ds db =
      (if drop_after then bind_result (prune_snapshots_after target ?sid ?db4)
           (\<lambda>(pruned, db5). Inr ((?sid, pruned), db5))
       else Inr ((?sid, 0), ?db4))"
    by (simp only: write_rollback_def Let_def par_def [symmetric] db1(1) c ins adv bind_result_simps prod.case)
  moreover have "db_defer ?db4" using db1(2) by (simp add: db2(8))
  moreover have "ds = [] \<longrightarrow> v = core_view db" using db1(13) by (simp add: fun_eq_iff)
  ultimately show ?thesis by blast
qed

lemma rollback_tx_runs:
  assumes "db_ok db" "db_head db = Some h" "0 < target" "target < h" "target \<in> set (snapshot_ids db)"
    and "restorable db target v" "rollback_safe db v" "v \<noteq> core_view db"
    and "cursor_hash_for_rollback xxh h target (rollback_deltas db target) \<notin> set (map s_cursor (db_snapshots db))"
  shows "\<exists>db4. rolled_back db (if drop_after then target else h) v db4 \<and> db_defer db4 \<and>
    (\<exists>msg. rollback_tx xxh target drop_after db = Inr ((msg, True),
       if drop_after then snd (the (case prune_snapshots_after target (db_next_snapshot db) db4 of
         Inl _ \<Rightarrow> None | Inr r \<Rightarrow> Some r)) else db4))"
proof -
  obtain st where st: "restore_to_snapshot db target = Inr st" "cores (rr_nodes st) = v"
    using restored_exactly [OF assms(1,5,6)] by blast
  have h: "head_snapshot_id db = h" "0 < h" "h \<in> set (snapshot_ids db)"
    using assms(1-4) by (simp_all add: head_snapshot_id_def db_ok_def fk_ok_def snapshots_ok_alt)
  have ds: "rollback_deltas db target = compute_rollback_deltas (get_all_nodes db) (rr_nodes st)"
    by (simp add: rollback_deltas_def st(1))
  from write_rollback_state [OF assms(1,7) h(2) assms(3) h(3) assms(5,9) st, of drop_after] assms(8)
  obtain db4 where "rolled_back db (if drop_after then target else h) v db4" "db_defer db4"
    "rollback_deltas db target \<noteq> []"
    "write_rollback xxh h target drop_after (rr_nodes st) (rollback_deltas db target) db =
      (if drop_after then bind_result (prune_snapshots_after target (db_next_snapshot db) db4)
           (\<lambda>(pruned, db5). Inr ((db_next_snapshot db, pruned), db5))
       else Inr ((db_next_snapshot db, 0), db4))"
    by blast
  moreover from this(3,4) have "\<exists>msg. rollback_tx xxh target drop_after db = Inr ((msg, True),
       if drop_after then snd (the (case prune_snapshots_after target (db_next_snapshot db) db4 of
         Inl _ \<Rightarrow> None | Inr r \<Rightarrow> Some r)) else db4)"
    using assms(4) h(1) st(1)
    by (simp add: rollback_tx_def Let_def ds [symmetric] prune_snapshots_after_def)
  ultimately show ?thesis by blast
qed

text \<open>C3:
  Rolling back restores: when the target snapshot is restorable and the rollback is safe, the tool
  succeeds, the nodes table is exactly the state of the target, HEAD is a new snapshot, the schema's
  constraints hold, and nothing of the history is lost: every snapshot that could be restored before,
  the abandoned HEAD included, still can, and so can the new one.
\<close>

theorem rollback_restores:
  assumes "db_ok db" "db_head db = Some h" "0 < target" "target < h" "target \<in> set (snapshot_ids db)"
    and "restorable db target v" "rollback_safe db v" "v \<noteq> core_view db"
    and "cursor_hash_for_rollback xxh h target (rollback_deltas db target) \<notin> set (map s_cursor (db_snapshots db))"
  shows "\<exists>msg db'. handle_rollback (\<lambda>_. None) awake xxh \<lparr>rb_snapshot = target, rb_drop_after = False\<rparr> db
      = (Inr (msg, True), db')
    \<and> db_ok db' \<and> core_view db' = v \<and> db_head db' = Some (db_next_snapshot db)
    \<and> {(t, w). t < db_next_snapshot db \<and> restorable db t w} \<subseteq> {(t, w). restorable db' t w}
    \<and> restorable db' (db_next_snapshot db) v"
proof -
  obtain db4 msg where db4: "rolled_back db h v db4" and run: "rollback_tx xxh target False db = Inr ((msg, True), db4)"
    using rollback_tx_runs [OF assms, of False] by auto
  let ?db' = "db4\<lparr>db_defer := False\<rparr>"
  have ok: "db_ok db4" using db4 by (simp add: rolled_back_def)
  have "handle_rollback (\<lambda>_. None) awake xxh \<lparr>rb_snapshot = target, rb_drop_after = False\<rparr> db
      = (Inr (msg, True), ?db')"
    using store_tx_no_fault [of "rollback_tx xxh target False" db "(msg, True)" db4 awake] run ok assms(3)
    by (simp add: handle_rollback_def db_ok_def)
  moreover have same: "core_view ?db' = v" "db_diffs ?db' = db_diffs db4"
    using db4 by (simp_all add: rolled_back_def core_view_def node_at_def fun_eq_iff)
  moreover obtain rs where rs: "db_diffs ?db' = db_diffs db @ rs" "\<forall>r\<in>set rs. r_snap r = db_next_snapshot db"
    "recorded rs (core_view db) v" using db4 by (auto simp: rolled_back_def)
  have "restorable ?db' t w" if "restorable db t w" "t < db_next_snapshot db" for t w
    by (rule restorable_step [OF assms(1) that _ rs(1)]) (use rs same in auto)
  moreover have "restorable ?db' (db_next_snapshot db) v"
    using restorable_head [of ?db' "db_next_snapshot db"] ok db4 same(1) by (simp add: rolled_back_def)
  ultimately show ?thesis using ok db4 by (auto simp: rolled_back_def)
qed

text \<open>Snapshots come after their parents, as every snapshot is created below an existing one.\<close>

definition parents_older :: "db \<Rightarrow> bool" where
  "parents_older db = list_all (\<lambda>s. case s_parent s of None \<Rightarrow> True | Some p \<Rightarrow> p < s_id s) (db_snapshots db)"

lemma prune_ok:
  assumes "rolled_back db target v db4" "parents_older db" "db_ok db"
    "prune_snapshots_after target (db_next_snapshot db) db4 = Inr (n, db5)" "target \<in> set (snapshot_ids db)"
  shows "fk_ok db5" "core_view db5 = v" "later_diffs db5 target = later_diffs db4 (db_next_snapshot db - 1)"
    "db_head db5 = Some (db_next_snapshot db)" "db_ok db5"
    "snapshot_ids db5 = filter (\<lambda>s. s \<le> target) (snapshot_ids db) @ [db_next_snapshot db]"
proof -
  let ?sid = "db_next_snapshot db"
  obtain s where s: "db_snapshots db4 = db_snapshots db @ [s]" "s_id s = ?sid" "s_parent s = Some target"
    using assms(1) by (auto simp: rolled_back_def)
  have ok: "db_ok db4" "core_view db4 = v" "db_head db4 = Some ?sid" "db_next_snapshot db4 = ?sid + 1"
    using assms(1) by (simp_all add: rolled_back_def)
  have lt: "sid < ?sid" if "sid \<in> set (snapshot_ids db)" for sid
    using assms(3) that by (auto simp: db_ok_def keys_ok_def list_all_iff snapshot_ids_def)
  then have t: "target < ?sid" using assms(5) by blast
  have db5: "db5 = db4\<lparr>db_defer := True,
      db_diffs := filter (\<lambda>d. \<not> (target < r_snap d \<and> r_snap d \<noteq> ?sid)) (db_diffs db4),
      db_snapshots := filter (\<lambda>s. \<not> (target < s_id s \<and> s_id s \<noteq> ?sid)) (db_snapshots db4)\<rparr>"
    using assms(4) by (simp add: prune_snapshots_after_def Let_def)
  show ids: "snapshot_ids db5 = filter (\<lambda>s. s \<le> target) (snapshot_ids db) @ [?sid]"
  proof -
    have "filter (\<lambda>s. \<not> (target < s_id s \<and> s_id s \<noteq> ?sid)) (db_snapshots db) =
        filter (\<lambda>s. s_id s \<le> target) (db_snapshots db)"
      using lt by (intro filter_cong) (fastforce simp: snapshot_ids_def)+
    then show ?thesis by (simp add: db5 snapshot_ids_def s filter_map comp_def)
  qed
  show view: "core_view db5 = v"
    using ok(2) by (simp add: db5 core_view_def node_at_def fun_eq_iff)
  show "db_head db5 = Some ?sid" by (simp add: db5 ok(3))
  show "later_diffs db5 target = later_diffs db4 (?sid - 1)"
  proof -
    have "r_snap d \<le> ?sid" if "d \<in> set (db_diffs db4)" for d
      using diff_snap_less [OF ok(1) that] ok(4) by simp
    then have "filter (\<lambda>d. target < r_snap d) (filter (\<lambda>d. \<not> (target < r_snap d \<and> r_snap d \<noteq> ?sid)) (db_diffs db4))
        = filter (\<lambda>d. ?sid - 1 < r_snap d) (db_diffs db4)"
      using t by (auto simp: intro!: filter_cong) force
    then show ?thesis by (simp add: later_diffs_def db5)
  qed
  have keys: "keys_ok db5"
    using ok(1) by (auto simp: db5 db_ok_def keys_ok_def node_ids_def snapshot_ids_def distinct_map_filter
        list_all_iff)
  have "snapshots_ok db5"
    unfolding snapshots_ok_alt ids
  proof (intro conjI ballI allI impI)
    fix x p assume x: "x \<in> set (db_snapshots db5)" "s_parent x = Some p"
    then consider "x = s" | "x \<in> set (db_snapshots db)" "s_id x \<le> target"
      using lt [of "s_id x"] by (force simp: db5 s snapshot_ids_def)
    then show "p \<in> set (filter (\<lambda>s. s \<le> target) (snapshot_ids db) @ [?sid])"
    proof cases
      case 1
      with x(2) s(3) assms(5) show ?thesis by simp
    next
      case 2
      with x(2) assms(2) have "p < s_id x" by (auto simp: parents_older_def list_all_iff split: option.splits)
      moreover have "p \<in> set (snapshot_ids db)"
        using 2(1) x(2) assms(3) by (auto simp: db_ok_def fk_ok_def snapshots_ok_alt)
      ultimately show ?thesis using 2(2) by simp
    qed
  next
    fix d assume "d \<in> set (db_diffs db5)"
    then have d: "d \<in> set (db_diffs db4)" "r_snap d \<le> target \<or> r_snap d = ?sid" by (auto simp: db5)
    then have "r_snap d \<in> set (snapshot_ids db4)"
      using ok(1) by (auto simp: db_ok_def fk_ok_def snapshots_ok_alt)
    with d(2) show "r_snap d \<in> set (filter (\<lambda>s. s \<le> target) (snapshot_ids db) @ [?sid])"
      by (auto simp: snapshot_ids_def s)
  next
    fix h assume "db_head db5 = Some h"
    then show "h \<in> set (filter (\<lambda>s. s \<le> target) (snapshot_ids db) @ [?sid])" by (simp add: db5 ok(3))
  qed
  then show fk: "fk_ok db5"
    using ok(1) by (simp add: fk_ok_def db_ok_def) (simp add: db5 parents_ok_def edges_ok_def node_ids_def)
  then show "db_ok db5" using keys by (simp add: db_ok_def)
qed

text \<open>C4:
  A rollback with \<open>drop_after\<close> does restore the target state and does delete the snapshots and diffs
  in between, but the diff rows of its own snapshot are kept, and they hold the abandoned state:
  restoring the very target of the rollback again brings the dropped nodes back, with their text,
  although the documentation calls the operation irreversible.
\<close>

theorem rollback_drop_keeps_dropped_state:
  assumes "db_ok db" "db_head db = Some h" "0 < target" "target < h" "target \<in> set (snapshot_ids db)"
    and "restorable db target v" "rollback_safe db v" "v \<noteq> core_view db"
    and "cursor_hash_for_rollback xxh h target (rollback_deltas db target) \<notin> set (map s_cursor (db_snapshots db))"
    and "parents_older db"
  shows "\<exists>msg db' st. handle_rollback (\<lambda>_. None) awake xxh \<lparr>rb_snapshot = target, rb_drop_after = True\<rparr> db
      = (Inr (msg, True), db')
    \<and> db_ok db' \<and> core_view db' = v
    \<and> snapshot_ids db' = filter (\<lambda>s. s \<le> target) (snapshot_ids db) @ [db_next_snapshot db]
    \<and> restore_to_snapshot db' target = Inr st \<and> cores (rr_nodes st) = core_view db"
proof -
  let ?sid = "db_next_snapshot db"
  obtain db4 msg where db4: "rolled_back db target v db4"
    and run: "rollback_tx xxh target True db = Inr ((msg, True),
      snd (the (case prune_snapshots_after target ?sid db4 of Inl _ \<Rightarrow> None | Inr r \<Rightarrow> Some r)))"
    using rollback_tx_runs [OF assms(1-9), of True] by auto
  obtain n db5 where prune: "prune_snapshots_after target ?sid db4 = Inr (n, db5)"
    by (simp add: prune_snapshots_after_def Let_def)
  note db5 = prune_ok [OF db4 assms(10,1) prune assms(5)]
  let ?db' = "db5\<lparr>db_defer := False\<rparr>"
  have "handle_rollback (\<lambda>_. None) awake xxh \<lparr>rb_snapshot = target, rb_drop_after = True\<rparr> db
      = (Inr (msg, True), ?db')"
    using store_tx_no_fault [of "rollback_tx xxh target True" db "(msg, True)" db5 awake] run prune db5(1) assms(3)
    by (simp add: handle_rollback_def)
  moreover have same: "core_view ?db' = v" "later_diffs ?db' target = later_diffs db5 target"
    using db5(2) by (simp_all add: core_view_def node_at_def fun_eq_iff later_diffs_def)
  moreover have "restorable ?db' target (core_view db)"
  proof -
    obtain rs where rs: "db_diffs db4 = db_diffs db @ rs" "\<forall>r\<in>set rs. r_snap r = ?sid"
      "recorded rs (core_view db) v" using db4 by (auto simp: rolled_back_def)
    have "later_diffs db4 (?sid - 1) = later_diffs db (?sid - 1) @ rs"
      by (rule later_diffs_append [OF assms(1)]) (use rs in auto)
    then have "later_diffs db4 (?sid - 1) = rs" by (simp add: later_diffs_none [OF assms(1)])
    with rs(3) show ?thesis by (simp add: restorable_def same db5(3))
  qed
  moreover have "db_ok ?db'" "snapshot_ids ?db' = filter (\<lambda>s. s \<le> target) (snapshot_ids db) @ [?sid]"
    using db5(5,6) by simp_all
  moreover have "target \<in> set (snapshot_ids ?db')" using assms(5) by (simp add: db5(6))
  ultimately show ?thesis using restored_exactly [of ?db' target "core_view db"] by blast
qed

subsection \<open>Both on a concrete history\<close>

lemma core_view_sample: "core_view sample_history = [''a'' \<mapsto> core_of (blank_node ''a'' [] ''2'')]"
  by (auto simp: core_view_def node_at_def sample_history_def empty_db_def blank_node_def)

lemma sample_restorable: "restorable sample_history 1 [''a'' \<mapsto> core_of (blank_node ''a'' [] ''1'')]"
proof -
  let ?b = "core_of (blank_node ''a'' [] ''1'')"
  have t: "truthful sample_mod (Some ?b) (Some (core_of (blank_node ''a'' [] ''2'')))"
    by (simp add: truthful_def matches_old_def matches_new_def set_old_metadata_eq)
      (simp add: sample_mod_def set_old_metadata_def blank_node_def core_of_def)
  have "r_node sample_mod = ''a''" by (simp add: sample_mod_def set_old_metadata_def)
  then have "recorded [sample_mod] [''a'' \<mapsto> ?b] (core_view sample_history)"
    unfolding core_view_sample using t
    by (intro recorded_Cons [where x = "Some (core_of (blank_node ''a'' [] ''2''))"])
      (auto simp: blank_node_def intro: recorded_Nil)
  then show ?thesis
    by (simp add: restorable_def later_diffs_def)
      (simp add: sample_history_def sample_mod_def set_old_metadata_def empty_db_def)
qed

lemma sample_rollback_safe: "rollback_safe sample_history [''a'' \<mapsto> core_of (blank_node ''a'' [] ''1'')]"
proof -
  have "tree_edges sample_history = {}" "node_ids sample_history = [''a'']"
    by (simp_all add: tree_edges_set node_ids_def sample_history_def empty_db_def blank_node_def)
  then show ?thesis
    by (auto simp: rollback_safe_def closed_in_def core_view_sample) (auto simp: blank_node_def)
qed

lemma length_rollback_hash: "length (cursor_hash_for_rollback xxh h t ds) = 16"
  by (simp add: cursor_hash_for_rollback_def sum_hex_def length_hex_encode put_uint64_be_def)

lemma sample_rollback_facts:
  "db_head sample_history = Some 2" "db_next_snapshot sample_history = 3"
  "snapshot_ids sample_history = [1, 2]" "parents_older sample_history"
  "[''a'' \<mapsto> core_of (blank_node ''a'' [] ''1'')] \<noteq> core_view sample_history"
  "cursor_hash_for_rollback xxh 2 1 ds \<notin> set (map s_cursor (db_snapshots sample_history))"
proof -
  show "[''a'' \<mapsto> core_of (blank_node ''a'' [] ''1'')] \<noteq> core_view sample_history"
    unfolding core_view_sample by (auto simp: fun_eq_iff core_of_node) (simp add: blank_node_def)
  show "cursor_hash_for_rollback xxh 2 1 ds \<notin> set (map s_cursor (db_snapshots sample_history))"
    using length_rollback_hash [of xxh 2 1 ds] by (auto simp: sample_history_def sample_snapshot_def)
qed (simp_all add: sample_history_def sample_snapshot_def empty_db_def snapshot_ids_def parents_older_def)

theorem rollback_restores_witness:
  "\<exists>msg db'. handle_rollback (\<lambda>_. None) (\<lambda>_. True) (\<lambda>_. 0) \<lparr>rb_snapshot = 1, rb_drop_after = False\<rparr>
       sample_history = (Inr (msg, True), db')
     \<and> core_view db' ''a'' = Some (core_of (blank_node ''a'' [] ''1''))
     \<and> restorable db' 2 (core_view sample_history)"
proof -
  have head: "restorable sample_history 2 (core_view sample_history)"
    by (rule restorable_head [OF sample_history_ok(1)]) (simp add: sample_rollback_facts)
  from rollback_restores [OF sample_history_ok(1) sample_rollback_facts(1) _ _ sample_history_ok(2)
      sample_restorable sample_rollback_safe sample_rollback_facts(5,6), where awake = "\<lambda>_. True" and xxh = "\<lambda>_. 0"]
  show ?thesis using head
    by (auto simp: sample_rollback_facts dest!: subsetD [of _ _ "(2, core_view sample_history)"])
qed

theorem rollback_drop_keeps_dropped_state_witness:
  "\<exists>msg db' st. handle_rollback (\<lambda>_. None) (\<lambda>_. True) (\<lambda>_. 0) \<lparr>rb_snapshot = 1, rb_drop_after = True\<rparr>
       sample_history = (Inr (msg, True), db')
     \<and> core_view db' ''a'' = Some (core_of (blank_node ''a'' [] ''1''))
     \<and> snapshot_ids db' = [1, 3]
     \<and> restore_to_snapshot db' 1 = Inr st
     \<and> cores (rr_nodes st) ''a'' = Some (core_of (blank_node ''a'' [] ''2''))"
proof -
  from rollback_drop_keeps_dropped_state [OF sample_history_ok(1) sample_rollback_facts(1) _ _
      sample_history_ok(2) sample_restorable sample_rollback_safe sample_rollback_facts(5,6,4),
      where awake = "\<lambda>_. True" and xxh = "\<lambda>_. 0"]
  show ?thesis by (auto simp: sample_rollback_facts core_view_sample)
qed

end
