(* ===== verification/Memory_Write.thy ===== *)
theory Memory_Write
  imports Versions Redaction Rollback
begin

text \<open>
  The tools that write one node (\<open>pkg/mcp/tools\<close>: \<open>deps.go\<close>, \<open>write.go\<close>, \<open>summarize.go\<close>): each
  scrubs its text, builds the new row from the old one, and emits one snapshot with at most one delta.
  What a handler works with is the record \<open>tools\<close>: the hash, the redactor, the configured rebound
  temperature, what the driver does to its transactions, and the formats \<open>%q\<close> and \<open>%g\<close> of the messages. Logging and the notification of
  resources are left out.
\<close>

subsection \<open>Helpers\<close>

record tools =
  tl_hash :: hash64
  tl_redactor :: redactor
  tl_rebound :: real
  tl_fault :: "nat \<Rightarrow> error option"
  tl_awake :: "nat \<Rightarrow> bool"
  tl_quote :: "bytes \<Rightarrow> bytes"
  tl_real :: "real \<Rightarrow> bytes"

text \<open>The loop of \<open>firstLine\<close>: \<open>i\<close> is the byte offset of a rune.\<close>

function line_scan :: "nat \<Rightarrow> bytes \<Rightarrow> nat \<Rightarrow> bytes option" where
  "line_scan max_len s i =
     (if length s \<le> i then None
      else if s ! i = CHR 0x0A then Some (take i s)
      else if max_len \<le> i then Some (take (rune_floor s max_len) s)
      else line_scan max_len s (i + rune_width (drop i s)))"
  by pat_completeness auto

termination
  by (relation "measure (\<lambda>(max_len, s, i). length s - i)") (auto intro: diff_less_mono2)

declare line_scan.simps [simp del]

definition first_line :: "bytes \<Rightarrow> nat \<Rightarrow> bytes" where
  "first_line s max_len =
     (case line_scan max_len s 0 of
        Some l \<Rightarrow> l
      | None \<Rightarrow> if length s > max_len then take (rune_floor s max_len) s else s)"

definition cut_text :: "bytes \<Rightarrow> nat \<Rightarrow> bytes" where
  "cut_text s max_len = (if length s \<le> max_len then s else take (rune_floor s max_len) s @ ''...'')"

definition resolve_budget :: "int \<Rightarrow> int option \<Rightarrow> int \<Rightarrow> int" where
  "resolve_budget arg cfg builtin =
     (if arg > 0 then arg else case cfg of Some c \<Rightarrow> if c > 0 then c else builtin | None \<Rightarrow> builtin)"

definition emit_node_change :: "tools \<Rightarrow> cnode \<Rightarrow> prev_state \<Rightarrow> bytes \<Rightarrow> db \<Rightarrow> unit result \<times> db" where
  "emit_node_change t node prev msg db =
     (let roots = [CTree node []]; ds = diff_roots roots prev
      in case emit_in_store (tl_fault t) (tl_awake t) \<lparr>e_roots = roots, e_deltas = ds,
            e_cursor = cursor_hash_for_change (tl_hash t) (head_snapshot_id db) ds, e_message = msg,
            e_root = []\<rparr> db of
          (r, db', _) \<Rightarrow> (r, db'))"

subsection \<open>The handlers\<close>

record write_input =
  wi_anchor :: node_id
  wi_payload :: bytes

definition mcp_write :: bytes where
  "mcp_write = ''mcp:write''"

definition write_node :: "hash64 \<Rightarrow> node_id \<Rightarrow> bytes \<Rightarrow> node option \<Rightarrow> cnode" where
  "write_node xxh i payload existing =
     (case existing of
        Some n \<Rightarrow> zero_cnode\<lparr>c_id := n_id n, c_parent := n_parent n, c_source := n_source n,
          c_type := n_type n, c_depth := n_depth n, c_label := first_line payload 80, c_content := payload,
          c_format := n_format n, c_tokens := estimate payload, c_hash := content_hash xxh payload\<rparr>
      | None \<Rightarrow> zero_cnode\<lparr>c_id := i, c_source := mcp_write, c_type := node_text, c_depth := 1,
          c_label := first_line payload 80, c_content := payload, c_format := format_plain,
          c_tokens := estimate payload, c_hash := content_hash xxh payload\<rparr>)"

definition old_state :: "node_id \<Rightarrow> node option \<Rightarrow> prev_state" where
  "old_state i existing =
     (case existing of None \<Rightarrow> []
      | Some n \<Rightarrow> [(i, \<lparr>st_hash = n_hash n, st_content = n_content n\<rparr>)])"

definition handle_write :: "tools \<Rightarrow> write_input \<Rightarrow> db \<Rightarrow> bytes result \<times> db" where
  "handle_write t input db =
     (let payload = fst (scrub (tl_redactor t) (wi_payload input));
          i = (if wi_anchor input = [] then identify_payload (tl_hash t) mcp_write payload else wi_anchor input);
          existing = node_at db i
      in case emit_node_change t (write_node (tl_hash t) i payload existing) (old_state i existing)
            (''write:'' @ i) db of
          (Inl e, db') \<Rightarrow> (Inl e, db')
        | (Inr _, db') \<Rightarrow>
            (Inr (''wrote node '' @ i @ '' ('' @ itoa (estimate payload) @ '' tokens)''), db'))"

record summarize_input =
  si_node :: node_id
  si_summary :: bytes
  si_temp :: "real option"

definition summary_node :: "hash64 \<Rightarrow> node \<Rightarrow> bytes \<Rightarrow> real \<Rightarrow> cnode" where
  "summary_node xxh n summary rebound =
     zero_cnode\<lparr>c_id := n_id n, c_parent := n_parent n, c_source := n_source n, c_type := n_type n,
       c_depth := n_depth n, c_label := ''Summary: '' @ first_line summary 70, c_content := summary,
       c_format := n_format n, c_tokens := estimate summary, c_hash := content_hash xxh summary,
       c_temp := Some rebound\<rparr>"

definition bad_temp :: "real option \<Rightarrow> bool" where
  "bad_temp v = (case v of None \<Rightarrow> False | Some x \<Rightarrow> x < 0 \<or> 1 < x)"

text \<open>The UTF-8 bytes of the arrow in the message.\<close>

definition right_arrow :: bytes where
  "right_arrow = [byte 0xE2, byte 0x86, byte 0x92]"

definition handle_summarize :: "tools \<Rightarrow> summarize_input \<Rightarrow> db \<Rightarrow> bytes result \<times> db" where
  "handle_summarize t input db =
     (if bad_temp (si_temp input) then (Inl (Failure ''temperature must be in [0, 1]''), db)
      else case get_node db (si_node input) of
        Inl e \<Rightarrow> (Inl e, db)
      | Inr n \<Rightarrow>
          let summary = fst (scrub (tl_redactor t) (si_summary input));
              rebound = (case si_temp input of Some x \<Rightarrow> x | None \<Rightarrow> tl_rebound t)
          in case emit_node_change t (summary_node (tl_hash t) n summary rebound)
                (old_state (si_node input) (Some n)) (''summarize:'' @ si_node input) db of
              (Inl e, db') \<Rightarrow> (Inl e, db')
            | (Inr _, db') \<Rightarrow>
                (Inr (''summarized node '' @ si_node input @ '' ('' @ itoa (n_tokens n) @ '' '' @ right_arrow
                  @ '' '' @ itoa (estimate summary) @ '' tokens)''), db'))"

subsection \<open>The first line of a text\<close>

lemma line_scan_SomeD:
  "line_scan k s i = Some l \<Longrightarrow> i \<le> k + 3 \<Longrightarrow> \<exists>n. l = take n s \<and> n \<le> k + 3"
proof (induction k s i rule: line_scan.induct)
  case (1 k s i)
  show ?case
  proof (cases "length s \<le> i \<or> s ! i = CHR 0x0A \<or> k \<le> i")
    case True
    with 1(2,3) show ?thesis
      by (subst (asm) line_scan.simps) (use rune_floor_le [of s k] in \<open>auto split: if_splits intro: le_SucI trans_le_add1\<close>)
  next
    case False
    have "i + rune_width (drop i s) \<le> k + 3" using False rune_width_le_4 [of "drop i s"] by linarith
    moreover have "line_scan k s (i + rune_width (drop i s)) = Some l"
      using 1(2) False by (subst (asm) line_scan.simps) auto
    ultimately show ?thesis using 1(1) False by blast
  qed
qed

lemma first_line_prefix: "\<exists>n. first_line s k = take n s" "length (first_line s k) \<le> k + 3"
proof -
  have "\<exists>n. first_line s k = take n s \<and> length (take n s) \<le> k + 3"
  proof (cases "line_scan k s 0")
    case None
    then show ?thesis using rune_floor_le [of s k]
      by (auto simp: first_line_def intro: exI [of _ "length s"] exI [of _ "rune_floor s k"] trans_le_add1)
  next
    case (Some l)
    from line_scan_SomeD [OF this] show ?thesis using Some by (auto simp: first_line_def)
  qed
  then show "\<exists>n. first_line s k = take n s" "length (first_line s k) \<le> k + 3" by auto
qed

text \<open>The bound is sharp: a newline right after a rune that straddles the limit is found too late.\<close>

lemma first_line_overshoots: "length (first_line (replicate 79 CHR ''a'' @ [byte 0xC3, byte 0xA9, CHR 0x0A]) 80) = 81"
  by code_simp

subsection \<open>One delta\<close>

definition unchanged :: "db \<Rightarrow> cnode \<Rightarrow> bool" where
  "unchanged db cn = (case node_at db (c_id cn) of None \<Rightarrow> False | Some n \<Rightarrow> n_hash n = c_hash cn)"

definition node_delta :: "db \<Rightarrow> cnode \<Rightarrow> delta" where
  "node_delta db cn = (case node_at db (c_id cn) of None \<Rightarrow> add_delta cn
     | Some n \<Rightarrow> mod_delta \<lparr>st_hash = n_hash n, st_content = n_content n\<rparr> cn)"

lemma one_node_deltas: "diff_roots [CTree cn []] (old_state (c_id cn) (node_at db (c_id cn))) =
    (if unchanged db cn then [] else [node_delta db cn])"
  by (simp add: diff_roots_def diff_flat_def node_deltas_def removed_ids_def old_state_def unchanged_def
      node_delta_def split: option.splits)

lemma node_delta_simps [simp]:
  "d_node (node_delta db cn) = c_id cn" "d_op (node_delta db cn) \<noteq> OpRem"
  by (simp_all add: node_delta_def add_delta_def mod_delta_def split: option.splits)

lemma one_node_parts: "upserts [node_delta db cn] = [node_delta db cn]" "removals [node_delta db cn] = []"
  by (simp_all add: upserts_def removals_def)

lemma flatten_map_single: "flatten_map [CTree cn []] = [c_id cn \<mapsto> cn]"
  by (simp add: flatten_map_def)

lemma one_node_ready:
  assumes "c_parent cn = [] \<or> c_parent cn \<in> set (node_ids db)" "cursor \<notin> set (map s_cursor (db_snapshots db))"
  shows "emit_ready db \<lparr>e_roots = [CTree cn []], e_deltas = [node_delta db cn], e_cursor = cursor,
    e_message = msg, e_root = rt\<rparr>"
proof -
  have "fits db (node_delta db cn)"
    by (simp add: fits_def node_delta_def add_delta_def mod_delta_def split: option.splits)
  moreover have "tells_new [c_id cn \<mapsto> cn] (node_delta db cn)"
    by (simp add: tells_new_def node_delta_def add_delta_def mod_delta_def split: option.splits)
  ultimately show ?thesis using assms
    by (auto simp: emit_ready_def Let_def one_node_parts upserted_nodes_def flatten_map_single list_all_iff)
qed

lemma emit_node_change_versions:
  assumes "exact db" "emit_node_change t cn (old_state (c_id cn) (node_at db (c_id cn))) msg db = (Inr u, db')"
    and "c_parent cn = [] \<or> c_parent cn \<in> set (node_ids db)"
  shows "if unchanged db cn then db' = db
    else exact db' \<and> db_head db' = Some (db_next_snapshot db) \<and> db_next_snapshot db' = db_next_snapshot db + 1
      \<and> core_view db' = (core_view db)(c_id cn \<mapsto> core_of (node_from_context cn))
      \<and> versions db' = (versions db)(db_next_snapshot db \<mapsto> core_view db')
      \<and> db_nodes db' = db_nodes (put_row (node_from_context cn) db)
      \<and> db_relations db' = db_relations db \<and> db_pending db' = db_pending db"
proof (cases "unchanged db cn")
  case True
  with assms(2) show ?thesis
    by (simp add: emit_node_change_def one_node_deltas emit_in_store_def)
next
  case False
  let ?c = "cursor_hash_for_change (tl_hash t) (head_snapshot_id db) [node_delta db cn]"
  let ?o = "\<lparr>e_roots = [CTree cn []], e_deltas = [node_delta db cn], e_cursor = ?c, e_message = msg, e_root = []\<rparr>"
  obtain k where "emit_in_store (tl_fault t) (tl_awake t) ?o db = (Inr u, db', k)"
    using assms(2) False by (auto simp: emit_node_change_def one_node_deltas Let_def split: prod.splits)
  from emit_in_store_result [OF this] obtain db1 where run: "emit ?o db = Inr db1" "db' = db1\<lparr>db_defer := False\<rparr>"
    by auto
  from emit_rows [OF run(1)] obtain db0 where
    db0: "fold_result (emit_delta (flatten_map (e_roots ?o))) (e_deltas ?o) db = Inr db0"
    "db_nodes db1 = db_nodes db0" "db_relations db1 = db_relations db0" "db_pending db1 = db_pending db0"
    "?c \<notin> set (map s_cursor (db_snapshots db0))" by auto
  have fresh: "?c \<notin> set (map s_cursor (db_snapshots db))" using db0(5) emit_deltas_frame [OF db0(1)] by simp
  note v = emit_versions [OF assms(1) one_node_ready [OF assms(3) fresh] run(1)]
  have "\<not> db_defer db1" using v(1) by (simp add: exact_def)
  then have db': "db' = db1" by (cases db1) (simp add: run(2))
  have put: "db0 = put_row (node_from_context cn) db"
    using db0(1) by (cases "d_op (node_delta db cn)")
      (auto simp: emit_delta_def flatten_map_single upsert_node_def Let_def split: if_splits)
  have "core_view db1 = (core_view db)(c_id cn \<mapsto> core_of (node_from_context cn))"
    using v(3) by (auto simp: fun_eq_iff flatten_map_single one_node_parts)
  with v db0(2-4) False show ?thesis by (simp add: db' put frame_simps)
qed

lemma emit_node_change_runs:
  assumes "exact db" "tl_fault t = (\<lambda>_. None)" "c_parent cn = [] \<or> c_parent cn \<in> set (node_ids db)"
    and "cursor_hash_for_change (tl_hash t) (head_snapshot_id db) [node_delta db cn] \<notin> set (map s_cursor (db_snapshots db))"
  shows "\<exists>db'. emit_node_change t cn (old_state (c_id cn) (node_at db (c_id cn))) msg db = (Inr (), db')"
proof (cases "unchanged db cn")
  case True
  then show ?thesis by (simp add: emit_node_change_def one_node_deltas emit_in_store_def)
next
  case False
  let ?o = "\<lparr>e_roots = [CTree cn []], e_deltas = [node_delta db cn],
      e_cursor = cursor_hash_for_change (tl_hash t) (head_snapshot_id db) [node_delta db cn],
      e_message = msg, e_root = []\<rparr>"
  have ok: "db_ok db" "\<not> db_defer db" using assms(1) by (simp_all add: exact_def)
  from emit_history [OF ok one_node_ready [OF assms(3,4)]]
  obtain db1 where "emit ?o db = Inr db1" "db_ok db1" by blast
  then have "store_tx (tl_fault t) (tl_awake t) (emit_tx ?o) db = (Inr (), db1\<lparr>db_defer := False\<rparr>, 1)"
    unfolding assms(2) by (intro store_tx_no_fault) (simp_all add: emit_tx_def db_ok_def)
  with False show ?thesis by (simp add: emit_node_change_def one_node_deltas emit_in_store_def)
qed

lemma emit_node_change_error:
  "emit_node_change t cn prev msg db = (Inl e, db') \<Longrightarrow> db' = db"
  using emit_in_store_result [of "tl_fault t" "tl_awake t"]
  by (fastforce simp: emit_node_change_def Let_def split: prod.splits)

subsection \<open>Editing a row\<close>

text \<open>What writing \<open>cn\<close> over an old row at its place gives: only the text and what is derived from it change.\<close>

definition edited_row :: "int \<Rightarrow> cnode \<Rightarrow> node \<Rightarrow> node" where
  "edited_row now cn old = old\<lparr>n_label := c_label cn, n_content := c_content cn, n_tokens := c_tokens cn,
     n_hash := c_hash cn, n_temp := (case c_temp cn of Some x \<Rightarrow> x | None \<Rightarrow> n_temp old), n_updated := now,
     n_seed_pinned := False, n_seed_temp := None\<rparr>"

definition same_place :: "cnode \<Rightarrow> node \<Rightarrow> bool" where
  "same_place cn n \<longleftrightarrow> c_id cn = n_id n \<and> c_parent cn = n_parent n \<and> c_source cn = n_source n
     \<and> c_type cn = n_type n \<and> c_depth cn = n_depth n \<and> c_format cn = n_format n"

lemma updated_edited: "same_place cn old \<Longrightarrow> updated_row db (node_from_context cn) old = edited_row (db_now db) cn old"
  by (cases old) (simp add: same_place_def updated_row_def inserted_row_def node_from_context_def edited_row_def)

lemma write_node_simps [simp]:
  "c_id (write_node xxh i s None) = i" "c_parent (write_node xxh i s None) = []"
  "same_place (write_node xxh i s (Some n)) n" "same_place (summary_node xxh n s x) n"
  "c_content (write_node xxh i s e) = s" "c_hash (write_node xxh i s e) = content_hash xxh s"
  "c_label (write_node xxh i s e) = first_line s 80" "c_tokens (write_node xxh i s e) = estimate s"
  "c_temp (write_node xxh i s e) = None"
  by (simp_all add: write_node_def summary_node_def same_place_def zero_cnode_def split: option.splits)

lemma row_parent: "db_ok db \<Longrightarrow> node_at db i = Some n \<Longrightarrow> n_parent n = [] \<or> n_parent n \<in> set (node_ids db)"
  using node_at_SomeD by (fastforce simp: db_ok_def fk_ok_def parents_ok_def list_all_iff)

lemma write_node_place:
  assumes "db_ok db"
  shows "c_id (write_node xxh i s (node_at db i)) = i"
    "c_parent (write_node xxh i s (node_at db i)) = [] \<or> c_parent (write_node xxh i s (node_at db i)) \<in> set (node_ids db)"
proof -
  have "n_id n = i \<and> c_id (write_node xxh i s (Some n)) = n_id n \<and> c_parent (write_node xxh i s (Some n)) = n_parent n"
    if "node_at db i = Some n" for n
    using that write_node_simps(3) [of xxh i s n] by (auto simp: same_place_def dest: node_at_SomeD)
  then show "c_id (write_node xxh i s (node_at db i)) = i"
    "c_parent (write_node xxh i s (node_at db i)) = [] \<or> c_parent (write_node xxh i s (node_at db i)) \<in> set (node_ids db)"
    using row_parent [OF assms] by (cases "node_at db i"; fastforce)+
qed

lemma core_view_same_nodes: "db_nodes db = db_nodes db' \<Longrightarrow> core_view db = core_view db' \<and> node_at db = node_at db'"
  by (simp add: core_view_def node_at_def fun_eq_iff)

lemma node_at_same_nodes: "db_nodes db = db_nodes db' \<Longrightarrow> node_at db = node_at db'"
  by (simp add: node_at_def fun_eq_iff)

lemma edit_node:
  assumes "exact db" "c_id cn = i" "c_parent cn = [] \<or> c_parent cn \<in> set (node_ids db)"
    and "emit_node_change t cn (old_state i (node_at db i)) msg db = (Inr u, db')"
  shows "exact db'" "node_at db' = (node_at db)(i \<mapsto> (case node_at db i of
        None \<Rightarrow> inserted_row db (node_from_context cn)
      | Some old \<Rightarrow> if n_hash old = c_hash cn then old else updated_row db (node_from_context cn) old))"
    "versions db' = (if \<exists>old. node_at db i = Some old \<and> n_hash old = c_hash cn then versions db
      else (versions db)(db_next_snapshot db \<mapsto> core_view db'))"
proof -
  have un: "unchanged db cn \<longleftrightarrow> (\<exists>old. node_at db i = Some old \<and> n_hash old = c_hash cn)"
    by (auto simp: unchanged_def assms(2) split: option.splits)
  note v = emit_node_change_versions [OF assms(1) _ assms(3), unfolded assms(2), OF assms(4)]
  show "exact db'" using v assms(1) by (auto split: if_splits)
  show "versions db' = (if \<exists>old. node_at db i = Some old \<and> n_hash old = c_hash cn then versions db
      else (versions db)(db_next_snapshot db \<mapsto> core_view db'))"
    using v un by (auto split: if_splits)
  show "node_at db' = (node_at db)(i \<mapsto> (case node_at db i of
        None \<Rightarrow> inserted_row db (node_from_context cn)
      | Some old \<Rightarrow> if n_hash old = c_hash cn then old else updated_row db (node_from_context cn) old))"
  proof (cases "unchanged db cn")
    case True
    with v un show ?thesis by (auto simp: fun_eq_iff)
  next
    case False
    with v have "node_at db' = node_at (put_row (node_from_context cn) db)" by (intro node_at_same_nodes) simp
    with False un show ?thesis by (auto simp: fun_eq_iff view_simps assms(2) split: option.splits)
  qed
qed

text \<open>C26::
  \<open>MemoryWrite\<close> does what it says unless the transaction or the hash fails it: the node of the anchor, or
  of the payload's identifier, has the scrubbed payload as its text, with the hash, label and token count
  of that text. An existing node keeps its place, statistics, temperature and pin; a new one is a root
  text node. No other row changes. The state is committed as the next version, all earlier versions
  are restored as before, and writing what is already there makes no version.
\<close>

theorem write_effect:
  assumes "exact db" "tl_fault t = (\<lambda>_. None)"
    and "text = fst (scrub (tl_redactor t) (wi_payload input))"
    and "i = (if wi_anchor input = [] then identify_payload (tl_hash t) mcp_write text else wi_anchor input)"
    and "cursor_hash_for_change (tl_hash t) (head_snapshot_id db)
      [node_delta db (write_node (tl_hash t) i text (node_at db i))] \<notin> set (map s_cursor (db_snapshots db))"
  shows "\<exists>msg db'. handle_write t input db = (Inr msg, db') \<and> exact db'
    \<and> node_at db' = (node_at db)(i \<mapsto> (case node_at db i of
        None \<Rightarrow> \<lparr>n_id = i, n_parent = [], n_source = mcp_write, n_type = node_text, n_depth = 1,
          n_label = first_line text 80, n_content = text, n_format = format_plain, n_tokens = estimate text,
          n_hash = content_hash (tl_hash t) text, n_temp = 1 / 2, n_access = 0, n_last = None,
          n_created = db_now db, n_updated = db_now db, n_pinned = False, n_seed_pinned = False, n_seed_temp = None\<rparr>
      | Some old \<Rightarrow> if n_hash old = content_hash (tl_hash t) text then old
          else old\<lparr>n_label := first_line text 80, n_content := text, n_tokens := estimate text,
            n_hash := content_hash (tl_hash t) text, n_updated := db_now db, n_seed_pinned := False,
            n_seed_temp := None\<rparr>))
    \<and> versions db' = (if \<exists>old. node_at db i = Some old \<and> n_hash old = content_hash (tl_hash t) text
        then versions db else (versions db)(db_next_snapshot db \<mapsto> core_view db'))"
proof -
  let ?cn = "write_node (tl_hash t) i text (node_at db i)"
  have ok: "db_ok db" using assms(1) by (simp add: exact_def)
  note place = write_node_place [OF ok, where xxh = "tl_hash t" and s = "text" and i = i]
  from emit_node_change_runs [OF assms(1,2) place(2) assms(5), where msg = "''write:'' @ i"] obtain db' where
    run: "emit_node_change t ?cn (old_state i (node_at db i)) (''write:'' @ i) db = (Inr (), db')"
    unfolding place(1) by blast
  obtain message where "handle_write t input db = (Inr message, db')"
    using run by (simp add: handle_write_def Let_def assms(3,4) split: if_splits)
  moreover have new: "inserted_row db (node_from_context (write_node (tl_hash t) i text None)) =
      \<lparr>n_id = i, n_parent = [], n_source = mcp_write, n_type = node_text, n_depth = 1,
        n_label = first_line text 80, n_content = text, n_format = format_plain, n_tokens = estimate text,
        n_hash = content_hash (tl_hash t) text, n_temp = 1 / 2, n_access = 0, n_last = None,
        n_created = db_now db, n_updated = db_now db, n_pinned = False, n_seed_pinned = False, n_seed_temp = None\<rparr>"
    by (simp add: write_node_def zero_cnode_def node_from_context_def inserted_row_def)
  have old: "updated_row db (node_from_context (write_node (tl_hash t) i text (Some n))) n =
      n\<lparr>n_label := first_line text 80, n_content := text, n_tokens := estimate text,
        n_hash := content_hash (tl_hash t) text, n_updated := db_now db, n_seed_pinned := False,
        n_seed_temp := None\<rparr>" for n
    by (simp add: updated_edited edited_row_def)
  note v = edit_node [OF assms(1) place run]
  have "node_at db' = (node_at db)(i \<mapsto> (case node_at db i of
        None \<Rightarrow> inserted_row db (node_from_context (write_node (tl_hash t) i text None))
      | Some n \<Rightarrow> if n_hash n = content_hash (tl_hash t) text then n
          else updated_row db (node_from_context (write_node (tl_hash t) i text (Some n))) n))"
    unfolding v(2) by (simp add: fun_eq_iff split: option.split)
  moreover note v(1,3)
  ultimately show ?thesis unfolding new old by (intro exI conjI) (simp_all only: write_node_simps)
qed

subsection \<open>On a concrete store\<close>

definition sample_tools :: tools where
  "sample_tools = \<lparr>tl_hash = (\<lambda>_. 0), tl_redactor = None, tl_rebound = 1 / 2, tl_fault = (\<lambda>_. None),
     tl_awake = (\<lambda>_. True), tl_quote = id, tl_real = (\<lambda>_. [])\<rparr>"

lemma sample_exact: "exact sample_db" "exact sample_history"
proof -
  show "exact sample_db"
    using sample_db_ok by (simp add: exact_def) (simp add: sample_db_def empty_db_def snapshot_ids_def)
  have "restorable sample_history 2 (core_view sample_history)"
    by (rule restorable_head [OF sample_history_ok(1)]) (simp add: sample_history_def empty_db_def)
  moreover have "snapshot_ids sample_history = [1, 2]" "\<not> db_defer sample_history"
    by (simp_all add: snapshot_ids_def sample_history_def sample_snapshot_def empty_db_def)
  ultimately show "exact sample_history"
    using sample_history_ok(1) sample_restorable by (auto simp: exact_def)
qed

lemma length_change_hash: "length (cursor_hash_for_change xxh h ds) = 16"
  by (simp add: cursor_hash_for_change_def sum_hex_def length_hex_encode put_uint64_be_def)

theorem write_effect_witness:
  "\<exists>msg db'. handle_write sample_tools \<lparr>wi_anchor = ''a'', wi_payload = ''new''\<rparr> sample_history = (Inr msg, db')
     \<and> map_option n_content (node_at db' ''a'') = Some ''new''
     \<and> versions db' = (versions sample_history)(3 \<mapsto> core_view db')"
proof -
  have a: "node_at sample_history ''a'' = Some (blank_node ''a'' [] ''2'')"
    by (simp add: node_at_def sample_history_def empty_db_def blank_node_def)
  have "length (n_hash (blank_node ''a'' [] ''2'')) \<noteq> length (content_hash (tl_hash sample_tools) ''new'')"
    by (simp add: blank_node_def)
  then have h: "n_hash (blank_node ''a'' [] ''2'') \<noteq> content_hash (tl_hash sample_tools) ''new''" by metis
  have c: "cursor_hash_for_change xxh k ds \<notin> set (map s_cursor (db_snapshots sample_history))" for xxh k ds
    using length_change_hash [of xxh k ds] by (auto simp: sample_history_def sample_snapshot_def empty_db_def)
  have t: "tl_fault sample_tools = (\<lambda>_. None)" "db_next_snapshot sample_history = 3"
    by (simp_all add: sample_tools_def sample_history_def empty_db_def)
  have s: "''new'' = fst (scrub (tl_redactor sample_tools) (wi_payload \<lparr>wi_anchor = ''a'', wi_payload = ''new''\<rparr>))"
    "''a'' = (if wi_anchor \<lparr>wi_anchor = ''a'', wi_payload = ''new''\<rparr> = [] then identify_payload (tl_hash sample_tools) mcp_write ''new''
      else wi_anchor \<lparr>wi_anchor = ''a'', wi_payload = ''new''\<rparr>)"
    by (simp_all add: scrub_def sample_tools_def)
  from write_effect [OF sample_exact(2) t(1) s c] h show ?thesis
    unfolding a t(2) by auto
qed

end
