(* ===== verification/Memory_Forget.thy ===== *)
theory Memory_Forget
  imports Memory_Write
begin

text \<open>
  \<open>MemoryForget\<close> (\<open>pkg/mcp/tools/forget.go\<close>): the deltas of the three removal modes, emitted as one
  snapshot.
\<close>

record forget_input =
  fi_node :: node_id
  fi_mode :: bytes

definition rem_delta :: "node \<Rightarrow> delta" where
  "rem_delta n = \<lparr>d_node = n_id n, d_old_hash = n_hash n, d_new_hash = [], d_old_content = n_content n,
     d_new_content = [], d_op = OpRem\<rparr>"

definition context_from_store :: "node \<Rightarrow> cnode" where
  "context_from_store n = zero_cnode\<lparr>c_id := n_id n, c_parent := n_parent n, c_source := n_source n,
     c_type := n_type n, c_depth := n_depth n, c_label := n_label n, c_content := n_content n,
     c_format := n_format n, c_tokens := n_tokens n, c_hash := n_hash n\<rparr>"

definition moved_child :: "node \<Rightarrow> node \<Rightarrow> cnode" where
  "moved_child targ c = (context_from_store c)\<lparr>c_parent := n_parent targ\<rparr>"

definition move_delta :: "node \<Rightarrow> delta" where
  "move_delta c = \<lparr>d_node = n_id c, d_old_hash = n_hash c, d_new_hash = n_hash c,
     d_old_content = n_content c, d_new_content = n_content c, d_op = OpMod\<rparr>"

definition max_int32 :: int where
  "max_int32 = 2147483647"

definition build_forget_deltas :: "db \<Rightarrow> node \<Rightarrow> node list \<Rightarrow> delete_mode \<Rightarrow> (ctree list \<times> delta list) result" where
  "build_forget_deltas db targ children mode =
     (case mode of
        DeleteStrict \<Rightarrow> if children \<noteq> [] then Inl (Failure ''node has children'') else Inr ([], [rem_delta targ])
      | DeleteCascade \<Rightarrow> Inr ([], rem_delta targ # map rem_delta (get_descendants db (n_id targ) max_int32))
      | DeleteReparent \<Rightarrow> Inr (map (\<lambda>c. CTree (moved_child targ c) []) children, map move_delta children @ [rem_delta targ]))"

definition forget_options :: "tools \<Rightarrow> db \<Rightarrow> delete_mode \<Rightarrow> node_id \<Rightarrow> ctree list \<times> delta list \<Rightarrow> emit_options" where
  "forget_options t db mode i rd = \<lparr>e_roots = fst rd, e_deltas = snd rd,
     e_cursor = cursor_hash_for_change (tl_hash t) (head_snapshot_id db) (snd rd),
     e_message = ''forget:'' @ delete_mode_string mode @ '':'' @ i, e_root = []\<rparr>"

definition handle_forget :: "tools \<Rightarrow> forget_input \<Rightarrow> db \<Rightarrow> bytes result \<times> db" where
  "handle_forget t input db =
     (if fi_node input = [] then (Inl (Failure ''node_id is required''), db)
      else case parse_delete_mode (fi_mode input) of
        Inl e \<Rightarrow> (Inl e, db)
      | Inr mode \<Rightarrow>
          (case get_node db (fi_node input) of
             Inl NoRows \<Rightarrow> (Inl (Failure (''node_id not found: '' @ fi_node input)), db)
           | Inl e \<Rightarrow> (Inl e, db)
           | Inr targ \<Rightarrow>
               (case build_forget_deltas db targ (children_of db (fi_node input)) mode of
                  Inl e \<Rightarrow> (Inl e, db)
                | Inr rd \<Rightarrow>
                    (case emit_in_store (tl_fault t) (tl_awake t) (forget_options t db mode (fi_node input) rd) db of
                       (Inl e, db', _) \<Rightarrow> (Inl e, db')
                     | (Inr _, db', _) \<Rightarrow>
                         (Inr (''forgot node '' @ fi_node input @ '' (mode='' @ delete_mode_string mode @ '', ''
                           @ itoa (int (length (snd rd))) @ '' affected)''), db')))))"

subsection \<open>The rows below a node\<close>

text \<open>A database whose parents form a forest and whose rows have identifiers.\<close>

definition forest :: "db \<Rightarrow> bool" where
  "forest db \<longleftrightarrow> acyclic (tree_edges db) \<and> [] \<notin> set (node_ids db) \<and> int (length (db_nodes db)) \<le> max_int32"

lemma forest_id: "forest db \<Longrightarrow> b \<in> set (db_nodes db) \<Longrightarrow> n_id b \<noteq> []"
  unfolding forest_def node_ids_def set_map by (metis image_eqI)

lemma set_nodes_by_ids: "set (nodes_by_ids db is) = {b \<in> set (db_nodes db). n_id b \<in> set is}"
  by (auto simp: nodes_by_ids_def)

lemma set_get_descendants:
  assumes "acyclic (tree_edges db)" "int (length (db_nodes db)) \<le> d"
  shows "set (get_descendants db i d) = {b \<in> set (db_nodes db). (i, n_id b) \<in> (tree_edges db)\<^sup>+}"
proof -
  let ?E = "tree_edges db" and ?N = "nat (max 1 d)"
  have nth: "set (levels db ?N (next_level db [i]) ! k) = {c. (i, c) \<in> ?E ^^ Suc k}" if "k < ?N" for k
    unfolding levels_nth [OF that] set_next_level mem_Collect_eq relpow_Suc_left by auto
  have "set (concat (levels db ?N (next_level db [i]))) = {j. (i, j) \<in> ?E\<^sup>+}"
  proof (intro set_eqI iffI)
    fix j assume "j \<in> set (concat (levels db ?N (next_level db [i])))"
    then obtain k where "k < ?N" "j \<in> set (levels db ?N (next_level db [i]) ! k)"
      unfolding in_concat_nth length_levels by blast
    then show "j \<in> {j. (i, j) \<in> ?E\<^sup>+}" using nth by (auto simp: trancl_power intro!: exI [of _ "Suc k"])
  next
    fix j assume "j \<in> {j. (i, j) \<in> ?E\<^sup>+}"
    then obtain n where n: "(i, j) \<in> ?E ^^ Suc n" by (metis mem_Collect_eq trancl_power gr0_implies_Suc)
    then have "Suc n \<le> length (node_ids db)" using relpow_bound(1) [OF assms(1) _ snd_tree_edges] by blast
    then have "n < ?N" using assms(2) by (simp add: node_ids_def)
    moreover from this have "j \<in> set (levels db ?N (next_level db [i]) ! n)" using n nth by blast
    ultimately show "j \<in> set (concat (levels db ?N (next_level db [i])))"
      unfolding in_concat_nth length_levels by blast
  qed
  then show ?thesis unfolding get_descendants_def set_nodes_by_ids by blast
qed

subsection \<open>The deltas fit the table\<close>

lemma rem_delta_simps [simp]: "d_node (rem_delta n) = n_id n" "d_op (rem_delta n) = OpRem"
  "d_node (move_delta n) = n_id n" "d_op (move_delta n) = OpMod"
  by (simp_all add: rem_delta_def move_delta_def)

lemma rem_deltas_parts:
  "upserts (map rem_delta ns) = []" "removals (map rem_delta ns) = map rem_delta ns"
  "upserts (map move_delta cs @ [rem_delta n]) = map move_delta cs"
  "removals (map move_delta cs @ [rem_delta n]) = [rem_delta n]"
  by (simp_all add: upserts_def removals_def filter_empty_conv)

lemma row_fits:
  assumes "db_ok db" "b \<in> set (db_nodes db)"
  shows "node_at db (n_id b) = Some b" "fits db (rem_delta b)" "fits db (move_delta b)"
proof -
  have "distinct (map n_id (db_nodes db))" using assms(1) by (simp add: db_ok_def keys_ok_def node_ids_def)
  from lookup_by_mem [OF this assms(2)] show at: "node_at db (n_id b) = Some b" by (simp add: node_at_def)
  then show "fits db (rem_delta b)" "fits db (move_delta b)"
    by (simp_all add: fits_def rem_delta_def move_delta_def)
qed

lemma flatten_moved: "flatten (map (\<lambda>c. CTree (moved_child targ c) []) cs) = map (moved_child targ) cs"
  by (induction cs) simp_all

lemma moved_child_simps [simp]:
  "c_id (moved_child targ c) = n_id c" "c_parent (moved_child targ c) = n_parent targ"
  "c_hash (moved_child targ c) = n_hash c" "c_content (moved_child targ c) = n_content c"
  by (simp_all add: moved_child_def context_from_store_def)

lemma moved_map:
  assumes "distinct (map n_id cs)" "c \<in> set cs"
  shows "flatten_map (map (\<lambda>c. CTree (moved_child targ c) []) cs) (n_id c) = Some (moved_child targ c)"
  using assms by (auto simp: flatten_map_def flatten_moved rev_map [symmetric] comp_def intro!: map_of_is_SomeI)

lemma removal_ready:
  assumes "db_ok db" "distinct (map n_id ns)" "set ns \<subseteq> set (db_nodes db)"
    and "\<And>b. b \<in> set (db_nodes db) \<Longrightarrow> n_parent b \<in> n_id ` set ns \<Longrightarrow> n_id b \<in> n_id ` set ns"
    and "c \<notin> set (map s_cursor (db_snapshots db))"
  shows "emit_ready db \<lparr>e_roots = [], e_deltas = map rem_delta ns, e_cursor = c, e_message = msg, e_root = rt\<rparr>"
  using assms row_fits(2) [OF assms(1)]
  by (auto simp: emit_ready_def Let_def rem_deltas_parts upserted_nodes_def list_all_iff comp_def image_image)

lemma parent_edge: "b \<in> set (db_nodes db) \<Longrightarrow> n_parent b \<noteq> [] \<Longrightarrow> (n_parent b, n_id b) \<in> tree_edges db"
  by (auto simp: tree_edges_def)

lemma move_ready:
  assumes "db_ok db" "forest db" "targ \<in> set (db_nodes db)" "cs = children_of db (n_id targ)"
    and "c \<notin> set (map s_cursor (db_snapshots db))"
  shows "emit_ready db \<lparr>e_roots = map (\<lambda>c. CTree (moved_child targ c) []) cs,
    e_deltas = map move_delta cs @ [rem_delta targ], e_cursor = c, e_message = msg, e_root = rt\<rparr>"
proof -
  let ?m = "flatten_map (map (\<lambda>c. CTree (moved_child targ c) []) cs)"
  have id: "n_id targ \<noteq> []" by (rule forest_id [OF assms(2,3)])
  have cs: "set cs = {b \<in> set (db_nodes db). n_parent b = n_id targ}" "distinct (map n_id cs)"
    using assms(1) id by (auto simp: assms(4) children_of_def db_ok_def keys_ok_def node_ids_def distinct_map_filter)
  have loop: "n_parent targ \<noteq> n_id targ" "\<And>b. b \<in> set (db_nodes db) \<Longrightarrow> n_parent b = n_id targ \<Longrightarrow> n_id b \<noteq> n_id targ"
    using assms(2,3) id parent_edge by (fastforce simp: forest_def acyclic_def)+
  have nodes: "upserted_nodes \<lparr>e_roots = map (\<lambda>c. CTree (moved_child targ c) []) cs,
      e_deltas = map move_delta cs @ [rem_delta targ], e_cursor = c, e_message = msg, e_root = rt\<rparr>
      = map (\<lambda>c. node_from_context (moved_child targ c)) cs"
    using moved_map [OF cs(2)] by (simp add: upserted_nodes_def rem_deltas_parts)
  have known: "n_parent targ = [] \<or> n_parent targ \<in> set (node_ids db)"
    using assms(1,3) by (auto simp: db_ok_def fk_ok_def parents_ok_def list_all_iff)
  have first: "parents_first ids (map (\<lambda>c. node_from_context (moved_child targ c)) bs)"
    if "n_parent targ = [] \<or> n_parent targ \<in> ids" for ids bs
    using that by (induction bs arbitrary: ids) auto
  have tells: "tells_new ?m (move_delta b)" if "b \<in> set cs" for b
    using moved_map [OF cs(2) that] by (simp add: tells_new_def) (simp add: move_delta_def)
  have apart: "n_id targ \<notin> n_id ` set cs"
  proof
    assume "n_id targ \<in> n_id ` set cs"
    then obtain b where "b \<in> set cs" "n_id b = n_id targ" by force
    with cs(1) loop(2) [of b] show False by simp
  qed
  have kept: "n_parent b = n_id targ \<longrightarrow> n_id b \<in> n_id ` set cs" if "b \<in> set (db_nodes db)" for b
    using that cs(1) by auto
  have fit: "fits db (move_delta b)" if "b \<in> set cs" for b
    using that cs(1) row_fits(3) [OF assms(1)] by auto
  show ?thesis
    unfolding emit_ready_def Let_def emit_options.select_convs rem_deltas_parts nodes
  proof (intro conjI)
    show "distinct (map d_node (map move_delta cs @ [rem_delta targ]))"
      using cs(2) apart by (simp add: comp_def)
    show "list_all (tells_new ?m) (map move_delta cs)" using tells by (simp add: list_all_iff)
    show "list_all (fits db) (map move_delta cs @ [rem_delta targ])"
      using fit row_fits(2) [OF assms(1,3)] by (simp add: list_all_iff)
    show "list_all (\<lambda>n. n_parent n \<notin> d_node ` set [rem_delta targ]) (map (\<lambda>c. node_from_context (moved_child targ c)) cs)"
      using loop(1) by (simp add: list_all_iff)
    show "list_all (\<lambda>b. n_parent b \<in> d_node ` set [rem_delta targ] \<longrightarrow> n_id b \<in> d_node ` set [rem_delta targ]
        \<or> n_id b \<in> n_id ` set (map (\<lambda>c. node_from_context (moved_child targ c)) cs)) (db_nodes db)"
      using kept by (simp add: list_all_iff image_image)
  qed (rule refl first known assms)+
qed

subsection \<open>What is left\<close>

definition forgotten :: "db \<Rightarrow> delete_mode \<Rightarrow> node \<Rightarrow> view" where
  "forgotten db mode targ = (\<lambda>j. case mode of
      DeleteStrict \<Rightarrow> ((core_view db)(n_id targ := None)) j
    | DeleteCascade \<Rightarrow> if (n_id targ, j) \<in> (tree_edges db)\<^sup>* then None else core_view db j
    | DeleteReparent \<Rightarrow> if j = n_id targ then None
        else map_option (\<lambda>n. if n_parent n = n_id targ then n\<lparr>n_parent := n_parent targ\<rparr> else n) (core_view db j))"

lemma forget_ready:
  assumes "db_ok db" "forest db" "node_at db i = Some targ"
    and "build_forget_deltas db targ (children_of db i) mode = Inr rd"
    and "e_cursor (forget_options t db mode i rd) \<notin> set (map s_cursor (db_snapshots db))"
  shows "emit_ready db (forget_options t db mode i rd)"
proof -
  have row: "targ \<in> set (db_nodes db)" "n_id targ = i" using node_at_SomeD [OF assms(3)] by auto
  have i: "i \<noteq> []" using forest_id [OF assms(2) row(1)] row(2) by simp
  have cur: "cursor_hash_for_change (tl_hash t) (head_snapshot_id db) (snd rd) \<notin> set (map s_cursor (db_snapshots db))"
    using assms(5) by (simp add: forget_options_def)
  show ?thesis
  proof (cases mode)
    case DeleteStrict
    then have rd: "rd = ([], map rem_delta [targ])" "children_of db i = []"
      using assms(4) by (auto simp: build_forget_deltas_def split: if_splits)
    then have "n_parent b \<noteq> i" if "b \<in> set (db_nodes db)" for b
      using that i by (auto simp: children_of_def filter_empty_conv)
    then show ?thesis using removal_ready [OF assms(1) _ _ _ cur, of "[targ]"] row by (auto simp: forget_options_def rd)
  next
    case DeleteCascade
    let ?ns = "targ # get_descendants db i max_int32" and ?E = "tree_edges db"
    have rd: "rd = ([], map rem_delta ?ns)" using assms(4) DeleteCascade by (simp add: build_forget_deltas_def row)
    have below: "set (get_descendants db i max_int32) = {b \<in> set (db_nodes db). (i, n_id b) \<in> ?E\<^sup>+}"
      using assms(2) by (intro set_get_descendants) (simp_all add: forest_def)
    have keys: "distinct (map n_id (db_nodes db))" using assms(1) by (simp add: db_ok_def keys_ok_def node_ids_def)
    have "distinct (map n_id (get_descendants db i max_int32))"
      using keys by (simp add: get_descendants_def nodes_by_ids_def distinct_map_filter)
    moreover have "i \<notin> n_id ` set (get_descendants db i max_int32)"
      using assms(2) below by (auto simp: forest_def acyclic_def)
    ultimately have d: "distinct (map n_id ?ns)" by (simp add: row)
    have "n_id b \<in> n_id ` set ?ns" if b: "b \<in> set (db_nodes db)" "n_parent b \<in> n_id ` set ?ns" for b
    proof -
      from b(2) obtain x where "x \<in> set ?ns" "n_parent b = n_id x" by (elim imageE)
      then have "n_parent b \<noteq> []" using below row(1) forest_id [OF assms(2), of x] by auto
      then have "(n_parent b, n_id b) \<in> ?E" by (rule parent_edge [OF b(1)])
      moreover have "(i, n_parent b) \<in> ?E\<^sup>*" using b(2) below by (auto simp: row(2) intro: trancl_into_rtrancl)
      ultimately have "(i, n_id b) \<in> ?E\<^sup>+" by (rule rtrancl_into_trancl1 [rotated])
      with b(1) below show ?thesis by auto
    qed
    then show ?thesis using removal_ready [OF assms(1) d _ _ cur] row below by (auto simp: forget_options_def rd)
  next
    case DeleteReparent
    then have "rd = (map (\<lambda>c. CTree (moved_child targ c) []) (children_of db i), map move_delta (children_of db i) @ [rem_delta targ])"
      using assms(4) by (simp add: build_forget_deltas_def)
    then show ?thesis using move_ready [OF assms(1,2) row(1) _ cur] row(2) by (simp add: forget_options_def)
  qed
qed

lemma core_moved: "core_of (node_from_context (moved_child targ c)) = (core_of c)\<lparr>n_parent := n_parent targ\<rparr>"
  by (simp add: moved_child_def context_from_store_def node_from_context_def core_of_def)

lemma core_of_parent [simp]: "n_parent (core_of n) = n_parent n"
  by (simp add: core_of_def)

lemma forget_view:
  assumes "db_ok db" "forest db" "node_at db i = Some targ"
    and "build_forget_deltas db targ (children_of db i) mode = Inr rd"
  shows "(\<lambda>j. if j \<in> d_node ` set (removals (snd rd)) then None
      else if j \<in> d_node ` set (upserts (snd rd))
        then Some (core_of (node_from_context (the (flatten_map (fst rd) j))))
      else core_view db j) = forgotten db mode targ"
proof -
  have row: "targ \<in> set (db_nodes db)" "n_id targ = i" using node_at_SomeD [OF assms(3)] by auto
  have i: "i \<noteq> []" using forest_id [OF assms(2) row(1)] row(2) by simp
  show ?thesis
  proof (cases mode)
    case DeleteStrict
    then have rd: "rd = ([], map rem_delta [targ])"
      using assms(4) by (auto simp: build_forget_deltas_def split: if_splits)
    show ?thesis unfolding rd snd_conv rem_deltas_parts DeleteStrict by (auto simp: forgotten_def row)
  next
    case DeleteCascade
    let ?ns = "targ # get_descendants db i max_int32" and ?E = "tree_edges db"
    have rd: "rd = ([], map rem_delta ?ns)" using assms(4) DeleteCascade by (simp add: build_forget_deltas_def row)
    have "set (get_descendants db i max_int32) = {b \<in> set (db_nodes db). (i, n_id b) \<in> ?E\<^sup>+}"
      using assms(2) by (intro set_get_descendants) (simp_all add: forest_def)
    moreover have "j \<in> n_id ` set (db_nodes db)" if "(i, j) \<in> ?E\<^sup>+" for j
      using tranclD2 [OF that] snd_tree_edges [of db] by (force simp: node_ids_def)
    ultimately have "n_id ` set ?ns = {j. (i, j) \<in> ?E\<^sup>*}"
      by (auto simp: row rtrancl_eq_or_trancl)
    moreover have "d_node ` set (map rem_delta ?ns) = n_id ` set ?ns" by (simp add: image_image)
    ultimately have "d_node ` set (map rem_delta ?ns) = {j. (i, j) \<in> ?E\<^sup>*}" by simp
    then show ?thesis unfolding rd snd_conv rem_deltas_parts DeleteCascade forgotten_def
      by (simp only: row(2) mem_Collect_eq delete_mode.case) (simp add: fun_eq_iff)
  next
    case DeleteReparent
    let ?cs = "children_of db i"
    have rd: "rd = (map (\<lambda>c. CTree (moved_child targ c) []) ?cs, map move_delta ?cs @ [rem_delta targ])"
      using assms(4) DeleteReparent by (simp add: build_forget_deltas_def)
    have keys: "distinct (map n_id (db_nodes db))" using assms(1) by (simp add: db_ok_def keys_ok_def node_ids_def)
    have cs: "set ?cs = {b \<in> set (db_nodes db). n_parent b = i}" "distinct (map n_id ?cs)"
      using keys i by (auto simp: children_of_def distinct_map_filter)
    have child: "core_view db (n_id c) = Some (core_of c)" "the (flatten_map (fst rd) (n_id c)) = moved_child targ c"
      if "c \<in> set ?cs" for c
      using moved_map [OF cs(2) that] row_fits(1) [OF assms(1), of c] that cs(1) by (simp_all add: core_view_def rd)
    have other: "n_parent n \<noteq> i" if "j \<notin> n_id ` set ?cs" "core_view db j = Some n" for j n
    proof -
      from that(2) obtain b where b: "node_at db j = Some b" "n = core_of b" by (auto simp: core_view_def)
      with that(1) cs(1) show ?thesis using node_at_SomeD [OF b(1)] by auto
    qed
    show ?thesis
    proof
      fix j
      show "(if j \<in> d_node ` set (removals (snd rd)) then None
          else if j \<in> d_node ` set (upserts (snd rd))
            then Some (core_of (node_from_context (the (flatten_map (fst rd) j))))
          else core_view db j) = forgotten db mode targ j"
      proof (cases "j \<in> n_id ` set ?cs \<and> j \<noteq> i")
        case True
        then obtain c where c: "c \<in> set ?cs" "j = n_id c" "n_parent c = i" using cs(1) by auto
        with True child [OF c(1)] show ?thesis
          by (auto simp: rd rem_deltas_parts DeleteReparent forgotten_def row core_moved image_image)
      next
        case False
        have "map_option (\<lambda>n. if n_parent n = i then n\<lparr>n_parent := n_parent targ\<rparr> else n) (core_view db j) = core_view db j"
          if "j \<noteq> i" using that False other [of j] by (cases "core_view db j") auto
        with False show ?thesis
          by (auto simp: rd rem_deltas_parts DeleteReparent forgotten_def row image_image)
      qed
    qed
  qed
qed

lemma forget_error:
  assumes "handle_forget t input db = (Inl e, db')"
  shows "db' = db"
proof -
  have "db'' = db" if w: "emit_in_store (tl_fault t) (tl_awake t) o' db = (Inl e', db'', k)" for o' e' db'' k
    using emit_in_store_result [OF w] by simp
  then show ?thesis using assms
    by (auto simp: handle_forget_def split: if_splits sum.splits error.splits prod.splits)
qed

lemma emit_in_store_versions:
  assumes "exact db" "emit_in_store fault awake o' db = (Inr u, db', k)" "e_deltas o' \<noteq> []"
    and "e_cursor o' \<notin> set (map s_cursor (db_snapshots db)) \<Longrightarrow> emit_ready db o'"
  shows "exact db'" "versions db' = (versions db)(db_next_snapshot db \<mapsto> core_view db')"
    "core_view db' = (\<lambda>i. if i \<in> d_node ` set (removals (e_deltas o')) then None
         else if i \<in> d_node ` set (upserts (e_deltas o'))
           then Some (core_of (node_from_context (the (flatten_map (e_roots o') i))))
         else core_view db i)"
    "db_head db' = Some (db_next_snapshot db)" "db_next_snapshot db' = db_next_snapshot db + 1"
proof -
  from emit_in_store_result [OF assms(2)] assms(3) obtain db1 where
    run: "emit o' db = Inr db1" "db' = db1\<lparr>db_defer := False\<rparr>" by auto
  from emit_rows [OF run(1)] have "e_cursor o' \<notin> set (map s_cursor (db_snapshots db))"
    by (auto dest: emit_deltas_frame)
  note v = emit_versions [OF assms(1) assms(4) [OF this] run(1)]
  have "\<not> db_defer db1" using v(1) by (simp add: exact_def)
  then have "db' = db1" by (cases db1) (simp add: run(2))
  with v show "exact db'" "versions db' = (versions db)(db_next_snapshot db \<mapsto> core_view db')"
    "core_view db' = (\<lambda>i. if i \<in> d_node ` set (removals (e_deltas o')) then None
         else if i \<in> d_node ` set (upserts (e_deltas o'))
           then Some (core_of (node_from_context (the (flatten_map (e_roots o') i))))
         else core_view db i)"
    "db_head db' = Some (db_next_snapshot db)" "db_next_snapshot db' = db_next_snapshot db + 1" by simp_all
qed

lemma forget_deltas_nonempty: "build_forget_deltas db targ cs mode = Inr rd \<Longrightarrow> snd rd \<noteq> []"
  by (auto simp: build_forget_deltas_def split: delete_mode.splits if_splits)

lemma forget_versions:
  assumes "exact db" "forest db" "handle_forget t input db = (Inr msg, db')"
  shows "\<exists>mode targ. parse_delete_mode (fi_mode input) = Inr mode \<and> node_at db (fi_node input) = Some targ
    \<and> (mode = DeleteStrict \<longrightarrow> children_of db (fi_node input) = []) \<and> exact db'
    \<and> core_view db' = forgotten db mode targ
    \<and> versions db' = (versions db)(db_next_snapshot db \<mapsto> core_view db')
    \<and> db_head db' = Some (db_next_snapshot db) \<and> db_next_snapshot db' = db_next_snapshot db + 1"
proof -
  from assms(3) obtain mode targ rd u k where run: "parse_delete_mode (fi_mode input) = Inr mode"
    "node_at db (fi_node input) = Some targ"
    "build_forget_deltas db targ (children_of db (fi_node input)) mode = Inr rd"
    "emit_in_store (tl_fault t) (tl_awake t) (forget_options t db mode (fi_node input) rd) db = (Inr u, db', k)"
    by (auto simp: handle_forget_def get_node_def split: if_splits sum.splits error.splits prod.splits option.splits)
  have ok: "db_ok db" using assms(1) by (simp add: exact_def)
  have "e_deltas (forget_options t db mode (fi_node input) rd) \<noteq> []"
    using forget_deltas_nonempty [OF run(3)] by (simp add: forget_options_def)
  note v = emit_in_store_versions [OF assms(1) run(4) this forget_ready [OF ok assms(2) run(2,3)]]
  have "core_view db' = forgotten db mode targ"
    using v(3) [unfolded forget_options_def emit_options.select_convs] forget_view [OF ok assms(2) run(2,3)]
    by (rule trans)
  moreover have "mode = DeleteStrict \<longrightarrow> children_of db (fi_node input) = []"
    using run(3) by (auto simp: build_forget_deltas_def split: if_splits)
  ultimately show ?thesis using run(1,2) v(1,2,4,5) by blast
qed

text \<open>C27::
  \<open>MemoryForget\<close> on a forest of nodes removes what its mode says and nothing else: the node alone when it
  has no children (a node with children is refused and nothing changes), the node and everything below it,
  or the node alone with its children moved to its parent. The rest of the rows keep their place and text,
  the removal is one new version, and every earlier version is restored as before, the forgotten nodes
  included.
\<close>

theorem forget_effect:
  assumes "exact db" "forest db" "tl_fault t = (\<lambda>_. None)" "node_at db i = Some targ"
    and "parse_delete_mode s = Inr mode" "build_forget_deltas db targ (children_of db i) mode = Inr rd"
    and "e_cursor (forget_options t db mode i rd) \<notin> set (map s_cursor (db_snapshots db))"
  shows "\<exists>msg db'. handle_forget t \<lparr>fi_node = i, fi_mode = s\<rparr> db = (Inr msg, db') \<and> exact db'
    \<and> core_view db' = (\<lambda>j. case mode of
        DeleteStrict \<Rightarrow> if j = i then None else core_view db j
      | DeleteCascade \<Rightarrow> if (i, j) \<in> (tree_edges db)\<^sup>* then None else core_view db j
      | DeleteReparent \<Rightarrow> if j = i then None
          else map_option (\<lambda>n. if n_parent n = i then n\<lparr>n_parent := n_parent targ\<rparr> else n) (core_view db j))
    \<and> versions db' = (versions db)(db_next_snapshot db \<mapsto> core_view db')"
proof -
  let ?o = "forget_options t db mode i rd"
  have ok: "db_ok db" "\<not> db_defer db" using assms(1) by (simp_all add: exact_def)
  have row: "targ \<in> set (db_nodes db)" "n_id targ = i" using node_at_SomeD [OF assms(4)] by auto
  have i: "i \<noteq> []" using forest_id [OF assms(2) row(1)] row(2) by simp
  from emit_history [OF ok forget_ready [OF ok(1) assms(2,4,6,7)]]
  obtain db1 where "emit ?o db = Inr db1" "db_ok db1" by blast
  then have "store_tx (tl_fault t) (tl_awake t) (emit_tx ?o) db = (Inr (), db1\<lparr>db_defer := False\<rparr>, 1)"
    unfolding assms(3) using forget_deltas_nonempty [OF assms(6)]
    by (intro store_tx_no_fault) (simp_all add: emit_tx_def db_ok_def forget_options_def)
  then obtain msg where run: "handle_forget t \<lparr>fi_node = i, fi_mode = s\<rparr> db = (Inr msg, db1\<lparr>db_defer := False\<rparr>)"
    using i assms(4-6) forget_deltas_nonempty [OF assms(6)]
    by (simp add: handle_forget_def get_node_def emit_in_store_def forget_options_def)
  from forget_versions [OF assms(1,2) this] assms(4,5) run show ?thesis
    by (auto simp: forgotten_def row fun_eq_iff cong: delete_mode.case_cong)
qed

theorem forget_effect_witness:
  "\<exists>msg db'. handle_forget sample_tools \<lparr>fi_node = ''p'', fi_mode = ''reparent''\<rparr> sample_db = (Inr msg, db')
     \<and> core_view db' ''p'' = None \<and> map_option n_parent (core_view db' ''c'') = Some ''r''
     \<and> versions db' 1 = Some (core_view db')"
proof -
  have p: "node_at sample_db ''p'' = Some (blank_node ''p'' ''r'' ''mid'')"
    and c: "core_view sample_db ''c'' = Some (core_of (blank_node ''c'' ''p'' ''leaf''))"
    by (simp_all add: core_view_def node_at_def sample_db_def empty_db_def blank_node_def)
  have f: "forest sample_db"
    using sample_db_acyclic by (simp add: forest_def max_int32_def node_ids_def)
      (simp add: sample_db_def empty_db_def blank_node_def)
  have t: "tl_fault sample_tools = (\<lambda>_. None)" "db_next_snapshot sample_db = 1" "db_snapshots sample_db = []"
    by (simp_all add: sample_tools_def sample_db_def empty_db_def)
  have m: "parse_delete_mode ''reparent'' = Inr DeleteReparent" by (simp add: parse_delete_mode_def)
  obtain rd where rd: "build_forget_deltas sample_db (blank_node ''p'' ''r'' ''mid'') (children_of sample_db ''p'') DeleteReparent = Inr rd"
    by (simp add: build_forget_deltas_def)
  have "e_cursor (forget_options sample_tools sample_db DeleteReparent ''p'' rd) \<notin> set (map s_cursor (db_snapshots sample_db))"
    by (simp add: t)
  from forget_effect [OF sample_exact(1) f t(1) p m rd this] c t(2) show ?thesis
    by (auto simp: blank_node_def)
qed

end
