(* ===== verification/Versioned_Spec.thy ===== *)
theory Versioned_Spec
  imports Memory_Forget
begin

text \<open>
  The abstract specification of the tools: a versioned forest of nodes. Its state is the log of
  committed views, the current view and the number of the next version; every tool is one function on
  it. \<open>Memory_Server\<close> shows that the handlers refine it. The invariant that all views are forests is
  proved here, on the abstract functions.
\<close>

record versioned =
  vs_log :: "int \<Rightarrow> view option"
  vs_now :: view
  vs_next :: int
  vs_head :: int

definition commit :: "view \<Rightarrow> versioned \<Rightarrow> versioned" where
  "commit v s = \<lparr>vs_log = (vs_log s)(vs_next s \<mapsto> v), vs_now = v, vs_next = vs_next s + 1, vs_head = vs_next s\<rparr>"

definition spec_edit :: "cnode \<Rightarrow> versioned \<Rightarrow> versioned" where
  "spec_edit cn s =
     (if \<exists>n. vs_now s (c_id cn) = Some n \<and> n_hash n = c_hash cn then s
      else commit ((vs_now s)(c_id cn \<mapsto> core_of (node_from_context cn))) s)"

definition view_edges :: "view \<Rightarrow> (node_id \<times> node_id) set" where
  "view_edges v = {(n_parent n, i) | n i. v i = Some n \<and> n_parent n \<noteq> []}"

definition spec_forget :: "delete_mode \<Rightarrow> node_id \<Rightarrow> versioned \<Rightarrow> versioned" where
  "spec_forget mode i s = commit (\<lambda>j. case mode of
      DeleteStrict \<Rightarrow> if j = i then None else vs_now s j
    | DeleteCascade \<Rightarrow> if (i, j) \<in> (view_edges (vs_now s))\<^sup>* then None else vs_now s j
    | DeleteReparent \<Rightarrow> if j = i then None else map_option (\<lambda>n. if n_parent n = i
        then n\<lparr>n_parent := (case vs_now s i of None \<Rightarrow> [] | Some m \<Rightarrow> n_parent m)\<rparr> else n) (vs_now s j)) s"

definition spec_rollback :: "int \<Rightarrow> versioned \<Rightarrow> versioned" where
  "spec_rollback target s =
     (case vs_log s target of
        None \<Rightarrow> s
      | Some v \<Rightarrow> if target = vs_head s \<or> v = vs_now s then s else commit v s)"

subsection \<open>Forests\<close>

definition tree_view :: "view \<Rightarrow> bool" where
  "tree_view v \<longleftrightarrow> acyclic (view_edges v) \<and> v [] = None
     \<and> (\<forall>i n. v i = Some n \<longrightarrow> n_id n = i \<and> (n_parent n = [] \<or> v (n_parent n) \<noteq> None))"

definition all_trees :: "versioned \<Rightarrow> bool" where
  "all_trees s \<longleftrightarrow> tree_view (vs_now s) \<and> (\<forall>t v. vs_log s t = Some v \<longrightarrow> tree_view v)"

lemma all_trees_commit: "all_trees s \<Longrightarrow> tree_view v \<Longrightarrow> all_trees (commit v s)"
  by (auto simp: all_trees_def commit_def)

lemma acyclic_mono: "acyclic S \<Longrightarrow> R \<subseteq> S\<^sup>+ \<Longrightarrow> acyclic R"
  using trancl_mono [of _ R "S\<^sup>+"] by (auto simp: acyclic_def)

lemma tree_viewI:
  assumes "view_edges w \<subseteq> (view_edges v)\<^sup>+" "tree_view v" "w [] = None"
    and "\<And>i n. w i = Some n \<Longrightarrow> n_id n = i \<and> (n_parent n = [] \<or> w (n_parent n) \<noteq> None)"
  shows "tree_view w"
  using assms acyclic_mono by (auto simp: tree_view_def)

lemma tree_view_put:
  assumes "tree_view v" "n_id m = i" "i \<noteq> []"
    and "case v i of None \<Rightarrow> n_parent m = [] | Some n \<Rightarrow> n_parent m = n_parent n"
  shows "tree_view (v(i \<mapsto> m))"
proof (rule tree_viewI [OF _ assms(1)])
  show "view_edges (v(i \<mapsto> m)) \<subseteq> (view_edges v)\<^sup>+"
    using assms(4) by (auto simp: view_edges_def intro!: r_into_trancl split: option.splits if_splits)
  show "(v(i \<mapsto> m)) [] = None" using assms(1,3) by (simp add: tree_view_def)
  show "n_id n = j \<and> (n_parent n = [] \<or> (v(i \<mapsto> m)) (n_parent n) \<noteq> None)" if "(v(i \<mapsto> m)) j = Some n" for j n
    using that assms by (auto simp: tree_view_def split: if_splits option.splits)
qed

lemma spec_edit_trees:
  assumes "all_trees s" "c_id cn \<noteq> []"
    and "case vs_now s (c_id cn) of None \<Rightarrow> c_parent cn = [] | Some n \<Rightarrow> c_parent cn = n_parent n"
  shows "all_trees (spec_edit cn s)"
proof -
  have "n_parent (core_of (node_from_context cn)) = c_parent cn" by (simp add: core_of_def)
  then have "tree_view ((vs_now s)(c_id cn \<mapsto> core_of (node_from_context cn)))"
    using assms by (intro tree_view_put) (auto simp: all_trees_def split: option.splits)
  then show ?thesis using assms(1) by (simp add: spec_edit_def all_trees_commit)
qed

lemma spec_rollback_trees: "all_trees s \<Longrightarrow> all_trees (spec_rollback target s)"
  by (auto simp: spec_rollback_def all_trees_def commit_def split: option.split)

lemma spec_forget_trees:
  assumes "all_trees s" "vs_now s i = Some targ" "mode = DeleteStrict \<longrightarrow> (\<forall>j. (i, j) \<notin> view_edges (vs_now s))"
  shows "all_trees (spec_forget mode i s)"
proof -
  let ?v = "vs_now s" and ?E = "view_edges (vs_now s)"
  have v: "tree_view ?v" using assms(1) by (simp add: all_trees_def)
  then have i: "i \<noteq> []" using assms(2) by (auto simp: tree_view_def)
  note t = v [unfolded tree_view_def]
  have edge: "(n_parent n, j) \<in> ?E" if "?v j = Some n" "n_parent n \<noteq> []" for j n
    using that by (auto simp: view_edges_def)
  show ?thesis
  proof (cases mode)
    case DeleteStrict
    have "tree_view (\<lambda>j. if j = i then None else ?v j)"
      using t edge assms(3) DeleteStrict i
      by (intro tree_viewI [OF _ v]) (fastforce simp: view_edges_def intro: r_into_trancl split: if_splits)+
    then show ?thesis using assms(1) DeleteStrict by (simp add: spec_forget_def all_trees_commit)
  next
    case DeleteCascade
    have "tree_view (\<lambda>j. if (i, j) \<in> ?E\<^sup>* then None else ?v j)"
    proof (rule tree_viewI [OF _ v])
      fix j n assume n: "(if (i, j) \<in> ?E\<^sup>* then None else ?v j) = Some n"
      then have "?v j = Some n" "(i, j) \<notin> ?E\<^sup>*" by (auto split: if_splits)
      moreover from this have "(i, n_parent n) \<notin> ?E\<^sup>*" if "n_parent n \<noteq> []"
        using edge that by (metis rtrancl.rtrancl_into_rtrancl)
      ultimately show "n_id n = j \<and> (n_parent n = [] \<or> (if (i, n_parent n) \<in> ?E\<^sup>* then None else ?v (n_parent n)) \<noteq> None)"
        using t by auto
    qed (use t in \<open>auto simp: view_edges_def intro!: r_into_trancl split: if_splits\<close>)
    then show ?thesis using assms(1) DeleteCascade by (simp add: spec_forget_def all_trees_commit)
  next
    case DeleteReparent
    let ?p = "n_parent targ"
    let ?w = "\<lambda>j. if j = i then None else map_option (\<lambda>n. if n_parent n = i then n\<lparr>n_parent := ?p\<rparr> else n) (?v j)"
    have pi: "?p \<noteq> i" using edge [OF assms(2)] i t by (auto simp: acyclic_def)
    have "tree_view ?w"
    proof (rule tree_viewI [OF _ v])
      show "view_edges ?w \<subseteq> ?E\<^sup>+"
      proof
        fix e assume "e \<in> view_edges ?w"
        then obtain j m where m: "e = (n_parent m, j)" "?w j = Some m" "n_parent m \<noteq> []" by (auto simp: view_edges_def)
        then obtain n where n: "?v j = Some n" "m = (if n_parent n = i then n\<lparr>n_parent := ?p\<rparr> else n)"
          by (cases "?v j") (simp_all split: if_splits)
        show "e \<in> ?E\<^sup>+"
        proof (cases "n_parent n = i")
          case True
          then have "(i, j) \<in> ?E" "(?p, i) \<in> ?E" using edge [OF n(1)] edge [OF assms(2)] i m(3) n(2) by auto
          then show ?thesis using m(1) n(2) True by auto
        next
          case False
          then show ?thesis using edge [OF n(1)] m n(2) by auto
        qed
      qed
      show "?w [] = None" using t by simp
      show "n_id m = j \<and> (n_parent m = [] \<or> ?w (n_parent m) \<noteq> None)" if w: "?w j = Some m" for j m
      proof -
        obtain n where n: "?v j = Some n" "j \<noteq> i" "m = (if n_parent n = i then n\<lparr>n_parent := ?p\<rparr> else n)"
          using w by (cases "?v j") (simp_all split: if_splits)
        have "n_id n = j" "n_parent n = [] \<or> ?v (n_parent n) \<noteq> None" "?p = [] \<or> ?v ?p \<noteq> None"
          using t n(1) assms(2) by blast+
        with n(3) pi show ?thesis by (cases "n_parent n = i") auto
      qed
    qed
    moreover have "(case ?v i of None \<Rightarrow> [] | Some m \<Rightarrow> n_parent m) = ?p" using assms(2) by simp
    ultimately show ?thesis using assms(1)
      unfolding spec_forget_def DeleteReparent delete_mode.case by (simp only: all_trees_commit)
  qed
qed

subsection \<open>Simulation of a sequence of calls\<close>

text \<open>
  Calls one after the other: the state passes through every call, and the calls that succeed are
  remembered, as only these do something in the specification.
\<close>

primrec run_all :: "('l \<Rightarrow> 's \<Rightarrow> 'm result \<times> 's) \<Rightarrow> 'l list \<Rightarrow> 's \<Rightarrow> 'l list \<times> 's" where
  "run_all f [] s = ([], s)"
| "run_all f (l # ls) s =
     (case f l s of (res, s') \<Rightarrow>
       case run_all f ls s' of (won, s'') \<Rightarrow> ((case res of Inl _ \<Rightarrow> won | Inr _ \<Rightarrow> l # won), s''))"

primrec all_along :: "('l \<Rightarrow> 's \<Rightarrow> 'm result \<times> 's) \<Rightarrow> ('l \<Rightarrow> 's \<Rightarrow> bool) \<Rightarrow> 'l list \<Rightarrow> 's \<Rightarrow> bool" where
  "all_along f ok [] s = True"
| "all_along f ok (l # ls) s = (ok l s \<and> all_along f ok ls (snd (f l s)))"

locale simulation =
  fixes run :: "'l \<Rightarrow> 's \<Rightarrow> 'm result \<times> 's" and allowed :: "'l \<Rightarrow> 's \<Rightarrow> bool"
    and inv :: "'s \<Rightarrow> bool" and abs :: "'s \<Rightarrow> 'a" and spec :: "'l \<Rightarrow> 'a \<Rightarrow> 'a"
  assumes success: "inv s \<Longrightarrow> allowed l s \<Longrightarrow> run l s = (Inr m, s') \<Longrightarrow> inv s' \<and> abs s' = spec l (abs s)"
    and failure: "run l s = (Inl e, s') \<Longrightarrow> s' = s"
begin

lemma sequence:
  "inv s \<Longrightarrow> all_along run allowed ls s \<Longrightarrow> run_all run ls s = (won, s') \<Longrightarrow> inv s' \<and> abs s' = fold spec won (abs s)"
proof (induction ls arbitrary: s won)
  case (Cons l ls)
  obtain res s1 where l: "run l s = (res, s1)" by fastforce
  obtain won1 s2 where ls: "run_all run ls s1 = (won1, s2)" by fastforce
  show ?case
  proof (cases res)
    case (Inl e)
    with l failure Cons.prems Cons.IH [of s1 won1] ls show ?thesis by auto
  next
    case (Inr m)
    with l success [of s l m s1] Cons.prems Cons.IH [of s1 won1] ls show ?thesis by auto
  qed
qed simp

end

end
