(* ===== verification/Store_Temperature.thy ===== *)
theory Store_Temperature
  imports Store_Snapshots
begin

text \<open>
  Access statistics (\<open>pkg/store/temperature.go\<close>), full-text queries (\<open>search.go\<close>), counts
  (\<open>stats.go\<close>) and the diagnostics and repairs of \<open>doctor.go\<close>. \<open>time.Now().Unix()\<close> is the
  argument \<open>now\<close>; the FTS5 engine is the parameter \<open>fts\<close>.
\<close>

subsection \<open>Temperatures\<close>

definition clamp01 :: "real \<Rightarrow> real" where
  "clamp01 t = max 0 (min 1 t)"

definition update_rows :: "(node \<Rightarrow> bool) \<Rightarrow> (node \<Rightarrow> node) \<Rightarrow> db \<Rightarrow> db" where
  "update_rows P f db = db\<lparr>db_nodes :=
     map (\<lambda>n. if P n then (f n)\<lparr>n_updated := db_now db\<rparr> else n) (db_nodes db)\<rparr>"

definition update_temperature :: "node_id \<Rightarrow> real \<Rightarrow> db \<Rightarrow> db" where
  "update_temperature i t = update_rows (\<lambda>n. n_id n = i) (\<lambda>n. n\<lparr>n_temp := t\<rparr>)"

definition increment_access :: "int \<Rightarrow> node_id \<Rightarrow> db \<Rightarrow> db" where
  "increment_access now i = update_rows (\<lambda>n. n_id n = i)
     (\<lambda>n. n\<lparr>n_access := n_access n + 1, n_last := Some now\<rparr>)"

definition boost_row :: "int \<Rightarrow> real \<Rightarrow> node \<Rightarrow> node" where
  "boost_row now b n = n\<lparr>n_temp := clamp01 (n_temp n + b), n_access := n_access n + 1, n_last := Some now\<rparr>"

definition boost_temperature :: "int \<Rightarrow> node_id \<Rightarrow> real \<Rightarrow> db \<Rightarrow> db" where
  "boost_temperature now i b = update_rows (\<lambda>n. n_id n = i) (boost_row now b)"

definition boost_temperature_batch :: "int \<Rightarrow> node_id list \<Rightarrow> real \<Rightarrow> db \<Rightarrow> db" where
  "boost_temperature_batch now is b db =
     (if is = [] then db else update_rows (\<lambda>n. n_id n \<in> set is) (boost_row now b) db)"

definition decays :: "node \<Rightarrow> bool" where
  "decays n = (0 < n_temp n \<and> \<not> n_pinned n)"

definition decay_temperatures :: "real \<Rightarrow> db \<Rightarrow> int \<times> db" where
  "decay_temperatures factor db =
     (int (length (filter decays (db_nodes db))),
      update_rows decays (\<lambda>n. n\<lparr>n_temp := clamp01 (n_temp n * factor)\<rparr>) db)"

definition reset_temperatures_by_files :: "bytes list \<Rightarrow> real \<Rightarrow> db \<Rightarrow> db" where
  "reset_temperatures_by_files paths t db =
     (if paths = [] then db else update_rows (\<lambda>n. n_source n \<in> set paths) (\<lambda>n. n\<lparr>n_temp := t\<rparr>) db)"

definition reset_pinned_by_files :: "bytes list \<Rightarrow> db \<Rightarrow> db" where
  "reset_pinned_by_files paths db =
     (if paths = [] then db else update_rows (\<lambda>n. n_source n \<in> set paths) (\<lambda>n. n\<lparr>n_pinned := True\<rparr>) db)"

definition get_cold_nodes :: "db \<Rightarrow> real \<Rightarrow> int \<Rightarrow> node list" where
  "get_cold_nodes db threshold limit = sql_limit limit
     (sort_key n_temp (filter (\<lambda>n. n_temp n < threshold \<and> \<not> n_pinned n) (db_nodes db)))"

definition set_pinned :: "node_id \<Rightarrow> bool \<Rightarrow> real option \<Rightarrow> db \<Rightarrow> db" where
  "set_pinned i pin t db =
     update_rows (\<lambda>n. n_id n = i) (\<lambda>n. n\<lparr>n_pinned := pin\<rparr>)
       (case t of None \<Rightarrow> db | Some x \<Rightarrow> update_temperature i x db)"

subsection \<open>Full-text search\<close>

definition quote_char :: char where "quote_char = CHR 0x22"

definition fts_operators :: "bytes list" where
  "fts_operators = ['' OR '', '' AND '', '' NOT '', ''NEAR('', [quote_char], '':'', ''*'', ''('']"

definition rewrite_query :: "bytes \<Rightarrow> bytes" where
  "rewrite_query q0 =
     (let q = trim_space q0
      in if q = [] then q
         else if list_ex (str_contains q) fts_operators then q
         else join_with '' OR '' (map (\<lambda>t. [quote_char] @ t @ [quote_char]) (str_fields q)))"

definition double_quotes :: "bytes \<Rightarrow> bytes" where
  "double_quotes t = concat (map (\<lambda>c. if c = quote_char then [c, c] else [c]) t)"

definition quote_all_terms :: "bytes \<Rightarrow> bytes" where
  "quote_all_terms q0 =
     (let q = trim_space q0
      in if q = [] then q
         else join_with '' OR '' (map (\<lambda>t. [quote_char] @ double_quotes t @ [quote_char]) (str_fields q)))"

definition is_fts5_syntax_error :: "error \<Rightarrow> bool" where
  "is_fts5_syntax_error e = (case e of Failure msg \<Rightarrow> str_contains msg ''SQL logic error:'' | _ \<Rightarrow> False)"

type_synonym fts_engine = "db \<Rightarrow> bytes \<Rightarrow> int \<Rightarrow> (node_id \<times> real) list result"

definition query_fts :: "fts_engine \<Rightarrow> db \<Rightarrow> bytes \<Rightarrow> int \<Rightarrow> (node_id \<times> real) list result" where
  "query_fts fts db q limit =
     (case fts db (rewrite_query q) limit of
        Inr rows \<Rightarrow> Inr rows
      | Inl e \<Rightarrow> if is_fts5_syntax_error e then fts db (quote_all_terms q) limit else Inl e)"

definition store_search :: "fts_engine \<Rightarrow> db \<Rightarrow> bytes \<Rightarrow> int \<Rightarrow> node list result" where
  "store_search fts db q limit = bind_result (query_fts fts db q limit)
     (\<lambda>hits. Inr (filter (\<lambda>n. n_id n \<in> fst ` set hits) (db_nodes db)))"

record ranked_node =
  rk_node :: node
  rk_rank :: real

definition search_ranked :: "fts_engine \<Rightarrow> db \<Rightarrow> bytes \<Rightarrow> int \<Rightarrow> ranked_node list result" where
  "search_ranked fts db q limit = bind_result (query_fts fts db q limit)
     (\<lambda>hits. Inr (concat (map (\<lambda>(i, r). case node_at db i of None \<Rightarrow> []
         | Some n \<Rightarrow> [\<lparr>rk_node = n, rk_rank = r\<rparr>]) hits)))"

subsection \<open>Counts\<close>

record stats =
  st_nodes :: int
  st_avg_temp :: real
  st_median_temp :: real
  st_hot :: int
  st_cold :: int
  st_pinned :: int
  st_tokens :: int
  st_snapshots :: int
  st_fts_rows :: int
  st_pending :: int

definition count :: "('a \<Rightarrow> bool) \<Rightarrow> 'a list \<Rightarrow> int" where
  "count P xs = int (length (filter P xs))"

definition get_stats :: "db \<Rightarrow> real \<Rightarrow> real \<Rightarrow> stats" where
  "get_stats db hot cold =
     (let ns = db_nodes db; temps = sort (map n_temp ns); k = length ns
      in \<lparr>st_nodes = int k,
          st_avg_temp = (if k = 0 then 0 else sum_list (map n_temp ns) / real k),
          st_median_temp = (if k = 0 then 0 else temps ! (k div 2)),
          st_hot = count (\<lambda>n. hot \<le> n_temp n) ns, st_cold = count (\<lambda>n. n_temp n < cold) ns,
          st_pinned = count n_pinned ns, st_tokens = sum_list (map n_tokens ns),
          st_snapshots = int (length (db_snapshots db)), st_fts_rows = int k,
          st_pending = int (length (db_pending db))\<rparr>)"

definition count_by :: "('a \<Rightarrow> bytes) \<Rightarrow> 'a list \<Rightarrow> (bytes \<times> int) list" where
  "count_by f xs = map (\<lambda>k. (k, count (\<lambda>x. f x = k) xs)) (sort (remdups (map f xs)))"

definition node_counts_by_type :: "db \<Rightarrow> (bytes \<times> int) list" where
  "node_counts_by_type db = count_by n_type (db_nodes db)"

definition relation_counts_by_origin :: "db \<Rightarrow> (bytes \<times> int) list" where
  "relation_counts_by_origin db = count_by l_origin (db_relations db)"

subsection \<open>Diagnostics and repairs\<close>

definition is_orphan :: "db \<Rightarrow> node \<Rightarrow> bool" where
  "is_orphan db n = (n_parent n \<noteq> [] \<and> n_parent n \<notin> set (node_ids db))"

definition is_dangling :: "db \<Rightarrow> diff_row \<Rightarrow> bool" where
  "is_dangling db d = (r_snap d \<notin> set (snapshot_ids db))"

definition count_nodes :: "db \<Rightarrow> int" where
  "count_nodes db = int (length (db_nodes db))"

definition count_orphan_parents :: "db \<Rightarrow> int" where
  "count_orphan_parents db = count (is_orphan db) (db_nodes db)"

definition count_dangling_diffs :: "db \<Rightarrow> int" where
  "count_dangling_diffs db = count (is_dangling db) (db_diffs db)"

definition count_snapshots :: "db \<Rightarrow> int" where
  "count_snapshots db = int (length (db_snapshots db))"

definition head_cursor_ref :: "db \<Rightarrow> int \<times> bool" where
  "head_cursor_ref db = (case db_head db of None \<Rightarrow> (0, False) | Some i \<Rightarrow> (i, True))"

definition snapshot_exists :: "db \<Rightarrow> int \<Rightarrow> bool" where
  "snapshot_exists db i = (i \<in> set (snapshot_ids db))"

definition max_snapshot_id :: "db \<Rightarrow> int \<times> bool" where
  "max_snapshot_id db = (case snapshot_ids db of [] \<Rightarrow> (0, False) | i # is \<Rightarrow> (fold max is i, True))"

definition distinct_compile_roots :: "db \<Rightarrow> bytes list" where
  "distinct_compile_roots db = sort (remdups (filter (\<lambda>r. r \<noteq> []) (map s_root (db_snapshots db))))"

definition promote_orphans_to_roots :: "db \<Rightarrow> db" where
  "promote_orphans_to_roots db = update_rows (is_orphan db) (\<lambda>n. n\<lparr>n_parent := []\<rparr>) db"

definition delete_dangling_diffs :: "db \<Rightarrow> db" where
  "delete_dangling_diffs db = db\<lparr>db_diffs := filter (\<lambda>d. \<not> is_dangling db d) (db_diffs db)\<rparr>"

definition repoint_head_cursor :: "db \<Rightarrow> db result" where
  "repoint_head_cursor db =
     (case max_snapshot_id db of (i, has) \<Rightarrow>
        if has then advance_cursor i db else Inr (db\<lparr>db_head := None\<rparr>))"


subsection \<open>Temperatures stay in range\<close>

definition temps_ok :: "db \<Rightarrow> bool" where
  "temps_ok db = list_all (\<lambda>n. 0 \<le> n_temp n \<and> n_temp n \<le> 1) (db_nodes db)"

lemma node_at_update_rows [view_simps]:
  assumes "\<And>n. n_id (f n) = n_id n"
  shows "node_at (update_rows P f db) i =
    map_option (\<lambda>n. if P n then (f n)\<lparr>n_updated := db_now db\<rparr> else n) (node_at db i)"
  unfolding node_at_def update_rows_def by (simp add: lookup_by_map_same_key assms)

lemma update_rows_frame [frame_simps]:
  "db_snapshots (update_rows P f db) = db_snapshots db" "db_diffs (update_rows P f db) = db_diffs db"
  "db_head (update_rows P f db) = db_head db" "db_relations (update_rows P f db) = db_relations db"
  "db_pending (update_rows P f db) = db_pending db" "db_now (update_rows P f db) = db_now db"
  by (simp_all add: update_rows_def)

lemma temps_ok_update_rows:
  assumes "temps_ok db" "\<And>n. 0 \<le> n_temp n \<Longrightarrow> n_temp n \<le> 1 \<Longrightarrow> P n \<Longrightarrow> 0 \<le> n_temp (f n) \<and> n_temp (f n) \<le> 1"
  shows "temps_ok (update_rows P f db)"
  using assms by (auto simp: temps_ok_def update_rows_def list_all_iff)

lemma clamp01_range [simp]: "0 \<le> clamp01 t" "clamp01 t \<le> 1"
  by (simp_all add: clamp01_def)

lemma clamp01_id: "0 \<le> t \<Longrightarrow> t \<le> 1 \<Longrightarrow> clamp01 t = t"
  by (simp add: clamp01_def)

text \<open>
  One decay pass multiplies the temperature of every unpinned warm node by the factor (the clamp
  never bites), leaves pinned and cold nodes and every other column alone, keeps all temperatures in
  the unit interval, and reports the number of rows it changed.
\<close>

lemma decay_temperatures_effect:
  assumes "temps_ok db" "0 \<le> factor" "factor \<le> 1"
  shows "case decay_temperatures factor db of (changed, db') \<Rightarrow>
     changed = count (\<lambda>n. 0 < n_temp n \<and> \<not> n_pinned n) (db_nodes db)
     \<and> temps_ok db'
     \<and> node_at db' = (\<lambda>i. map_option (\<lambda>n. if n_pinned n \<or> n_temp n = 0 then n
          else n\<lparr>n_temp := n_temp n * factor, n_updated := db_now db\<rparr>) (node_at db i))"
proof -
  let ?db' = "snd (decay_temperatures factor db)"
  have step: "clamp01 (n_temp n * factor) = n_temp n * factor" if "0 \<le> n_temp n" "n_temp n \<le> 1" for n :: node
    using that assms(2,3) mult_le_one [of "n_temp n" factor] by (simp add: clamp01_id)
  have range: "0 \<le> n_temp n \<and> n_temp n \<le> 1" if "node_at db i = Some n" for i n
    using that assms(1) by (auto simp: temps_ok_def list_all_iff dest: node_at_SomeD)
  have "node_at ?db' i = map_option (\<lambda>n. if n_pinned n \<or> n_temp n = 0 then n
      else n\<lparr>n_temp := n_temp n * factor, n_updated := db_now db\<rparr>) (node_at db i)" for i
    using range [of i] step by (cases "node_at db i")
      (auto simp: decay_temperatures_def view_simps decays_def)
  moreover have "temps_ok ?db'"
    unfolding decay_temperatures_def snd_conv by (rule temps_ok_update_rows [OF assms(1)]) simp
  moreover have "decays = (\<lambda>n. 0 < n_temp n \<and> \<not> n_pinned n)" by (auto simp: decays_def)
  ultimately show ?thesis
    by (auto simp: decay_temperatures_def count_def)
qed

lemma sample_temps_ok: "temps_ok sample_history"
  by (simp add: temps_ok_def sample_history_def blank_node_def empty_db_def)

lemma decay_temperatures_effect_witness:
  "case decay_temperatures (1 / 2) (boost_temperature 9 ''a'' 1 sample_history) of (changed, db') \<Rightarrow>
     changed = 1 \<and> temps_ok db' \<and> map_option n_temp (node_at db' ''a'') = Some (1 / 2)"
proof -
  let ?db = "boost_temperature 9 ''a'' 1 sample_history"
  have "temps_ok ?db"
    unfolding boost_temperature_def
    by (rule temps_ok_update_rows [OF sample_temps_ok]) (simp add: boost_row_def)
  note effect = decay_temperatures_effect [OF this, of "1 / 2"]
  obtain n where n: "node_at ?db ''a'' = Some n" "n_temp n = 1" "\<not> n_pinned n"
    by (simp add: boost_temperature_def update_rows_def node_at_def sample_history_def empty_db_def
        blank_node_def boost_row_def clamp01_def)
  have "count (\<lambda>n. 0 < n_temp n \<and> \<not> n_pinned n) (db_nodes ?db) = 1"
    by (simp add: boost_temperature_def update_rows_def count_def sample_history_def empty_db_def
        blank_node_def boost_row_def clamp01_def)
  then show ?thesis
    using effect n by (cases "decay_temperatures (1 / 2) ?db") simp
qed

text \<open>
  Boosting a batch of nodes raises each listed node by the boost, capped at 1, counts one access
  and stamps the access time once however often the node is listed, and touches nothing else.
\<close>

lemma boost_batch_effect:
  assumes "temps_ok db" "0 \<le> b"
  shows "temps_ok (boost_temperature_batch now is b db)
    \<and> node_at (boost_temperature_batch now is b db) = (\<lambda>i. map_option (\<lambda>n. if i \<in> set is
        then n\<lparr>n_temp := min 1 (n_temp n + b), n_access := n_access n + 1, n_last := Some now,
             n_updated := db_now db\<rparr> else n) (node_at db i))"
proof (cases "is = []")
  case True
  then show ?thesis using assms(1) by (simp add: boost_temperature_batch_def option.map_ident)
next
  case False
  have "0 \<le> n_temp n \<and> n_id n = i" if "node_at db i = Some n" for i n
    using that assms(1) by (auto simp: temps_ok_def list_all_iff dest: node_at_SomeD)
  then have "node_at (boost_temperature_batch now is b db) i = map_option (\<lambda>n. if i \<in> set is
        then n\<lparr>n_temp := min 1 (n_temp n + b), n_access := n_access n + 1, n_last := Some now,
             n_updated := db_now db\<rparr> else n) (node_at db i)" for i
    using False assms(2) by (cases "node_at db i")
      (auto simp: boost_temperature_batch_def view_simps boost_row_def clamp01_def)
  moreover have "temps_ok (boost_temperature_batch now is b db)"
    using False by (simp add: boost_temperature_batch_def temps_ok_update_rows [OF assms(1)] boost_row_def)
  ultimately show ?thesis by blast
qed

lemma boost_batch_effect_witness:
  "temps_ok (boost_temperature_batch 9 [''a'', ''a''] (3 / 10) sample_history)
   \<and> map_option n_access (node_at (boost_temperature_batch 9 [''a'', ''a''] (3 / 10) sample_history) ''a'') = Some 1"
  using boost_batch_effect [OF sample_temps_ok, of "3 / 10" 9 "[''a'', ''a'']"]
  by (simp add: node_at_def) (simp add: sample_history_def empty_db_def blank_node_def)

subsection \<open>Quoting for the full-text engine\<close>

text \<open>How FTS5 reads a string: up to a quote that is not doubled.\<close>

fun read_phrase :: "bytes \<Rightarrow> bytes \<Rightarrow> (bytes \<times> bytes) option" where
  "read_phrase acc [] = None"
| "read_phrase acc [c] = (if c = quote_char then Some (acc, []) else None)"
| "read_phrase acc (c # d # s) =
     (if c = quote_char then (if d = quote_char then read_phrase (acc @ [c]) s else Some (acc, d # s))
      else read_phrase (acc @ [c]) (d # s))"

lemma length_read_phrase: "read_phrase acc s = Some (t, rest) \<Longrightarrow> length rest < length s"
  by (induction acc s rule: read_phrase.induct) (auto split: if_splits)

function phrases :: "bytes \<Rightarrow> bytes list option" where
  "phrases [] = Some []"
| "phrases (c # s) =
     (if c \<noteq> quote_char then None
      else case read_phrase [] s of None \<Rightarrow> None
        | Some (t, []) \<Rightarrow> Some [t]
        | Some (t, x # rest) \<Rightarrow> if has_prefix (x # rest) '' OR '' \<and> drop 4 (x # rest) \<noteq> []
            then map_option ((#) t) (phrases (drop 4 (x # rest))) else None)"
  by pat_completeness auto
termination
  by (relation "measure length") (auto dest: length_read_phrase)

lemma read_phrase_quoted:
  assumes "rest = [] \<or> hd rest \<noteq> quote_char"
  shows "read_phrase acc (double_quotes t @ quote_char # rest) = Some (acc @ t, rest)"
proof (induction t arbitrary: acc)
  case Nil
  then show ?case using assms by (cases rest) (auto simp: double_quotes_def)
next
  case (Cons c t)
  have "\<exists>d u. double_quotes t @ quote_char # rest = d # u" by (cases "double_quotes t") auto
  then obtain d u where du: "double_quotes t @ quote_char # rest = d # u" by blast
  have "double_quotes (c # t) = (if c = quote_char then [c, c] else [c]) @ double_quotes t"
    by (simp add: double_quotes_def)
  then show ?case using Cons [of "acc @ [c]"] du by auto
qed

lemma phrases_join:
  "phrases (join_with '' OR '' (map (\<lambda>t. [quote_char] @ double_quotes t @ [quote_char]) ts)) = Some ts"
proof (induction ts)
  case (Cons t ts)
  let ?q = "\<lambda>t. [quote_char] @ double_quotes t @ [quote_char]"
  show ?case
  proof (cases ts)
    case Nil
    then show ?thesis using read_phrase_quoted [of "[]" "[]" t] by simp
  next
    case (Cons u us)
    let ?rest = "'' OR '' @ join_with '' OR '' (map ?q ts)"
    have ne: "join_with '' OR '' (map ?q ts) \<noteq> []" using Cons by (cases us) auto
    have "read_phrase [] (double_quotes t @ quote_char # ?rest) = Some (t, ?rest)"
      using read_phrase_quoted [of ?rest "[]" t] by (simp add: quote_char_def)
    moreover have "join_with '' OR '' (map ?q (t # ts)) = quote_char # (double_quotes t @ quote_char # ?rest)"
      using Cons by simp
    ultimately show ?thesis using Cons.IH ne by (simp add: has_prefix_def)
  qed
qed simp

text \<open>C13:
  The fallback query cannot be misread: parsed the way FTS5 parses strings, it is exactly the
  disjunction of the whitespace-separated terms of the user's input, whatever quotes, operators
  or punctuation these hold.
\<close>

theorem quoted_query_reads_back:
  "phrases (quote_all_terms q) = Some (str_fields (trim_space q))"
proof (cases "trim_space q = []")
  case True
  then show ?thesis by (simp add: quote_all_terms_def str_fields_def)
next
  case False
  then show ?thesis by (simp only: quote_all_terms_def Let_def if_False phrases_join)
qed

subsection \<open>Repairs\<close>

lemma count_zero_iff: "count P xs = 0 \<longleftrightarrow> (\<forall>x\<in>set xs. \<not> P x)"
  by (auto simp: count_def filter_empty_conv)

lemma fold_max_int: "(fold max xs x :: int) \<in> insert x (set xs) \<and> (\<forall>y\<in>insert x (set xs). y \<le> fold max xs x)"
  by (induction xs arbitrary: x) (fastforce simp: max_def)+

text \<open>
  The three repairs work on any database, however damaged: promoting orphans leaves no row with a
  missing parent, deleting dangling diffs leaves none without a snapshot, and repointing the cursor
  makes it the newest snapshot, or removes it when there is none.
\<close>

lemma doctor_repairs:
  "count_orphan_parents (promote_orphans_to_roots db) = 0
   \<and> count_dangling_diffs (delete_dangling_diffs db) = 0
   \<and> (\<exists>db'. repoint_head_cursor db = Inr db' \<and> db_head db' =
        (if db_snapshots db = [] then None else Some (Max (set (snapshot_ids db)))))"
proof (intro conjI)
  have "node_ids (promote_orphans_to_roots db) = node_ids db"
    by (simp add: promote_orphans_to_roots_def update_rows_def node_ids_def comp_def if_distrib cong: if_cong)
  then show "count_orphan_parents (promote_orphans_to_roots db) = 0"
    by (auto simp: count_orphan_parents_def count_zero_iff is_orphan_def)
      (auto simp: promote_orphans_to_roots_def update_rows_def is_orphan_def split: if_splits)
  show "count_dangling_diffs (delete_dangling_diffs db) = 0"
    by (auto simp: count_dangling_diffs_def count_zero_iff delete_dangling_diffs_def is_dangling_def
        snapshot_ids_def)
  show "\<exists>db'. repoint_head_cursor db = Inr db' \<and> db_head db' =
        (if db_snapshots db = [] then None else Some (Max (set (snapshot_ids db))))"
  proof (cases "db_snapshots db")
    case Nil
    then show ?thesis by (simp add: repoint_head_cursor_def max_snapshot_id_def snapshot_ids_def)
  next
    case (Cons s ss)
    let ?m = "fold max (map s_id ss) (s_id s)"
    have m: "?m \<in> set (snapshot_ids db)" "\<forall>y\<in>set (snapshot_ids db). y \<le> ?m"
      using fold_max_int [of "map s_id ss" "s_id s"] Cons by (auto simp: snapshot_ids_def)
    then have "Max (set (snapshot_ids db)) = ?m" by (intro Max_eqI) auto
    moreover have "advance_cursor ?m db = Inr (db\<lparr>db_head := Some ?m\<rparr>)"
      using m(1) by (simp add: advance_cursor_def)
    moreover have "max_snapshot_id db = (?m, True)"
      using Cons by (simp add: max_snapshot_id_def snapshot_ids_def)
    ultimately show ?thesis using Cons by (simp add: repoint_head_cursor_def)
  qed
qed

end
