(* ===== verification/Workspace_Config.thy ===== *)
theory Workspace_Config
  imports Go_Strings
begin

text \<open>
  The workspace configuration (\<open>pkg/config\<close>): the blocks of \<open>.remindb/config.json\<close>, their
  validation, byte sizes, and the precedence of flag, file, environment and default. A pointer
  field is an option. The JSON decoder, \<open>strconv.ParseFloat\<close> and the conversion of a float beyond
  the 64-bit integers are parameters; durations are integers of nanoseconds.
\<close>

subsection \<open>The blocks\<close>

record budgets_config =
  bg_search :: "int option"
  bg_fetch :: "int option"
  bg_fetch_batch :: "int option"
  bg_related :: "int option"

record compile_config =
  cc_max_file_size :: "int option"
  cc_max_parallelism :: "int option"
  cc_timeout :: "int option"

record redaction_block =
  rb_disabled :: "bytes list"
  rb_custom :: "(bytes \<times> bytes) list"

record rescan_config =
  rs_enabled :: "bool option"
  rs_interval :: "int option"
  rs_settle :: "int option"

record temperature_config =
  to_enabled :: "bool option"
  to_decay_rate :: "real option"
  to_access_boost :: "real option"
  to_hot :: "real option"
  to_cold :: "real option"
  to_notify :: "real option"
  to_rebound :: "real option"
  to_tick :: "int option"
  to_ttl :: "int option"
  to_limit :: "int option"

record logging_config =
  lg_level :: "bytes option"
  lg_format :: "bytes option"
  lg_output :: "bytes option"
  lg_buffer_size :: "int option"
  lg_session_files :: "bool option"
  lg_session_max :: "int option"

record server_config =
  sv_transport :: "bytes option"
  sv_listen :: "bytes option"
  sv_logging :: logging_config
  sv_debounce :: "int option"
  sv_overrides :: "(bytes \<times> int option) list"
  sv_flush :: "int option"
  sv_rescan_files :: "bool option"
  sv_rescan_max :: "int option"

record config =
  cf_budgets :: budgets_config
  cf_compile :: compile_config
  cf_redaction :: redaction_block
  cf_rescan :: rescan_config
  cf_server :: server_config
  cf_temperature :: temperature_config

definition zero_temperature :: temperature_config where
  "zero_temperature = \<lparr>to_enabled = None, to_decay_rate = None, to_access_boost = None, to_hot = None,
     to_cold = None, to_notify = None, to_rebound = None, to_tick = None, to_ttl = None, to_limit = None\<rparr>"

definition zero_config :: config where
  "zero_config = \<lparr>cf_budgets = \<lparr>bg_search = None, bg_fetch = None, bg_fetch_batch = None, bg_related = None\<rparr>,
     cf_compile = \<lparr>cc_max_file_size = None, cc_max_parallelism = None, cc_timeout = None\<rparr>,
     cf_redaction = \<lparr>rb_disabled = [], rb_custom = []\<rparr>,
     cf_rescan = \<lparr>rs_enabled = None, rs_interval = None, rs_settle = None\<rparr>,
     cf_server = \<lparr>sv_transport = None, sv_listen = None,
       sv_logging = \<lparr>lg_level = None, lg_format = None, lg_output = None, lg_buffer_size = None,
         lg_session_files = None, lg_session_max = None\<rparr>,
       sv_debounce = None, sv_overrides = [], sv_flush = None, sv_rescan_files = None, sv_rescan_max = None\<rparr>,
     cf_temperature = zero_temperature\<rparr>"

subsection \<open>Validation\<close>

text \<open>A pointer that is set and whose value fails a test; the first failing check is the error.\<close>

definition set_and :: "('a \<Rightarrow> bool) \<Rightarrow> 'a option \<Rightarrow> bool" where
  "set_and P v = (case v of None \<Rightarrow> False | Some x \<Rightarrow> P x)"

definition first_failing :: "(bool \<times> bytes) list \<Rightarrow> error option" where
  "first_failing checks = map_option (\<lambda>c. Failure (snd c)) (find fst checks)"

definition log_levels :: "bytes list" where
  "log_levels = [''debug'', ''info'', ''warn'', ''error'']"

definition config_checks :: "config \<Rightarrow> (bool \<times> bytes) list" where
  "config_checks c =
    (let cc = cf_compile c; bc = cf_budgets c; rc = cf_rescan c; sc = cf_server c; lg = sv_logging sc in
     [(set_and (\<lambda>n. n \<le> 0) (cc_max_file_size cc), ''compile.max_file_size must be positive''),
      (set_and (\<lambda>n. n < 1) (cc_max_parallelism cc), ''compile.max_parallelism must be >= 1''),
      (set_and (\<lambda>n. n < 0) (cc_timeout cc), ''compile.wall_clock_timeout must not be negative''),
      (set_and (\<lambda>n. n \<le> 0) (bg_search bc), ''budgets.search must be positive''),
      (set_and (\<lambda>n. n \<le> 0) (bg_fetch bc), ''budgets.fetch must be positive''),
      (set_and (\<lambda>n. n \<le> 0) (bg_fetch_batch bc), ''budgets.fetch_batch must be positive''),
      (set_and (\<lambda>n. n \<le> 0) (bg_related bc), ''budgets.related must be positive''),
      (set_and (\<lambda>n. n \<le> 0) (rs_interval rc), ''rescan.interval must be positive''),
      (set_and (\<lambda>n. n < 0) (rs_settle rc), ''rescan.settle must not be negative''),
      (set_and (\<lambda>t. t \<notin> {''stdio'', ''http''}) (sv_transport sc), ''server.transport must be stdio or http''),
      (set_and (\<lambda>l. l \<notin> set log_levels) (lg_level lg), ''server.logging.level must be one of debug|info|warn|error''),
      (set_and (\<lambda>f. f \<notin> {''text'', ''json''}) (lg_format lg), ''server.logging.format must be text or json''),
      (set_and (\<lambda>n. n \<le> 0) (lg_buffer_size lg), ''server.logging.buffer_size must be positive''),
      (set_and (\<lambda>n. n < 0) (sv_debounce sc), ''server.resources.debounce must not be negative'')]
     @ map (\<lambda>(name, d). (d = None \<or> set_and (\<lambda>n. n < 0) d, ''server.resources.overrides: '' @ name))
         (sv_overrides sc)
     @ [(set_and (\<lambda>n. n \<le> 0) (sv_flush sc), ''server.sessions.flush_interval must be positive''),
      (set_and (\<lambda>n. n \<le> 0) (lg_session_max lg), ''server.logging.session_files.max_file_size must be positive''),
      (set_and (\<lambda>n. n \<le> 0) (sv_rescan_max sc), ''server.rescan_files.max_file_size must be positive'')])"

definition config_validate :: "config \<Rightarrow> error option" where
  "config_validate c = first_failing (config_checks c)"

lemma first_failing_None: "first_failing checks = None \<longleftrightarrow> list_all (\<lambda>c. \<not> fst c) checks"
  by (auto simp: first_failing_def find_None_iff list_all_iff)

subsection \<open>Decoding\<close>

text \<open>What the JSON decoder answers: a value, the end of an empty input, or an error message.\<close>

datatype decoded = Decoded config | EndOfInput | DecodeError bytes

definition unknown_field_prefix :: bytes where
  "unknown_field_prefix = ''json: unknown field '' @ [CHR 0x22]"

definition unknown_field_key :: "bytes \<Rightarrow> bytes \<times> bool" where
  "unknown_field_key msg =
     (if \<not> has_prefix msg unknown_field_prefix then ([], False)
      else let (key, _, found) = cut (drop (length unknown_field_prefix) msg) [CHR 0x22]
        in if \<not> found then ([], False) else (key, True))"

definition parse_config :: "(bytes \<Rightarrow> decoded) \<Rightarrow> bytes \<Rightarrow> config result" where
  "parse_config decode text =
     (case decode text of
        EndOfInput \<Rightarrow> Inr zero_config
      | DecodeError msg \<Rightarrow>
          let (key, ok) = unknown_field_key msg
          in Inl (Failure (if ok then ''unknown key '' @ key else ''failed to parse: '' @ msg))
      | Decoded c \<Rightarrow> (case config_validate c of Some e \<Rightarrow> Inl e | None \<Rightarrow> Inr c))"

text \<open>What reading the file gives: absent, unreadable, or its bytes.\<close>

datatype file_read = Absent | Unreadable | Contents bytes

definition load_config :: "(bytes \<Rightarrow> decoded) \<Rightarrow> file_read \<Rightarrow> config result" where
  "load_config decode f =
     (case f of Absent \<Rightarrow> Inr zero_config
      | Unreadable \<Rightarrow> Inl (Failure ''failed to read: .remindb/config.json'')
      | Contents text \<Rightarrow> parse_config decode text)"

lemma zero_config_valid: "config_validate zero_config = None"
  unfolding config_validate_def first_failing_None
  by (simp add: zero_config_def config_checks_def Let_def set_and_def)

lemma parse_config_valid: "parse_config decode text = Inr c \<Longrightarrow> config_validate c = None"
  using zero_config_valid
  by (cases "decode text") (auto simp: parse_config_def split: option.splits prod.splits if_splits)

subsection \<open>Byte sizes\<close>

definition byte_units :: "(bytes \<times> int) list" where
  "byte_units = [(''KIB'', 2 ^ 10), (''MIB'', 2 ^ 20), (''GIB'', 2 ^ 30), (''TIB'', 2 ^ 40),
     (''KB'', 2 ^ 10), (''MB'', 2 ^ 20), (''GB'', 2 ^ 30), (''TB'', 2 ^ 40),
     (''K'', 2 ^ 10), (''M'', 2 ^ 20), (''G'', 2 ^ 30), (''T'', 2 ^ 40), (''B'', 1)]"

text \<open>\<open>strings.ToUpper\<close> as far as ASCII results are concerned: U+0131 and U+017F have ASCII upper cases.\<close>

definition to_upper :: "bytes \<Rightarrow> bytes" where
  "to_upper s = map to_upper_char (replace_all [byte 0xC4, byte 0xB1] ''I'' (replace_all [byte 0xC5, byte 0xBF] ''S'' s))"

definition strip_unit :: "bytes \<Rightarrow> bytes \<times> int" where
  "strip_unit t =
     (case find (\<lambda>u. has_suffix t (fst u)) byte_units of
        None \<Rightarrow> (t, 1)
      | Some u \<Rightarrow> (trim_space (take (length t - length (fst u)) t), snd u))"

text \<open>Go leaves the conversion of a float outside the 64-bit range to the platform: \<open>beyond\<close>.\<close>

definition float_to_int64 :: "(real \<Rightarrow> int) \<Rightarrow> real \<Rightarrow> int" where
  "float_to_int64 beyond x = (if x < 2 ^ 63 then \<lfloor>x\<rfloor> else beyond x)"

definition parse_byte_size :: "(bytes \<Rightarrow> real option) \<Rightarrow> (real \<Rightarrow> int) \<Rightarrow> bytes \<Rightarrow> int result" where
  "parse_byte_size parse_float beyond s =
     (let t = to_upper (trim_space s)
      in if t = [] then Inl (Failure ''empty size'')
         else let (num, k) = strip_unit t
           in case parse_float num of
                None \<Rightarrow> Inl (Failure ''not a number'')
              | Some f \<Rightarrow> if f < 0 then Inl (Failure ''must not be negative'')
                  else Inr (float_to_int64 beyond (f * of_int k)))"

subsection \<open>Precedence\<close>

definition resolve_setting :: "bool \<Rightarrow> 'a \<Rightarrow> 'a option \<Rightarrow> 'a option \<Rightarrow> 'a \<Rightarrow> 'a" where
  "resolve_setting flag_changed flag cfg env dflt =
     (if flag_changed then flag
      else case cfg of Some x \<Rightarrow> x | None \<Rightarrow> (case env of Some x \<Rightarrow> x | None \<Rightarrow> dflt))"

end
