(* ===== verification/Temperature.thy ===== *)
theory Temperature
  imports Store_Temperature Workspace_Config Content_Id
begin

text \<open>
  The temperature lifecycle (\<open>pkg/temperature\<close>): the policy and its validation, the relevance
  weight, and the tracker with its ticker loop and cold-node notifications
  (\<open>pkg/mcp/server.go\<close>: \<open>NotifyColdNodes\<close>). Instants and durations are integers of
  nanoseconds; the instant that \<open>time.Now()\<close> gives is an argument of each operation. Sessions that
  receive a notification are a count given by the environment.
\<close>

subsection \<open>Policy\<close>

record temp_policy =
  tp_decay_rate :: real
  tp_access_boost :: real
  tp_hot :: real
  tp_cold :: real
  tp_notify :: real
  tp_rebound :: real
  tp_tick :: int
  tp_ttl :: int
  tp_limit :: int
  tp_enabled :: bool

definition minutes :: "int \<Rightarrow> int" where "minutes k = k * 60000000000"

definition default_policy :: temp_policy where
  "default_policy = \<lparr>tp_decay_rate = 5 / 100, tp_access_boost = 15 / 100, tp_hot = 1 / 2, tp_cold = 1 / 10,
     tp_notify = 1 / 10, tp_rebound = 1 / 2, tp_tick = minutes 5, tp_ttl = minutes 60, tp_limit = 50,
     tp_enabled = True\<rparr>"

definition override :: "'a option \<Rightarrow> 'a \<Rightarrow> 'a" where
  "override v x = (case v of None \<Rightarrow> x | Some y \<Rightarrow> y)"

definition with_overrides :: "temp_policy \<Rightarrow> temperature_config \<Rightarrow> temp_policy" where
  "with_overrides c o' = c\<lparr>tp_enabled := override (to_enabled o') (tp_enabled c),
     tp_decay_rate := override (to_decay_rate o') (tp_decay_rate c),
     tp_access_boost := override (to_access_boost o') (tp_access_boost c),
     tp_hot := override (to_hot o') (tp_hot c), tp_cold := override (to_cold o') (tp_cold c),
     tp_notify := override (to_notify o') (tp_notify c), tp_rebound := override (to_rebound o') (tp_rebound c),
     tp_tick := override (to_tick o') (tp_tick c), tp_ttl := override (to_ttl o') (tp_ttl c),
     tp_limit := override (to_limit o') (tp_limit c)\<rparr>"

definition in_unit :: "real \<Rightarrow> bool" where
  "in_unit v = (0 \<le> v \<and> v \<le> 1)"

definition policy_validate :: "temp_policy \<Rightarrow> error option" where
  "policy_validate c = first_failing
     [(tp_decay_rate c < 0, ''DecayRate must be >= 0''),
      (\<not> in_unit (tp_access_boost c), ''AccessBoost must be in [0, 1]''),
      (\<not> in_unit (tp_hot c), ''HotThreshold must be in [0, 1]''),
      (tp_hot c \<le> tp_cold c, ''HotThreshold must be > ColdThreshold''),
      (\<not> in_unit (tp_cold c), ''ColdThreshold must be in [0, 1]''),
      (\<not> in_unit (tp_notify c), ''NotifyThreshold must be in [0, 1]''),
      (\<not> in_unit (tp_rebound c), ''SummarizeRebound must be in [0, 1]''),
      (tp_enabled c \<and> tp_tick c \<le> 0, ''TickInterval must be > 0''),
      (tp_limit c \<le> 0, ''ColdNotifyLimit must be > 0''),
      (tp_ttl c < 0, ''ColdNotifyTTL must be >= 0'')]"

subsection \<open>Decay and relevance\<close>

definition hours :: "int \<Rightarrow> real" where
  "hours d = of_int d / of_int (minutes 60)"

definition decay_factor :: "real \<Rightarrow> real \<Rightarrow> real" where
  "decay_factor rate h = (if rate = 0 \<or> h = 0 then 1 else exp (- rate * h))"

definition cold_floor :: real where "cold_floor = 3 / 10"
definition temp_weight :: real where "temp_weight = 7 / 10"

definition score :: "real \<Rightarrow> real \<Rightarrow> real" where
  "score relevance temperature =
     (let weight = cold_floor + temp_weight * max 0 (min 1 temperature)
      in if relevance = 0 \<or> weight = 0 then 0 else relevance * weight)"

subsection \<open>The tracker\<close>

record tracker =
  tk_bootstrap :: temp_policy
  tk_dir :: bytes
  tk_hash :: bytes
  tk_cfg :: temp_policy
  tk_enabled :: bool
  tk_notified :: "node_id \<Rightarrow> int option"

definition new_tracker :: "bytes \<Rightarrow> temp_policy \<Rightarrow> tracker result" where
  "new_tracker dir bootstrap =
     (case policy_validate bootstrap of
        Some e \<Rightarrow> Inl e
      | None \<Rightarrow> Inr \<lparr>tk_bootstrap = bootstrap, tk_dir = dir, tk_hash = [], tk_cfg = bootstrap,
          tk_enabled = tp_enabled bootstrap, tk_notified = (\<lambda>_. None)\<rparr>)"

text \<open>Answers whether the tick interval changed.\<close>

definition reload_config :: "hash64 \<Rightarrow> (bytes \<Rightarrow> decoded) \<Rightarrow> file_read \<Rightarrow> tracker \<Rightarrow> bool \<times> tracker" where
  "reload_config xxh decode f t =
     (if tk_dir t = [] then (False, t)
      else case f of
        Unreadable \<Rightarrow> (False, t)
      | _ \<Rightarrow>
          let text = (case f of Contents s \<Rightarrow> s | _ \<Rightarrow> []); h = content_hash xxh text
          in if h = tk_hash t then (False, t)
             else case parse_config decode text of
               Inl _ \<Rightarrow> (False, t)
             | Inr cfg \<Rightarrow>
                 let next_cfg = with_overrides (tk_bootstrap t) (cf_temperature cfg)
                 in case policy_validate next_cfg of
                      Some _ \<Rightarrow> (False, t)
                    | None \<Rightarrow> (tp_tick next_cfg \<noteq> tp_tick (tk_cfg t),
                        t\<lparr>tk_hash := h, tk_cfg := next_cfg, tk_enabled := tp_enabled next_cfg\<rparr>))"

text \<open>The interface \<open>NodeStore\<close>, as the record of its methods over a store of type \<open>'s\<close>.\<close>

record 's node_store =
  ns_boost :: "int \<Rightarrow> node_id list \<Rightarrow> real \<Rightarrow> 's \<Rightarrow> 's"
  ns_decay :: "real \<Rightarrow> 's \<Rightarrow> int \<times> 's"
  ns_cold :: "'s \<Rightarrow> real \<Rightarrow> int \<Rightarrow> node list"

definition record_access :: "'s node_store \<Rightarrow> int \<Rightarrow> tracker \<Rightarrow> node_id list \<Rightarrow> 's \<Rightarrow> 's" where
  "record_access ops now t is st =
     (if is = [] then st else ns_boost ops now is (tp_access_boost (tk_cfg t)) st)"

definition evict :: "int \<Rightarrow> int \<Rightarrow> (node_id \<Rightarrow> int option) \<Rightarrow> node_id \<Rightarrow> int option" where
  "evict now ttl seen i = (case seen i of None \<Rightarrow> None | Some ts \<Rightarrow> if now - ts > ttl then None else Some ts)"

definition dedup_cold :: "int \<Rightarrow> node list \<Rightarrow> tracker \<Rightarrow> node list \<times> tracker" where
  "dedup_cold now cold t =
     (let seen = evict now (tp_ttl (tk_cfg t)) (tk_notified t)
      in (filter (\<lambda>n. seen (n_id n) = None) cold, t\<lparr>tk_notified := seen\<rparr>))"

definition mark_notified :: "int \<Rightarrow> node_id list \<Rightarrow> tracker \<Rightarrow> tracker" where
  "mark_notified now is t = (if is = [] then t
     else t\<lparr>tk_notified := (\<lambda>i. if i \<in> set is then Some now else tk_notified t i)\<rparr>)"

record tick_result =
  tr_decayed :: int
  tr_cold :: "node list"

definition tick :: "'s node_store \<Rightarrow> int \<Rightarrow> int \<Rightarrow> tracker \<Rightarrow> 's \<Rightarrow> tick_result \<times> tracker \<times> 's" where
  "tick ops elapsed now t st =
     (let cfg = tk_cfg t;
          (decayed, st') = ns_decay ops (decay_factor (tp_decay_rate cfg) (hours elapsed)) st;
          (out, t') = dedup_cold now (ns_cold ops st' (tp_cold cfg) (tp_limit cfg)) t
      in (\<lparr>tr_decayed = decayed, tr_cold = out\<rparr>, t', st'))"

text \<open>\<open>Server.NotifyColdNodes\<close>: the identifiers that reached at least one session.\<close>

definition notify_cold_nodes :: "real \<Rightarrow> nat \<Rightarrow> node list \<Rightarrow> node_id list" where
  "notify_cold_nodes threshold sessions cold =
     (let ns = filter (\<lambda>n. n_temp n < threshold) cold
      in if ns = [] \<or> sessions = 0 then [] else map n_id ns)"

definition tick_interval :: "tracker \<Rightarrow> int" where
  "tick_interval t = (if tp_tick (tk_cfg t) \<le> 0 then tp_tick (tk_bootstrap t) else tp_tick (tk_cfg t))"

text \<open>
  One turn of the ticker loop: reload, then, when enabled, tick and hand the cold nodes to the
  server, whose answer is stamped as notified. \<open>now\<close> is the instant of the tick and \<open>later\<close> the one
  at which the notification is stamped. The result lists the stamped identifiers.
\<close>

definition run_turn :: "hash64 \<Rightarrow> (bytes \<Rightarrow> decoded) \<Rightarrow> 's node_store \<Rightarrow> real \<Rightarrow> file_read \<Rightarrow> nat \<Rightarrow> int \<Rightarrow> int
    \<Rightarrow> tracker \<times> 's \<Rightarrow> (tracker \<times> 's) \<times> node_id list" where
  "run_turn xxh decode ops threshold f sessions now later ts =
     (let t = snd (reload_config xxh decode f (fst ts))
      in if \<not> tk_enabled t then ((t, snd ts), [])
         else let (res, t', st') = tick ops (tp_tick (tk_cfg t)) now t (snd ts)
           in if tr_cold res = [] then ((t', st'), [])
              else let is = notify_cold_nodes threshold sessions (tr_cold res)
                in ((mark_notified later is t', st'), is))"

text \<open>\<open>*store.Store\<close> as the tracker's \<open>NodeStore\<close>.\<close>

definition db_node_store :: "db node_store" where
  "db_node_store = \<lparr>ns_boost = boost_temperature_batch, ns_decay = decay_temperatures, ns_cold = get_cold_nodes\<rparr>"

subsection \<open>The interface's laws\<close>

locale warm_store =
  fixes ops :: "'s node_store" and ok :: "'s \<Rightarrow> bool"
  assumes boost_ok: "ok st \<Longrightarrow> 0 \<le> b \<Longrightarrow> ok (ns_boost ops now is b st)"
    and decay_ok: "ok st \<Longrightarrow> 0 \<le> factor \<Longrightarrow> factor \<le> 1 \<Longrightarrow> ok (snd (ns_decay ops factor st))"
    and cold_distinct: "ok st \<Longrightarrow> distinct (map n_id (ns_cold ops st threshold limit))"

subsection \<open>The tracker over time\<close>

text \<open>
  The states of a running server: the tracker, the store, the clock, and, for the statement of the
  properties, the log of all notifications with their instants. A turn of the loop, an access by a
  tool, and any other change of the store that keeps it well-formed are the steps.
\<close>

record 's heat =
  h_tracker :: tracker
  h_store :: 's
  h_clock :: int
  h_log :: "(node_id \<times> int) list"

inductive heat_step :: "hash64 \<Rightarrow> (bytes \<Rightarrow> decoded) \<Rightarrow> 's node_store \<Rightarrow> ('s \<Rightarrow> bool) \<Rightarrow> real \<Rightarrow> 's heat \<Rightarrow> 's heat \<Rightarrow> bool"
  for xxh decode ops ok threshold where
  turn: "\<lbrakk>h_clock s \<le> now; now \<le> later;
      run_turn xxh decode ops threshold f sessions now later (h_tracker s, h_store s) = ((t, st), is)\<rbrakk>
    \<Longrightarrow> heat_step xxh decode ops ok threshold s
      \<lparr>h_tracker = t, h_store = st, h_clock = later, h_log = h_log s @ map (\<lambda>i. (i, later)) is\<rparr>"
| access: "h_clock s \<le> now
    \<Longrightarrow> heat_step xxh decode ops ok threshold s
      (s\<lparr>h_store := record_access ops now (h_tracker s) is (h_store s), h_clock := now\<rparr>)"
| other: "ok st \<Longrightarrow> heat_step xxh decode ops ok threshold s (s\<lparr>h_store := st\<rparr>)"

inductive heat_reachable :: "hash64 \<Rightarrow> (bytes \<Rightarrow> decoded) \<Rightarrow> 's node_store \<Rightarrow> ('s \<Rightarrow> bool) \<Rightarrow> real
    \<Rightarrow> temp_policy \<Rightarrow> 's heat \<Rightarrow> bool" for xxh decode ops ok threshold bootstrap where
  start: "\<lbrakk>new_tracker dir bootstrap = Inr t; ok st\<rbrakk>
    \<Longrightarrow> heat_reachable xxh decode ops ok threshold bootstrap
      \<lparr>h_tracker = t, h_store = st, h_clock = now, h_log = []\<rparr>"
| step: "\<lbrakk>heat_reachable xxh decode ops ok threshold bootstrap s; heat_step xxh decode ops ok threshold s s'\<rbrakk>
    \<Longrightarrow> heat_reachable xxh decode ops ok threshold bootstrap s'"

text \<open>Every policy that can come into force, now or by a reload, keeps notifications at least \<open>gap\<close> apart.\<close>

definition gap_kept :: "(bytes \<Rightarrow> decoded) \<Rightarrow> int \<Rightarrow> temp_policy \<Rightarrow> bool" where
  "gap_kept decode gap bootstrap \<longleftrightarrow> gap \<le> tp_ttl bootstrap
     \<and> (\<forall>text c. parse_config decode text = Inr c \<longrightarrow> gap \<le> tp_ttl (with_overrides bootstrap (cf_temperature c)))"

definition policy_ok :: "(bytes \<Rightarrow> decoded) \<Rightarrow> int \<Rightarrow> tracker \<Rightarrow> bool" where
  "policy_ok decode gap t \<longleftrightarrow> policy_validate (tk_cfg t) = None \<and> tk_enabled t = tp_enabled (tk_cfg t)
     \<and> gap \<le> tp_ttl (tk_cfg t) \<and> gap_kept decode gap (tk_bootstrap t)"

text \<open>What the tracker remembers covers every notification that is not older than the gap.\<close>

definition remembers :: "int \<Rightarrow> int \<Rightarrow> (node_id \<times> int) list \<Rightarrow> (node_id \<Rightarrow> int option) \<Rightarrow> bool" where
  "remembers gap clock lg seen \<longleftrightarrow> list_all (\<lambda>(i, w). w \<le> clock
     \<and> (case seen i of None \<Rightarrow> gap < clock - w | Some ts \<Rightarrow> w \<le> ts)) lg"

definition spaced :: "int \<Rightarrow> (node_id \<times> int) list \<Rightarrow> bool" where
  "spaced gap lg = sorted_wrt (\<lambda>x y. fst x = fst y \<longrightarrow> gap < snd y - snd x) lg"


lemma policy_facts:
  assumes "policy_validate c = None"
  shows "0 \<le> tp_decay_rate c" "0 \<le> tp_access_boost c" "tp_enabled c \<Longrightarrow> 0 < tp_tick c" "0 \<le> tp_ttl c"
  using assms by (auto simp: policy_validate_def first_failing_None in_unit_def not_le)

lemma decay_factor_range: "0 \<le> r \<Longrightarrow> 0 \<le> h \<Longrightarrow> 0 \<le> decay_factor r h \<and> decay_factor r h \<le> 1"
  by (simp add: decay_factor_def)

lemma hours_nonneg: "0 < d \<Longrightarrow> 0 \<le> hours d"
  by (simp add: hours_def minutes_def)

lemma new_tracker_policy: "new_tracker dir b = Inr t \<Longrightarrow> gap_kept decode gap b \<Longrightarrow> policy_ok decode gap t"
  by (auto simp: new_tracker_def policy_ok_def gap_kept_def split: option.splits)

lemma reload_policy: "policy_ok decode gap t \<Longrightarrow> policy_ok decode gap (snd (reload_config xxh decode f t))"
  by (auto simp: reload_config_def policy_ok_def gap_kept_def Let_def split: file_read.splits sum.splits option.splits)

lemma reload_frame [frame_simps]: "tk_notified (snd (reload_config xxh decode f t)) = tk_notified t"
  by (auto simp: reload_config_def Let_def split: file_read.splits sum.splits option.splits)

lemma set_notify: "set (notify_cold_nodes threshold sessions cold) =
    (if sessions = 0 then {} else n_id ` {n \<in> set cold. n_temp n < threshold})"
  by (auto simp: notify_cold_nodes_def Let_def filter_empty_conv)

lemma distinct_notify: "distinct (map n_id cold) \<Longrightarrow> distinct (notify_cold_nodes threshold sessions cold)"
  by (simp add: notify_cold_nodes_def Let_def distinct_map_filter)

text \<open>A turn that runs, in terms of the interface.\<close>

definition turn_store :: "'s node_store \<Rightarrow> tracker \<Rightarrow> 's \<Rightarrow> 's" where
  "turn_store ops t st = snd (ns_decay ops (decay_factor (tp_decay_rate (tk_cfg t)) (hours (tp_tick (tk_cfg t)))) st)"

definition turn_cold :: "'s node_store \<Rightarrow> int \<Rightarrow> tracker \<Rightarrow> 's \<Rightarrow> node list" where
  "turn_cold ops now t st = filter (\<lambda>n. evict now (tp_ttl (tk_cfg t)) (tk_notified t) (n_id n) = None)
     (ns_cold ops (turn_store ops t st) (tp_cold (tk_cfg t)) (tp_limit (tk_cfg t)))"

lemma run_turn_enabled:
  assumes "t = snd (reload_config xxh decode f t0)" "tk_enabled t"
  shows "run_turn xxh decode ops threshold f sessions now later (t0, st) =
    (let is = notify_cold_nodes threshold sessions (turn_cold ops now t st)
     in ((mark_notified later is (t\<lparr>tk_notified := evict now (tp_ttl (tk_cfg t)) (tk_notified t)\<rparr>),
          turn_store ops t st), is))"
proof -
  let ?t' = "t\<lparr>tk_notified := evict now (tp_ttl (tk_cfg t)) (tk_notified t)\<rparr>"
  have "tick ops (tp_tick (tk_cfg t)) now t st =
      (\<lparr>tr_decayed = fst (ns_decay ops (decay_factor (tp_decay_rate (tk_cfg t)) (hours (tp_tick (tk_cfg t)))) st),
         tr_cold = turn_cold ops now t st\<rparr>, ?t', turn_store ops t st)"
    by (simp add: tick_def dedup_cold_def turn_cold_def turn_store_def Let_def split: prod.split)
  moreover have "notify_cold_nodes threshold sessions [] = []" "mark_notified later [] ?t' = ?t'"
    by (simp_all add: notify_cold_nodes_def mark_notified_def)
  ultimately show ?thesis
    using assms by (auto simp: run_turn_def Let_def)
qed

lemma run_turn_disabled:
  assumes "t = snd (reload_config xxh decode f t0)" "\<not> tk_enabled t"
  shows "run_turn xxh decode ops threshold f sessions now later (t0, st) = ((t, st), [])"
  using assms by (simp add: run_turn_def)

lemma remembers_iff: "remembers gap clock lg seen \<longleftrightarrow> (\<forall>(i, w)\<in>set lg. w \<le> clock
    \<and> (seen i = None \<longrightarrow> gap < clock - w) \<and> (\<forall>ts. seen i = Some ts \<longrightarrow> w \<le> ts))"
  unfolding remembers_def list_all_iff by (intro ball_cong refl) (auto split: option.splits)

lemma remembers_later:
  "remembers gap clock lg seen \<Longrightarrow> clock \<le> now \<Longrightarrow> remembers gap now lg seen"
  unfolding remembers_iff by fastforce

lemma remembers_evict:
  assumes "remembers gap clock lg seen" "clock \<le> now" "gap \<le> ttl"
  shows "remembers gap now lg (evict now ttl seen)"
  unfolding remembers_iff
proof clarify
  fix i w assume "(i, w) \<in> set lg"
  with assms(1) have "w \<le> clock" "seen i = None \<Longrightarrow> gap < clock - w" "\<And>ts. seen i = Some ts \<Longrightarrow> w \<le> ts"
    unfolding remembers_iff by fastforce+
  note facts = this assms(2,3)
  show "w \<le> now \<and> (evict now ttl seen i = None \<longrightarrow> gap < now - w)
      \<and> (\<forall>ts. evict now ttl seen i = Some ts \<longrightarrow> w \<le> ts)"
  proof (cases "seen i")
    case None
    with facts show ?thesis by (simp add: evict_def)
  next
    case (Some a)
    then have "w \<le> a" by (rule facts(3))
    with Some facts show ?thesis by (auto simp: evict_def)
  qed
qed

lemma remembers_mark:
  assumes "remembers gap now lg seen" "now \<le> later"
  shows "remembers gap later (lg @ map (\<lambda>i. (i, later)) is) (\<lambda>i. if i \<in> set is then Some later else seen i)"
  using assms unfolding remembers_iff by (auto split: if_splits)

lemma spaced_mark:
  assumes "spaced gap lg" "remembers gap now lg seen" "now \<le> later" "distinct is" "\<And>i. i \<in> set is \<Longrightarrow> seen i = None"
  shows "spaced gap (lg @ map (\<lambda>i. (i, later)) is)"
proof -
  have "sorted_wrt (\<lambda>x y. fst x = fst y \<longrightarrow> gap < snd y - snd x) (map (\<lambda>i. (i, later)) is)"
    using assms(4) by (induction "is") auto
  moreover have "gap < later - w" if "(i, w) \<in> set lg" "i \<in> set is" for i w
    using assms(2,3) assms(5) [OF that(2)] that(1) by (fastforce simp: remembers_def list_all_iff)
  ultimately show ?thesis using assms(1) by (auto simp: spaced_def sorted_wrt_append)
qed

text \<open>What every reachable state satisfies.\<close>

definition safe :: "('s \<Rightarrow> bool) \<Rightarrow> (bytes \<Rightarrow> decoded) \<Rightarrow> int \<Rightarrow> 's heat \<Rightarrow> bool" where
  "safe ok decode gap s \<longleftrightarrow> policy_ok decode gap (h_tracker s) \<and> ok (h_store s)
     \<and> remembers gap (h_clock s) (h_log s) (tk_notified (h_tracker s)) \<and> spaced gap (h_log s)"

context warm_store
begin

lemma turn_store_ok: "policy_ok decode gap t \<Longrightarrow> tk_enabled t \<Longrightarrow> ok st \<Longrightarrow> ok (turn_store ops t st)"
  unfolding turn_store_def
  by (intro decay_ok) (use policy_facts [of "tk_cfg t"] decay_factor_range hours_nonneg in \<open>auto simp: policy_ok_def\<close>)

lemma safe_turn:
  assumes "safe ok decode gap s" "h_clock s \<le> now" "now \<le> later"
    and "run_turn xxh decode ops threshold f sessions now later (h_tracker s, h_store s) = ((t, st), is)"
  shows "safe ok decode gap \<lparr>h_tracker = t, h_store = st, h_clock = later, h_log = h_log s @ map (\<lambda>i. (i, later)) is\<rparr>"
proof -
  let ?t = "snd (reload_config xxh decode f (h_tracker s))"
  have pol: "policy_ok decode gap ?t" using assms(1) by (simp add: safe_def reload_policy)
  have mem: "remembers gap (h_clock s) (h_log s) (tk_notified ?t)" and sp: "spaced gap (h_log s)" "ok (h_store s)"
    using assms(1) by (simp_all add: safe_def frame_simps)
  show ?thesis
  proof (cases "tk_enabled ?t")
    case False
    have "t = ?t" "st = h_store s" "is = []"
      using run_turn_disabled [OF refl False, of ops threshold sessions now later "h_store s"] assms(4) by simp_all
    with pol sp remembers_later [OF mem, of later] assms(2,3) show ?thesis by (simp add: safe_def)
  next
    case True
    let ?seen = "evict now (tp_ttl (tk_cfg ?t)) (tk_notified ?t)"
    let ?cold = "turn_cold ops now ?t (h_store s)"
    have run: "is = notify_cold_nodes threshold sessions ?cold" "st = turn_store ops ?t (h_store s)"
      "t = mark_notified later is (?t\<lparr>tk_notified := ?seen\<rparr>)"
      using run_turn_enabled [OF refl True, of ops threshold sessions now later "h_store s"] assms(4)
      by (simp_all add: Let_def)
    have seen: "remembers gap now (h_log s) ?seen"
      using remembers_evict [OF mem assms(2)] pol by (simp add: policy_ok_def)
    have fresh: "?seen i = None" if "i \<in> set is" for i
      using that by (auto simp: run(1) set_notify turn_cold_def split: if_splits)
    have ok: "ok (turn_store ops ?t (h_store s))" by (rule turn_store_ok [OF pol True sp(2)])
    have "distinct is" unfolding run(1) turn_cold_def
      by (intro distinct_notify distinct_map_filter cold_distinct ok)
    then have "spaced gap (h_log s @ map (\<lambda>i. (i, later)) is)"
      by (rule spaced_mark [OF sp(1) seen assms(3) _ fresh])
    moreover have "remembers gap later (h_log s @ map (\<lambda>i. (i, later)) is) (tk_notified t)"
    proof -
      have "tk_notified t = (\<lambda>i. if i \<in> set is then Some later else ?seen i)"
        by (simp add: run(3) mark_notified_def fun_eq_iff)
      then show ?thesis using remembers_mark [OF seen assms(3), of "is"] by simp
    qed
    moreover have "policy_ok decode gap t" using pol by (simp add: run(3) mark_notified_def policy_ok_def)
    ultimately show ?thesis using ok by (simp add: safe_def run(2))
  qed
qed

lemma safe_step:
  assumes "safe ok decode gap s" "heat_step xxh decode ops ok threshold s s'"
  shows "safe ok decode gap s'"
  using assms(2)
proof (cases rule: heat_step.cases)
  case turn
  then show ?thesis using safe_turn [OF assms(1)] by simp
next
  case (access now "is")
  have "0 \<le> tp_access_boost (tk_cfg (h_tracker s))"
    using assms(1) by (auto simp: safe_def policy_ok_def intro: policy_facts)
  then show ?thesis
    using assms(1) access boost_ok remembers_later by (auto simp: safe_def record_access_def)
next
  case other
  with assms(1) show ?thesis by (simp add: safe_def)
qed

lemma safe_reachable:
  assumes "heat_reachable xxh decode ops ok threshold bootstrap s" "gap_kept decode gap bootstrap"
  shows "safe ok decode gap s"
  using assms(1)
proof (induction rule: heat_reachable.induct)
  case (start dir t st now)
  then show ?case using new_tracker_policy [OF start(1) assms(2)] by (simp add: safe_def remembers_def spaced_def)
next
  case (step s s')
  show ?case by (rule safe_step [OF step.IH step.hyps(2)])
qed

end

subsection \<open>The database as the tracker's store\<close>

definition warm_db :: "db \<Rightarrow> bool" where
  "warm_db db \<longleftrightarrow> temps_ok db \<and> distinct (node_ids db)"

lemma node_ids_update_rows: "(\<And>n. n_id (f n) = n_id n) \<Longrightarrow> node_ids (update_rows P f db) = node_ids db"
  by (simp add: node_ids_def update_rows_def)

lemma distinct_cold: "distinct (node_ids db) \<Longrightarrow> distinct (map n_id (get_cold_nodes db threshold limit))"
proof -
  assume d: "distinct (node_ids db)"
  let ?ns = "sort_key n_temp (filter (\<lambda>n. n_temp n < threshold \<and> \<not> n_pinned n) (db_nodes db))"
  have "mset (map n_id ?ns) = mset (map n_id (filter (\<lambda>n. n_temp n < threshold \<and> \<not> n_pinned n) (db_nodes db)))"
    by simp
  from mset_eq_imp_distinct_iff [OF this] have "distinct (map n_id ?ns)"
    using d by (simp add: node_ids_def distinct_map_filter)
  then show ?thesis by (simp add: get_cold_nodes_def sql_limit_def distinct_map inj_on_subset [OF _ set_take_subset])
qed

interpretation db_warm: warm_store db_node_store warm_db
proof
  fix db :: db and b factor threshold :: real and now limit :: int and "is" :: "node_id list"
  assume "warm_db db"
  then have ok: "temps_ok db" "distinct (node_ids db)" by (simp_all add: warm_db_def)
  show "warm_db (ns_boost db_node_store now is b db)" if "0 \<le> b"
    using ok that by (simp add: warm_db_def db_node_store_def boost_temperature_batch_def temps_ok_update_rows
        node_ids_update_rows boost_row_def)
  show "warm_db (snd (ns_decay db_node_store factor db))" if "0 \<le> factor" "factor \<le> 1"
    using ok by (simp add: warm_db_def db_node_store_def decay_temperatures_def temps_ok_update_rows
        node_ids_update_rows)
  show "distinct (map n_id (ns_cold db_node_store db threshold limit))"
    using ok by (simp add: db_node_store_def distinct_cold)
qed

text \<open>C20::
  The temperature lifecycle is safe in every run of the server, whatever the configuration file holds
  at each reload and however tools and turns interleave: the policy in force is always valid (an
  invalid edit keeps the last good one), every temperature stays in [0, 1], and two notifications of
  one node are more than the shortest configured \<open>cold_notify_ttl\<close> apart.
\<close>

theorem tracker_invariant:
  assumes "heat_reachable xxh decode db_node_store warm_db threshold bootstrap s" "gap_kept decode gap bootstrap"
  shows "policy_validate (tk_cfg (h_tracker s)) = None \<and> tk_enabled (h_tracker s) = tp_enabled (tk_cfg (h_tracker s))
    \<and> temps_ok (h_store s) \<and> spaced gap (h_log s)"
  using db_warm.safe_reachable [OF assms] by (simp add: safe_def policy_ok_def warm_db_def)

lemma set_cold: "int (length (filter (\<lambda>n. n_temp n < threshold \<and> \<not> n_pinned n) (db_nodes db))) \<le> limit
    \<Longrightarrow> set (get_cold_nodes db threshold limit) = {n \<in> set (db_nodes db). n_temp n < threshold \<and> \<not> n_pinned n}"
  by (auto simp: get_cold_nodes_def sql_limit_def)

text \<open>C21::
  No cold node is forgotten: when the tracker is enabled, at least one session listens and the cold
  nodes fit the notification limit, a turn notifies exactly the unpinned nodes that are below both
  thresholds after the decay and were not notified within the last \<open>cold_notify_ttl\<close>.
\<close>

theorem turn_notifies_due:
  assumes "t = snd (reload_config xxh decode f t0)" "tk_enabled t" "0 < sessions"
    and "db' = snd (decay_temperatures (decay_factor (tp_decay_rate (tk_cfg t)) (hours (tp_tick (tk_cfg t)))) db)"
    and "count (\<lambda>n. n_temp n < tp_cold (tk_cfg t) \<and> \<not> n_pinned n) (db_nodes db') \<le> tp_limit (tk_cfg t)"
  shows "set (snd (run_turn xxh decode db_node_store threshold f sessions now later (t0, db))) =
    n_id ` {n \<in> set (db_nodes db'). \<not> n_pinned n \<and> n_temp n < min threshold (tp_cold (tk_cfg t))
      \<and> (case tk_notified t (n_id n) of None \<Rightarrow> True | Some ts \<Rightarrow> tp_ttl (tk_cfg t) < now - ts)}"
proof -
  have "turn_store db_node_store t db = db'"
    by (simp add: turn_store_def db_node_store_def assms(4))
  moreover have "evict now ttl seen i = None \<longleftrightarrow> (case seen i of None \<Rightarrow> True | Some ts \<Rightarrow> ttl < now - ts)" for ttl seen i
    by (simp add: evict_def split: option.split)
  ultimately show ?thesis
    using run_turn_enabled [OF assms(1,2), of db_node_store threshold sessions now later db] assms(3,5)
    by (auto simp: Let_def set_notify turn_cold_def set_cold count_def db_node_store_def)
qed

subsection \<open>Both on a concrete server\<close>

definition sample_tracker :: tracker where
  "sample_tracker = \<lparr>tk_bootstrap = default_policy, tk_dir = [], tk_hash = [], tk_cfg = default_policy,
     tk_enabled = True, tk_notified = (\<lambda>_. None)\<rparr>"

lemma sample_tracker_new: "new_tracker [] default_policy = Inr sample_tracker" "gap_kept (\<lambda>_. EndOfInput) (minutes 60) default_policy"
  by (simp_all add: new_tracker_def sample_tracker_def policy_validate_def first_failing_def default_policy_def
      in_unit_def minutes_def gap_kept_def parse_config_def zero_config_def zero_temperature_def
      with_overrides_def override_def)

lemma sample_reload: "snd (reload_config xxh decode f sample_tracker) = sample_tracker"
  by (simp add: reload_config_def sample_tracker_def)

lemma sample_warm: "warm_db sample_history"
  using sample_temps_ok sample_history_ok(1) by (simp add: warm_db_def db_ok_def keys_ok_def)

lemma sample_decay: "snd (decay_temperatures factor sample_history) = sample_history"
  by (simp add: decay_temperatures_def update_rows_def decays_def sample_history_def empty_db_def blank_node_def)

lemma sample_cold: "get_cold_nodes sample_history (1 / 10) 50 = [blank_node ''a'' [] ''2'']"
  by (simp add: get_cold_nodes_def sql_limit_def sample_history_def empty_db_def) (simp add: blank_node_def)

lemma sample_turn: "snd (run_turn xxh decode db_node_store (1 / 10) Absent 1 5 6 (sample_tracker, sample_history)) = [''a'']"
proof -
  have "turn_store db_node_store sample_tracker sample_history = sample_history"
    using sample_decay by (simp add: turn_store_def db_node_store_def)
  then have "turn_cold db_node_store 5 sample_tracker sample_history = [blank_node ''a'' [] ''2'']"
    using sample_cold
    by (simp add: turn_cold_def db_node_store_def evict_def sample_tracker_def default_policy_def)
  then show ?thesis
    using run_turn_enabled [OF sample_reload [symmetric, where xxh = xxh and decode = decode and f = Absent],
        of db_node_store "1 / 10" 1 5 6 sample_history]
    by (simp add: Let_def notify_cold_nodes_def sample_tracker_def blank_node_def)
qed

theorem tracker_invariant_witness:
  "\<exists>s. heat_reachable (\<lambda>_. 0) (\<lambda>_. EndOfInput) db_node_store warm_db (1 / 10) default_policy s
     \<and> h_log s = [(''a'', 6)] \<and> temps_ok (h_store s) \<and> spaced (minutes 60) (h_log s)"
proof -
  let ?r = "heat_reachable (\<lambda>_. 0) (\<lambda>_. EndOfInput) db_node_store warm_db (1 / 10) default_policy"
  let ?init = "\<lparr>h_tracker = sample_tracker, h_store = sample_history, h_clock = 0, h_log = []\<rparr>"
  have "?r ?init"
    using heat_reachable.start [where ok = warm_db and st = sample_history, OF sample_tracker_new(1) sample_warm] .
  obtain t st where run: "run_turn (\<lambda>_. 0) (\<lambda>_. EndOfInput) db_node_store (1 / 10) Absent 1 5 6
      (sample_tracker, sample_history) = ((t, st), [''a''])"
    using sample_turn by (metis prod.collapse)
  let ?s = "\<lparr>h_tracker = t, h_store = st, h_clock = 6, h_log = h_log ?init @ map (\<lambda>i. (i, 6)) [''a'']\<rparr>"
  have "heat_step (\<lambda>_. 0) (\<lambda>_. EndOfInput) db_node_store warm_db (1 / 10) ?init ?s"
    by (rule heat_step.turn [where now = 5 and sessions = 1 and f = Absent]) (use run in simp_all)
  with \<open>?r ?init\<close> have r: "?r ?s" by (rule heat_reachable.step)
  from tracker_invariant [OF this sample_tracker_new(2)] r show ?thesis by (intro exI [of _ ?s]) simp
qed

theorem turn_notifies_due_witness:
  "set (snd (run_turn (\<lambda>_. 0) (\<lambda>_. EndOfInput) db_node_store (1 / 20) Absent 2 5 6 (sample_tracker, sample_history)))
     = {''a''}"
proof -
  have "tp_cold (tk_cfg sample_tracker) = 1 / 10" "tp_limit (tk_cfg sample_tracker) = 50"
    by (simp_all add: sample_tracker_def default_policy_def)
  then show ?thesis
    using turn_notifies_due [OF sample_reload [symmetric, where xxh = "\<lambda>_. 0" and decode = "\<lambda>_. EndOfInput"
        and f = Absent], of 2 sample_history sample_history "1 / 20" 5 6] sample_decay
    by (simp add: sample_tracker_def count_def sample_history_def empty_db_def)
      (simp add: blank_node_def image_def)
qed

end
