(* ===== verification/Store_Relations.thy ===== *)
theory Store_Relations
  imports Store_Nodes
begin

text \<open>
  Relations between nodes and pending relations (\<open>pkg/store/relations.go\<close>): writes, the heading
  lookups that resolve a label, and the bounded walk of \<open>GetRelatedNodes\<close>.
\<close>

definition origin_parsed :: bytes where "origin_parsed = ''parsed''"
definition origin_manual :: bytes where "origin_manual = ''manual''"

definition relation_key :: "relation \<Rightarrow> node_id \<times> node_id \<times> bytes" where
  "relation_key r = (l_source r, l_target r, l_origin r)"

definition put_relation :: "relation \<Rightarrow> db \<Rightarrow> db" where
  "put_relation r db =
     (if relation_key r \<in> set (map relation_key (db_relations db))
      then db\<lparr>db_relations := map (\<lambda>o'. if relation_key o' = relation_key r
             then o'\<lparr>l_weight := l_weight r\<rparr> else o') (db_relations db)\<rparr>
      else db\<lparr>db_relations := db_relations db @
             [r\<lparr>l_id := db_next_relation db, l_created := db_now db\<rparr>],
           db_next_relation := db_next_relation db + 1\<rparr>)"

definition upsert_relation :: "relation \<Rightarrow> db \<Rightarrow> db result" where
  "upsert_relation r db =
     (if db_defer db \<or> {l_source r, l_target r} \<subseteq> set (node_ids db) then Inr (put_relation r db)
      else Inl ForeignKey)"

definition put_pending :: "pending_relation \<Rightarrow> db \<Rightarrow> db" where
  "put_pending p db = db\<lparr>
     db_pending := db_pending db @ [p\<lparr>p_id := db_next_pending db, p_created := db_now db\<rparr>],
     db_next_pending := db_next_pending db + 1\<rparr>"

definition insert_pending :: "pending_relation \<Rightarrow> db \<Rightarrow> db result" where
  "insert_pending p db =
     (if db_defer db \<or> p_source p \<in> set (node_ids db) then Inr (put_pending p db) else Inl ForeignKey)"

definition delete_pending_by_id :: "int \<Rightarrow> db \<Rightarrow> db" where
  "delete_pending_by_id i db = db\<lparr>db_pending := filter (\<lambda>p. p_id p \<noteq> i) (db_pending db)\<rparr>"

definition delete_parsed_pending :: "node_id \<Rightarrow> db \<Rightarrow> db" where
  "delete_parsed_pending src db = db\<lparr>db_pending :=
     filter (\<lambda>p. \<not> (p_source p = src \<and> p_origin p = origin_parsed)) (db_pending db)\<rparr>"

definition all_relations :: "db \<Rightarrow> relation list" where
  "all_relations db = sort_key l_id (db_relations db)"

definition all_pending :: "db \<Rightarrow> pending_relation list" where
  "all_pending db = sort_key p_id (db_pending db)"

definition pending_by_source :: "db \<Rightarrow> node_id \<Rightarrow> pending_relation list" where
  "pending_by_source db src = filter (\<lambda>p. p_source p = src) (db_pending db)"

subsection \<open>Finding headings\<close>

text \<open>
  SQLite's \<open>LOWER\<close> folds ASCII letters only and \<open>TRIM\<close> strips spaces only. \<open>LIKE\<close> compares
  ASCII letters without case.
\<close>

definition sql_trim :: "bytes \<Rightarrow> bytes" where
  "sql_trim s = trim_set {CHR '' ''} s"

definition label_key :: "bytes \<Rightarrow> bytes" where
  "label_key s = ascii_lower (sql_trim s)"

definition like_escape :: "bytes \<Rightarrow> bytes" where
  "like_escape s = concat (map (\<lambda>c. if c \<in> {CHR 0x5C, CHR ''%'', CHR ''_''} then [CHR 0x5C, c] else [c]) s)"

fun like :: "bytes \<Rightarrow> bytes \<Rightarrow> bool" where
  "like [] s = (s = [])"
| "like (c # p) [] = (c = CHR ''%'' \<and> like p [])"
| "like (c # p) (x # s) =
     (if c = CHR ''%'' then like p (x # s) \<or> like (c # p) s
      else if c = CHR ''_'' then like p (drop (rune_width (x # s)) (x # s))
      else if c = CHR 0x5C \<and> p \<noteq> [] then to_lower_char (hd p) = to_lower_char x \<and> like (tl p) s
      else to_lower_char c = to_lower_char x \<and> like p s)"

definition headings_labelled :: "db \<Rightarrow> bytes \<Rightarrow> node list" where
  "headings_labelled db label =
     filter (\<lambda>n. n_type n = ''heading'' \<and> label_key (n_label n) = label_key label) (db_nodes db)"

definition first_id :: "node list \<Rightarrow> node_id" where
  "first_id ns = (case ns of [] \<Rightarrow> [] | n # _ \<Rightarrow> n_id n)"

definition find_heading :: "db \<Rightarrow> bytes \<Rightarrow> node_id" where
  "find_heading db label = first_id
     (sort_key n_source (sort_key n_depth (sort_key n_id (headings_labelled db label))))"

definition in_file :: "bytes \<Rightarrow> node \<Rightarrow> bool" where
  "in_file file n = (n_source n = file \<or> like (''%/'' @ like_escape file) (n_source n))"

definition find_heading_in_file :: "db \<Rightarrow> bytes \<Rightarrow> bytes \<Rightarrow> node_id" where
  "find_heading_in_file db file label = first_id
     (sort_key n_depth (sort_key n_id (filter (in_file file) (headings_labelled db label))))"

subsection \<open>Related nodes\<close>

datatype direction = DirOut | DirIn | DirBoth

definition parse_direction :: "bytes \<Rightarrow> direction" where
  "parse_direction d = (if d = ''in'' then DirIn else if d = ''out'' then DirOut else DirBoth)"

record related_options =
  ro_direction :: bytes
  ro_max_depth :: int
  ro_weight_min :: real
  ro_limit :: int

record related_node =
  rn_node :: node
  rn_weight :: real
  rn_hop :: int

type_synonym walk_row = "node_id \<times> int \<times> real"

text \<open>An edge as a walk in one direction sees it: where it leaves, where it arrives, its weight.\<close>

type_synonym arc = "node_id \<times> node_id \<times> real"

definition out_arcs :: "real \<Rightarrow> db \<Rightarrow> arc list" where
  "out_arcs wmin db = map (\<lambda>r. (l_source r, l_target r, l_weight r))
     (filter (\<lambda>r. wmin \<le> l_weight r) (db_relations db))"

definition in_arcs :: "real \<Rightarrow> db \<Rightarrow> arc list" where
  "in_arcs wmin db = map (\<lambda>r. (l_target r, l_source r, l_weight r))
     (filter (\<lambda>r. wmin \<le> l_weight r) (db_relations db))"

definition walk_step :: "arc list \<Rightarrow> walk_row \<Rightarrow> walk_row list" where
  "walk_step arcs row = (case row of (nid, hop, w) \<Rightarrow>
     map (\<lambda>(a, b, v). (b, hop + 1, w + v)) (filter (\<lambda>(a, b, v). a = nid) arcs))"

text \<open>The recursive query: the rows of the first hop, then round by round up to the depth.\<close>

fun walk_rounds :: "arc list \<Rightarrow> nat \<Rightarrow> walk_row list \<Rightarrow> walk_row list" where
  "walk_rounds arcs 0 rows = rows"
| "walk_rounds arcs (Suc k) rows = rows @ walk_rounds arcs k (concat (map (walk_step arcs) rows))"

definition walk :: "arc list \<Rightarrow> node_id \<Rightarrow> int \<Rightarrow> walk_row list" where
  "walk arcs anchor depth = walk_rounds arcs (nat (depth - 1)) (walk_step arcs (anchor, 0, 0))"

definition related_rows :: "db \<Rightarrow> node_id \<Rightarrow> direction \<Rightarrow> int \<Rightarrow> real \<Rightarrow> walk_row list" where
  "related_rows db anchor dir depth wmin = (case dir of
     DirOut \<Rightarrow> walk (out_arcs wmin db) anchor depth
   | DirIn \<Rightarrow> walk (in_arcs wmin db) anchor depth
   | DirBoth \<Rightarrow> walk (out_arcs wmin db) anchor depth @ walk (in_arcs wmin db) anchor depth)"

definition aggregate :: "walk_row list \<Rightarrow> node \<Rightarrow> related_node list" where
  "aggregate rows n =
     (case filter (\<lambda>(nid, _). nid = n_id n) rows of
        [] \<Rightarrow> []
      | (_, h, w) # rest \<Rightarrow> [\<lparr>rn_node = n, rn_weight = fold (\<lambda>(_, _, v) m. max v m) rest w,
           rn_hop = fold (\<lambda>(_, k, _) m. min k m) rest h\<rparr>])"

definition get_related_nodes :: "db \<Rightarrow> node_id \<Rightarrow> related_options \<Rightarrow> related_node list" where
  "get_related_nodes db anchor o' =
     (let depth = (if ro_max_depth o' < 1 then 1 else ro_max_depth o');
          limit = (if ro_limit o' < 1 then 100 else ro_limit o');
          rows = related_rows db anchor (parse_direction (ro_direction o')) depth (ro_weight_min o');
          groups = concat (map (aggregate rows)
            (sort_key n_id (filter (\<lambda>n. n_id n \<noteq> anchor) (db_nodes db))))
      in take (nat limit) (sort_desc rn_weight (sort_desc (\<lambda>r. n_temp (rn_node r)) groups)))"


subsection \<open>What the walk finds\<close>

text \<open>A path is a list of arcs, each leaving where the previous one arrived.\<close>

fun arc_path :: "arc list \<Rightarrow> node_id \<Rightarrow> arc list \<Rightarrow> node_id \<Rightarrow> bool" where
  "arc_path arcs a [] b = (a = b)"
| "arc_path arcs a ((x, y, v) # p) b = ((x, y, v) \<in> set arcs \<and> x = a \<and> arc_path arcs y p b)"

definition path_weight :: "arc list \<Rightarrow> real" where
  "path_weight p = sum_list (map (\<lambda>(x, y, v). v) p)"

lemma path_weight_simps [simp]:
  "path_weight [] = 0" "path_weight ((x, y, v) # p) = v + path_weight p"
  by (simp_all add: path_weight_def)

lemma set_walk_step:
  "(b, h, w) \<in> set (walk_step arcs (nid, k, u)) \<longleftrightarrow> (\<exists>v. (nid, b, v) \<in> set arcs \<and> h = k + 1 \<and> w = u + v)"
  by (auto simp: walk_step_def image_iff)

lemma set_walk_rounds:
  "(b, h, w) \<in> set (walk_rounds arcs k rows) \<longleftrightarrow>
     (\<exists>c k0 w0 p. (c, k0, w0) \<in> set rows \<and> length p \<le> k \<and> arc_path arcs c p b
        \<and> h = k0 + int (length p) \<and> w = w0 + path_weight p)"
proof (induction arcs k rows rule: walk_rounds.induct)
  case (2 arcs k rows)
  show ?case
  proof
    assume "(b, h, w) \<in> set (walk_rounds arcs (Suc k) rows)"
    then consider "(b, h, w) \<in> set rows"
      | "(b, h, w) \<in> set (walk_rounds arcs k (concat (map (walk_step arcs) rows)))" by auto
    then show "\<exists>c k0 w0 p. (c, k0, w0) \<in> set rows \<and> length p \<le> Suc k \<and> arc_path arcs c p b
        \<and> h = k0 + int (length p) \<and> w = w0 + path_weight p"
    proof cases
      case 1
      then have "(b, h, w) \<in> set rows \<and> length ([] :: arc list) \<le> Suc k \<and> arc_path arcs b [] b
        \<and> h = h + int (length ([] :: arc list)) \<and> w = w + path_weight []" by simp
      then show ?thesis by blast
    next
      case 2
      with "2.IH" obtain c k1 w1 p where p: "(c, k1, w1) \<in> set (concat (map (walk_step arcs) rows))"
        "length p \<le> k" "arc_path arcs c p b" "h = k1 + int (length p)" "w = w1 + path_weight p" by blast
      then obtain a k0 w0 v where a: "(a, k0, w0) \<in> set rows" "(a, c, v) \<in> set arcs" "k1 = k0 + 1" "w1 = w0 + v"
        by (auto simp: set_walk_step)
      with p have "(a, k0, w0) \<in> set rows \<and> length ((a, c, v) # p) \<le> Suc k \<and> arc_path arcs a ((a, c, v) # p) b
        \<and> h = k0 + int (length ((a, c, v) # p)) \<and> w = w0 + path_weight ((a, c, v) # p)" by simp
      then show ?thesis by blast
    qed
  next
    assume "\<exists>c k0 w0 p. (c, k0, w0) \<in> set rows \<and> length p \<le> Suc k \<and> arc_path arcs c p b
        \<and> h = k0 + int (length p) \<and> w = w0 + path_weight p"
    then obtain c k0 w0 p where p: "(c, k0, w0) \<in> set rows" "length p \<le> Suc k" "arc_path arcs c p b"
        "h = k0 + int (length p)" "w = w0 + path_weight p" by blast
    show "(b, h, w) \<in> set (walk_rounds arcs (Suc k) rows)"
    proof (cases p)
      case Nil
      with p show ?thesis by simp
    next
      case (Cons arc q)
      obtain x y v where arc: "arc = (x, y, v)" by (cases arc)
      with p Cons have "(c, y, v) \<in> set arcs" "arc_path arcs y q b" "length q \<le> k" by auto
      moreover from this(1) p(1) have "(y, k0 + 1, w0 + v) \<in> set (concat (map (walk_step arcs) rows))"
        by (auto simp: set_walk_step intro!: bexI [of _ "(c, k0, w0)"])
      moreover have "h = k0 + 1 + int (length q)" "w = w0 + v + path_weight q"
        using p Cons arc by simp_all
      ultimately show ?thesis using "2.IH" by auto
    qed
  qed
qed auto

lemma set_walk:
  assumes "1 \<le> depth"
  shows "(b, h, w) \<in> set (walk arcs a depth) \<longleftrightarrow>
    (\<exists>p. p \<noteq> [] \<and> int (length p) \<le> depth \<and> arc_path arcs a p b \<and> h = int (length p) \<and> w = path_weight p)"
proof -
  have len: "length q \<le> nat (depth - 1) \<longleftrightarrow> 1 + int (length q) \<le> depth" for q :: "arc list"
    using assms by arith
  have "(b, h, w) \<in> set (walk arcs a depth) \<longleftrightarrow>
    (\<exists>c v q. (a, c, v) \<in> set arcs \<and> length q \<le> nat (depth - 1) \<and> arc_path arcs c q b
       \<and> h = 1 + int (length q) \<and> w = v + path_weight q)"
    unfolding walk_def set_walk_rounds set_walk_step by auto
  also have "\<dots> \<longleftrightarrow> (\<exists>c v q. arc_path arcs a ((a, c, v) # q) b \<and> int (length ((a, c, v) # q)) \<le> depth
       \<and> h = int (length ((a, c, v) # q)) \<and> w = path_weight ((a, c, v) # q))"
    unfolding len by (simp add: conj_ac)
  also have "\<dots> \<longleftrightarrow> (\<exists>p. p \<noteq> [] \<and> int (length p) \<le> depth \<and> arc_path arcs a p b
       \<and> h = int (length p) \<and> w = path_weight p)"
  proof
    assume "\<exists>p. p \<noteq> [] \<and> int (length p) \<le> depth \<and> arc_path arcs a p b \<and> h = int (length p) \<and> w = path_weight p"
    then obtain x y v q where "arc_path arcs a ((x, y, v) # q) b" "int (length ((x, y, v) # q)) \<le> depth"
      "h = int (length ((x, y, v) # q))" "w = path_weight ((x, y, v) # q)"
      by (metis neq_Nil_conv prod_cases3)
    then show "\<exists>c v q. arc_path arcs a ((a, c, v) # q) b \<and> int (length ((a, c, v) # q)) \<le> depth
       \<and> h = int (length ((a, c, v) # q)) \<and> w = path_weight ((a, c, v) # q)" by auto
  qed blast
  finally show ?thesis .
qed

text \<open>The paths that count for one node: at least one edge, at most the depth, every weight high enough.\<close>

definition related_paths :: "db \<Rightarrow> node_id \<Rightarrow> direction \<Rightarrow> int \<Rightarrow> real \<Rightarrow> node_id \<Rightarrow> arc list set" where
  "related_paths db a dir depth wmin b = {p. p \<noteq> [] \<and> int (length p) \<le> depth \<and>
     ((dir \<noteq> DirIn \<and> arc_path (out_arcs wmin db) a p b) \<or> (dir \<noteq> DirOut \<and> arc_path (in_arcs wmin db) a p b))}"

lemma set_related_rows:
  assumes "1 \<le> depth"
  shows "(b, h, w) \<in> set (related_rows db a dir depth wmin) \<longleftrightarrow>
    (\<exists>p\<in>related_paths db a dir depth wmin b. h = int (length p) \<and> w = path_weight p)"
  by (cases dir) (auto simp: related_rows_def set_walk [OF assms] related_paths_def)

lemma fold_max_rows:
  fixes w :: real
  shows "(fold (\<lambda>(_, _, v) m. max v m) rows w = w \<or> (\<exists>n h. (n, h, fold (\<lambda>(_, _, v) m. max v m) rows w) \<in> set rows))
    \<and> w \<le> fold (\<lambda>(_, _, v) m. max v m) rows w
    \<and> (\<forall>(n, h, v)\<in>set rows. v \<le> fold (\<lambda>(_, _, v) m. max v m) rows w)"
proof (induction rows arbitrary: w)
  case (Cons row rows)
  obtain n h v where row: "row = (n, h, v)" by (cases row)
  from Cons.IH [of "max v w"] show ?case unfolding row by (auto simp: max_def split: if_splits)
qed simp

lemma fold_min_rows:
  fixes h :: int
  shows "(fold (\<lambda>(_, k, _) m. min k m) rows h = h \<or> (\<exists>n w. (n, fold (\<lambda>(_, k, _) m. min k m) rows h, w) \<in> set rows))
    \<and> fold (\<lambda>(_, k, _) m. min k m) rows h \<le> h
    \<and> (\<forall>(n, k, w)\<in>set rows. fold (\<lambda>(_, k, _) m. min k m) rows h \<le> k)"
proof (induction rows arbitrary: h)
  case (Cons row rows)
  obtain n k w where row: "row = (n, k, w)" by (cases row)
  from Cons.IH [of "min k h"] show ?case unfolding row by (auto simp: min_def split: if_splits)
qed simp

lemma aggregate_spec:
  "set (aggregate rows n) = {r. rn_node r = n
     \<and> (\<exists>w. (n_id n, rn_hop r, w) \<in> set rows) \<and> (\<exists>h. (n_id n, h, rn_weight r) \<in> set rows)
     \<and> (\<forall>h w. (n_id n, h, w) \<in> set rows \<longrightarrow> rn_hop r \<le> h \<and> w \<le> rn_weight r)}" (is "?A = ?B")
proof -
  let ?rows = "filter (\<lambda>(nid, _). nid = n_id n) rows"
  have mem: "(n_id n, h, w) \<in> set ?rows \<longleftrightarrow> (n_id n, h, w) \<in> set rows" for h w by simp
  show ?thesis
  proof (cases ?rows)
    case Nil
    then have "(n_id n, h, w) \<notin> set rows" for h w using mem [of h w] by simp
    with Nil show ?thesis by (simp add: aggregate_def)
  next
    case (Cons row rest)
    then have "fst row = n_id n" by (auto dest: filter_eq_ConsD)
    then obtain h w where row: "row = (n_id n, h, w)" by (cases row) auto
    let ?h = "fold (\<lambda>(_, k, _) m. min k m) rest h" and ?w = "fold (\<lambda>(_, _, v) m. max v m) rest w"
    have ids: "nid = n_id n" if "(nid, k, v) \<in> set rest" for nid k v
    proof -
      have "(nid, k, v) \<in> set ?rows" using that Cons by simp
      then show ?thesis by simp
    qed
    have all: "(n_id n, k, v) \<in> set rows \<longleftrightarrow> (k = h \<and> v = w) \<or> (n_id n, k, v) \<in> set rest" for k v
      using mem [of k v] unfolding Cons row by auto
    have A: "?A = {\<lparr>rn_node = n, rn_weight = ?w, rn_hop = ?h\<rparr>}"
      by (simp add: aggregate_def Cons row)
    have hop: "\<exists>v. (n_id n, ?h, v) \<in> set rows" "\<And>k v. (n_id n, k, v) \<in> set rows \<Longrightarrow> ?h \<le> k"
      using fold_min_rows [of rest h] ids unfolding all by blast+
    have wt: "\<exists>k. (n_id n, k, ?w) \<in> set rows" "\<And>k v. (n_id n, k, v) \<in> set rows \<Longrightarrow> v \<le> ?w"
      using fold_max_rows [of rest w] ids unfolding all by blast+
    have "r = \<lparr>rn_node = n, rn_weight = ?w, rn_hop = ?h\<rparr>" if "r \<in> ?B" for r
    proof -
      from that hop(2) wt(2) have "?h \<le> rn_hop r" "rn_weight r \<le> ?w" by blast+
      moreover from that hop(1) wt(1) have "rn_hop r \<le> ?h" "?w \<le> rn_weight r" by blast+
      ultimately show ?thesis using that by (cases r) auto
    qed
    moreover have "\<lparr>rn_node = n, rn_weight = ?w, rn_hop = ?h\<rparr> \<in> ?B" using hop wt by simp
    ultimately show ?thesis unfolding A by blast
  qed
qed

definition related_of :: "db \<Rightarrow> node_id \<Rightarrow> direction \<Rightarrow> int \<Rightarrow> real \<Rightarrow> related_node set" where
  "related_of db a dir depth wmin = {r. rn_node r \<in> set (db_nodes db) \<and> n_id (rn_node r) \<noteq> a
     \<and> (\<exists>p\<in>related_paths db a dir depth wmin (n_id (rn_node r)). rn_hop r = int (length p))
     \<and> (\<exists>p\<in>related_paths db a dir depth wmin (n_id (rn_node r)). rn_weight r = path_weight p)
     \<and> related_paths db a dir depth wmin (n_id (rn_node r)) \<subseteq>
         {p. rn_hop r \<le> int (length p) \<and> path_weight p \<le> rn_weight r}}"

lemma set_take_subset_eq: "set (take k xs) = set xs \<or> length (take k xs) = k"
  by (cases "length xs \<le> k") auto

text \<open>C12:
  \<open>GetRelatedNodes\<close> answers exactly about the paths of relations from the anchor, in the asked
  direction, with at most the asked number of edges (at least one), all of weight at least the
  minimum: every row is another node that some such path reaches, with the length of a shortest and
  the total weight of a heaviest one; rows come by descending weight, at most as many as the limit,
  and no reachable node is missing unless the limit is reached.
\<close>

theorem related_nodes_spec:
  "let rs = get_related_nodes db anchor o';
       limit = nat (if ro_limit o' < 1 then 100 else ro_limit o');
       all = related_of db anchor (parse_direction (ro_direction o')) (max 1 (ro_max_depth o'))
         (ro_weight_min o')
   in set rs \<subseteq> all \<and> sorted_wrt (\<lambda>x y. rn_weight y \<le> rn_weight x) rs
    \<and> length rs \<le> limit \<and> (set rs = all \<or> length rs = limit)"
proof -
  let ?rs = "get_related_nodes db anchor o'" and ?limit = "nat (if ro_limit o' < 1 then 100 else ro_limit o')"
  let ?all = "related_of db anchor (parse_direction (ro_direction o')) (max 1 (ro_max_depth o'))
      (ro_weight_min o')"
  let ?dir = "parse_direction (ro_direction o')" and ?depth = "max 1 (ro_max_depth o')"
  let ?rows = "related_rows db anchor ?dir ?depth (ro_weight_min o')"
  let ?groups = "concat (map (aggregate ?rows) (sort_key n_id (filter (\<lambda>n. n_id n \<noteq> anchor) (db_nodes db))))"
  let ?sorted = "sort_desc rn_weight (sort_desc (\<lambda>r. n_temp (rn_node r)) ?groups)"
  have depth: "(if ro_max_depth o' < 1 then 1 else ro_max_depth o') = ?depth" by simp
  have rs: "?rs = take ?limit ?sorted"
    by (simp add: get_related_nodes_def Let_def depth)
  have row: "(b, h, w) \<in> set ?rows \<longleftrightarrow>
      (\<exists>p\<in>related_paths db anchor ?dir ?depth (ro_weight_min o') b. h = int (length p) \<and> w = path_weight p)"
    for b h w by (rule set_related_rows) simp
  have "set ?sorted = {r. rn_node r \<in> set (db_nodes db) \<and> n_id (rn_node r) \<noteq> anchor
      \<and> r \<in> set (aggregate ?rows (rn_node r))}"
    by (auto simp: aggregate_spec)
  also have "\<dots> = ?all"
    unfolding related_of_def aggregate_spec row by blast
  finally have all: "set ?sorted = ?all" .
  have "sorted_wrt (\<lambda>x y. rn_weight y \<le> rn_weight x) ?rs"
    unfolding rs by (rule sorted_wrt_take) (rule sorted_wrt_sort_desc)
  then show ?thesis
    using all set_take_subset_eq [of ?limit ?sorted] set_take_subset [of ?limit ?sorted] unfolding Let_def rs by auto
qed


subsection \<open>What the heading lookups find\<close>

lemma like_percent: "like (CHR ''%'' # p) s \<longleftrightarrow> (\<exists>u v. s = u @ v \<and> like p v)"
proof (induction s)
  case (Cons x s)
  have "(\<exists>u v. x # s = u @ v \<and> like p v) \<longleftrightarrow> like p (x # s) \<or> (\<exists>u v. s = u @ v \<and> like p v)"
    by (metis append_Cons append_Nil neq_Nil_conv list.inject)
  with Cons show ?case by simp
qed simp

lemma like_escape_Cons:
  "like_escape (c # f) = (if c \<in> {CHR 0x5C, CHR ''%'', CHR ''_''} then [CHR 0x5C, c] else [c]) @ like_escape f"
  by (simp add: like_escape_def)

lemma like_literal: "like (like_escape f) s \<longleftrightarrow> ascii_lower s = ascii_lower f"
proof (induction f arbitrary: s)
  case (Cons c f)
  then show ?case by (cases s) (auto simp: like_escape_Cons ascii_lower_def)
qed (simp add: like_escape_def ascii_lower_def)

lemma like_file:
  "like (''%/'' @ like_escape file) s \<longleftrightarrow> (\<exists>u. ascii_lower s = u @ ascii_lower (''/'' @ file))"
proof -
  have "''/'' @ like_escape file = like_escape (''/'' @ file)" by (simp add: like_escape_Cons)
  then have "like (''%/'' @ like_escape file) s \<longleftrightarrow> (\<exists>u v. s = u @ v \<and> ascii_lower v = ascii_lower (''/'' @ file))"
    using like_percent [of "like_escape (''/'' @ file)" s] like_literal by simp
  also have "\<dots> \<longleftrightarrow> (\<exists>u. ascii_lower s = u @ ascii_lower (''/'' @ file))"
    unfolding ascii_lower_def by (metis map_append map_eq_append_conv)
  finally show ?thesis .
qed

lemma first_id_minimal:
  assumes "sorted_wrt R ns" "set ns = C" "\<And>x. R x x"
  shows "(C = {} \<and> first_id ns = []) \<or> (\<exists>n\<in>C. first_id ns = n_id n \<and> C \<subseteq> {m. R n m})"
  using assms by (cases ns) (auto simp: first_id_def)

text \<open>
  \<open>FindHeadingByLabelInFile\<close> finds a heading whose label equals the given one up to ASCII case and
  surrounding spaces, in the given file or in a file whose path ends with a slash and the given
  name, ASCII case ignored (the escaping makes every character of the name literal). Among several
  it returns the one of least depth and then of least identifier, and the empty identifier means
  that there is none.
\<close>

lemma find_heading_in_file_spec:
  "let C = {n \<in> set (db_nodes db). n_type n = ''heading'' \<and> label_key (n_label n) = label_key label
        \<and> (n_source n = file \<or> (\<exists>u. ascii_lower (n_source n) = u @ ascii_lower (''/'' @ file)))}
   in (C = {} \<and> find_heading_in_file db file label = [])
    \<or> (\<exists>n\<in>C. find_heading_in_file db file label = n_id n
        \<and> C \<subseteq> {m. n_depth n < n_depth m \<or> n_depth n = n_depth m \<and> n_id n \<le> n_id m})"
proof -
  let ?ns = "sort_key n_depth (sort_key n_id (filter (in_file file) (headings_labelled db label)))"
  have "sorted_wrt (\<lambda>n m. n_depth n < n_depth m \<or> n_depth n = n_depth m \<and> n_id n \<le> n_id m) ?ns"
    by (intro sorted_wrt_sort_key sorted_wrt_sort_key1)
  moreover have "set ?ns = {n \<in> set (db_nodes db). n_type n = ''heading'' \<and> label_key (n_label n) = label_key label
        \<and> (n_source n = file \<or> (\<exists>u. ascii_lower (n_source n) = u @ ascii_lower (''/'' @ file)))}"
    by (auto simp: headings_labelled_def in_file_def like_file [simplified])
  ultimately show ?thesis
    unfolding Let_def find_heading_in_file_def by (rule first_id_minimal) simp
qed

lemma find_heading_mem:
  "find_heading db label \<noteq> [] \<Longrightarrow> find_heading db label \<in> set (node_ids db)"
  "find_heading_in_file db file label \<noteq> [] \<Longrightarrow> find_heading_in_file db file label \<in> set (node_ids db)"
proof -
  have "first_id ns \<noteq> [] \<Longrightarrow> first_id ns \<in> n_id ` set ns" for ns
    by (cases ns) (auto simp: first_id_def)
  then show "find_heading db label \<noteq> [] \<Longrightarrow> find_heading db label \<in> set (node_ids db)"
    "find_heading_in_file db file label \<noteq> [] \<Longrightarrow> find_heading_in_file db file label \<in> set (node_ids db)"
    by (fastforce simp: find_heading_def find_heading_in_file_def headings_labelled_def node_ids_def)+
qed

subsection \<open>Writes keep the constraints\<close>

lemma relation_frame [frame_simps]:
  "db_nodes (put_relation r db) = db_nodes db" "db_nodes (put_pending p db) = db_nodes db"
  "db_nodes (delete_pending_by_id i db) = db_nodes db" "db_nodes (delete_parsed_pending s db) = db_nodes db"
  "db_snapshots (put_relation r db) = db_snapshots db" "db_snapshots (put_pending p db) = db_snapshots db"
  "db_snapshots (delete_pending_by_id i db) = db_snapshots db"
  "db_snapshots (delete_parsed_pending s db) = db_snapshots db"
  "db_diffs (put_relation r db) = db_diffs db" "db_diffs (put_pending p db) = db_diffs db"
  "db_diffs (delete_pending_by_id i db) = db_diffs db" "db_diffs (delete_parsed_pending s db) = db_diffs db"
  "db_head (put_relation r db) = db_head db" "db_head (put_pending p db) = db_head db"
  "db_head (delete_pending_by_id i db) = db_head db" "db_head (delete_parsed_pending s db) = db_head db"
  "db_next_snapshot (put_relation r db) = db_next_snapshot db"
  "db_next_snapshot (put_pending p db) = db_next_snapshot db"
  "db_next_snapshot (delete_pending_by_id i db) = db_next_snapshot db"
  "db_next_snapshot (delete_parsed_pending s db) = db_next_snapshot db"
  "db_defer (put_relation r db) = db_defer db" "db_defer (put_pending p db) = db_defer db"
  "db_defer (delete_pending_by_id i db) = db_defer db" "db_defer (delete_parsed_pending s db) = db_defer db"
  "db_pending (put_relation r db) = db_pending db" "db_relations (put_pending p db) = db_relations db"
  "db_relations (delete_pending_by_id i db) = db_relations db"
  "db_relations (delete_parsed_pending s db) = db_relations db"
  by (simp_all add: put_relation_def put_pending_def delete_pending_by_id_def delete_parsed_pending_def)

lemma relation_key_alt: "map (\<lambda>r. (l_source r, l_target r, l_origin r)) rs = map relation_key rs"
  by (simp add: relation_key_def)

lemma put_relation_keys:
  "map relation_key (db_relations (put_relation r db)) =
     (if relation_key r \<in> set (map relation_key (db_relations db)) then map relation_key (db_relations db)
      else map relation_key (db_relations db) @ [relation_key r])"
  by (auto simp: put_relation_def relation_key_def)

lemma frame_ok:
  assumes "db_ok db" "db_nodes db' = db_nodes db" "db_snapshots db' = db_snapshots db"
    "db_diffs db' = db_diffs db" "db_head db' = db_head db" "db_next_snapshot db' = db_next_snapshot db"
    "distinct (map relation_key (db_relations db'))" "edges_ok db'"
  shows "db_ok db'"
proof -
  have ids: "node_ids db' = node_ids db" "snapshot_ids db' = snapshot_ids db"
    using assms by (simp_all add: node_ids_def snapshot_ids_def)
  have "snapshots_ok db' = snapshots_ok db" by (rule snapshots_ok_frame) (use assms in simp_all)
  moreover have "parents_ok db' = parents_ok db" by (simp add: parents_ok_def assms ids)
  ultimately show ?thesis using assms
    by (simp add: db_ok_def fk_ok_def keys_ok_def ids relation_key_alt)
qed

lemma db_ok_relations: "db_ok db \<Longrightarrow> distinct (map relation_key (db_relations db))"
  by (simp add: db_ok_def keys_ok_def relation_key_alt)

lemma relation_ends: "edges_ok db \<longleftrightarrow>
    relation_key ` set (db_relations db) \<subseteq> {(s, t, o'). s \<in> set (node_ids db) \<and> t \<in> set (node_ids db)}
    \<and> p_source ` set (db_pending db) \<subseteq> set (node_ids db)"
  by (auto simp: edges_ok_def list_all_iff relation_key_def)

lemma upsert_relation_ok:
  assumes "db_ok db" "\<not> db_defer db" "upsert_relation r db = Inr db'"
  shows "db_ok db'"
proof -
  have db': "db' = put_relation r db" "{l_source r, l_target r} \<subseteq> set (node_ids db)"
    using assms by (auto simp: upsert_relation_def split: if_splits)
  have "relation_key ` set (db_relations db') \<subseteq> insert (relation_key r) (relation_key ` set (db_relations db))"
    using arg_cong [OF put_relation_keys [of r db], of set] by (auto simp: db'(1) split: if_splits)
  moreover have "edges_ok db" using assms(1) by (simp add: db_ok_def fk_ok_def)
  moreover have "node_ids db' = node_ids db" by (simp add: node_ids_def db'(1) frame_simps)
  moreover have "relation_key r \<in> {(s, t, o'). s \<in> set (node_ids db) \<and> t \<in> set (node_ids db)}"
    using db'(2) by (simp add: relation_key_def)
  moreover have "db_pending db' = db_pending db" by (simp add: db'(1) frame_simps)
  ultimately have "edges_ok db'"
    unfolding relation_ends by simp (meson insert_subset order_trans)
  then show ?thesis
    by (rule frame_ok [OF assms(1), rotated -1])
      (use db_ok_relations [OF assms(1)] in \<open>auto simp: db'(1) frame_simps put_relation_keys\<close>)
qed

lemma insert_pending_ok:
  assumes "db_ok db" "\<not> db_defer db" "insert_pending p db = Inr db'"
  shows "db_ok db'"
proof -
  have db': "db' = put_pending p db" "p_source p \<in> set (node_ids db)"
    using assms by (auto simp: insert_pending_def split: if_splits)
  have "edges_ok db'"
    using assms(1) db'(2) by (auto simp: db'(1) db_ok_def fk_ok_def edges_ok_def list_all_iff node_ids_def
        put_pending_def)
  then show ?thesis
    by (rule frame_ok [OF assms(1), rotated -1])
      (use db_ok_relations [OF assms(1)] in \<open>simp_all add: db'(1) frame_simps\<close>)
qed

lemma delete_pending_ok:
  assumes "db_ok db"
  shows "db_ok (delete_pending_by_id i db)" "db_ok (delete_parsed_pending s db)"
proof -
  have "edges_ok (delete_pending_by_id i db)" "edges_ok (delete_parsed_pending s db)"
    using assms by (auto simp: db_ok_def fk_ok_def edges_ok_def list_all_iff node_ids_def
        delete_pending_by_id_def delete_parsed_pending_def)
  then show "db_ok (delete_pending_by_id i db)" "db_ok (delete_parsed_pending s db)"
    using db_ok_relations [OF assms]
    by (auto intro!: frame_ok [OF assms] simp: frame_simps)
qed

end
