(* ===== verification/Query.thy ===== *)
theory Query
  imports Temperature Store_Relations Diff_Engine
begin

text \<open>
  The query engine (\<open>pkg/query\<close>): context around an anchor, batches, ranked search, paged deltas and
  consolidated diffs, all within token budgets, over the interface \<open>QueryStore\<close>. The engine's clock
  is the argument \<open>now\<close> in seconds; \<open>sched\<close> is the order in which concurrent queries end; the
  formatting of floats and the unified diff are parameters.
\<close>

subsection \<open>The interface\<close>

record query_store =
  q_get_node :: "node_id \<Rightarrow> node result"
  q_nodes_by_ids :: "node_id list \<Rightarrow> node list result"
  q_ancestors :: "node_id \<Rightarrow> node list result"
  q_descendants :: "node_id \<Rightarrow> int \<Rightarrow> node list result"
  q_siblings :: "node_id \<Rightarrow> node list result"
  q_search_ranked :: "bytes \<Rightarrow> int \<Rightarrow> ranked_node list result"
  q_diffs_since :: "int \<Rightarrow> int \<Rightarrow> diff_row list result"
  q_diffs_between :: "int \<Rightarrow> int \<Rightarrow> diff_row list result"

text \<open>\<open>*store.Store\<close> as a \<open>QueryStore\<close>; an ancestor query that would not end is cancelled with its context.\<close>

definition store_queries :: "fts_engine \<Rightarrow> db \<Rightarrow> query_store" where
  "store_queries fts db = \<lparr>q_get_node = get_node db, q_nodes_by_ids = (\<lambda>is. Inr (nodes_by_ids db is)),
     q_ancestors = (\<lambda>i. case get_ancestors db i of None \<Rightarrow> Inl Cancelled | Some ns \<Rightarrow> Inr ns),
     q_descendants = (\<lambda>i d. Inr (get_descendants db i d)), q_siblings = (\<lambda>i. Inr (get_siblings db i)),
     q_search_ranked = search_ranked fts db,
     q_diffs_since = (\<lambda>since limit. Inr (diffs_since db since limit)),
     q_diffs_between = (\<lambda>a b. Inr (diffs_between db a b))\<rparr>"

subsection \<open>Ranking\<close>

record scored_node =
  sn_node :: node
  sn_score :: real

definition recency_norm_hours :: real where "recency_norm_hours = 24"

definition recency_boost :: "node \<Rightarrow> real \<Rightarrow> real" where
  "recency_boost n now = (case n_last n of None \<Rightarrow> 1
     | Some t \<Rightarrow> 1 / (1 + max 0 ((now - of_int t) / 3600) / recency_norm_hours))"

definition score_node :: "node \<Rightarrow> real \<Rightarrow> real \<Rightarrow> real" where
  "score_node n fts_rank now = fts_rank * score 1 (n_temp n) * recency_boost n now"

definition rank_nodes :: "node list \<Rightarrow> real \<Rightarrow> scored_node list" where
  "rank_nodes ns now = sort_desc sn_score (map (\<lambda>n. \<lparr>sn_node = n, sn_score = score_node n 1 now\<rparr>) ns)"

definition rank_search_results :: "ranked_node list \<Rightarrow> real \<Rightarrow> scored_node list" where
  "rank_search_results rs now = sort_desc sn_score
     (map (\<lambda>r. \<lparr>sn_node = rk_node r, sn_score = score_node (rk_node r) (- rk_rank r) now\<rparr>) rs)"

subsection \<open>Budgets\<close>

record query_result =
  qr_nodes :: "scored_node list"
  qr_used :: int

definition cost_of :: "scored_node \<Rightarrow> int" where
  "cost_of sn = n_tokens (sn_node sn)"

definition all_nodes :: "scored_node list \<Rightarrow> query_result" where
  "all_nodes ss = \<lparr>qr_nodes = ss, qr_used = sum_list (map cost_of ss)\<rparr>"

text \<open>The loop of \<open>fillBudget\<close>: the nodes kept so far and the tokens they use.\<close>

fun fill_loop :: "int \<Rightarrow> scored_node list \<Rightarrow> scored_node list \<Rightarrow> int \<Rightarrow> query_result" where
  "fill_loop budget [] out used = \<lparr>qr_nodes = out, qr_used = used\<rparr>"
| "fill_loop budget (sn # ss) out used =
     (let cost = cost_of sn
      in if used + cost > budget then fill_loop budget ss out used
         else fill_loop budget ss (out @ [sn]) (used + cost))"

definition fill_budget :: "scored_node list \<Rightarrow> int \<Rightarrow> query_result" where
  "fill_budget ss budget = fill_loop budget ss [] 0"

subsection \<open>The engine\<close>

record engine =
  en_store :: query_store
  en_max_depth :: int

definition default_max_depth :: int where "default_max_depth = 32"
definition max_depth_cap :: int where "max_depth_cap = 128"
definition search_limit :: int where "search_limit = 50"

definition new_engine :: "query_store \<Rightarrow> engine" where
  "new_engine q = \<lparr>en_store = q, en_max_depth = default_max_depth\<rparr>"

definition clamp_depth :: "int \<Rightarrow> int \<Rightarrow> int \<Rightarrow> int" where
  "clamp_depth d dflt maximum =
     (if d \<le> 0 then dflt else if maximum > 0 \<and> d > maximum then maximum else d)"

text \<open>Nodes not seen before, each once, in the order of the batches.\<close>

fun unseen_nodes :: "node_id set \<Rightarrow> node list \<Rightarrow> node list" where
  "unseen_nodes seen [] = []"
| "unseen_nodes seen (n # ns) = (if n_id n \<in> seen then unseen_nodes seen ns
     else n # unseen_nodes (insert (n_id n) seen) ns)"

definition collect_context :: "nat list \<Rightarrow> query_store \<Rightarrow> node_id \<Rightarrow> int \<Rightarrow> node list result" where
  "collect_context sched q anchor depth =
     bind_result (gather sched [q_ancestors q anchor, q_descendants q anchor depth, q_siblings q anchor])
       (\<lambda>batches. Inr (unseen_nodes {anchor} (concat batches)))"

definition fetch :: "nat list \<Rightarrow> real \<Rightarrow> engine \<Rightarrow> node_id \<Rightarrow> int \<Rightarrow> int \<Rightarrow> query_result result" where
  "fetch sched now e anchor budget depth =
     bind_result (q_get_node (en_store e) anchor) (\<lambda>n.
     bind_result (collect_context sched (en_store e) (n_id n)
         (if depth > 0 then clamp_depth depth default_max_depth max_depth_cap else en_max_depth e)) (\<lambda>ctx.
       let scored = rank_nodes ctx now;
           filled = (if budget > 0 then fill_budget scored (max (budget - n_tokens n) 0) else all_nodes scored)
       in Inr \<lparr>qr_nodes = rev (qr_nodes filled) @ [\<lparr>sn_node = n, sn_score = score_node n 1 now\<rparr>],
           qr_used = qr_used filled + n_tokens n\<rparr>))"

definition fetch_batch :: "real \<Rightarrow> engine \<Rightarrow> node_id list \<Rightarrow> int \<Rightarrow> (query_result \<times> node_id list) result" where
  "fetch_batch now e is budget =
     (if is = [] then Inr (\<lparr>qr_nodes = [], qr_used = 0\<rparr>, [])
      else bind_result (q_nodes_by_ids (en_store e) is) (\<lambda>ns.
        let by_id = (\<lambda>i. lookup_by n_id i (rev ns)); ids = first_occs is;
            ordered = map (\<lambda>n. \<lparr>sn_node = n, sn_score = score_node n 1 now\<rparr>) (List.map_filter by_id ids);
            missing = filter (\<lambda>i. by_id i = None) ids
        in Inr (if budget \<le> 0 then all_nodes ordered else fill_budget ordered budget, missing)))"

definition search :: "real \<Rightarrow> engine \<Rightarrow> bytes \<Rightarrow> int \<Rightarrow> query_result result" where
  "search now e query budget =
     bind_result (q_search_ranked (en_store e) query search_limit) (\<lambda>ranked.
       let scored = rank_search_results ranked now;
           filled = (if budget > 0 then fill_budget scored budget else all_nodes scored)
       in Inr (filled\<lparr>qr_nodes := rev (qr_nodes filled)\<rparr>))"

text \<open>The rows of a page, whether more exist, and whether one snapshot alone exceeds the limit.\<close>

definition trim_last_snapshot :: "diff_row list \<Rightarrow> diff_row list" where
  "trim_last_snapshot page = rev (dropWhile (\<lambda>d. r_snap d = r_snap (last page)) (rev page))"

definition delta_since :: "engine \<Rightarrow> int \<Rightarrow> int \<Rightarrow> (diff_row list \<times> bool \<times> bool) result" where
  "delta_since e since limit =
     (if limit < 1 then Inr ([], False, False)
      else bind_result (q_diffs_since (en_store e) since (limit + 1)) (\<lambda>ds.
        if int (length ds) \<le> limit then Inr (ds, False, False)
        else let peek = r_snap (ds ! nat limit); page = take (nat limit) ds; newest = r_snap (last page)
          in if peek \<noteq> newest then Inr (page, True, False)
             else if r_snap (hd page) = newest then Inr (page, True, True)
             else Inr (trim_last_snapshot page, True, False)))"

definition net_row :: "diff_row \<Rightarrow> diff_row \<Rightarrow> bytes \<Rightarrow> bytes \<times> bytes \<Rightarrow> bytes \<times> bytes \<Rightarrow> diff_row" where
  "net_row first final op old new = \<lparr>r_snap = r_snap final, r_node = r_node first, r_op = op,
     r_old_hash = fst old, r_new_hash = fst new, r_old_content = snd old, r_new_content = snd new,
     r_old_parent = None, r_old_source = None, r_old_type = None, r_old_depth = None, r_old_label = None,
     r_old_format = None, r_old_tokens = None\<rparr>"

definition consolidate_bracket :: "diff_row \<Rightarrow> diff_row \<Rightarrow> diff_row list" where
  "consolidate_bracket first final =
     (let existed = r_op first \<noteq> op_string OpAdd; exists = r_op final \<noteq> op_string OpRem;
          old = (r_old_hash first, r_old_content first); new = (r_new_hash final, r_new_content final)
      in if \<not> existed \<and> \<not> exists then []
         else if \<not> existed then [net_row first final (op_string OpAdd) ([], []) new]
         else if \<not> exists then [net_row first final (op_string OpRem) old ([], [])]
         else if r_old_content first = r_new_content final then []
         else [net_row first final (op_string OpMod) old new])"

definition consolidate_diffs :: "diff_row list \<Rightarrow> diff_row list" where
  "consolidate_diffs raw = concat (map (\<lambda>i.
     let rows = filter (\<lambda>d. r_node d = i) raw in consolidate_bracket (hd rows) (last rows))
     (first_occs (map r_node raw)))"

definition diff_between :: "engine \<Rightarrow> int \<Rightarrow> int \<Rightarrow> diff_row list result" where
  "diff_between e a b =
     bind_result (q_diffs_between (en_store e) a b) (\<lambda>raw. Inr (consolidate_diffs raw))"

subsection \<open>What the engine relies on\<close>

text \<open>
  The laws of a query store: a node is found under its identifier, a batch agrees with single
  lookups, and the diffs after a snapshot are a fixed history in snapshot order of which the limit
  takes a prefix.
\<close>

locale query_source =
  fixes q :: query_store and history :: "int \<Rightarrow> diff_row list"
  assumes get_node_id: "q_get_node q i = Inr n \<Longrightarrow> n_id n = i"
    and batch_lookup: "q_nodes_by_ids q is = Inr ns \<Longrightarrow> i \<in> set is \<Longrightarrow>
      lookup_by n_id i ns = (case q_get_node q i of Inl _ \<Rightarrow> None | Inr n \<Rightarrow> Some n)"
    and since_page: "0 \<le> k \<Longrightarrow> q_diffs_since q a k = Inr (take (nat k) (history a))"
    and history_sorted: "sorted (map r_snap (history a))"
    and history_after: "a \<le> b \<Longrightarrow> history b = filter (\<lambda>d. b < r_snap d) (history a)"
    and history_bound: "d \<in> set (history a) \<Longrightarrow> a < r_snap d"

subsection \<open>Pages of diffs\<close>

lemma sorted_prefix_split:
  assumes "sorted (map k xs)" "xs = ys @ zs"
    and "\<And>y. y \<in> set ys \<Longrightarrow> k y \<le> (b :: int)" "\<And>z. z \<in> set zs \<Longrightarrow> b < k z"
  shows "filter (\<lambda>d. b < k d) xs = zs"
  using assms(3,4) by (simp add: assms(2) filter_empty_conv) (metis filter_True filter_False append_Nil not_less)

lemma trim_splits:
  assumes "page \<noteq> []" "r_snap (hd page) \<noteq> r_snap (last page)"
  obtains tail where "page = trim_last_snapshot page @ tail" "trim_last_snapshot page \<noteq> []" "tail \<noteq> []"
    "r_snap (hd tail) = r_snap (last page)" "r_snap (last (trim_last_snapshot page)) \<noteq> r_snap (last page)"
proof -
  let ?P = "\<lambda>d. r_snap d = r_snap (last page)"
  let ?ys = "trim_last_snapshot page" and ?tail = "rev (takeWhile ?P (rev page))"
  have page: "page = ?ys @ ?tail"
    by (metis trim_last_snapshot_def rev_append rev_rev_ident takeWhile_dropWhile_id)
  have tail: "?tail \<noteq> []" using assms(1) by (cases page rule: rev_cases) auto
  have ys: "?ys \<noteq> []"
  proof
    assume "?ys = []"
    with page have "hd page \<in> set ?tail" using assms(1) by (metis append_Nil hd_in_set)
    with assms(2) show False by (auto dest: set_takeWhileD)
  qed
  then have "dropWhile ?P (rev page) \<noteq> []" by (simp only: trim_last_snapshot_def rev_is_Nil_conv not_False_eq_True)
  from hd_dropWhile [OF this] have "r_snap (last ?ys) \<noteq> r_snap (last page)"
    by (simp only: trim_last_snapshot_def last_rev) simp
  moreover have "r_snap (hd ?tail) = r_snap (last page)"
    using hd_in_set [OF tail] by (auto dest: set_takeWhileD)
  ultimately show thesis using page ys tail that by blast
qed

text \<open>When a sorted history starts with at most \<open>k\<close> rows of its first snapshot, row \<open>k\<close> is of a later one.\<close>

lemma first_snapshot_fits:
  assumes "sorted (map r_snap h)" "k < length h"
    and "length (filter (\<lambda>d. r_snap d = r_snap (hd h)) h) \<le> k"
  shows "r_snap (hd h) \<noteq> r_snap (h ! k)"
proof
  assume eq: "r_snap (hd h) = r_snap (h ! k)"
  have "r_snap (h ! j) = r_snap (hd h)" if "j \<le> k" for j
  proof -
    have "r_snap (h ! 0) \<le> r_snap (h ! j)" "r_snap (h ! j) \<le> r_snap (h ! k)"
      using assms(1,2) order.strict_trans1 [OF le0 assms(2)] that sorted_nth_mono [OF assms(1), of 0 j] sorted_nth_mono [OF assms(1), of j k] by simp_all
    moreover have "hd h = h ! 0" using assms(2) by (intro hd_conv_nth) auto
    ultimately show ?thesis using eq by simp
  qed
  then have "{..k} \<subseteq> {j. j < length h \<and> r_snap (h ! j) = r_snap (hd h)}" using assms(2) by auto
  then have "card {..k} \<le> card {j. j < length h \<and> r_snap (h ! j) = r_snap (hd h)}"
    by (intro card_mono) simp_all
  with assms(3) show False by (simp add: length_filter_conv_card)
qed

text \<open>
  What a client does with the continuation note of a truncated page (\<open>deltaTruncationNote\<close>): it asks
  again from the last snapshot it has seen. An overflowing page, or the fuel running out, is \<open>None\<close>.
\<close>

fun delta_pages :: "engine \<Rightarrow> int \<Rightarrow> nat \<Rightarrow> int \<Rightarrow> diff_row list list option" where
  "delta_pages e limit 0 since = None"
| "delta_pages e limit (Suc fuel) since =
     (case delta_since e since limit of
        Inl _ \<Rightarrow> None
      | Inr (page, truncated, overflow) \<Rightarrow>
          if overflow then None
          else if truncated then map_option ((#) page) (delta_pages e limit fuel (r_snap (last page)))
          else Some [page])"

text \<open>
  A truncated page of a sorted history that does not overflow ends with the last row of a snapshot:
  the rows up to that snapshot are the page, and the rest of the history comes after it.
\<close>

lemma cut_at_boundary:
  assumes "sorted (map r_snap (ys @ zs))" "ys \<noteq> []" "zs \<noteq> []" "r_snap (last ys) \<noteq> r_snap (hd zs)"
  shows "filter (\<lambda>d. r_snap (last ys) < r_snap d) (ys @ zs) = zs"
proof -
  have le: "r_snap y \<le> r_snap (last ys)" if "y \<in> set ys" for y
    using that assms(1,2) by (cases ys rule: rev_cases) (auto simp: sorted_append)
  have lt: "r_snap (last ys) < r_snap z" if "z \<in> set zs" for z
  proof -
    obtain z0 zs' where z: "zs = z0 # zs'" using assms(3) by (cases zs) auto
    have "r_snap (last ys) \<le> r_snap z0" "r_snap z0 \<le> r_snap z"
      using assms(1,2) that by (auto simp: z sorted_append)
    with assms(4) show ?thesis by (simp add: z)
  qed
  show ?thesis by (rule sorted_prefix_split [OF assms(1) refl le lt])
qed

context query_source
begin

lemma delta_short:
  assumes "1 \<le> limit" "int (length (history a)) \<le> limit" "en_store e = q"
  shows "delta_since e a limit = Inr (history a, False, False)"
  using assms since_page [of "limit + 1" a] by (simp add: delta_since_def)

lemma delta_long:
  assumes "1 \<le> limit" "limit < int (length (history a))" "en_store e = q"
    and "length (filter (\<lambda>d. r_snap d = r_snap (hd (history a))) (history a)) \<le> nat limit"
  shows "\<exists>page rest. delta_since e a limit = Inr (page, True, False) \<and> history a = page @ rest
    \<and> page \<noteq> [] \<and> length page \<le> nat limit \<and> history (r_snap (last page)) = rest"
proof -
  let ?h = "history a" and ?k = "nat limit"
  let ?page = "take ?k ?h"
  have k: "?k < length ?h" "0 < ?k" "nat (limit + 1) = Suc ?k" using assms(1,2) by auto
  have ds: "q_diffs_since q a (limit + 1) = Inr (take (Suc ?k) ?h)"
    using since_page [of "limit + 1" a] assms(1) k(3) by simp
  have pg: "?page \<noteq> []" "length ?page = ?k" "hd ?page = hd ?h" using k by (auto simp: hd_take)
  have cut: "history (r_snap (last ys)) = zs" if w: "?h = ys @ zs" "ys \<noteq> []" "zs \<noteq> []"
      "r_snap (last ys) \<noteq> r_snap (hd zs)" for ys zs
  proof -
    have "last ys \<in> set ?h" using w(1,2) by simp
    then have "a \<le> r_snap (last ys)" using history_bound by fastforce
    then show ?thesis
      using cut_at_boundary [of ys zs] history_sorted [of a] w history_after by metis
  qed
  have run: "delta_since e a limit =
    (if r_snap (?h ! ?k) \<noteq> r_snap (last ?page) then Inr (?page, True, False)
     else if r_snap (hd ?h) = r_snap (last ?page) then Inr (?page, True, True)
     else Inr (trim_last_snapshot ?page, True, False))"
  proof -
    have "\<not> int (length (take (Suc ?k) ?h)) \<le> limit" using k(1) assms(1) by simp
    then show ?thesis using assms(1,3) k by (simp add: delta_since_def ds Let_def min_def hd_take)
  qed
  show ?thesis
  proof (cases "r_snap (?h ! ?k) = r_snap (last ?page)")
    case False
    have "hd (drop ?k ?h) = ?h ! ?k" "drop ?k ?h \<noteq> []" using k by (simp_all add: hd_drop_conv_nth)
    then have "history (r_snap (last ?page)) = drop ?k ?h"
      using cut [of ?page "drop ?k ?h"] pg(1) False by simp
    with False run pg show ?thesis by (intro exI [of _ ?page] exI [of _ "drop ?k ?h"]) simp
  next
    case same: True
    have "r_snap (hd ?page) \<noteq> r_snap (last ?page)"
      using first_snapshot_fits [OF history_sorted k(1) assms(4)] same pg(3) by simp
    then obtain tail where tail: "?page = trim_last_snapshot ?page @ tail" "trim_last_snapshot ?page \<noteq> []"
        "tail \<noteq> []" "r_snap (hd tail) = r_snap (last ?page)"
        "r_snap (last (trim_last_snapshot ?page)) \<noteq> r_snap (last ?page)"
      by (rule trim_splits [OF pg(1)])
    let ?ys = "trim_last_snapshot ?page"
    have whole: "?h = ?ys @ tail @ drop ?k ?h" using tail(1) by (metis append.assoc append_take_drop_id)
    moreover have "history (r_snap (last ?ys)) = tail @ drop ?k ?h"
      by (rule cut [OF whole tail(2)]) (use tail in simp_all)
    moreover have "length ?ys \<le> ?k" using tail(1) pg(2) by (metis le_add1 length_append)
    ultimately show ?thesis using run same tail(2) \<open>r_snap (hd ?page) \<noteq> r_snap (last ?page)\<close> pg(3)
      by (intro exI [of _ ?ys] exI [of _ "tail @ drop ?k ?h"]) simp
  qed
qed

lemma delta_pages_all:
  assumes "1 \<le> limit" "en_store e = q"
    and "\<And>sid. length (filter (\<lambda>d. r_snap d = sid) (history a)) \<le> nat limit"
    and "length (history a) < fuel"
  shows "\<exists>pages. delta_pages e limit fuel a = Some pages \<and> concat pages = history a
    \<and> list_all (\<lambda>p. length p \<le> nat limit) pages"
  using assms(3,4)
proof (induction fuel arbitrary: a)
  case (Suc fuel)
  show ?case
  proof (cases "int (length (history a)) \<le> limit")
    case True
    with delta_short [OF assms(1) True assms(2)] show ?thesis by (simp add: nat_le_iff le_nat_iff)
  next
    case False
    with delta_long [OF assms(1) _ assms(2) Suc.prems(1)] obtain page rest where
      p: "delta_since e a limit = Inr (page, True, False)" "history a = page @ rest" "page \<noteq> []"
        "length page \<le> nat limit" "history (r_snap (last page)) = rest" by auto
    have "length (filter (\<lambda>d. r_snap d = sid) rest) \<le> nat limit" for sid
      using Suc.prems(1) [of sid] by (simp add: p(2))
    moreover have "length rest < fuel" using Suc.prems(2) p(2,3) by (cases page) auto
    ultimately obtain pages where "delta_pages e limit fuel (r_snap (last page)) = Some pages"
      "concat pages = rest" "list_all (\<lambda>p. length p \<le> nat limit) pages"
      using Suc.IH [of "r_snap (last page)"] p(5) by auto
    with p show ?thesis by simp
  qed
qed simp

end

subsection \<open>The store is such a source\<close>

interpretation db_source: query_source "store_queries fts db" "later_diffs db" for fts db
proof
  show "n_id n = i" if "q_get_node (store_queries fts db) i = Inr n" for i n
    using that by (auto simp: store_queries_def get_node_def dest: node_at_SomeD split: option.splits)
  show "lookup_by n_id i ns = (case q_get_node (store_queries fts db) i of Inl _ \<Rightarrow> None | Inr n \<Rightarrow> Some n)"
    if "q_nodes_by_ids (store_queries fts db) is = Inr ns" "i \<in> set is" for "is" ns i
    using that lookup_by_filter_key [of n_id i "\<lambda>i. i \<in> set is" "db_nodes db"]
    by (auto simp: store_queries_def nodes_by_ids_def get_node_def node_at_def split: option.splits if_splits)
  show "q_diffs_since (store_queries fts db) a k = Inr (take (nat k) (later_diffs db a))" if "0 \<le> k" for a k
    using that by (simp add: store_queries_def diffs_since_def later_diffs_def sql_limit_def)
  show "sorted (map r_snap (later_diffs db a))" for a
    by (simp add: later_diffs_def)
  show "later_diffs db b = filter (\<lambda>d. b < r_snap d) (later_diffs db a)" if "a \<le> b" for a b
    using that unfolding later_diffs_def filter_sort by (auto intro!: arg_cong [where f = "sort_key r_snap"] filter_cong)
  show "a < r_snap d" if "d \<in> set (later_diffs db a)" for a d
    using that by (simp add: later_diffs_def)
qed

text \<open>C22::
  Paging is lossless and ends: when no single snapshot has more diffs than the limit, asking for pages
  from the last snapshot seen gives every diff recorded after the starting point exactly once, in
  snapshot order, in pages of at most \<open>limit\<close> rows; one request more than there are diffs is enough.
\<close>

theorem delta_pages_complete:
  assumes "1 \<le> limit" "\<forall>sid. int (length (diffs_by_snapshot db sid)) \<le> limit"
  shows "\<exists>pages. delta_pages (new_engine (store_queries fts db)) limit (Suc (length (db_diffs db))) since = Some pages
    \<and> concat pages = later_diffs db since \<and> list_all (\<lambda>p. int (length p) \<le> limit) pages"
proof -
  have "length (filter (\<lambda>d. r_snap d = sid) (later_diffs db since)) \<le> nat limit" for sid
  proof -
    have "filter (\<lambda>d. r_snap d = sid) (later_diffs db since)
        = sort_key r_snap (filter (\<lambda>d. since < r_snap d) (diffs_by_snapshot db sid))"
      unfolding later_diffs_def diffs_by_snapshot_def filter_sort
      by (intro arg_cong [where f = "sort_key r_snap"]) (auto intro: filter_cong)
    then have "length (filter (\<lambda>d. r_snap d = sid) (later_diffs db since)) \<le> length (diffs_by_snapshot db sid)"
      by simp
    with assms(2) show ?thesis by (metis le_nat_iff nat_int order_trans zle_int of_nat_0_le_iff)
  qed
  note few = this
  have fuel: "length (later_diffs db since) < Suc (length (db_diffs db))"
    by (simp add: later_diffs_def less_Suc_eq_le)
  have "en_store (new_engine (store_queries fts db)) = store_queries fts db" by (simp add: new_engine_def)
  from db_source.delta_pages_all [OF assms(1) this few fuel] assms(1) show ?thesis
    by (simp add: le_nat_iff)
qed

subsection \<open>Net changes\<close>

text \<open>What happened to one node between two states, as one diff row shows it.\<close>

definition net_change :: "node option \<Rightarrow> node option \<Rightarrow> (op \<times> bytes \<times> bytes \<times> bytes \<times> bytes) option" where
  "net_change before after =
     (case (before, after) of
        (None, None) \<Rightarrow> None
      | (None, Some a) \<Rightarrow> Some (OpAdd, [], [], n_hash a, n_content a)
      | (Some b, None) \<Rightarrow> Some (OpRem, n_hash b, n_content b, [], [])
      | (Some b, Some a) \<Rightarrow> if n_content b = n_content a then None
          else Some (OpMod, n_hash b, n_content b, n_hash a, n_content a))"

definition shown_change :: "diff_row \<Rightarrow> bytes \<times> bytes \<times> bytes \<times> bytes \<times> bytes" where
  "shown_change d = (r_op d, r_old_hash d, r_old_content d, r_new_hash d, r_new_content d)"

text \<open>The first row of a node tells its state before, the last one its state after.\<close>

lemma recorded_rows:
  assumes "recorded ds v w"
  shows "(filter (\<lambda>d. r_node d = i) ds = [] \<longrightarrow> w i = v i)
    \<and> (filter (\<lambda>d. r_node d = i) ds \<noteq> [] \<longrightarrow> (\<exists>x. truthful (hd (filter (\<lambda>d. r_node d = i) ds)) (v i) x)
        \<and> (\<exists>x. truthful (last (filter (\<lambda>d. r_node d = i) ds)) x (w i)))"
  using assms
proof (induction rule: recorded.induct)
  case (recorded_Cons d v x ds w)
  then show ?case
    by (cases "r_node d = i"; cases "filter (\<lambda>d. r_node d = i) ds = []") auto
qed simp

lemma truthful_before: "truthful d b x \<Longrightarrow> (r_op d = ''add'' \<longleftrightarrow> b = None)
    \<and> (\<forall>n. b = Some n \<longrightarrow> r_old_hash d = n_hash n \<and> r_old_content d = n_content n)"
  by (auto simp: truthful_def matches_old_def)

lemma truthful_after: "truthful d x a \<Longrightarrow> (r_op d = ''rem'' \<longleftrightarrow> a = None)
    \<and> (\<forall>n. a = Some n \<longrightarrow> r_new_hash d = n_hash n \<and> r_new_content d = n_content n)"
  by (auto simp: truthful_def matches_new_def)

lemma consolidate_bracket_net:
  assumes "truthful first b x" "truthful final y a"
  shows "map shown_change (consolidate_bracket first final) =
    (case net_change b a of None \<Rightarrow> [] | Some (p, oh, oc, nh, nc) \<Rightarrow> [(op_string p, oh, oc, nh, nc)])"
  using truthful_before [OF assms(1)] truthful_after [OF assms(2)]
  by (cases b; cases a)
    (simp_all add: consolidate_bracket_def Let_def net_row_def net_change_def shown_change_def op_string_def)

lemma consolidate_bracket_node: "d \<in> set (consolidate_bracket first final) \<Longrightarrow> r_node d = r_node first"
  by (auto simp: consolidate_bracket_def Let_def net_row_def split: if_splits)

lemma length_consolidate_bracket: "length (consolidate_bracket first final) \<le> 1"
  by (simp add: consolidate_bracket_def Let_def)

lemma lookup_concat:
  assumes "\<And>i d. i \<in> set is \<Longrightarrow> d \<in> set (f i) \<Longrightarrow> key d = i" "distinct is" "\<And>i. length (f i) \<le> 1"
  shows "distinct (map key (concat (map f is)))"
    "lookup_by key i (concat (map f is)) = (if i \<in> set is then (case f i of [] \<Rightarrow> None | d # _ \<Rightarrow> Some d) else None)"
proof -
  show "distinct (map key (concat (map f is)))"
    using assms
  proof (induction "is")
    case (Cons j js)
    have "distinct (map key (f j))" using Cons.prems(3) [of j] by (cases "f j") auto
    moreover have "key ` set (f j) \<subseteq> {j}" by (metis Cons.prems(1) image_subsetI list.set_intros(1) singletonI)
    moreover have "key ` set (concat (map f js)) \<subseteq> set js"
    proof
      fix y assume "y \<in> key ` set (concat (map f js))"
      then obtain i d where "i \<in> set js" "d \<in> set (f i)" "y = key d" by auto
      then show "y \<in> set js" using Cons.prems(1) [of i d] by simp
    qed
    moreover have "j \<notin> set js" using Cons.prems(2) by simp
    ultimately have "set (map key (f j)) \<inter> set (map key (concat (map f js))) = {}" by (simp only: set_map) blast
    moreover have "distinct (map key (concat (map f js)))"
      by (rule Cons.IH) (use Cons.prems in \<open>auto intro: Cons.prems(1)\<close>)
    ultimately show ?case using \<open>distinct (map key (f j))\<close> by (simp only: list.map concat.simps map_append distinct_append)
  qed simp
  show "lookup_by key i (concat (map f is)) = (if i \<in> set is then (case f i of [] \<Rightarrow> None | d # _ \<Rightarrow> Some d) else None)"
    using assms(1)
  proof (induction "is")
    case (Cons j js)
    have "lookup_by key i (f j) = (if i = j then (case f j of [] \<Rightarrow> None | d # _ \<Rightarrow> Some d) else None)"
      using Cons.prems [of j] by (cases "f j") (auto simp: lookup_by_None_iff)
    with Cons show ?case by (auto simp: lookup_by_append split: option.splits list.splits)
  qed simp
qed

lemma later_diffs_between:
  assumes "a \<le> b"
  shows "later_diffs db a = diffs_between db a b @ later_diffs db b"
proof -
  let ?ds = "db_diffs db"
  let ?low = "filter (\<lambda>d. a < r_snap d \<and> r_snap d \<le> b) ?ds" and ?high = "filter (\<lambda>d. b < r_snap d) ?ds"
  have "sort_key r_snap (filter (\<lambda>d. a < r_snap d) ?ds) = sort_key r_snap ?low @ sort_key r_snap ?high"
  proof (rule properties_for_sort_key)
    show "mset (sort_key r_snap ?low @ sort_key r_snap ?high) = mset (filter (\<lambda>d. a < r_snap d) ?ds)"
    proof -
      have "mset (filter (\<lambda>d. a < r_snap d) xs) = mset (filter (\<lambda>d. a < r_snap d \<and> r_snap d \<le> b) xs)
          + mset (filter (\<lambda>d. b < r_snap d) xs)" for xs
        using assms by (induction xs) auto
      from this [of ?ds] show ?thesis by simp
    qed
    show "filter (\<lambda>d. r_snap z = r_snap d) (sort_key r_snap ?low @ sort_key r_snap ?high)
        = filter (\<lambda>d. r_snap z = r_snap d) (filter (\<lambda>d. a < r_snap d) ?ds)" for z
    proof -
      have stable: "filter (\<lambda>d. r_snap z = r_snap d) (sort_key r_snap xs) = filter (\<lambda>d. r_snap z = r_snap d) xs" for xs
        using sort_key_stable [of r_snap "r_snap z" xs] by (simp add: eq_commute)
      have "filter (\<lambda>d. r_snap z = r_snap d) ?low @ filter (\<lambda>d. r_snap z = r_snap d) ?high
          = filter (\<lambda>d. r_snap z = r_snap d) (filter (\<lambda>d. a < r_snap d) ?ds)"
      proof (cases "r_snap z \<le> b")
        case True
        then have "filter (\<lambda>d. r_snap z = r_snap d) ?high = []" by (auto simp: filter_empty_conv)
        moreover have "filter (\<lambda>d. r_snap z = r_snap d) ?low = filter (\<lambda>d. r_snap z = r_snap d) (filter (\<lambda>d. a < r_snap d) ?ds)"
          using True by (auto intro!: filter_cong)
        ultimately show ?thesis by simp
      next
        case False
        then have "filter (\<lambda>d. r_snap z = r_snap d) ?low = []" by (auto simp: filter_empty_conv)
        moreover have "filter (\<lambda>d. r_snap z = r_snap d) ?high = filter (\<lambda>d. r_snap z = r_snap d) (filter (\<lambda>d. a < r_snap d) ?ds)"
          using False assms by (auto intro!: filter_cong)
        ultimately show ?thesis by simp
      qed
      then show ?thesis unfolding filter_append stable .
    qed
    show "sorted (map r_snap (sort_key r_snap ?low @ sort_key r_snap ?high))"
      by (auto simp: sorted_append)
  qed
  then show ?thesis by (simp add: later_diffs_def diffs_between_def)
qed

lemma recorded_append_split:
  "recorded (xs @ ys) v u \<Longrightarrow> \<exists>m. recorded xs v m \<and> recorded ys m u"
proof (induction xs arbitrary: v)
  case (Cons d xs)
  from Cons.prems show ?case
    by (auto elim!: recorded_ConsE dest!: Cons.IH intro: recorded.intros)
qed (auto intro: recorded_Nil)

lemma recorded_before_unique:
  assumes "recorded ds v (core_view db)" "recorded ds w (core_view db)" "distinct (node_ids db)"
  shows "v = w"
  using fold_reverse_recorded [OF assms(1), of "\<lparr>rr_nodes = get_all_nodes db, rr_skipped = []\<rparr>"]
    fold_reverse_recorded [OF assms(2), of "\<lparr>rr_nodes = get_all_nodes db, rr_skipped = []\<rparr>"]
    cores_all_nodes [OF assms(3)] by simp

lemma recorded_between:
  assumes "db_ok db" "a \<le> b" "restorable db a v" "restorable db b w"
  shows "recorded (diffs_between db a b) v w"
proof -
  obtain m where m: "recorded (diffs_between db a b) v m" "recorded (later_diffs db b) m (core_view db)"
    using assms(3) recorded_append_split unfolding restorable_def later_diffs_between [OF assms(2)] by blast
  moreover have "m = w"
  proof (rule recorded_before_unique [OF m(2)])
    show "recorded (later_diffs db b) w (core_view db)" using assms(4) by (simp add: restorable_def)
    show "distinct (node_ids db)" using assms(1) by (simp add: db_ok_def keys_ok_def)
  qed
  ultimately show ?thesis by simp
qed

lemma consolidate_net:
  assumes "recorded ds v w"
  shows "distinct (map r_node (consolidate_diffs ds))"
    "map_option shown_change (lookup_by r_node i (consolidate_diffs ds)) =
      map_option (\<lambda>(p, rest). (op_string p, rest)) (net_change (v i) (w i))"
proof -
  let ?rows = "\<lambda>i. filter (\<lambda>d. r_node d = i) ds"
  let ?f = "\<lambda>i. consolidate_bracket (hd (?rows i)) (last (?rows i))"
  let ?is = "first_occs (map r_node ds)"
  have all: "consolidate_diffs ds = concat (map ?f ?is)" by (simp add: consolidate_diffs_def Let_def)
  have rows: "?rows i \<noteq> [] \<longleftrightarrow> i \<in> set ?is" for i by (auto simp: filter_empty_conv)
  have node: "r_node d = i" if "i \<in> set ?is" "d \<in> set (?f i)" for i d
  proof -
    have "hd (?rows i) \<in> set (?rows i)" using that(1) rows by (intro hd_in_set) blast
    then show ?thesis using consolidate_bracket_node [OF that(2)] by simp
  qed
  note lookup = lookup_concat [of ?is ?f r_node, OF node distinct_first_occs length_consolidate_bracket]
  have found: "lookup_by r_node i (consolidate_diffs ds) =
      (if i \<in> set ?is then (case ?f i of [] \<Rightarrow> None | d # _ \<Rightarrow> Some d) else None)"
    unfolding all by (rule lookup(2))
  show "distinct (map r_node (consolidate_diffs ds))" unfolding all by (rule lookup(1))
  show "map_option shown_change (lookup_by r_node i (consolidate_diffs ds)) =
      map_option (\<lambda>(p, rest). (op_string p, rest)) (net_change (v i) (w i))"
  proof (cases "i \<in> set ?is")
    case False
    then have "w i = v i" using recorded_rows [OF assms, of i] rows by blast
    moreover have "net_change (v i) (v i) = None" by (simp add: net_change_def split: option.split)
    ultimately show ?thesis using False unfolding found by simp
  next
    case True
    then obtain x y where "truthful (hd (?rows i)) (v i) x" "truthful (last (?rows i)) y (w i)"
      using recorded_rows [OF assms, of i] rows by blast
    from consolidate_bracket_net [OF this] show ?thesis
      unfolding found using True by (cases "?f i") (auto split: option.splits)
  qed
qed

text \<open>C23::
  \<open>MemoryDiff\<close> between two snapshots shows exactly the net change: for snapshots whose states the
  history keeps, the consolidated rows name each node at most once, with an addition, removal or change
  and both texts and hashes precisely when the two states differ that way, however often the node
  changed in between; a node with the same text in both states is not listed.
\<close>

theorem diff_is_net_change:
  assumes "db_ok db" "a \<le> b" "restorable db a v" "restorable db b w"
  shows "\<exists>ds. diff_between (new_engine (store_queries fts db)) a b = Inr ds \<and> distinct (map r_node ds)
    \<and> (\<lambda>i. map_option shown_change (lookup_by r_node i ds)) =
      (\<lambda>i. map_option (\<lambda>(p, rest). (op_string p, rest)) (net_change (v i) (w i)))"
  using consolidate_net [OF recorded_between [OF assms]]
  by (simp add: diff_between_def new_engine_def store_queries_def)

lemma subseq_set: "subseq xs ys \<Longrightarrow> set xs \<subseteq> set ys"
  by (induction rule: list_emb.induct) auto

lemma sorted_wrt_subseq: "subseq xs ys \<Longrightarrow> sorted_wrt R ys \<Longrightarrow> sorted_wrt R xs"
proof (induction rule: list_emb.induct)
  case (list_emb_Cons2 x y xs ys)
  then show ?case using subseq_set by fastforce
qed auto

lemma distinct_subseq: "subseq xs ys \<Longrightarrow> distinct ys \<Longrightarrow> distinct xs"
  by (induction rule: list_emb.induct) (auto dest: subseq_set)

subsection \<open>Budgets\<close>

lemma fill_loop_filled:
  assumes "fill_loop budget ss out used = r" "0 \<le> used" "used \<le> budget" "\<forall>sn\<in>set ss. 0 \<le> cost_of sn"
  shows "\<exists>kept. qr_nodes r = out @ kept \<and> subseq kept ss \<and> qr_used r = used + sum_list (map cost_of kept)
    \<and> used \<le> qr_used r \<and> qr_used r \<le> budget \<and> (\<forall>sn\<in>set ss. sn \<notin> set kept \<longrightarrow> budget < qr_used r + cost_of sn)"
  using assms
proof (induction ss arbitrary: out used)
  case (Cons sn ss)
  show ?case
  proof (cases "used + cost_of sn > budget")
    case True
    with Cons.prems have "fill_loop budget ss out used = r" by (simp add: Let_def)
    from Cons.IH [OF this Cons.prems(2,3)] Cons.prems(4) obtain kept where
      k: "qr_nodes r = out @ kept" "subseq kept ss" "qr_used r = used + sum_list (map cost_of kept)"
        "used \<le> qr_used r" "qr_used r \<le> budget" "\<forall>x\<in>set ss. x \<notin> set kept \<longrightarrow> budget < qr_used r + cost_of x"
      by auto
    then show ?thesis using True by (intro exI [of _ kept]) auto
  next
    case False
    with Cons.prems have "fill_loop budget ss (out @ [sn]) (used + cost_of sn) = r" by (simp add: Let_def)
    from Cons.IH [OF this] Cons.prems False obtain kept where
      k: "qr_nodes r = (out @ [sn]) @ kept" "subseq kept ss"
        "qr_used r = used + cost_of sn + sum_list (map cost_of kept)" "used + cost_of sn \<le> qr_used r"
        "qr_used r \<le> budget" "\<forall>x\<in>set ss. x \<notin> set kept \<longrightarrow> budget < qr_used r + cost_of x" by auto
    then show ?thesis using Cons.prems(4) by (intro exI [of _ "sn # kept"]) auto
  qed
qed (auto intro!: exI [of _ "[]"])

lemma fill_budget_filled:
  assumes "0 \<le> budget" "\<forall>sn\<in>set ss. 0 \<le> cost_of sn"
  shows "subseq (qr_nodes (fill_budget ss budget)) ss"
    "qr_used (fill_budget ss budget) = sum_list (map cost_of (qr_nodes (fill_budget ss budget)))"
    "qr_used (fill_budget ss budget) \<le> budget"
    "sn \<in> set ss \<Longrightarrow> sn \<notin> set (qr_nodes (fill_budget ss budget)) \<Longrightarrow>
       budget < qr_used (fill_budget ss budget) + cost_of sn"
  using fill_loop_filled [OF fill_budget_def [symmetric] _ assms(1,2)] by auto

lemma unseen_facts:
  "distinct (map n_id (unseen_nodes seen ns)) \<and> n_id ` set (unseen_nodes seen ns) = n_id ` set ns - seen
   \<and> set (unseen_nodes seen ns) \<subseteq> set ns"
  by (induction seen ns rule: unseen_nodes.induct) auto

lemma set_rank_nodes: "set (rank_nodes ns now) = (\<lambda>n. \<lparr>sn_node = n, sn_score = score_node n 1 now\<rparr>) ` set ns"
  by (simp add: rank_nodes_def)

lemma distinct_rank_nodes:
  assumes "distinct (map n_id ns)"
  shows "distinct (map (n_id \<circ> sn_node) (rank_nodes ns now))"
proof -
  have "mset (map (n_id \<circ> sn_node) (rank_nodes ns now)) = mset (map n_id ns)"
    by (simp add: rank_nodes_def image_mset.compositionality comp_def)
  from mset_eq_imp_distinct_iff [OF this] assms show ?thesis by simp
qed

text \<open>The nodes around an anchor that a fetch may show.\<close>

definition fetch_context :: "db \<Rightarrow> node_id \<Rightarrow> int \<Rightarrow> node set" where
  "fetch_context db i depth = {m. n_id m \<noteq> i \<and> ((\<exists>as. get_ancestors db i = Some as \<and> m \<in> set as)
     \<or> m \<in> set (get_descendants db i (if depth > 0 then min depth 128 else 32)) \<or> m \<in> set (get_siblings db i))}"

lemma ancestors_rows: "ancestors_from db k i = Some as \<Longrightarrow> set as \<subseteq> set (db_nodes db)"
proof (induction db k i arbitrary: "as" rule: ancestors_from.induct)
  case (1 db k i)
  show ?case
  proof (cases "node_at db i")
    case None
    with 1(2) show ?thesis by simp
  next
    case (Some n)
    then have row: "n \<in> set (db_nodes db)" by (auto dest: node_at_SomeD)
    show ?thesis
    proof (cases k)
      case 0
      with 1(2) Some show ?thesis by simp
    next
      case (Suc k')
      show ?thesis
      proof (cases "n_parent n = []")
        case True
        with 1(2) Some Suc row show ?thesis by auto
      next
        case False
        with 1(2) Some Suc obtain bs where "ancestors_from db k' (n_parent n) = Some bs" "as = n # bs" by auto
        with 1(1) [OF Some Suc False] row show ?thesis by auto
      qed
    qed
  qed
qed

lemma context_rows:
  "get_ancestors db i = Some as \<Longrightarrow> set as \<subseteq> set (db_nodes db)"
  "set (get_descendants db i d) \<subseteq> set (db_nodes db)" "set (get_siblings db i) \<subseteq> set (db_nodes db)"
  using ancestors_rows
  by (auto simp: get_ancestors_def get_descendants_def nodes_by_ids_def get_siblings_def children_of_def
      split: option.splits if_splits)

lemma collect_context_set:
  assumes "acyclic (tree_edges db)" "distinct (node_ids db)"
    and "d = (if depth > 0 then min depth 128 else 32)"
  shows "\<exists>ctx. collect_context sched (store_queries fts db) i d = Inr ctx \<and> distinct (map n_id ctx)
    \<and> set ctx = fetch_context db i depth"
proof -
  obtain as' where anc: "get_ancestors db i = Some as'" using ancestors_total [OF assms(1)] by blast
  let ?batches = "[as', get_descendants db i d, get_siblings db i]"
  let ?ctx = "unseen_nodes {i} (concat ?batches)"
  have "[q_ancestors (store_queries fts db) i, q_descendants (store_queries fts db) i d, q_siblings (store_queries fts db) i]
      = map Inr ?batches"
    by (simp add: store_queries_def anc)
  then have run: "collect_context sched (store_queries fts db) i d = Inr ?ctx"
    by (simp add: collect_context_def gather_all_Inr del: list.map)
  have rows: "set (concat ?batches) \<subseteq> set (db_nodes db)" using context_rows anc by fastforce
  have same: "m = m'" if "m \<in> set (db_nodes db)" "m' \<in> set (db_nodes db)" "n_id m = n_id m'" for m m'
    using that assms(2) by (auto simp: node_ids_def distinct_map dest: inj_onD)
  have facts: "distinct (map n_id ?ctx)" "n_id ` set ?ctx = n_id ` set (concat ?batches) - {i}" "set ?ctx \<subseteq> set (concat ?batches)"
    using unseen_facts [of "{i}" "concat ?batches"] by blast+
  have "set ?ctx = {m \<in> set (concat ?batches). n_id m \<noteq> i}"
  proof (intro set_eqI iffI)
    fix m assume "m \<in> set ?ctx"
    with facts(2,3) show "m \<in> {m \<in> set (concat ?batches). n_id m \<noteq> i}" by (auto simp del: concat.simps set_concat)
  next
    fix m assume m: "m \<in> {m \<in> set (concat ?batches). n_id m \<noteq> i}"
    then have "n_id m \<in> n_id ` set ?ctx" unfolding facts(2) by (simp del: concat.simps set_concat)
    then obtain m' where "m' \<in> set ?ctx" "n_id m' = n_id m" by auto
    with same [of m' m] rows facts(3) m show "m \<in> set ?ctx" by auto
  qed
  also have "\<dots> = fetch_context db i depth" by (auto simp: fetch_context_def anc assms(3))
  finally show ?thesis using run facts(1) by blast
qed

text \<open>C24::
  \<open>MemoryFetch\<close> answers with the anchor last, after its ancestors, siblings and descendants down to the
  depth in ascending order of score, no node twice; the tokens it reports are those of its nodes. Without
  a budget the whole context is there. With one, the tokens stay within the budget (or the anchor's own
  tokens when these alone exceed it), and no node left out would still have fitted.
\<close>

theorem fetch_in_budget:
  assumes "acyclic (tree_edges db)" "distinct (node_ids db)" "list_all (\<lambda>n. 0 \<le> n_tokens n) (db_nodes db)"
    and "get_node db i = Inr n"
  shows "\<exists>ctx used. fetch sched now (new_engine (store_queries fts db)) i budget depth =
      Inr \<lparr>qr_nodes = ctx @ [\<lparr>sn_node = n, sn_score = score_node n 1 now\<rparr>], qr_used = used\<rparr>
    \<and> sorted_wrt (\<lambda>x y. sn_score x \<le> sn_score y) ctx \<and> distinct (i # map (n_id \<circ> sn_node) ctx)
    \<and> sn_node ` set ctx \<subseteq> fetch_context db i depth \<and> used = sum_list (map cost_of ctx) + n_tokens n
    \<and> (budget \<le> 0 \<longrightarrow> sn_node ` set ctx = fetch_context db i depth)
    \<and> (0 < budget \<longrightarrow> used \<le> max budget (n_tokens n)
        \<and> (\<forall>m\<in>fetch_context db i depth - sn_node ` set ctx. max budget (n_tokens n) < used + n_tokens m))"
proof -
  let ?q = "store_queries fts db" and ?d = "if depth > 0 then min depth 128 else 32"
  have id: "n_id n = i" using assms(4) by (auto simp: get_node_def dest: node_at_SomeD split: option.splits)
  obtain cs where cs: "collect_context sched ?q i ?d = Inr cs" "distinct (map n_id cs)" "set cs = fetch_context db i depth"
    using collect_context_set [OF assms(1,2) refl] by blast
  let ?ss = "rank_nodes cs now"
  let ?rest = "max (budget - n_tokens n) 0"
  let ?f = "if budget > 0 then fill_budget ?ss ?rest else all_nodes ?ss"
  have depth: "(if depth > 0 then clamp_depth depth default_max_depth max_depth_cap else default_max_depth) = ?d"
    by (auto simp: clamp_depth_def default_max_depth_def max_depth_cap_def)
  have run: "fetch sched now (new_engine ?q) i budget depth =
      Inr \<lparr>qr_nodes = rev (qr_nodes ?f) @ [\<lparr>sn_node = n, sn_score = score_node n 1 now\<rparr>], qr_used = qr_used ?f + n_tokens n\<rparr>"
  proof -
    have "q_get_node ?q i = Inr n" using assms(4) by (simp add: store_queries_def)
    then show ?thesis
      by (simp only: fetch_def new_engine_def engine.select_convs bind_result_simps Let_def id depth cs(1))
  qed
  have nodes: "sn_node ` set ?ss = set cs" by (simp add: set_rank_nodes image_image)
  have "set cs \<subseteq> set (db_nodes db)" by (auto simp: cs(3) fetch_context_def dest!: context_rows(1) subsetD [OF context_rows(2)]
      subsetD [OF context_rows(3)])
  then have nonneg: "\<forall>sn\<in>set ?ss. 0 \<le> cost_of sn"
    using assms(3) by (auto simp: set_rank_nodes cost_of_def list_all_iff)
  note filled = fill_budget_filled [OF _ nonneg, of ?rest]
  have sub: "subseq (qr_nodes ?f) ?ss" using filled(1) by (simp add: all_nodes_def)
  have kept: "sn_node ` set (qr_nodes ?f) \<subseteq> set cs"
    using subseq_set [OF sub] nodes by blast
  have "sorted_wrt (\<lambda>x y. sn_score y \<le> sn_score x) (qr_nodes ?f)"
    by (rule sorted_wrt_subseq [OF sub]) (simp add: rank_nodes_def sorted_wrt_sort_desc)
  then have sorted: "sorted_wrt (\<lambda>x y. sn_score x \<le> sn_score y) (rev (qr_nodes ?f))" by (simp add: sorted_wrt_rev)
  have "distinct (map (n_id \<circ> sn_node) (qr_nodes ?f))"
    using distinct_subseq [OF subseq_map [OF sub]] distinct_rank_nodes [OF cs(2)] by blast
  moreover have "i \<notin> (n_id \<circ> sn_node) ` set (qr_nodes ?f)"
  proof -
    have "i \<notin> n_id ` set cs" by (auto simp: cs(3) fetch_context_def)
    with kept show ?thesis unfolding image_comp [symmetric] by blast
  qed
  ultimately have dist: "distinct (i # map (n_id \<circ> sn_node) (rev (qr_nodes ?f)))"
    by (simp add: rev_map [symmetric])
  have used: "qr_used ?f = sum_list (map cost_of (rev (qr_nodes ?f)))"
    using filled(2) by (simp add: all_nodes_def rev_map [symmetric])
  have within: "qr_used ?f + n_tokens n \<le> max budget (n_tokens n)" if "0 < budget"
    using filled(3) that by simp
  have full: "max budget (n_tokens n) < qr_used ?f + n_tokens n + n_tokens m"
    if w: "0 < budget" "m \<in> set cs - sn_node ` set (rev (qr_nodes ?f))" for m
  proof -
    have "m \<in> sn_node ` set ?ss" using w(2) unfolding nodes by (rule DiffD1)
    then obtain sn where sn: "sn \<in> set ?ss" "sn_node sn = m" by (elim imageE) simp
    have "sn \<notin> set (qr_nodes ?f)" using w(2) sn(2) by (metis DiffD2 image_eqI set_rev)
    then have "?rest < qr_used ?f + cost_of sn" using filled(4) [OF _ sn(1)] w(1) by simp
    then show ?thesis using sn(2) by (simp add: cost_of_def)
  qed
  have everything: "sn_node ` set (rev (qr_nodes ?f)) = set cs" if "budget \<le> 0"
    using that nodes by (simp add: all_nodes_def)
  have kept': "sn_node ` set (rev (qr_nodes ?f)) \<subseteq> set cs" using kept by simp
  show ?thesis
    unfolding cs(3) [symmetric]
  proof (intro exI conjI impI ballI)
    show "sn_node ` set (rev (qr_nodes ?f)) \<subseteq> set cs" by (rule kept')
    show "qr_used ?f + n_tokens n = sum_list (map cost_of (rev (qr_nodes ?f))) + n_tokens n" by (simp only: used)
  qed (rule run sorted dist within full everything; assumption?)+
qed

subsection \<open>On concrete tables\<close>

definition no_fts :: fts_engine where
  "no_fts = (\<lambda>_ _ _. Inr [])"

theorem delta_pages_complete_witness:
  "\<exists>pages. delta_pages (new_engine (store_queries no_fts sample_history)) 1 2 0 = Some pages
     \<and> concat pages = [sample_mod] \<and> list_all (\<lambda>p. int (length p) \<le> 1) pages"
proof -
  have diffs: "db_diffs sample_history = [sample_mod]" "r_snap sample_mod = 2"
    by (simp_all add: sample_history_def sample_mod_def set_old_metadata_def empty_db_def)
  then have "\<forall>sid. int (length (diffs_by_snapshot sample_history sid)) \<le> 1" "later_diffs sample_history 0 = [sample_mod]"
    by (simp_all add: diffs_by_snapshot_def later_diffs_def)
  with delta_pages_complete [of 1 sample_history no_fts 0] diffs(1) show ?thesis by (simp add: numeral_2_eq_2)
qed

lemma sample_recorded: "restorable sample_history 1 [''a'' \<mapsto> core_of (blank_node ''a'' [] ''1'')]"
  "core_view sample_history = [''a'' \<mapsto> core_of (blank_node ''a'' [] ''2'')]"
proof -
  let ?b = "core_of (blank_node ''a'' [] ''1'')" and ?a = "core_of (blank_node ''a'' [] ''2'')"
  show view: "core_view sample_history = [''a'' \<mapsto> ?a]"
    by (auto simp: core_view_def node_at_def sample_history_def empty_db_def blank_node_def)
  have t: "truthful sample_mod (Some ?b) (Some ?a)"
    by (simp add: truthful_def matches_old_def matches_new_def set_old_metadata_eq)
      (simp add: sample_mod_def set_old_metadata_def blank_node_def core_of_def)
  have n: "r_node sample_mod = ''a''" "r_snap sample_mod = 2" "db_diffs sample_history = [sample_mod]"
    by (simp_all add: sample_history_def sample_mod_def set_old_metadata_def empty_db_def)
  have "recorded [sample_mod] [''a'' \<mapsto> ?b] [''a'' \<mapsto> ?a]"
    using t n(1) by (intro recorded_Cons [where x = "Some ?a"]) (auto simp: blank_node_def intro: recorded_Nil)
  then show "restorable sample_history 1 [''a'' \<mapsto> ?b]"
    by (simp add: restorable_def later_diffs_def view n)
qed

theorem diff_is_net_change_witness:
  "\<exists>ds. diff_between (new_engine (store_queries no_fts sample_history)) 1 2 = Inr ds
     \<and> map_option shown_change (lookup_by r_node ''a'' ds) = Some (''mod'', ''h1'', ''1'', ''h2'', ''2'')"
proof -
  have "restorable sample_history 2 (core_view sample_history)"
    by (rule restorable_head [OF sample_history_ok(1)]) (simp add: sample_history_def empty_db_def)
  from diff_is_net_change [OF sample_history_ok(1) _ sample_recorded(1) this, of no_fts]
  obtain ds where "diff_between (new_engine (store_queries no_fts sample_history)) 1 2 = Inr ds"
    "map_option shown_change (lookup_by r_node ''a'' ds) = map_option (\<lambda>(p, rest). (op_string p, rest))
       (net_change (Some (core_of (blank_node ''a'' [] ''1''))) (Some (core_of (blank_node ''a'' [] ''2''))))"
    by (auto simp: sample_recorded(2) fun_eq_iff)
  then show ?thesis
    by (simp add: net_change_def op_string_def) (simp add: blank_node_def core_of_def)
qed

theorem fetch_in_budget_witness:
  "\<exists>ctx used. fetch [] 0 (new_engine (store_queries no_fts sample_db)) ''p'' 5 0 =
      Inr \<lparr>qr_nodes = ctx @ [\<lparr>sn_node = blank_node ''p'' ''r'' ''mid'', sn_score = score_node (blank_node ''p'' ''r'' ''mid'') 1 0\<rparr>],
        qr_used = used\<rparr>
    \<and> sorted_wrt (\<lambda>x y. sn_score x \<le> sn_score y) ctx \<and> used \<le> max 5 (n_tokens (blank_node ''p'' ''r'' ''mid''))"
proof -
  have ok: "distinct (node_ids sample_db)" "list_all (\<lambda>n. 0 \<le> n_tokens n) (db_nodes sample_db)"
    using sample_db_ok(1) by (simp_all add: db_ok_def keys_ok_def)
      (simp add: sample_db_def empty_db_def blank_node_def)
  have "get_node sample_db ''p'' = Inr (blank_node ''p'' ''r'' ''mid'')"
    by (simp add: get_node_def node_at_def sample_db_def empty_db_def blank_node_def)
  from fetch_in_budget [OF sample_db_acyclic ok this, of "[]" 0 no_fts 5 0] show ?thesis by auto
qed

end
