(* ===== verification/Memory_Read.thy ===== *)
theory Memory_Read
  imports Query Memory_Write
begin

text \<open>
  The tools that read (\<open>pkg/mcp/tools\<close>: \<open>fetch.go\<close>, \<open>fetch_batch.go\<close>, \<open>search.go\<close>, \<open>related.go\<close>,
  \<open>delta.go\<close>, \<open>diff.go\<close>, \<open>history.go\<close>, \<open>tree.go\<close>), the text they answer with (\<open>pkg/query/format.go\<close>) and
  the bounded walk over a tree (\<open>internal/treewalk\<close>). The record \<open>reads\<close> holds what they work with:
  the tracker, the configured budgets, the search engine, the instant, the order in which concurrent
  queries end, the decimal format \<open>%.2f\<close> and the unified diff of the library \<open>go-udiff\<close>.
\<close>

record reads =
  rd_fts :: fts_engine
  rd_tracker :: "tracker option"
  rd_budgets :: budgets_config
  rd_now :: real
  rd_clock :: int
  rd_sched :: "nat list"
  rd_fixed2 :: "real \<Rightarrow> bytes"
  rd_unified :: "bytes \<Rightarrow> bytes \<Rightarrow> bytes"

definition eol :: bytes where
  "eol = [CHR 0x0A]"

definition rule_line :: bytes where
  "rule_line = eol @ ''---'' @ eol @ eol"

subsection \<open>Formats\<close>

definition query_format :: "(real \<Rightarrow> bytes) \<Rightarrow> query_result \<Rightarrow> bytes" where
  "query_format fixed2 r = join_with rule_line
     (map (\<lambda>sn. ''['' @ n_type (sn_node sn) @ ''] (score='' @ fixed2 (sn_score sn) @ '')'' @ eol
        @ n_content (sn_node sn) @ eol) (qr_nodes r))"

definition format_compact :: "(real \<Rightarrow> bytes) \<Rightarrow> query_result \<Rightarrow> bytes" where
  "format_compact fixed2 r =
     (if qr_nodes r = [] then ''no results''
      else concat (map (\<lambda>sn. let n = sn_node sn in ''['' @ n_type n @ ''] '' @ n_label n @ '' (id='' @ n_id n
        @ '' file='' @ n_source n @ '' score='' @ fixed2 (sn_score sn) @ '' temp='' @ fixed2 (n_temp n)
        @ '' tok='' @ itoa (n_tokens n) @ '')'' @ eol) (qr_nodes r)))"

definition over_budget :: "query_result \<Rightarrow> node_id list \<Rightarrow> node_id list \<Rightarrow> node_id list" where
  "over_budget r requested missing = first_occs (filter (\<lambda>i.
     i \<notin> n_id ` sn_node ` set (qr_nodes r) \<and> i \<notin> set missing) requested)"

text \<open>A block after what is already written, with a rule between them.\<close>

definition add_block :: "bytes \<Rightarrow> bytes \<Rightarrow> node_id list \<Rightarrow> bytes" where
  "add_block b title is =
     (if is = [] then b
      else b @ (if b = [] then [] else rule_line) @ title @ join_with '', '' is @ eol)"

definition format_batch :: "(real \<Rightarrow> bytes) \<Rightarrow> query_result \<Rightarrow> node_id list \<Rightarrow> node_id list \<Rightarrow> bytes" where
  "format_batch fixed2 r requested missing =
     (let over = over_budget r requested missing
      in if qr_nodes r = [] \<and> missing = [] \<and> over = [] then ''no results''
         else add_block (add_block (if qr_nodes r = [] then [] else query_format fixed2 r)
           ''not found: '' missing) ''over budget: '' over)"

definition diff_body :: "(bytes \<Rightarrow> bytes \<Rightarrow> bytes) \<Rightarrow> bytes \<Rightarrow> bytes \<Rightarrow> bytes" where
  "diff_body unified old new =
     (let u = unified old new
      in if u = [] then []
         else let parts = split_on_n (CHR 0x0A) 3 u in if length parts < 3 then u else parts ! 2)"

definition format_diffs :: "(bytes \<Rightarrow> bytes \<Rightarrow> bytes) \<Rightarrow> diff_row list \<Rightarrow> bytes" where
  "format_diffs unified ds =
     (if ds = [] then ''no changes''
      else join_with eol (map (\<lambda>d. ''['' @ r_op d @ ''] '' @ r_node d @ eol
        @ diff_body unified (r_old_content d) (r_new_content d)) ds))"

definition related_line :: "(real \<Rightarrow> bytes) \<Rightarrow> related_node \<Rightarrow> bytes" where
  "related_line fixed2 r = (let n = rn_node r in ''['' @ n_type n @ ''] '' @ n_label n @ '' (id='' @ n_id n
     @ '' file='' @ n_source n @ '' hop='' @ itoa (rn_hop r) @ '' weight='' @ fixed2 (rn_weight r)
     @ '' temp='' @ fixed2 (n_temp n) @ '' tok='' @ itoa (n_tokens n) @ '')'' @ eol)"

text \<open>The loop of \<open>FormatRelated\<close> stops at the first node over the budget.\<close>

fun related_shown :: "int \<Rightarrow> int \<Rightarrow> related_node list \<Rightarrow> related_node list" where
  "related_shown budget used [] = []"
| "related_shown budget used (r # rs) =
     (if budget > 0 \<and> used + n_tokens (rn_node r) > budget then []
      else r # related_shown budget (used + n_tokens (rn_node r)) rs)"

definition format_related :: "(real \<Rightarrow> bytes) \<Rightarrow> related_node list \<Rightarrow> int \<Rightarrow> bytes" where
  "format_related fixed2 rs budget =
     (if rs = [] then ''no related nodes''
      else let b = concat (map (related_line fixed2) (related_shown budget 0 rs))
        in if b = [] then ''no related nodes'' else b)"

subsection \<open>Walking a tree\<close>

definition tree_max_depth :: int where "tree_max_depth = 128"

definition relative_to :: "bytes \<Rightarrow> bytes \<Rightarrow> bytes" where
  "relative_to source rt =
     (if rt = [] \<or> \<not> is_abs source then source
      else case path_rel rt source of None \<Rightarrow> source
        | Some rel \<Rightarrow> if has_prefix rel ''..'' then source else rel)"

text \<open>
  \<open>treewalk.Walk\<close> with a positive maximal depth, as the visits it makes before the descents: a node, its
  parent and its depth. \<open>fuel\<close> is the number of levels still to come.
\<close>

fun walk_from :: "(node_id \<Rightarrow> node list) \<Rightarrow> nat \<Rightarrow> nat \<Rightarrow> node option \<Rightarrow> node \<Rightarrow> (node \<times> node option \<times> nat) list" where
  "walk_from children 0 depth par n = [(n, par, depth)]"
| "walk_from children (Suc fuel) depth par n =
     (n, par, depth) # concat (map (walk_from children fuel (Suc depth) (Some n)) (children (n_id n)))"

definition tree_line :: "(real \<Rightarrow> bytes) \<Rightarrow> bytes \<Rightarrow> node \<times> node option \<times> nat \<Rightarrow> bytes" where
  "tree_line fixed2 rt visit = (case visit of (n, par, depth) \<Rightarrow>
     concat (replicate depth ''  '') @ ''['' @ n_type n @ ''] '' @ n_label n @ '' (id='' @ n_id n
     @ (if n_source n \<noteq> (case par of None \<Rightarrow> [] | Some p \<Rightarrow> n_source p)
        then '' file='' @ relative_to (n_source n) rt else [])
     @ '' temp='' @ fixed2 (n_temp n) @ '' tok='' @ itoa (n_tokens n) @ '')'' @ eol)"

definition write_tree :: "(real \<Rightarrow> bytes) \<Rightarrow> (node_id \<Rightarrow> node list) \<Rightarrow> node \<Rightarrow> bytes \<Rightarrow> int \<Rightarrow> bytes" where
  "write_tree fixed2 children n rt max_depth =
     concat (map (tree_line fixed2 rt) (walk_from children (nat max_depth) 0 None n))"

subsection \<open>The handlers\<close>

definition boost_nodes :: "reads \<Rightarrow> node_id list \<Rightarrow> db \<Rightarrow> db" where
  "boost_nodes r is db =
     (case rd_tracker r of None \<Rightarrow> db
      | Some t \<Rightarrow> if is = [] then db else record_access db_node_store (rd_clock r) t is db)"

definition engine_of :: "reads \<Rightarrow> db \<Rightarrow> engine" where
  "engine_of r db = new_engine (store_queries (rd_fts r) db)"

definition result_ids :: "query_result \<Rightarrow> node_id list" where
  "result_ids q = map (\<lambda>sn. n_id (sn_node sn)) (qr_nodes q)"

definition handle_fetch :: "reads \<Rightarrow> node_id \<Rightarrow> int \<Rightarrow> int \<Rightarrow> db \<Rightarrow> bytes result \<times> db" where
  "handle_fetch r anchor budget depth db =
     (if anchor = [] then (Inl (Failure ''anchor is required''), db)
      else case fetch (rd_sched r) (rd_now r) (engine_of r db) anchor
          (resolve_budget budget (bg_fetch (rd_budgets r)) 0) depth of
        Inl e \<Rightarrow> (Inl e, db)
      | Inr q \<Rightarrow> (Inr (query_format (rd_fixed2 r) q), boost_nodes r (result_ids q) db))"

definition max_batch :: nat where "max_batch = 256"

definition handle_fetch_batch :: "reads \<Rightarrow> node_id list \<Rightarrow> int \<Rightarrow> db \<Rightarrow> bytes result \<times> db" where
  "handle_fetch_batch r is budget db =
     (if is = [] then (Inl (Failure ''node_ids must be non-empty''), db)
      else if length is > max_batch then (Inl (Failure ''node_ids length exceeds cap''), db)
      else case fetch_batch (rd_now r) (engine_of r db) is
          (resolve_budget budget (bg_fetch_batch (rd_budgets r)) 0) of
        Inl e \<Rightarrow> (Inl e, db)
      | Inr (q, missing) \<Rightarrow>
          (Inr (format_batch (rd_fixed2 r) q is missing), boost_nodes r (result_ids q) db))"

definition handle_search :: "reads \<Rightarrow> bytes \<Rightarrow> int \<Rightarrow> db \<Rightarrow> bytes result \<times> db" where
  "handle_search r query budget db =
     (case search (rd_now r) (engine_of r db) query
          (resolve_budget budget (bg_search (rd_budgets r)) 0) of
        Inl e \<Rightarrow> (Inl e, db)
      | Inr q \<Rightarrow> (Inr (format_compact (rd_fixed2 r) q), boost_nodes r (result_ids q) db))"

record related_input =
  ri_anchor :: node_id
  ri_direction :: bytes
  ri_depth :: int
  ri_budget :: int
  ri_weight_min :: real

definition handle_related :: "reads \<Rightarrow> related_input \<Rightarrow> db \<Rightarrow> bytes result \<times> db" where
  "handle_related r input db =
     (if ri_anchor input = [] then (Inl (Failure ''anchor is required''), db)
      else let related = get_related_nodes db (ri_anchor input)
            \<lparr>ro_direction = (if ri_direction input = [] then ''both'' else ri_direction input),
             ro_max_depth = clamp_depth (ri_depth input) 1 5, ro_weight_min = ri_weight_min input, ro_limit = 100\<rparr>
        in (Inr (format_related (rd_fixed2 r) related (resolve_budget (ri_budget input) (bg_related (rd_budgets r)) 1000)),
            boost_nodes r (map (\<lambda>x. n_id (rn_node x)) related) db))"

definition default_delta_limit :: int where "default_delta_limit = 500"
definition max_delta_limit :: int where "max_delta_limit = 5000"

definition resolve_delta_limit :: "int \<Rightarrow> int" where
  "resolve_delta_limit k =
     (if k \<le> 0 then default_delta_limit else if k > max_delta_limit then max_delta_limit else k)"

definition delta_truncation_note :: "diff_row list \<Rightarrow> int \<Rightarrow> int \<Rightarrow> bool \<Rightarrow> bytes" where
  "delta_truncation_note ds since limit overflow =
     (let newest = r_snap (last ds)
      in if \<not> overflow then ''note: truncated at limit '' @ itoa limit
           @ ''; more changes exist. Re-call MemoryDelta(since_snapshot='' @ itoa newest @ '') to continue.''
         else if limit < max_delta_limit then ''note: snapshot '' @ itoa newest @ '' alone has more than ''
           @ itoa limit @ '' diffs; raise limit (max '' @ itoa max_delta_limit @ '') to see the rest.''
         else ''note: snapshot '' @ itoa newest @ '' exceeds the max page of '' @ itoa max_delta_limit
           @ '' diffs and can'' @ [CHR 0x27] @ ''t be paged by MemoryDelta; read it in full with MemoryDiff(from_snapshot_id=''
           @ itoa since @ '', to_snapshot_id='' @ itoa newest @ '').'')"

definition handle_delta :: "reads \<Rightarrow> int \<Rightarrow> int \<Rightarrow> db \<Rightarrow> bytes result" where
  "handle_delta r since k db =
     (let limit = resolve_delta_limit k
      in bind_result (delta_since (engine_of r db) since limit) (\<lambda>(ds, truncated, overflow).
        Inr (if ds = [] then ''no changes''
          else concat (map (\<lambda>d. ''['' @ r_op d @ ''] '' @ r_node d @ '' (snapshot '' @ itoa (r_snap d) @ '')'' @ eol) ds)
            @ (if truncated then eol @ delta_truncation_note ds since limit overflow @ eol else []))))"

definition handle_diff :: "reads \<Rightarrow> int \<Rightarrow> int \<Rightarrow> db \<Rightarrow> bytes result" where
  "handle_diff r a b db =
     (if a > b then Inl (Failure ''from_snapshot_id must be <= to_snapshot_id'')
      else bind_result (diff_between (engine_of r db) a b) (\<lambda>ds. Inr (format_diffs (rd_unified r) ds)))"

definition history_entry :: "diff_row \<Rightarrow> bytes" where
  "history_entry d = ''snapshot '' @ itoa (r_snap d) @ '': '' @ r_op d @ eol
     @ (if r_old_content d \<noteq> [] then ''  old: '' @ cut_text (r_old_content d) 100 @ eol else [])
     @ (if r_new_content d \<noteq> [] then ''  new: '' @ cut_text (r_new_content d) 100 @ eol else [])"

definition handle_history :: "node_id \<Rightarrow> int \<Rightarrow> db \<Rightarrow> bytes result" where
  "handle_history anchor depth db =
     (if anchor = [] then Inl (Failure ''anchor is required'')
      else let ds = diffs_for_node db anchor
        in if ds = []
           then (case get_node db anchor of
               Inl NoRows \<Rightarrow> Inl (Failure (''node_id not found: '' @ anchor))
             | Inl e \<Rightarrow> Inl e
             | Inr _ \<Rightarrow> Inr (''no history for '' @ anchor))
           else Inr (concat (map history_entry (take (nat (clamp_depth depth 10 tree_max_depth)) ds))))"

definition handle_tree :: "reads \<Rightarrow> node_id \<Rightarrow> int \<Rightarrow> db \<Rightarrow> bytes result" where
  "handle_tree r rt depth db =
     (let all = get_all_nodes db; (tops, children) = build_tree all
      in case (if rt = [] then Inr tops
               else case lookup_by n_id rt all of
                 None \<Rightarrow> Inl (Failure ''failed to get root: node not found'')
               | Some n \<Rightarrow> Inr [n]) of
          Inl e \<Rightarrow> Inl e
        | Inr starts \<Rightarrow>
            let b = concat (map (\<lambda>n. write_tree (rd_fixed2 r) children n (latest_compile_root db)
                  (clamp_depth depth 5 tree_max_depth)) starts)
            in Inr (if b = [] then ''empty tree'' else b))"

subsection \<open>Reads leave the versions alone\<close>

lemma update_rows_versions:
  assumes "exact db" "\<And>n. core_of (f n) = core_of n"
  shows "exact (update_rows P f db)" "versions (update_rows P f db) = versions db"
    "core_view (update_rows P f db) = core_view db"
proof -
  have id: "n_id (f n) = n_id n" "n_parent (f n) = n_parent n" for n
    using assms(2) [of n] by (auto simp: core_of_node)
  have core: "core_of ((f n)\<lparr>n_updated := k\<rparr>) = core_of n" for n k
    using assms(2) [of n] by (auto simp: core_of_node)
  show view: "core_view (update_rows P f db) = core_view db"
  proof
    fix i
    show "core_view (update_rows P f db) i = core_view db i"
      using id core by (cases "node_at db i") (simp_all add: core_view_def view_simps)
  qed
  have ids: "node_ids (update_rows P f db) = node_ids db" using id by (intro node_ids_update_rows) simp
  have same: "db_defer (update_rows P f db) = db_defer db" "db_next_snapshot (update_rows P f db) = db_next_snapshot db"
    by (simp_all add: update_rows_def)
  have ok: "db_ok db" using assms(1) by (simp add: exact_def)
  then have "parents_ok (update_rows P f db)" using id(2) ids
    by (auto simp: db_ok_def fk_ok_def parents_ok_def list_all_iff update_rows_def)
  moreover have "snapshots_ok (update_rows P f db)" "edges_ok (update_rows P f db)" "keys_ok (update_rows P f db)"
    using ok ids by (simp_all add: db_ok_def fk_ok_def snapshots_ok_alt edges_ok_def keys_ok_def snapshot_ids_def
        frame_simps same)
  ultimately have "db_ok (update_rows P f db)" by (simp add: db_ok_def fk_ok_def)
  from same_versions [OF assms(1) this _ view] assms(1)
  show "exact (update_rows P f db)" "versions (update_rows P f db) = versions db"
    by (simp_all add: frame_simps same exact_def)
qed

lemma core_boost_row: "core_of (boost_row now b n) = core_of n"
  by (simp add: boost_row_def core_of_def)

lemma boost_nodes_versions:
  assumes "exact db"
  shows "exact (boost_nodes r is db)" "versions (boost_nodes r is db) = versions db"
    "core_view (boost_nodes r is db) = core_view db"
  using assms update_rows_versions [OF assms core_boost_row]
  by (auto simp: boost_nodes_def record_access_def db_node_store_def boost_temperature_batch_def split: option.split)

end
