(* ===== verification/Resolver.thy ===== *)
theory Resolver
  imports Store_Relations Context_Tree
begin

text \<open>
  \<open>pkg/relations\<close>: wikilink references become edges between nodes, or pending rows that every later
  compile tries again. The resolver reads only the nodes table, which the run does not change.
\<close>

text \<open>A failing \<open>GetNode\<close> counts as a miss, so \<open>Resolve\<close> never fails on the modelled store.\<close>

definition resolve :: "wikilink_ref \<Rightarrow> db \<Rightarrow> node_id" where
  "resolve ref db =
     (if ref_id_hint ref \<noteq> [] then
        (case get_node db (ref_id_hint ref) of Inl _ \<Rightarrow> [] | Inr n \<Rightarrow> n_id n)
      else if ref_label ref = [] then []
      else if ref_source ref \<noteq> [] then find_heading_in_file db (ref_source ref) (ref_label ref)
      else find_heading db (ref_label ref))"

definition new_relation :: "node_id \<Rightarrow> node_id \<Rightarrow> real \<Rightarrow> bytes \<Rightarrow> relation" where
  "new_relation src targ w origin = \<lparr>l_id = 0, l_source = src, l_target = targ, l_weight = w,
     l_origin = origin, l_created = 0\<rparr>"

definition new_pending :: "node_id \<Rightarrow> wikilink_ref \<Rightarrow> bytes \<Rightarrow> pending_relation" where
  "new_pending src ref origin = \<lparr>p_id = 0, p_source = src, p_label = ref_label ref, p_file = ref_source ref,
     p_hint = ref_id_hint ref, p_weight = ref_weight ref, p_origin = origin, p_created = 0\<rparr>"

definition emit_ref :: "node_id \<Rightarrow> bytes \<Rightarrow> wikilink_ref \<Rightarrow> db \<Rightarrow> db result" where
  "emit_ref src origin ref db =
     (let targ = resolve ref db
      in if targ \<noteq> [] then upsert_relation (new_relation src targ (ref_weight ref) origin) db
         else insert_pending (new_pending src ref origin) db)"

definition pending_ref :: "pending_relation \<Rightarrow> wikilink_ref" where
  "pending_ref p = \<lparr>ref_label = p_label p, ref_source = p_file p, ref_id_hint = p_hint p, ref_weight = p_weight p\<rparr>"

definition retry_one :: "pending_relation \<Rightarrow> db \<Rightarrow> db result" where
  "retry_one p db =
     (let targ = resolve (pending_ref p) db
      in if targ = [] then Inr db
         else bind_result (upsert_relation (new_relation (p_source p) targ (p_weight p) (p_origin p)) db)
           (\<lambda>db1. Inr (delete_pending_by_id (p_id p) db1)))"

definition retry_pending :: "db \<Rightarrow> db result" where
  "retry_pending db = fold_result retry_one (all_pending db) db"

definition link_node :: "cnode \<Rightarrow> db \<Rightarrow> db result" where
  "link_node n db =
     (if c_refs n = [] then Inr db
      else fold_result (emit_ref (c_id n) origin_parsed) (c_refs n) (delete_parsed_pending (c_id n) db))"

definition link_nodes :: "cnode list \<Rightarrow> db \<Rightarrow> db result" where
  "link_nodes ns db = bind_result (fold_result link_node ns db) retry_pending"

definition link_in_store :: "(nat \<Rightarrow> error option) \<Rightarrow> (nat \<Rightarrow> bool) \<Rightarrow> cnode list \<Rightarrow> db \<Rightarrow> unit result \<times> db \<times> nat" where
  "link_in_store fault awake ns db = store_tx fault awake (\<lambda>db. map_sum id (Pair ()) (link_nodes ns db)) db"

subsection \<open>Resolving\<close>

lemma resolve_mem: "resolve r db \<noteq> [] \<Longrightarrow> resolve r db \<in> set (node_ids db)"
  using find_heading_mem
  by (auto simp: resolve_def get_node_def node_ids_def split: if_splits option.splits dest!: node_at_SomeD)

lemma resolve_frame: "db_nodes db' = db_nodes db \<Longrightarrow> resolve r db' = resolve r db"
  by (simp add: resolve_def get_node_def node_at_def find_heading_def find_heading_in_file_def headings_labelled_def)

text \<open>Rowids of pending rows are unique and below the next one.\<close>

definition pend_ok :: "db \<Rightarrow> bool" where
  "pend_ok db \<longleftrightarrow> distinct (map p_id (db_pending db)) \<and> list_all (\<lambda>p. p_id p < db_next_pending db) (db_pending db)"

text \<open>What stays the same in every step of the run, and what it needs.\<close>

definition linkable :: "db \<Rightarrow> db \<Rightarrow> bool" where
  "linkable db0 db \<longleftrightarrow> db_ok db \<and> \<not> db_defer db \<and> db_nodes db = db_nodes db0 \<and> db_snapshots db = db_snapshots db0
     \<and> db_diffs db = db_diffs db0 \<and> db_head db = db_head db0 \<and> db_next_snapshot db = db_next_snapshot db0
     \<and> pend_ok db"

definition edge_keys :: "db \<Rightarrow> (node_id \<times> node_id \<times> bytes) set" where
  "edge_keys db = relation_key ` set (db_relations db)"

definition pending_bodies :: "db \<Rightarrow> (node_id \<times> bytes \<times> bytes \<times> bytes \<times> real \<times> bytes) set" where
  "pending_bodies db = pending_body ` set (db_pending db)"

definition ref_body :: "node_id \<Rightarrow> wikilink_ref \<Rightarrow> bytes \<Rightarrow> node_id \<times> bytes \<times> bytes \<times> bytes \<times> real \<times> bytes" where
  "ref_body src r origin = (src, ref_label r, ref_source r, ref_id_hint r, ref_weight r, origin)"

lemma linkable_ids: "linkable db0 db \<Longrightarrow> node_ids db = node_ids db0"
  by (simp add: linkable_def node_ids_def)

lemma linkable_resolve: "linkable db0 db \<Longrightarrow> resolve r db = resolve r db0"
  by (rule resolve_frame) (simp add: linkable_def)

lemma edge_keys_put: "edge_keys (put_relation r db) = insert (relation_key r) (edge_keys db)"
  using arg_cong [OF put_relation_keys [of r db], of set] by (auto simp: edge_keys_def split: if_splits)

lemma upsert_relation_step:
  assumes "linkable db0 db" "{l_source r, l_target r} \<subseteq> set (node_ids db0)"
  shows "upsert_relation r db = Inr (put_relation r db)" "linkable db0 (put_relation r db)"
proof -
  show up: "upsert_relation r db = Inr (put_relation r db)"
    using assms by (auto simp: upsert_relation_def linkable_ids)
  have "db_ok (put_relation r db)"
    using upsert_relation_ok [OF _ _ up] assms(1) by (simp add: linkable_def)
  moreover have "db_next_pending (put_relation r db) = db_next_pending db" by (simp add: put_relation_def)
  ultimately show "linkable db0 (put_relation r db)" using assms(1) by (simp add: linkable_def frame_simps pend_ok_def)
qed

lemma insert_pending_step:
  assumes "linkable db0 db" "p_source p \<in> set (node_ids db0)"
  shows "insert_pending p db = Inr (put_pending p db)" "linkable db0 (put_pending p db)"
    "pending_bodies (put_pending p db) = insert (pending_body p) (pending_bodies db)"
proof -
  show ins: "insert_pending p db = Inr (put_pending p db)"
    using assms by (auto simp: insert_pending_def linkable_ids)
  have "db_ok (put_pending p db)"
    using insert_pending_ok [OF _ _ ins] assms(1) by (simp add: linkable_def)
  moreover have "db_next_pending db \<notin> p_id ` set (db_pending db)"
    using assms(1) by (auto simp: linkable_def pend_ok_def list_all_iff)
  ultimately show "linkable db0 (put_pending p db)"
    using assms(1) by (auto simp: linkable_def frame_simps pend_ok_def list_all_iff) (auto simp: put_pending_def)
  show "pending_bodies (put_pending p db) = insert (pending_body p) (pending_bodies db)"
    by (simp add: pending_bodies_def put_pending_def) (simp add: pending_body_def)
qed

lemma linkable_shrink:
  assumes "linkable db0 db" "db_ok db'" "\<not> db_defer db'" "db' = db\<lparr>db_pending := filter P (db_pending db)\<rparr>"
  shows "linkable db0 db'"
  using assms by (auto simp: linkable_def pend_ok_def list_all_iff distinct_map_filter)

lemma delete_steps:
  assumes "linkable db0 db"
  shows "linkable db0 (delete_pending_by_id i db)" "linkable db0 (delete_parsed_pending s db)"
proof -
  have ok: "db_ok db" "\<not> db_defer db" using assms by (simp_all add: linkable_def)
  show "linkable db0 (delete_pending_by_id i db)"
    by (rule linkable_shrink [OF assms delete_pending_ok(1) [OF ok(1)]])
      (simp_all add: frame_simps ok delete_pending_by_id_def)
  show "linkable db0 (delete_parsed_pending s db)"
    by (rule linkable_shrink [OF assms delete_pending_ok(2) [OF ok(1)]])
      (simp_all add: frame_simps ok delete_parsed_pending_def)
qed

subsection \<open>Phase one\<close>

lemma fold_emit_refs:
  assumes "linkable db0 db" "src \<in> set (node_ids db0)"
  shows "\<exists>db'. fold_result (emit_ref src origin) refs db = Inr db' \<and> linkable db0 db'
    \<and> edge_keys db' = edge_keys db \<union> {(src, resolve r db0, origin) | r. r \<in> set refs \<and> resolve r db0 \<noteq> []}
    \<and> pending_bodies db' = pending_bodies db \<union> {ref_body src r origin | r. r \<in> set refs \<and> resolve r db0 = []}"
  using assms(1)
proof (induction refs arbitrary: db)
  case Nil
  then show ?case by auto
next
  case (Cons r refs)
  have res: "resolve r db = resolve r db0" using Cons.prems by (rule linkable_resolve)
  show ?case
  proof (cases "resolve r db0 = []")
    case True
    let ?p = "new_pending src r origin"
    have src: "p_source ?p \<in> set (node_ids db0)" using assms(2) by (simp add: new_pending_def)
    note st = insert_pending_step [OF Cons.prems src]
    have "pending_body ?p = ref_body src r origin" by (simp add: new_pending_def pending_body_def ref_body_def)
    moreover have "edge_keys (put_pending ?p db) = edge_keys db" by (simp add: edge_keys_def frame_simps)
    moreover have "emit_ref src origin r db = Inr (put_pending ?p db)"
      using True st(1) by (simp add: emit_ref_def res Let_def)
    ultimately show ?thesis using Cons.IH [OF st(2)] True st(3) by auto
  next
    case False
    let ?l = "new_relation src (resolve r db0) (ref_weight r) origin"
    have "{l_source ?l, l_target ?l} \<subseteq> set (node_ids db0)"
      using assms(2) resolve_mem [OF False] by (simp add: new_relation_def)
    note st = upsert_relation_step [OF Cons.prems this]
    have "relation_key ?l = (src, resolve r db0, origin)" by (simp add: new_relation_def relation_key_def)
    moreover have "pending_bodies (put_relation ?l db) = pending_bodies db" by (simp add: pending_bodies_def frame_simps)
    moreover have "emit_ref src origin r db = Inr (put_relation ?l db)"
      using False st(1) by (simp add: emit_ref_def res Let_def)
    ultimately show ?thesis using Cons.IH [OF st(2)] False edge_keys_put [of ?l db] by auto
  qed
qed

text \<open>The pending rows that phase one clears: parsed ones of a source that has references now.\<close>

definition cleared :: "cnode list \<Rightarrow> node_id \<times> bytes \<times> bytes \<times> bytes \<times> real \<times> bytes \<Rightarrow> bool" where
  "cleared ns b \<longleftrightarrow> (case b of (src, _, _, _, _, origin) \<Rightarrow>
     origin = origin_parsed \<and> list_ex (\<lambda>n. c_id n = src \<and> c_refs n \<noteq> []) ns)"

text \<open>The edges and the waiting references that the references of a list of nodes give.\<close>

definition new_edges :: "db \<Rightarrow> cnode list \<Rightarrow> (node_id \<times> node_id \<times> bytes) set" where
  "new_edges db ns = (\<Union>n\<in>set ns. {(c_id n, resolve r db, origin_parsed) | r. r \<in> set (c_refs n) \<and> resolve r db \<noteq> []})"

definition new_waits :: "db \<Rightarrow> cnode list \<Rightarrow> (node_id \<times> bytes \<times> bytes \<times> bytes \<times> real \<times> bytes) set" where
  "new_waits db ns = (\<Union>n\<in>set ns. {ref_body (c_id n) r origin_parsed | r. r \<in> set (c_refs n) \<and> resolve r db = []})"

definition late_edges :: "db \<Rightarrow> pending_relation list \<Rightarrow> (node_id \<times> node_id \<times> bytes) set" where
  "late_edges db ps = (\<lambda>p. (p_source p, resolve (pending_ref p) db, p_origin p)) ` {p \<in> set ps. resolve (pending_ref p) db \<noteq> []}"

lemma delete_parsed_bodies:
  "pending_bodies (delete_parsed_pending s db) = {b \<in> pending_bodies db. \<not> (fst b = s \<and> snd (snd (snd (snd (snd b)))) = origin_parsed)}"
proof -
  have "fst (pending_body p) = p_source p" "snd (snd (snd (snd (snd (pending_body p))))) = p_origin p" for p
    by (simp_all add: pending_body_def)
  then show ?thesis by (auto simp: pending_bodies_def delete_parsed_pending_def)
qed

lemma phase_one:
  assumes "linkable db0 db" "distinct (map c_id ns)" "c_id ` set ns \<subseteq> set (node_ids db0)"
  shows "\<exists>db'. fold_result link_node ns db = Inr db' \<and> linkable db0 db'
    \<and> edge_keys db' = edge_keys db \<union> new_edges db0 ns
    \<and> pending_bodies db' = {b \<in> pending_bodies db. \<not> cleared ns b} \<union> new_waits db0 ns"
  using assms
proof (induction ns arbitrary: db)
  case Nil
  then show ?case by (auto simp: cleared_def new_edges_def new_waits_def)
next
  case (Cons n ns)
  let ?db = "if c_refs n = [] then db else delete_parsed_pending (c_id n) db"
  have "linkable db0 ?db" using Cons.prems(1) delete_steps(2) by simp
  then obtain db1 where db1: "fold_result (emit_ref (c_id n) origin_parsed) (c_refs n) ?db = Inr db1" "linkable db0 db1"
    "edge_keys db1 = edge_keys ?db \<union> new_edges db0 [n]" "pending_bodies db1 = pending_bodies ?db \<union> new_waits db0 [n]"
    using fold_emit_refs [of db0 ?db "c_id n" origin_parsed "c_refs n"] Cons.prems(3)
    by (auto simp: new_edges_def new_waits_def)
  have "link_node n db = Inr db1" using db1(1) by (auto simp: link_node_def)
  moreover from Cons.IH [OF db1(2)] Cons.prems obtain db2 where db2: "fold_result link_node ns db1 = Inr db2" "linkable db0 db2"
    "edge_keys db2 = edge_keys db1 \<union> new_edges db0 ns"
    "pending_bodies db2 = {b \<in> pending_bodies db1. \<not> cleared ns b} \<union> new_waits db0 ns" by auto
  moreover have "edge_keys ?db = edge_keys db" by (simp add: edge_keys_def frame_simps)
  moreover have "pending_bodies ?db = {b \<in> pending_bodies db. \<not> cleared [n] b}"
    by (auto simp: delete_parsed_bodies cleared_def)
  moreover have "\<forall>b\<in>new_waits db0 [n]. \<not> cleared ns b"
    using Cons.prems(2) by (auto simp: new_waits_def cleared_def ref_body_def list_ex_iff image_iff)
  moreover have "cleared (n # ns) b \<longleftrightarrow> cleared [n] b \<or> cleared ns b" for b
    by (auto simp: cleared_def)
  moreover have "new_edges db0 (n # ns) = new_edges db0 [n] \<union> new_edges db0 ns"
    "new_waits db0 (n # ns) = new_waits db0 [n] \<union> new_waits db0 ns"
    by (simp_all add: new_edges_def new_waits_def)
  ultimately show ?case by (intro exI [of _ db2]) (auto simp: db1(3,4))
qed

subsection \<open>Phase two\<close>

lemma phase_two:
  assumes "linkable db0 db" "distinct (map p_id L)" "set L \<subseteq> set (db_pending db)"
  shows "\<exists>db'. fold_result retry_one L db = Inr db' \<and> linkable db0 db'
    \<and> edge_keys db' = edge_keys db \<union> late_edges db0 L
    \<and> db_pending db' = filter (\<lambda>p. p \<notin> set L \<or> resolve (pending_ref p) db0 = []) (db_pending db)"
  using assms
proof (induction L arbitrary: db)
  case Nil
  then show ?case by (simp add: late_edges_def)
next
  case (Cons p L)
  have res: "resolve (pending_ref p) db = resolve (pending_ref p) db0" using Cons.prems(1) by (rule linkable_resolve)
  have p: "p \<in> set (db_pending db)" "p \<notin> set L" using Cons.prems(2,3) by auto
  show ?case
  proof (cases "resolve (pending_ref p) db0 = []")
    case True
    then have "retry_one p db = Inr db" by (simp add: retry_one_def res)
    moreover have "late_edges db0 (p # L) = late_edges db0 L" using True by (auto simp: late_edges_def)
    moreover have "filter (\<lambda>q. q \<notin> set (p # L) \<or> resolve (pending_ref q) db0 = []) (db_pending db)
        = filter (\<lambda>q. q \<notin> set L \<or> resolve (pending_ref q) db0 = []) (db_pending db)"
      by (rule filter_cong) (use True in auto)
    ultimately show ?thesis using Cons.IH [OF Cons.prems(1)] Cons.prems by simp
  next
    case False
    let ?l = "new_relation (p_source p) (resolve (pending_ref p) db0) (p_weight p) (p_origin p)"
    let ?db1 = "delete_pending_by_id (p_id p) (put_relation ?l db)"
    have "p_source p \<in> set (node_ids db0)"
      using Cons.prems(1) p(1) linkable_ids [OF Cons.prems(1)]
      by (auto simp: linkable_def db_ok_def fk_ok_def relation_ends)
    then have "{l_source ?l, l_target ?l} \<subseteq> set (node_ids db0)"
      using resolve_mem [OF False] by (simp add: new_relation_def)
    note st = upsert_relation_step [OF Cons.prems(1) this]
    have one: "retry_one p db = Inr ?db1" using False st(1) by (simp add: retry_one_def res Let_def)
    have "p_id q = p_id p \<longleftrightarrow> q = p" if "q \<in> set (db_pending db)" for q
      using Cons.prems(1) p(1) that by (auto simp: linkable_def pend_ok_def distinct_map dest: inj_onD)
    then have pend: "db_pending ?db1 = filter (\<lambda>q. q \<noteq> p) (db_pending db)"
      by (auto simp: delete_pending_by_id_def frame_simps intro!: filter_cong)
    have sub: "set L \<subseteq> set (db_pending ?db1)" using Cons.prems(3) p(2) by (auto simp: pend)
    have "distinct (map p_id L)" using Cons.prems(2) by simp
    from Cons.IH [OF delete_steps(1) [OF st(2)] this sub] obtain db' where db':
      "fold_result retry_one L ?db1 = Inr db'" "linkable db0 db'"
      "edge_keys db' = edge_keys ?db1 \<union> late_edges db0 L"
      "db_pending db' = filter (\<lambda>p. p \<notin> set L \<or> resolve (pending_ref p) db0 = []) (db_pending ?db1)" by blast
    moreover have "late_edges db0 (p # L) = insert (p_source p, resolve (pending_ref p) db0, p_origin p) (late_edges db0 L)"
      using False by (auto simp: late_edges_def)
    moreover have "db_pending db' = filter (\<lambda>q. q \<notin> set (p # L) \<or> resolve (pending_ref q) db0 = []) (db_pending db)"
      unfolding db'(4) pend filter_filter by (rule filter_cong) (use False in auto)
    moreover have "edge_keys ?db1 = insert (p_source p, resolve (pending_ref p) db0, p_origin p) (edge_keys db)"
      using edge_keys_put [of ?l db] by (simp add: edge_keys_def frame_simps) (simp add: new_relation_def relation_key_def)
    ultimately show ?thesis using one by auto
  qed
qed

subsection \<open>The whole run\<close>

definition still_pending :: "db \<Rightarrow> cnode list \<Rightarrow> pending_relation list" where
  "still_pending db ns = filter (\<lambda>p. \<not> cleared ns (pending_body p)) (db_pending db)"

definition body_ref :: "node_id \<times> bytes \<times> bytes \<times> bytes \<times> real \<times> bytes \<Rightarrow> wikilink_ref" where
  "body_ref b = (case b of (_, l, f, h, w, _) \<Rightarrow> \<lparr>ref_label = l, ref_source = f, ref_id_hint = h, ref_weight = w\<rparr>)"

lemma pending_ref_body: "pending_ref p = body_ref (pending_body p)"
  by (simp add: pending_ref_def body_ref_def pending_body_def)

lemma body_ref_body [simp]: "body_ref (ref_body s r origin) = r"
  by (simp add: body_ref_def ref_body_def)

lemma late_edges_body: "late_edges db ps =
    (\<lambda>b. (fst b, resolve (body_ref b) db, snd (snd (snd (snd (snd b)))))) `
      {b \<in> pending_body ` set ps. resolve (body_ref b) db \<noteq> []}"
proof -
  have "{b \<in> pending_body ` set ps. resolve (body_ref b) db \<noteq> []} =
      pending_body ` {p \<in> set ps. resolve (pending_ref p) db \<noteq> []}"
    by (auto simp: pending_ref_body)
  then show ?thesis
    by (simp only: image_image late_edges_def pending_ref_body) (simp add: pending_body_def)
qed

lemma link_nodes_runs:
  assumes "db_ok db" "\<not> db_defer db" "pend_ok db"
    and "distinct (map c_id ns)" "c_id ` set ns \<subseteq> set (node_ids db)"
  shows "\<exists>db'. link_nodes ns db = Inr db' \<and> db_ok db' \<and> pend_ok db' \<and> db_nodes db' = db_nodes db \<and> db_head db' = db_head db
    \<and> db_snapshots db' = db_snapshots db \<and> db_diffs db' = db_diffs db
    \<and> edge_keys db' = edge_keys db \<union> new_edges db ns \<union> late_edges db (still_pending db ns)
    \<and> pending_bodies db' = new_waits db ns \<union>
        pending_body ` {p \<in> set (still_pending db ns). resolve (pending_ref p) db = []}"
proof -
  have "linkable db db" using assms(1-3) by (simp add: linkable_def)
  from phase_one [OF this assms(4,5)] obtain db1 where db1: "fold_result link_node ns db = Inr db1" "linkable db db1"
    "edge_keys db1 = edge_keys db \<union> new_edges db ns"
    "pending_bodies db1 = {b \<in> pending_bodies db. \<not> cleared ns b} \<union> new_waits db ns" by blast
  have old: "{b \<in> pending_bodies db. \<not> cleared ns b} = pending_body ` set (still_pending db ns)"
    by (auto simp: pending_bodies_def still_pending_def)
  have L: "distinct (map p_id (all_pending db1))" "set (all_pending db1) = set (db_pending db1)"
    using db1(2) by (auto simp: linkable_def pend_ok_def all_pending_def distinct_map inj_on_def)
  from phase_two [OF db1(2) L(1)] L(2) obtain db2 where db2: "fold_result retry_one (all_pending db1) db1 = Inr db2"
    "linkable db db2" "edge_keys db2 = edge_keys db1 \<union> late_edges db (all_pending db1)"
    "db_pending db2 = filter (\<lambda>p. p \<notin> set (all_pending db1) \<or> resolve (pending_ref p) db = []) (db_pending db1)" by auto
  have waits: "resolve (body_ref b) db = []" if "b \<in> new_waits db ns" for b
    using that by (auto simp: new_waits_def)
  have bodies: "pending_body ` set (all_pending db1) = pending_body ` set (still_pending db ns) \<union> new_waits db ns"
    using db1(4) unfolding old L(2) by (simp only: pending_bodies_def)
  have "late_edges db (all_pending db1) = late_edges db (still_pending db ns)"
    unfolding late_edges_body bodies using waits by (intro arg_cong [where f = "image _"]) auto
  moreover have "pending_bodies db2 = {b \<in> pending_body ` set (all_pending db1). resolve (body_ref b) db = []}"
    by (auto simp: pending_bodies_def db2(4) L(2) pending_ref_body)
  then have "pending_bodies db2 = new_waits db ns \<union>
        pending_body ` {p \<in> set (still_pending db ns). resolve (pending_ref p) db = []}"
    unfolding bodies using waits by (auto simp: pending_ref_body)
  moreover have "link_nodes ns db = Inr db2" by (simp add: link_nodes_def retry_pending_def db1(1) db2(1))
  ultimately show ?thesis using db2(2,3) db1(3) by (auto simp: linkable_def)
qed

text \<open>C15:
  Linking the nodes of a compile never fails and touches only the edges and the pending rows. Every
  reference that resolves is an edge afterwards and every other one waits as a pending row; the parsed
  rows that waited for the same sources are dropped, every other waiting row whose target exists by now
  has become an edge, and the rest keeps waiting.
\<close>

theorem link_nodes_spec:
  assumes "db_ok db" "\<not> db_defer db" "pend_ok db"
    and "distinct (map c_id ns)" "c_id ` set ns \<subseteq> set (node_ids db)"
  shows "\<exists>db'. link_nodes ns db = Inr db' \<and> db_ok db' \<and> pend_ok db' \<and> db_nodes db' = db_nodes db \<and> db_head db' = db_head db
    \<and> db_snapshots db' = db_snapshots db \<and> db_diffs db' = db_diffs db
    \<and> edge_keys db' = edge_keys db \<union> new_edges db ns \<union> late_edges db (still_pending db ns)
    \<and> pending_bodies db' = new_waits db ns \<union>
        pending_body ` {p \<in> set (still_pending db ns). resolve (pending_ref p) db = []}"
  using link_nodes_runs [OF assms] .

text \<open>A source with one link to the heading \<open>p\<close> and one to nothing.\<close>

definition sample_link :: cnode where
  "sample_link = zero_cnode\<lparr>c_id := ''x'', c_refs := [with_label ''p'', with_label ''nowhere'']\<rparr>"

theorem link_nodes_spec_witness:
  "\<exists>db'. link_nodes [sample_link] sample_db = Inr db' \<and> (''x'', ''p'', origin_parsed) \<in> edge_keys db'
     \<and> (''x'', ''nowhere'', [], [], 1, origin_parsed) \<in> pending_bodies db'"
proof -
  have pend: "db_pending sample_db = []" by (simp add: sample_db_def empty_db_def)
  then have pre: "pend_ok sample_db"
    "distinct (map c_id [sample_link])" "c_id ` set [sample_link] \<subseteq> set (node_ids sample_db)"
    by (simp_all add: sample_link_def pend_ok_def) (simp add: sample_db_def node_ids_def blank_node_def)
  have find: "resolve (with_label ''p'') sample_db = ''p''" "resolve (with_label ''nowhere'') sample_db = []"
    by (simp_all add: resolve_def with_label_def is_bare_id_def wikilink_id_len_def is_base62_def
        find_heading_def headings_labelled_def)
      (simp_all add: sample_db_def empty_db_def blank_node_def label_key_def sql_trim_def trim_set_def trim_left_set_def
        trim_right_set_def ascii_lower_def to_lower_char_def is_upper_def code_def first_id_def)
  have "(''x'', ''p'', origin_parsed) \<in> new_edges sample_db [sample_link]"
    using find by (auto simp: new_edges_def sample_link_def intro!: exI [of _ "with_label ''p''"])
  moreover have "(''x'', ''nowhere'', [], [], 1, origin_parsed) \<in> new_waits sample_db [sample_link]"
    using find by (auto simp: new_waits_def sample_link_def intro!: exI [of _ "with_label ''nowhere''"])
      (simp add: ref_body_def with_label_def is_bare_id_def wikilink_id_len_def)
  ultimately show ?thesis
    using link_nodes_spec [OF sample_db_ok pre] by auto
qed

end
