(* ===== verification/Memory_Server.thy ===== *)
theory Memory_Server
  imports Versioned_Spec Memory_Read Resolver
begin

text \<open>
  The tools of the memory server together: pinning and relating (\<open>pin.go\<close>, \<open>relate.go\<close>), one call of
  any tool, and the refinement of the versioned forest of \<open>Versioned_Spec\<close> by sequences of calls.
\<close>

subsection \<open>Pinning and relating\<close>

definition set_pinned_node :: "tools \<Rightarrow> node_id \<Rightarrow> bool \<Rightarrow> real option \<Rightarrow> bytes \<Rightarrow> db \<Rightarrow> bytes result \<times> db" where
  "set_pinned_node t i pinned temp verb db =
     (if i = [] then (Inl (Failure ''node_id is required''), db)
      else case get_node db i of
        Inl NoRows \<Rightarrow> (Inl (Failure (''node_id not found: '' @ i)), db)
      | Inl e \<Rightarrow> (Inl e, db)
      | Inr _ \<Rightarrow> (Inr (verb @ '' node '' @ i @ (case temp of None \<Rightarrow> [] | Some x \<Rightarrow> '' at temperature '' @ tl_real t x)),
          set_pinned i pinned temp db))"

definition handle_pin :: "tools \<Rightarrow> node_id \<Rightarrow> real option \<Rightarrow> db \<Rightarrow> bytes result \<times> db" where
  "handle_pin t i temp db =
     (if bad_temp temp then (Inl (Failure ''temperature must be in [0, 1]''), db)
      else set_pinned_node t i True temp ''pinned'' db)"

definition handle_unpin :: "tools \<Rightarrow> node_id \<Rightarrow> db \<Rightarrow> bytes result \<times> db" where
  "handle_unpin t i db = set_pinned_node t i False None ''unpinned'' db"

record relate_input =
  li_source :: node_id
  li_target :: node_id
  li_label :: bytes
  li_file :: bytes
  li_weight :: real

definition default_weight :: real where "default_weight = 1"

definition handle_relate :: "tools \<Rightarrow> relate_input \<Rightarrow> db \<Rightarrow> bytes result \<times> db" where
  "handle_relate t input db =
     (if li_source input = [] then (Inl (Failure ''source_id is required''), db)
      else case get_node db (li_source input) of
        Inl NoRows \<Rightarrow> (Inl (Failure (''source_id not found: '' @ li_source input)), db)
      | Inl e \<Rightarrow> (Inl e, db)
      | Inr _ \<Rightarrow>
          let weight = (if li_weight input = 0 then default_weight else li_weight input);
              ref = \<lparr>ref_label = li_label input, ref_source = li_file input, ref_id_hint = li_target input,
                ref_weight = weight\<rparr>;
              targ = resolve ref db
          in if targ \<noteq> [] then
               (case upsert_relation (new_relation (li_source input) targ weight origin_manual) db of
                  Inl e \<Rightarrow> (Inl e, db)
                | Inr db' \<Rightarrow> (Inr (''edge created (resolved): '' @ li_source input @ '' -> '' @ targ), db'))
             else if li_label input = [] \<and> li_target input = []
               then (Inl (Failure ''target_id or target_label is required''), db)
             else (case insert_pending (new_pending (li_source input) ref origin_manual) db of
                  Inl e \<Rightarrow> (Inl e, db)
                | Inr db' \<Rightarrow> (Inr (''edge created (pending): '' @ li_source input @ '' -> ''
                    @ tl_quote t (li_label input)), db')))"

subsection \<open>One call\<close>

datatype tool_call =
    Write write_input
  | Summarize summarize_input
  | Forget forget_input
  | Rollback rollback_input
  | Pin node_id "real option"
  | Unpin node_id
  | Relate relate_input
  | Fetch node_id int int
  | Fetch_Batch "node_id list" int
  | Search bytes int
  | Related related_input
  | Delta int int
  | Diff int int
  | History node_id int
  | Tree node_id int

fun run_tool :: "tools \<Rightarrow> reads \<Rightarrow> tool_call \<Rightarrow> db \<Rightarrow> bytes result \<times> db" where
  "run_tool t r (Write input) db = handle_write t input db"
| "run_tool t r (Summarize input) db = handle_summarize t input db"
| "run_tool t r (Forget input) db = handle_forget t input db"
| "run_tool t r (Rollback input) db =
     (case handle_rollback (tl_fault t) (tl_awake t) (tl_hash t) input db of (res, db') \<Rightarrow> (map_sum id fst res, db'))"
| "run_tool t r (Pin i temp) db = handle_pin t i temp db"
| "run_tool t r (Unpin i) db = handle_unpin t i db"
| "run_tool t r (Relate input) db = handle_relate t input db"
| "run_tool t r (Fetch i budget depth) db = handle_fetch r i budget depth db"
| "run_tool t r (Fetch_Batch is budget) db = handle_fetch_batch r is budget db"
| "run_tool t r (Search q budget) db = handle_search r q budget db"
| "run_tool t r (Related input) db = handle_related r input db"
| "run_tool t r (Delta since limit) db = (handle_delta r since limit db, db)"
| "run_tool t r (Diff a b) db = (handle_diff r a b db, db)"
| "run_tool t r (History i depth) db = (handle_history i depth db, db)"
| "run_tool t r (Tree i depth) db = (handle_tree r i depth db, db)"

subsection \<open>A failed call changes nothing\<close>

lemma rollback_error: "handle_rollback fault awake xxh input db = (Inl e, db') \<Longrightarrow> db' = db"
  using tx_loop_result [of fault awake "rollback_tx xxh (rb_snapshot input) (rb_drop_after input)" 0 db "Inl e" db']
  by (auto simp: handle_rollback_def store_tx_def max_attempts_def split: if_splits prod.splits)

lemma write_error: "handle_write t input db = (Inl e, db') \<Longrightarrow> db' = db"
  by (auto simp: handle_write_def Let_def dest: emit_node_change_error split: sum.splits prod.splits)

lemma summarize_error: "handle_summarize t input db = (Inl e, db') \<Longrightarrow> db' = db"
  by (auto simp: handle_summarize_def Let_def dest: emit_node_change_error split: sum.splits prod.splits if_splits)

lemma other_errors:
  "set_pinned_node t i p temp verb db = (Inl e, db') \<Longrightarrow> db' = db"
  "handle_relate t ri db = (Inl e, db') \<Longrightarrow> db' = db"
  "handle_fetch r i budget depth db = (Inl e, db') \<Longrightarrow> db' = db"
  "handle_fetch_batch r is budget db = (Inl e, db') \<Longrightarrow> db' = db"
  "handle_search r q budget db = (Inl e, db') \<Longrightarrow> db' = db"
  "handle_related r rel db = (Inl e, db') \<Longrightarrow> db' = db"
  by (auto simp: set_pinned_node_def handle_relate_def handle_fetch_def handle_fetch_batch_def handle_search_def
      handle_related_def Let_def split: if_splits sum.splits error.splits)

lemma run_tool_error: "run_tool t r call db = (Inl e, db') \<Longrightarrow> db' = db"
proof (cases call)
  case (Rollback input)
  then show "run_tool t r call db = (Inl e, db') \<Longrightarrow> db' = db"
    using rollback_error by (auto split: prod.splits sum.splits simp: map_sum_def)
qed (auto simp: handle_pin_def handle_unpin_def dest: write_error summarize_error forget_error other_errors split: if_splits)


subsection \<open>The refinement\<close>

definition abs_db :: "db \<Rightarrow> versioned" where
  "abs_db db = \<lparr>vs_log = versions db, vs_now = core_view db, vs_next = db_next_snapshot db,
     vs_head = head_snapshot_id db\<rparr>"

definition spec_tool :: "tools \<Rightarrow> tool_call \<Rightarrow> versioned \<Rightarrow> versioned" where
  "spec_tool t call s =
     (case call of
        Write input \<Rightarrow>
          let payload = fst (scrub (tl_redactor t) (wi_payload input));
              i = (if wi_anchor input = [] then identify_payload (tl_hash t) mcp_write payload else wi_anchor input)
          in spec_edit (write_node (tl_hash t) i payload (vs_now s i)) s
      | Summarize input \<Rightarrow>
          (case vs_now s (si_node input) of None \<Rightarrow> s
           | Some n \<Rightarrow> spec_edit (summary_node (tl_hash t) n (fst (scrub (tl_redactor t) (si_summary input)))
               (case si_temp input of Some x \<Rightarrow> x | None \<Rightarrow> tl_rebound t)) s)
      | Forget input \<Rightarrow>
          (case parse_delete_mode (fi_mode input) of Inl _ \<Rightarrow> s | Inr mode \<Rightarrow> spec_forget mode (fi_node input) s)
      | Rollback input \<Rightarrow> spec_rollback (rb_snapshot input) s
      | _ \<Rightarrow> s)"

text \<open>
  The calls the refinement covers: a rollback that keeps the later snapshots, is not made unsafe by nodes
  that moved below a node the target lacks, and meets no collision of content hashes; a removal from at
  most as many rows as the depth bound of its query.
\<close>

definition admissible :: "tool_call \<Rightarrow> db \<Rightarrow> bool" where
  "admissible call db = (case call of
      Forget _ \<Rightarrow> int (length (db_nodes db)) \<le> max_int32
    | Rollback input \<Rightarrow> \<not> rb_drop_after input
        \<and> (\<forall>v. versions db (rb_snapshot input) = Some v \<longrightarrow> closed_in {i. i \<noteq> [] \<and> v i = None} db
            \<and> (\<forall>i b c. core_view db i = Some b \<longrightarrow> v i = Some c \<longrightarrow> n_hash b = n_hash c \<longrightarrow> n_content b = n_content c))
    | _ \<Rightarrow> True)"

definition sound :: "db \<Rightarrow> bool" where
  "sound db \<longleftrightarrow> exact db \<and> all_trees (abs_db db)"

lemma commit_abs:
  assumes "versions db' = (versions db)(db_next_snapshot db \<mapsto> v)" "core_view db' = v"
    "db_next_snapshot db' = db_next_snapshot db + 1" "db_head db' = Some (db_next_snapshot db)"
  shows "abs_db db' = commit v (abs_db db)"
  using assms by (simp add: abs_db_def commit_def head_snapshot_id_def)

lemma unchanged_view:
  "unchanged db cn \<longleftrightarrow> (\<exists>n. core_view db (c_id cn) = Some n \<and> n_hash n = c_hash cn)"
  by (auto simp: unchanged_def core_view_def core_of_def split: option.splits)

lemma edit_refines:
  assumes "exact db" "c_id cn = i" "c_parent cn = [] \<or> c_parent cn \<in> set (node_ids db)"
    and "emit_node_change t cn (old_state i (node_at db i)) msg db = (Inr u, db')"
  shows "exact db' \<and> abs_db db' = spec_edit cn (abs_db db)"
proof -
  note v = emit_node_change_versions [OF assms(1) _ assms(3), unfolded assms(2), OF assms(4)]
  have now: "vs_now (abs_db db) = core_view db" by (simp add: abs_db_def)
  show ?thesis
  proof (cases "unchanged db cn")
    case True
    with v assms(1) show ?thesis unfolding spec_edit_def now unchanged_view [of db cn, symmetric] by simp
  next
    case False
    with v have "exact db'" "abs_db db' = commit ((core_view db)(i \<mapsto> core_of (node_from_context cn))) (abs_db db)"
      by (simp_all add: commit_abs)
    with False show ?thesis
      unfolding spec_edit_def now unchanged_view [of db cn, symmetric] by (simp add: assms(2))
  qed
qed

lemma write_node_core: "write_node xxh i s (core_view db i) = write_node xxh i s (node_at db i)"
  by (auto simp: write_node_def core_view_def core_of_def split: option.split)

lemma summary_node_core: "summary_node xxh (core_of n) s x = summary_node xxh n s x"
  by (simp add: summary_node_def core_of_def)

lemma defer_off [simp]: "\<not> db_defer db \<Longrightarrow> db\<lparr>db_defer := False\<rparr> = db"
  by (cases db) simp

lemma core_view_empty_id: "db_ok db \<Longrightarrow> core_view db [] = None \<Longrightarrow> [] \<notin> set (node_ids db)"
  by (simp add: core_view_def node_at_None_iff)

lemma rollback_refines:
  assumes "sound db" "admissible (Rollback input) db"
    and "handle_rollback fault awake xxh input db = (Inr m, db')"
  shows "exact db' \<and> abs_db db' = spec_rollback (rb_snapshot input) (abs_db db)"
proof -
  let ?t = "rb_snapshot input" and ?db = "db\<lparr>db_defer := True\<rparr>"
  have ex: "exact db" and trees: "all_trees (abs_db db)" using assms(1) by (simp_all add: sound_def)
  have ok: "db_ok db" "\<not> db_defer db" "\<not> rb_drop_after input"
    using ex assms(2) by (simp_all add: exact_def admissible_def)
  have t: "0 < ?t" using assms(3) by (auto simp: handle_rollback_def split: if_splits)
  obtain db1 where run: "rollback_tx xxh ?t False db = Inr (m, db1)" "db' = db1\<lparr>db_defer := False\<rparr>"
    using tx_loop_result [of fault awake "rollback_tx xxh ?t False" 0 db "Inr m" db'] assms(3) ok(3) t
    by (auto simp: handle_rollback_def store_tx_def max_attempts_def split: prod.splits)
  show ?thesis
  proof (cases "head_snapshot_id db = ?t")
    case True
    then have "db' = db" using run ok(2) by (simp add: rollback_tx_def)
    with True ex show ?thesis by (simp add: spec_rollback_def abs_db_def split: option.split)
  next
    case False
    with run(1) obtain st where st: "restore_to_snapshot db ?t = Inr st" "\<not> head_snapshot_id db < ?t"
      by (auto simp: rollback_tx_def Let_def elim!: bind_result_InrE split: if_splits)
    let ?v = "cores (rr_nodes st)" and ?ds = "rollback_deltas db ?t"
    have v: "versions db ?t = Some ?v" by (simp add: versions_def st)
    have id: "?t \<in> set (snapshot_ids db)" using versions_none [of ?t db] v by fastforce
    have head: "head_snapshot_id db \<in> set (snapshot_ids db)" "0 < head_snapshot_id db"
      using ok(1) st(2) t False
      by (auto simp: head_snapshot_id_def db_ok_def fk_ok_def snapshots_ok_alt split: option.splits)
    have tv: "tree_view ?v" "tree_view (core_view db)"
      using trees v by (auto simp: all_trees_def abs_db_def)
    have safe: "rollback_safe db ?v"
      using assms(2) v tv core_view_empty_id [OF ok(1)]
      by (auto simp: rollback_safe_def admissible_def tree_view_def)
    have ds: "?ds = compute_rollback_deltas (get_all_nodes db) (rr_nodes st)"
      by (simp add: rollback_deltas_def st(1))
    have keys: "distinct (node_ids db)" using ok(1) by (simp add: db_ok_def keys_ok_def)
    have dist: "distinct (map n_id (rr_nodes st))"
      using st(1) distinct_fold_reverse [of "\<lparr>rr_nodes = get_all_nodes db, rr_skipped = []\<rparr>"] distinct_all_nodes [OF keys]
      by (auto simp: restore_to_snapshot_def split: sum.splits error.splits)
    have cur: "cores (get_all_nodes db) = core_view db"
      by (simp add: cores_def core_view_def lookup_all_nodes [OF keys] fun_eq_iff)
    show ?thesis
    proof (cases "?ds = []")
      case True
      then have "db' = db" using run False st ok(2) ds by (simp add: rollback_tx_def)
      have "?v = core_view db"
      proof -
        have k: "keys_ok ?db" "edges_ok ?db" "rollback_safe ?db ?v" "get_all_nodes ?db = get_all_nodes db"
            "core_view ?db = core_view db"
          using ok(1) safe by (simp_all add: db_ok_def keys_ok_def fk_ok_def edges_ok_def node_ids_def snapshot_ids_def
              rollback_safe_def closed_in_def tree_edges_def core_view_def node_at_def fun_eq_iff get_all_nodes_def)
        from rollback_applies [OF k(1,2) _ k(3) dist refl refl] show ?thesis
          using True by (auto simp: ds k(4,5))
      qed
      with \<open>db' = db\<close> ex v show ?thesis by (simp add: spec_rollback_def abs_db_def)
    next
      case nonempty: False
      with run(1) False st(2) st(1) obtain r where
        w: "write_rollback xxh (head_snapshot_id db) ?t False (rr_nodes st) ?ds db = Inr (r, db1)"
        by (auto simp: rollback_tx_def Let_def ds elim!: bind_result_InrE)
      from write_rollback_state [OF ok(1) safe head(2) t head(1) id write_rollback_fresh [OF w] st(1) refl, of False] w
      have new: "rolled_back db (head_snapshot_id db) ?v db1" by auto
      have moved: "?v \<noteq> core_view db"
        using same_core_no_delta [OF dist, of "get_all_nodes db"] nonempty ds cur by auto
      from new obtain s rs where r: "db_ok db1" "core_view db1 = ?v" "db_head db1 = Some (db_next_snapshot db)"
        "db_next_snapshot db1 = db_next_snapshot db + 1"
        "db_snapshots db1 = db_snapshots db @ [s]" "s_id s = db_next_snapshot db"
        "db_diffs db1 = db_diffs db @ rs" "\<forall>r\<in>set rs. r_snap r = db_next_snapshot db"
        "recorded rs (core_view db) ?v" by (auto simp: rolled_back_def)
      let ?db' = "db1\<lparr>db_defer := False\<rparr>"
      have same: "core_view ?db' = ?v" using r(2) by (simp add: core_view_def node_at_def fun_eq_iff)
      have old: "restorable ?db' k u" if "restorable db k u" "k < db_next_snapshot db" for k u
        by (rule restorable_step [OF ok(1) that, of rs]) (use r(7,8,9) same in auto)
      have fresh: "restorable ?db' (db_next_snapshot db) (core_view ?db')"
        using restorable_head [of ?db' "db_next_snapshot db"] r(1,4) by simp
      have "snapshot_ids ?db' = snapshot_ids db @ [db_next_snapshot db]" by (simp add: snapshot_ids_def r(5,6))
      from committed_versions [OF ex _ _ this _ fresh] r(1) old
      have "exact ?db'" "versions ?db' = (versions db)(db_next_snapshot db \<mapsto> core_view ?db')" by auto
      then have "exact db'" "abs_db db' = commit ?v (abs_db db)"
        using r(3,4) same by (simp_all add: run(2) commit_abs)
      with v moved False show ?thesis by (auto simp: spec_rollback_def abs_db_def)
    qed
  qed
qed

lemma view_edges_tree:
  assumes "db_ok db"
  shows "view_edges (core_view db) = tree_edges db"
proof -
  have "node_at db (n_id n) = Some n" if "n \<in> set (db_nodes db)" for n
    using row_fits(1) [OF assms that] .
  then show ?thesis
    unfolding view_edges_def tree_edges_def core_view_def
    by (auto dest!: node_at_SomeD)
qed

lemma forget_refines:
  assumes "sound db" "admissible (Forget input) db" "handle_forget t input db = (Inr m, db')"
  shows "exact db' \<and> abs_db db' = spec_tool t (Forget input) (abs_db db) \<and> all_trees (abs_db db')"
proof -
  have ex: "exact db" "db_ok db" and trees: "all_trees (abs_db db)"
    using assms(1) by (simp_all add: sound_def exact_def)
  have now: "vs_now (abs_db db) = core_view db" by (simp add: abs_db_def)
  then have tv: "tree_view (core_view db)" using trees by (simp add: all_trees_def)
  have f: "forest db"
    using assms(2) tv core_view_empty_id [OF ex(2)]
    by (simp add: forest_def admissible_def tree_view_def view_edges_tree [OF ex(2)])
  from forget_versions [OF ex(1) f assms(3)] obtain mode targ where
    r: "parse_delete_mode (fi_mode input) = Inr mode" "node_at db (fi_node input) = Some targ"
      "mode = DeleteStrict \<longrightarrow> children_of db (fi_node input) = []" "exact db'"
      "core_view db' = forgotten db mode targ" "versions db' = (versions db)(db_next_snapshot db \<mapsto> core_view db')"
      "db_head db' = Some (db_next_snapshot db)" "db_next_snapshot db' = db_next_snapshot db + 1" by blast
  note row = node_at_SomeD [OF r(2)]
  have at: "core_view db (fi_node input) = Some (core_of targ)" by (simp add: core_view_def r(2))
  have "forgotten db mode targ = vs_now (spec_forget mode (fi_node input) (abs_db db))"
    unfolding forgotten_def spec_forget_def commit_def versioned.select_convs now view_edges_tree [OF ex(2)]
      at option.case core_of_parent using row by (cases mode) (simp_all add: fun_eq_iff)
  moreover have "spec_forget mode (fi_node input) (abs_db db)
      = commit (vs_now (spec_forget mode (fi_node input) (abs_db db))) (abs_db db)"
    by (simp add: spec_forget_def commit_def)
  ultimately have a: "abs_db db' = spec_forget mode (fi_node input) (abs_db db)"
    using commit_abs [OF r(6) refl r(8,7)] r(5) by simp
  have "(fi_node input, j) \<notin> view_edges (core_view db)" if w: "mode = DeleteStrict" for j
  proof -
    have "filter (\<lambda>b. n_parent b = fi_node input \<and> n_parent b \<noteq> []) (db_nodes db) = []"
      using r(3) w by (auto simp: children_of_def filter_empty_conv split: if_splits)
    then show ?thesis by (auto simp: view_edges_tree [OF ex(2)] tree_edges_def filter_empty_conv)
  qed
  then have "all_trees (abs_db db')"
    unfolding a using at by (intro spec_forget_trees [OF trees]) (simp_all add: now)
  with r(1,4) a show ?thesis by (simp add: spec_tool_def)
qed

lemma same_abs:
  assumes "exact db" "db_ok db'" "\<not> db_defer db'" "core_view db' = core_view db"
    and "db_diffs db' = db_diffs db" "db_snapshots db' = db_snapshots db"
    and "db_head db' = db_head db" "db_next_snapshot db' = db_next_snapshot db"
  shows "exact db' \<and> abs_db db' = abs_db db"
  using same_versions [OF assms(1-6)] assms(4,7,8) by (simp add: abs_db_def head_snapshot_id_def)

lemma update_rows_abs:
  assumes "exact db" "\<And>n. core_of (f n) = core_of n"
  shows "exact (update_rows P f db) \<and> abs_db (update_rows P f db) = abs_db db"
  using update_rows_versions [OF assms] by (simp add: abs_db_def head_snapshot_id_def) (simp add: update_rows_def)

lemma boost_abs: "exact db \<Longrightarrow> exact (boost_nodes r is db) \<and> abs_db (boost_nodes r is db) = abs_db db"
  using update_rows_abs [OF _ core_boost_row]
  by (auto simp: boost_nodes_def record_access_def db_node_store_def boost_temperature_batch_def split: option.split)

lemma pin_abs: "exact db \<Longrightarrow> exact (set_pinned i pin temp db) \<and> abs_db (set_pinned i pin temp db) = abs_db db"
proof -
  assume ex: "exact db"
  have p: "core_of (n\<lparr>n_pinned := pin\<rparr>) = core_of n" and w: "core_of (n\<lparr>n_temp := x\<rparr>) = core_of n" for n x
    by (simp_all add: core_of_def)
  show ?thesis
  proof (cases temp)
    case None
    then show ?thesis using update_rows_abs [OF ex p] by (simp add: set_pinned_def)
  next
    case (Some x)
    then show ?thesis using update_rows_abs [OF ex w] update_rows_abs [OF _ p]
      by (simp add: set_pinned_def update_temperature_def)
  qed
qed

lemma relate_abs:
  assumes "exact db" "handle_relate t input db = (Inr m, db')"
  shows "exact db' \<and> abs_db db' = abs_db db"
proof -
  have ok: "db_ok db" "\<not> db_defer db" using assms(1) by (simp_all add: exact_def)
  have rel: "exact d \<and> abs_db d = abs_db db" if w: "upsert_relation x db = Inr d" for x d
  proof (rule same_abs [OF assms(1) upsert_relation_ok [OF ok w]])
    have d: "d = put_relation x db" using w by (simp add: upsert_relation_def split: if_splits)
    show "core_view d = core_view db" by (simp add: d core_view_def node_at_def frame_simps fun_eq_iff)
  qed (use w ok(2) in \<open>auto simp: upsert_relation_def frame_simps split: if_splits\<close>)
  have pend: "exact d \<and> abs_db d = abs_db db" if w: "insert_pending x db = Inr d" for x d
  proof (rule same_abs [OF assms(1) insert_pending_ok [OF ok w]])
    have d: "d = put_pending x db" using w by (simp add: insert_pending_def split: if_splits)
    show "core_view d = core_view db" by (simp add: d core_view_def node_at_def frame_simps fun_eq_iff)
  qed (use w ok(2) in \<open>auto simp: insert_pending_def frame_simps split: if_splits\<close>)
  show ?thesis using assms(2) rel pend
    by (auto simp: handle_relate_def Let_def split: if_splits sum.splits error.splits)
qed

lemma identified: "identify_payload xxh src s \<noteq> []"
  by (rule identify_payload_nonempty)

lemma write_refines:
  assumes "sound db" "handle_write t input db = (Inr m, db')"
  shows "exact db' \<and> abs_db db' = spec_tool t (Write input) (abs_db db) \<and> all_trees (abs_db db')"
proof -
  let ?s = "fst (scrub (tl_redactor t) (wi_payload input))"
  let ?i = "if wi_anchor input = [] then identify_payload (tl_hash t) mcp_write ?s else wi_anchor input"
  let ?cn = "write_node (tl_hash t) ?i ?s (node_at db ?i)"
  have ex: "exact db" "db_ok db" and trees: "all_trees (abs_db db)"
    using assms(1) by (simp_all add: sound_def exact_def)
  obtain u msg where run: "emit_node_change t ?cn (old_state ?i (node_at db ?i)) msg db = (Inr u, db')"
    using assms(2) by (auto simp: handle_write_def Let_def split: prod.splits sum.splits)
  have now: "vs_now (abs_db db) = core_view db" by (simp add: abs_db_def)
  have id: "c_id ?cn = ?i" "?i \<noteq> []"
    using identified node_at_SomeD [of db ?i] by (auto simp: write_node_def split: option.split)
  have par: "case core_view db (c_id ?cn) of None \<Rightarrow> c_parent ?cn = [] | Some n \<Rightarrow> c_parent ?cn = n_parent n"
    unfolding id(1) by (simp add: write_node_def zero_cnode_def core_view_def split: option.split)
  note known = write_node_place(2) [OF ex(2), where xxh = "tl_hash t" and s = ?s and i = ?i]
  from edit_refines [OF ex(1) id(1) known run]
  have r: "exact db'" "abs_db db' = spec_edit ?cn (abs_db db)" by simp_all
  moreover have "all_trees (spec_edit ?cn (abs_db db))"
    using id par by (intro spec_edit_trees [OF trees]) (simp_all only: now, simp)
  moreover have "spec_tool t (Write input) (abs_db db) = spec_edit ?cn (abs_db db)"
    unfolding spec_tool_def Let_def tool_call.case now write_node_core ..
  ultimately show ?thesis by simp
qed

lemma summarize_refines:
  assumes "sound db" "handle_summarize t input db = (Inr m, db')"
  shows "exact db' \<and> abs_db db' = spec_tool t (Summarize input) (abs_db db) \<and> all_trees (abs_db db')"
proof -
  have ex: "exact db" "db_ok db" and trees: "all_trees (abs_db db)"
    using assms(1) by (simp_all add: sound_def exact_def)
  let ?i = "si_node input"
  obtain n where n: "node_at db ?i = Some n"
    using assms(2) by (auto simp: handle_summarize_def get_node_def split: if_splits option.splits)
  let ?cn = "summary_node (tl_hash t) n (fst (scrub (tl_redactor t) (si_summary input)))
      (case si_temp input of Some x \<Rightarrow> x | None \<Rightarrow> tl_rebound t)"
  obtain u msg where run: "emit_node_change t ?cn (old_state ?i (node_at db ?i)) msg db = (Inr u, db')"
    using assms(2) n by (auto simp: handle_summarize_def get_node_def Let_def split: prod.splits sum.splits if_splits)
  have now: "vs_now (abs_db db) = core_view db" by (simp add: abs_db_def)
  have row: "n \<in> set (db_nodes db)" "n_id n = ?i" using node_at_SomeD [OF n] by auto
  have view: "core_view db ?i = Some (core_of n)" by (simp add: core_view_def n)
  have id: "c_id ?cn = ?i" "c_parent ?cn = n_parent n" by (simp_all add: summary_node_def row)
  have "?i \<noteq> []" using trees view by (auto simp: all_trees_def tree_view_def now)
  have known: "c_parent ?cn = [] \<or> c_parent ?cn \<in> set (node_ids db)"
    using ex(2) row(1) by (auto simp: id db_ok_def fk_ok_def parents_ok_def list_all_iff)
  from edit_refines [OF ex(1) id(1) known run]
  have r: "exact db'" "abs_db db' = spec_edit ?cn (abs_db db)" by simp_all
  moreover have "all_trees (spec_edit ?cn (abs_db db))"
    using id view \<open>?i \<noteq> []\<close> by (intro spec_edit_trees [OF trees]) (simp_all add: now)
  moreover have "spec_tool t (Summarize input) (abs_db db) = spec_edit ?cn (abs_db db)"
    using view by (simp add: spec_tool_def now summary_node_core)
  ultimately show ?thesis by simp
qed

lemma read_abs:
  assumes "exact db" "run_tool t r call db = (Inr m, db')"
    and "case call of Write _ \<Rightarrow> False | Summarize _ \<Rightarrow> False | Forget _ \<Rightarrow> False | Rollback _ \<Rightarrow> False | _ \<Rightarrow> True"
  shows "exact db' \<and> abs_db db' = abs_db db"
proof (cases call)
  case (Relate input)
  with assms(2) relate_abs [OF assms(1)] show ?thesis by simp
next
  case (Pin i temp)
  with assms pin_abs [OF assms(1)] show ?thesis
    by (auto simp: handle_pin_def set_pinned_node_def split: if_splits sum.splits error.splits)
next
  case (Unpin i)
  with assms pin_abs [OF assms(1)] show ?thesis
    by (auto simp: handle_unpin_def set_pinned_node_def split: if_splits sum.splits error.splits)
qed (use assms boost_abs [OF assms(1)] in \<open>auto simp: handle_fetch_def handle_fetch_batch_def
  handle_search_def handle_related_def Let_def split: if_splits sum.splits\<close>)

lemma tool_refines:
  assumes "sound db" "admissible call db" "run_tool t r call db = (Inr m, db')"
  shows "sound db' \<and> abs_db db' = spec_tool t call (abs_db db)"
proof -
  have ex: "exact db" and trees: "all_trees (abs_db db)" using assms(1) by (simp_all add: sound_def)
  consider (w) i where "call = Write i" | (s) i where "call = Summarize i" | (f) i where "call = Forget i"
    | (b) i where "call = Rollback i"
    | (o) "case call of Write _ \<Rightarrow> False | Summarize _ \<Rightarrow> False | Forget _ \<Rightarrow> False | Rollback _ \<Rightarrow> False | _ \<Rightarrow> True"
    by (cases call) simp_all
  then show ?thesis
  proof cases
    case (w i)
    with assms(3) have "handle_write t i db = (Inr m, db')" by simp
    from write_refines [OF assms(1) this] show ?thesis unfolding w sound_def by blast
  next
    case (s i)
    with assms(3) have "handle_summarize t i db = (Inr m, db')" by simp
    from summarize_refines [OF assms(1) this] show ?thesis unfolding s sound_def by blast
  next
    case (f i)
    with assms(3) have "handle_forget t i db = (Inr m, db')" by simp
    from forget_refines [OF assms(1) assms(2) [unfolded f] this] show ?thesis unfolding f sound_def by blast
  next
    case (b i)
    then obtain x where "handle_rollback (tl_fault t) (tl_awake t) (tl_hash t) i db = (Inr x, db')"
      using assms(3) by (auto simp: map_sum_def split: prod.splits sum.splits)
    from rollback_refines [OF assms(1) assms(2) [unfolded b] this] spec_rollback_trees [OF trees]
    show ?thesis by (simp add: b spec_tool_def sound_def)
  next
    case o
    from read_abs [OF ex assms(3) o] trees o show ?thesis
      by (cases call) (simp_all add: sound_def spec_tool_def)
  qed
qed

text \<open>A call of the server: the tool's environment, what the read tools use, and the call.\<close>

type_synonym server_call = "tools \<times> reads \<times> tool_call"

definition serve_call :: "server_call \<Rightarrow> db \<Rightarrow> bytes result \<times> db" where
  "serve_call = (\<lambda>(t, r, call). run_tool t r call)"

definition call_allowed :: "server_call \<Rightarrow> db \<Rightarrow> bool" where
  "call_allowed = (\<lambda>(t, r, call). admissible call)"

definition spec_call :: "server_call \<Rightarrow> versioned \<Rightarrow> versioned" where
  "spec_call = (\<lambda>(t, r, call). spec_tool t call)"

interpretation server: simulation serve_call call_allowed sound abs_db spec_call
proof
  show "sound s' \<and> abs_db s' = spec_call l (abs_db s)"
    if w: "sound s" "call_allowed l s" "serve_call l s = (Inr m, s')" for s l m s'
    using w tool_refines by (cases l) (simp add: serve_call_def call_allowed_def spec_call_def)
  show "s' = s" if w: "serve_call l s = (Inl e, s')" for l s e s'
    using w run_tool_error by (cases l) (simp add: serve_call_def)
qed


definition sample_reads :: reads where
  "sample_reads = \<lparr>rd_fts = no_fts, rd_tracker = None,
     rd_budgets = \<lparr>bg_search = None, bg_fetch = None, bg_fetch_batch = None, bg_related = None\<rparr>,
     rd_now = 0, rd_clock = 0, rd_sched = [], rd_fixed2 = (\<lambda>_. []), rd_unified = (\<lambda>_ _. [])\<rparr>"

lemma sample_sound: "sound sample_history"
proof -
  have "versions sample_history 1 = Some [''a'' \<mapsto> core_of (blank_node ''a'' [] ''1'')]"
    by (rule versions_restorable [OF sample_history_ok(1,2) sample_restorable])
  moreover have "versions sample_history 2 = Some (core_view sample_history)"
    by (rule versions_restorable [OF sample_history_ok(1) _ restorable_head [OF sample_history_ok(1)]])
      (simp_all add: sample_rollback_facts)
  moreover have "versions sample_history k = None" if "k \<noteq> 1" "k \<noteq> 2" for k
    using that by (intro versions_none) (simp add: sample_rollback_facts)
  moreover have "tree_view [''a'' \<mapsto> core_of (blank_node ''a'' [] s)]" for s
    by (auto simp: tree_view_def view_edges_def core_of_node blank_node_def acyclic_def split: if_splits)
  ultimately have "all_trees (abs_db sample_history)"
    unfolding all_trees_def abs_db_def versioned.select_convs core_view_sample by (metis option.inject option.distinct(1))
  then show ?thesis using sample_exact(2) by (simp add: sound_def)
qed


end
