(* ===== verification/Text_Label.thy ===== *)
theory Text_Label
  imports Context_Tree
begin

text \<open>
  \<open>pkg/transformer/compress.go\<close> and \<open>label.go\<close>: the whitespace normal form of a node's content and
  the short label shown for it. The two edge-trimming loops drop newlines one by one; they are the
  library's trimming functions here.
\<close>

definition nl :: char where "nl = CHR 0x0A"
definition cr :: char where "cr = CHR 0x0D"
definition tab :: char where "tab = CHR 0x09"
definition blanks :: "char set" where "blanks = {CHR '' '', tab}"

definition trim_trailing_per_line :: "bytes \<Rightarrow> bytes" where
  "trim_trailing_per_line s = join_with [nl] (map (trim_right_set blanks) (split_on nl s))"

lemma has_prefix_length: "has_prefix s p \<Longrightarrow> length p \<le> length s"
  by (metis has_prefix_iff le_add1 length_append)

lemma length_replace_all_le:
  "length new \<le> length old \<Longrightarrow> length (replace_all old new s) \<le> length s"
proof (induction old new s rule: replace_all.induct)
  case (2 old new c cs)
  then show ?case using has_prefix_length [of "c # cs" old] by auto
qed simp

lemma length_replace_all_less:
  assumes "length new < length old" "str_contains s old"
  shows "length (replace_all old new s) < length s"
  using assms
proof (induction old new s rule: replace_all.induct)
  case (1 old new)
  then show ?case by (simp add: str_contains_def split: if_splits)
next
  case (2 old new c cs)
  show ?case
  proof (cases "has_prefix (c # cs) old")
    case True
    then have "length old \<le> length (c # cs)" by (rule has_prefix_length)
    moreover have "length (replace_all old new (drop (length old) (c # cs))) \<le> length (c # cs) - length old"
      using length_replace_all_le [of new old "drop (length old) (c # cs)"] 2(3) by simp
    moreover have "old \<noteq> []" using 2(3) by auto
    ultimately show ?thesis using True 2(3) by simp
  next
    case False
    then have "str_contains cs old" using 2(4) by (simp add: str_contains_def)
    with False 2 show ?thesis by simp
  qed
qed

function collapse_blank_lines :: "bytes \<Rightarrow> bytes" where
  "collapse_blank_lines s =
     (if str_contains s [nl, nl, nl] then collapse_blank_lines (replace_all [nl, nl, nl] [nl, nl] s) else s)"
  by pat_completeness auto
termination
  by (relation "measure length") (auto intro: length_replace_all_less)

declare collapse_blank_lines.simps [simp del]

definition trim_empty_edges :: "bytes \<Rightarrow> bytes" where
  "trim_empty_edges s = trim_right_set {nl} (trim_left_set {nl} s)"

definition compress_text :: "bytes \<Rightarrow> bytes" where
  "compress_text s = trim_empty_edges (collapse_blank_lines (trim_trailing_per_line
     (replace_all [cr] [nl] (replace_all [cr, nl] [nl] s))))"

definition compress :: "cnode \<Rightarrow> cnode" where
  "compress n = n\<lparr>c_content := compress_text (c_content n)\<rparr>"

subsection \<open>Labels\<close>

definition max_label_len :: nat where "max_label_len = 80"
definition code_label_lines :: nat where "code_label_lines = 3"
definition kv_label_keys :: nat where "kv_label_keys = 3"
definition ellipsis :: bytes where "ellipsis = ''...''"

text \<open>
  The cut goes back to the start of a rune. For a limit below the ellipsis the Go slice would be out
  of range; the callers pass 80.
\<close>

definition truncate_text :: "bytes \<Rightarrow> nat \<Rightarrow> bytes" where
  "truncate_text s m =
     (if length s \<le> m then s else take (rune_floor s (m - length ellipsis)) s @ ellipsis)"

text \<open>
  The loop ranges over runes and compares them with ASCII characters; a byte of a longer rune is never
  one, so the scan goes byte by byte.
\<close>

fun sentence_end :: "bytes \<Rightarrow> nat option" where
  "sentence_end [] = None"
| "sentence_end (c # cs) =
     (if c \<in> {CHR ''.'', CHR ''!'', CHR ''?''} \<and> (cs = [] \<or> hd cs \<in> {CHR '' '', nl}) then Some 1
      else map_option Suc (sentence_end cs))"

definition first_sentence :: "bytes \<Rightarrow> nat \<Rightarrow> bytes" where
  "first_sentence s m =
     (case sentence_end s of Some e \<Rightarrow> truncate_text (take e s) m | None \<Rightarrow> truncate_text s m)"

fun top_keys :: "bytes list \<Rightarrow> bytes list" where
  "top_keys [] = []"
| "top_keys (l # ls) =
     (if l = [] \<or> hd l \<in> blanks then top_keys ls
      else case str_index '':'' l of
        None \<Rightarrow> top_keys ls
      | Some i \<Rightarrow> if i = 0 then top_keys ls else take i l # top_keys ls)"

text \<open>A limit of 0 means all keys.\<close>

definition extract_top_keys :: "bytes \<Rightarrow> nat \<Rightarrow> bytes list" where
  "extract_top_keys content limit =
     (let keys = top_keys (split_on nl content) in if limit = 0 then keys else take limit keys)"

definition embed_alt_or_src :: "bytes \<Rightarrow> bytes" where
  "embed_alt_or_src s =
     (case cut (trim_prefix (trim_prefix s ''!'') ''['') '']'' of (alt, tail, ok) \<Rightarrow>
        if \<not> ok then []
        else if alt \<noteq> [] then alt
        else case cut (trim_prefix tail ''('') '')'' of (src, rest, ok) \<Rightarrow> if ok then src else [])"

text \<open>\<open>strings.ToUpper(kind[:1])\<close>: a lone byte outside ASCII is invalid UTF-8 and becomes U+FFFD.\<close>

definition upper_first :: "char \<Rightarrow> bytes" where
  "upper_first c = (if code c < 0x80 then [to_upper_char c] else [byte 0xEF, byte 0xBF, byte 0xBD])"

definition label_embed :: "cnode \<Rightarrow> bytes" where
  "label_embed n =
     (let kind = (if c_format n = [] then ''embed'' else c_format n);
          title = upper_first (hd kind) @ tl kind;
          text = embed_alt_or_src (c_content n)
      in if text = [] then title else truncate_text (title @ '': '' @ text) max_label_len)"

definition list_items :: "bytes \<Rightarrow> bytes list" where
  "list_items content =
     map (\<lambda>l. trim_prefix l ''- '')
       (filter (\<lambda>l. has_prefix l ''- '') (map trim_space (split_on nl content)))"

text \<open>
  \<open>first\<close> is set by the first item while it is empty: the first non-empty item text. Trimmed lines
  with the prefix are never empty after it.
\<close>

definition label_list :: "cnode \<Rightarrow> bytes" where
  "label_list n =
     (if c_format n = format_toon \<and> str_index '':'' (c_content n) \<noteq> None
      then truncate_text (take (the (str_index '':'' (c_content n))) (c_content n)) max_label_len
      else let items = list_items (c_content n);
               first = (case filter (\<lambda>i. i \<noteq> []) items of [] \<Rightarrow> [] | i # _ \<Rightarrow> i)
           in if items = [] then truncate_text (c_content n) max_label_len
              else truncate_text (itoa (int (length items)) @ ''-item list: '' @ first) max_label_len)"

definition label_table :: "cnode \<Rightarrow> bytes" where
  "label_table n =
     (let lines = split_on nl (c_content n);
          cols = join_with '', '' (split_on tab (hd lines))
      in truncate_text (''Table: '' @ cols @ '' ('' @ itoa (int (length lines) - 1) @ '' rows)'') max_label_len)"

definition label_code :: "cnode \<Rightarrow> bytes" where
  "label_code n =
     (let lines = split_on_n nl code_label_lines (c_content n);
          first = trim_space (hd lines);
          is_lang = (0 < length first \<and> length first < max_label_len \<and> \<not> str_contains first '' '')
      in if is_lang \<and> length lines > 1
         then truncate_text (''Code ('' @ first @ ''): '' @ trim_space (lines ! 1)) max_label_len
         else truncate_text (''Code: '' @ first) max_label_len)"

definition label_kv :: "cnode \<Rightarrow> bytes" where
  "label_kv n =
     (let keys = extract_top_keys (c_content n) kv_label_keys
      in if keys = [] then truncate_text (c_content n) max_label_len
         else truncate_text (join_with '', '' keys) max_label_len)"

definition label_preamble :: "cnode \<Rightarrow> bytes" where
  "label_preamble n =
     (let keys = extract_top_keys (c_content n) 0
      in if keys = [] then ''Preamble''
         else truncate_text (''Preamble: '' @ join_with '', '' keys) max_label_len)"

definition label_of :: "cnode \<Rightarrow> bytes" where
  "label_of n =
     (if c_type n = node_heading then truncate_text (c_content n) max_label_len
      else if c_type n = node_list then label_list n
      else if c_type n = node_table then label_table n
      else if c_type n = node_code then label_code n
      else if c_type n = node_text then first_sentence (c_content n) max_label_len
      else if c_type n = node_kv then label_kv n
      else if c_type n = node_preamble then label_preamble n
      else if c_type n = node_embed then label_embed n
      else truncate_text (c_content n) max_label_len)"

definition set_label :: "cnode \<Rightarrow> cnode" where
  "set_label n = n\<lparr>c_label := label_of n\<rparr>"

subsection \<open>The normal form\<close>

text \<open>No carriage return, no blank before a line end, no two empty lines in a row, no newline at the edges.\<close>

definition normal_text :: "bytes \<Rightarrow> bool" where
  "normal_text s \<longleftrightarrow>
     cr \<notin> set s \<and> successively (\<lambda>a b. \<not> (a \<in> blanks \<and> b = nl)) s \<and> \<not> str_contains s [nl, nl, nl]
     \<and> (s = [] \<or> hd s \<noteq> nl \<and> last s \<noteq> nl \<and> last s \<notin> blanks)"

lemma control_chars [simp]: "nl \<noteq> cr" "cr \<noteq> nl" "nl \<notin> blanks" "cr \<notin> blanks"
  by (simp_all add: nl_def cr_def tab_def blanks_def)

lemma replace_all_id: "\<not> str_contains s old \<Longrightarrow> replace_all old new s = s"
  by (induction old new s rule: replace_all.induct) (auto simp: str_contains_def)

lemma str_contains_single [simp]: "str_contains s [c] \<longleftrightarrow> c \<in> set s"
  by (auto simp: str_contains_iff in_set_conv_decomp)

lemma str_contains_set: "str_contains s sub \<Longrightarrow> set sub \<subseteq> set s"
  by (auto simp: str_contains_iff)

lemma set_replace_all: "set (replace_all old new s) \<subseteq> set s \<union> set new"
proof (induction old new s rule: replace_all.induct)
  case (2 old new c cs)
  show ?case
  proof (cases "old \<noteq> [] \<and> has_prefix (c # cs) old")
    case True
    have "set (drop (length old) (c # cs)) \<subseteq> set (c # cs)" by (rule set_drop_subset)
    with True 2(1) show ?thesis by auto
  next
    case False
    with 2(2) show ?thesis by auto
  qed
qed simp

lemma replace_cr: "cr \<notin> set (replace_all [cr] [nl] s)"
proof (induction s)
  case (Cons c s)
  then show ?case by (simp add: has_prefix_def)
qed simp

text \<open>Lines without trailing blanks are what the pairs of neighbours say.\<close>

definition no_trailing :: "bytes \<Rightarrow> bool" where
  "no_trailing s \<longleftrightarrow> successively (\<lambda>a b. \<not> (a \<in> blanks \<and> b = nl)) s \<and> (s \<noteq> [] \<longrightarrow> last s \<notin> blanks)"

lemma no_trailing_line: "last w \<notin> blanks \<or> w = [] \<Longrightarrow> nl \<notin> set w \<Longrightarrow> no_trailing w"
  by (induction w rule: induct_list012) (auto simp: no_trailing_def)

lemma no_trailing_Nil [simp]: "no_trailing []"
  by (simp add: no_trailing_def)

lemma no_trailing_cons: "no_trailing s \<Longrightarrow> no_trailing (nl # s)"
  by (cases s) (auto simp: no_trailing_def)

lemma no_trailing_append:
  "no_trailing u \<Longrightarrow> no_trailing v \<Longrightarrow> no_trailing (u @ v)"
  by (cases u rule: rev_cases; cases v) (auto simp: no_trailing_def successively_append_iff)

lemma no_trailing_per_line: "no_trailing (trim_trailing_per_line s)"
proof -
  have "no_trailing (join_with [nl] ws)" if "\<forall>w\<in>set ws. no_trailing w" for ws
    using that
    by (induction "[nl]" ws rule: join_with.induct) (auto intro!: no_trailing_append no_trailing_cons)
  moreover have "no_trailing (trim_right_set blanks w)" if "w \<in> set (split_on nl s)" for w
    using trim_right_set_last [of blanks w] split_on_no_sep [OF that] set_trim_right_set [of blanks w]
    by (intro no_trailing_line) auto
  ultimately show ?thesis by (auto simp: trim_trailing_per_line_def)
qed

lemma no_trailing_lines:
  assumes "no_trailing s" "w \<in> set (split_on nl s)"
  shows "trim_right_set blanks w = w"
proof (rule trim_right_set_id, rule disjCI)
  assume w: "\<not> last w \<notin> blanks"
  show "w = []"
  proof (rule ccontr)
    assume "w \<noteq> []"
    obtain u v where s: "s = u @ w @ v" "v = [] \<or> hd v = nl" using assms(2)
    proof (induction s arbitrary: w thesis)
      case (Cons c s)
      obtain l ls where l: "split_on nl s = l # ls" by (metis list.exhaust split_on_nonempty)
      have head: "\<exists>v. s = l @ v \<and> (v = [] \<or> hd v = nl)"
        using join_split_on [of nl s] by (cases ls) (auto simp: l)
      show ?case
      proof (cases "c = nl")
        case True
        with Cons show ?thesis by (metis append_Cons append_Nil list.sel(1) set_ConsD split_on.simps(2))
      next
        case False
        then have "w = c # l \<or> w \<in> set ls" using Cons.prems(2) by (simp add: l)
        then show ?thesis
        proof
          assume "w = c # l"
          with head Cons.prems(1) [of "[]"] show ?thesis by auto
        next
          assume "w \<in> set ls"
          then have "w \<in> set (split_on nl s)" by (simp add: l)
          then obtain u v where "s = u @ w @ v" "v = [] \<or> hd v = nl" using Cons.IH by blast
          then show ?thesis using Cons.prems(1) [of "c # u" v] by simp
        qed
      qed
    qed auto
    then show False
      using assms(1) w \<open>w \<noteq> []\<close>
      by (cases v) (auto simp: no_trailing_def successively_append_iff)
  qed
qed

lemma per_line_id: "no_trailing s \<Longrightarrow> trim_trailing_per_line s = s"
  by (simp add: trim_trailing_per_line_def map_idI no_trailing_lines)

lemma no_trailing_collapse_step:
  "no_trailing s \<Longrightarrow> no_trailing (replace_all [nl, nl, nl] [nl, nl] s)"
proof (induction "[nl, nl, nl]" "[nl, nl]" s rule: replace_all.induct)
  case (2 c cs)
  let ?f = "replace_all [nl, nl, nl] [nl, nl]"
  show ?case
  proof (cases "has_prefix (c # cs) [nl, nl, nl]")
    case True
    then obtain t where t: "c # cs = [nl, nl, nl] @ t" by (auto simp: has_prefix_iff)
    then have "no_trailing t" using 2(3) by (cases t) (auto simp: no_trailing_def)
    with True t 2(1) show ?thesis by (auto intro: no_trailing_cons)
  next
    case False
    have keep: "(?f s = [] \<longleftrightarrow> s = []) \<and> (s \<noteq> [] \<longrightarrow> hd (?f s) = hd s)" for s
      by (cases s) (auto simp: has_prefix_iff)
    have "no_trailing cs" using 2(3) by (cases cs) (auto simp: no_trailing_def)
    then have "no_trailing (?f cs)" using False 2(2) by simp
    with False 2(3) keep [of cs] show ?thesis
      by (cases cs; cases "?f cs") (auto simp: no_trailing_def)
  qed
qed simp

lemma collapse_facts:
  "no_trailing s \<Longrightarrow> no_trailing (collapse_blank_lines s)"
  "cr \<notin> set s \<Longrightarrow> cr \<notin> set (collapse_blank_lines s)"
  "\<not> str_contains (collapse_blank_lines s) [nl, nl, nl]"
proof (induction s rule: collapse_blank_lines.induct)
  case (1 s)
  have "cr \<notin> set (replace_all [nl, nl, nl] [nl, nl] s)" if "cr \<notin> set s"
    using set_replace_all [of "[nl, nl, nl]" "[nl, nl]" s] that by auto
  with 1 no_trailing_collapse_step [of s] show
    "no_trailing s \<Longrightarrow> no_trailing (collapse_blank_lines s)"
    "cr \<notin> set s \<Longrightarrow> cr \<notin> set (collapse_blank_lines s)"
    "\<not> str_contains (collapse_blank_lines s) [nl, nl, nl]"
    by (simp_all add: collapse_blank_lines.simps [of s])
qed

text \<open>Both edge loops keep an infix of the text that no newline bounds.\<close>

lemma trim_empty_edges_infix:
  obtains u v where "s = u @ trim_empty_edges s @ v" "v = [] \<or> hd v = nl"
    "trim_empty_edges s = [] \<or> hd (trim_empty_edges s) \<noteq> nl \<and> last (trim_empty_edges s) \<noteq> nl"
proof -
  let ?a = "trim_left_set {nl} s"
  obtain v where v: "?a = trim_empty_edges s @ v" "set v \<subseteq> {nl}"
    using trim_right_set_prefix [of ?a "{nl}"] by (auto simp: trim_empty_edges_def)
  have "s = takeWhile (\<lambda>c. c \<in> {nl}) s @ trim_empty_edges s @ v"
    using v(1) by (metis takeWhile_dropWhile_id trim_left_set_def)
  moreover have "v = [] \<or> hd v = nl" using v(2) by (cases v) auto
  moreover have "hd ?a \<noteq> nl" if "?a \<noteq> []"
    using that hd_dropWhile [of "\<lambda>c. c \<in> {nl}" s] by (simp add: trim_left_set_def)
  then have "trim_empty_edges s = [] \<or> hd (trim_empty_edges s) \<noteq> nl \<and> last (trim_empty_edges s) \<noteq> nl"
  proof (cases "trim_empty_edges s = []")
    case False
    then have "hd ?a = hd (trim_empty_edges s)" "?a \<noteq> []" by (simp_all add: v(1))
    moreover have "last (trim_empty_edges s) \<noteq> nl"
      using False trim_right_set_last [of "{nl}" ?a] by (simp add: trim_empty_edges_def)
    ultimately show ?thesis using \<open>?a \<noteq> [] \<Longrightarrow> hd ?a \<noteq> nl\<close> by simp
  qed simp
  ultimately show ?thesis by (rule that)
qed

lemma compress_normal: "normal_text (compress_text s)"
proof -
  let ?c = "replace_all [cr] [nl] (replace_all [cr, nl] [nl] s)"
  let ?d = "collapse_blank_lines (trim_trailing_per_line ?c)"
  have "cr \<notin> set (trim_trailing_per_line ?c)"
  proof -
    have "set (join_with [nl] (map (trim_right_set blanks) ws)) \<subseteq> set (join_with [nl] ws) \<union> {nl}" for ws
      by (induction "[nl]" ws rule: join_with.induct) (use set_trim_right_set [of blanks] in fastforce)+
    from this [of "split_on nl ?c"] show ?thesis
      using replace_cr by (auto simp: trim_trailing_per_line_def)
  qed
  then have d: "no_trailing ?d" "cr \<notin> set ?d" "\<not> str_contains ?d [nl, nl, nl]"
    using collapse_facts no_trailing_per_line by blast+
  obtain u v where e: "?d = u @ compress_text s @ v" "v = [] \<or> hd v = nl"
    "compress_text s = [] \<or> hd (compress_text s) \<noteq> nl \<and> last (compress_text s) \<noteq> nl"
    by (rule trim_empty_edges_infix [of ?d]) (simp add: compress_text_def)
  moreover have "\<not> str_contains (compress_text s) [nl, nl, nl]"
    using d(3) unfolding e(1) str_contains_iff by (metis append.assoc)
  ultimately show ?thesis
    using d(1,2) by (cases "compress_text s = []"; cases v)
      (auto simp: normal_text_def no_trailing_def successively_append_iff)
qed

lemma normal_compress:
  assumes prem: "normal_text t"
  shows "compress_text t = t"
proof -
  have "no_trailing t" "cr \<notin> set t" "\<not> str_contains t [nl, nl, nl]"
    "t = [] \<or> hd t \<noteq> nl \<and> last t \<noteq> nl"
    using prem by (auto simp: normal_text_def no_trailing_def)
  moreover from this have "\<not> str_contains t [cr, nl]" "\<not> str_contains t [cr]"
    using str_contains_set [of t "[cr, nl]"] by auto
  moreover have "trim_empty_edges t = t"
  proof -
    have "trim_left_set {nl} t = t" using calculation(4) by (cases t) (simp_all add: trim_left_set_def)
    then show ?thesis using calculation(4) by (auto simp: trim_empty_edges_def trim_right_set_id)
  qed
  ultimately show ?thesis
    by (simp add: compress_text_def replace_all_id per_line_id collapse_blank_lines.simps [of t])
qed

text \<open>C17:
  Compressing a text gives its whitespace normal form: no carriage return, no blank at the end of a
  line, no two empty lines in a row, no newline at either edge. The texts in normal form are exactly those
  that stay as they are, so compressing twice is compressing once and the content hash of an unchanged file is stable.
\<close>

theorem compress_normalises:
  "normal_text (compress_text s) \<and> normal_text t = (compress_text t = t)
     \<and> compress_text (compress_text s) = compress_text s"
  by (metis compress_normal normal_compress)

subsection \<open>Labels are short and well-formed\<close>

lemma is_cont_second: "second_ok b (code c) \<Longrightarrow> is_cont c"
  by (auto simp: second_ok_def is_cont_def split: if_splits)

lemma multibyte_bytes:
  assumes "multibyte_at s"
  shows "1 < rune_width s" "rune_width s \<le> length s" "\<forall>i. 0 < i \<and> i < rune_width s \<longrightarrow> is_cont (s ! i)"
proof -
  obtain a b t where s: "s = a # b # t" using assms by (auto simp: multibyte_at_def split: list.splits)
  let ?k = "lead_len (code a)"
  have w: "rune_width s = ?k" using assms s by (simp add: rune_width_def)
  have f: "?k > 1" "second_ok (code a) (code b)" "?k - 2 \<le> length t" "list_all is_cont (take (?k - 2) t)"
    using assms s by (auto simp: multibyte_at_def Let_def)
  show "1 < rune_width s" "rune_width s \<le> length s" using f w s by auto
  show "\<forall>i. 0 < i \<and> i < rune_width s \<longrightarrow> is_cont (s ! i)"
  proof (intro allI impI)
    fix i assume i: "0 < i \<and> i < rune_width s"
    show "is_cont (s ! i)"
    proof (cases "i = 1")
      case True
      then show ?thesis using f(2) s by (simp add: is_cont_second)
    next
      case False
      then have "i - 2 < length (take (?k - 2) t)" using i w f(3) by auto
      then have "is_cont (take (?k - 2) t ! (i - 2))" using f(4) by (auto simp: list_all_length)
      moreover have "s ! i = t ! (i - 2)" using i False s by (cases i; cases "i - 1") auto
      moreover have "i - 2 < lead_len (code a) - 2" using i w False by linarith
      ultimately show ?thesis by simp
    qed
  qed
qed

lemma multibyte_take: "multibyte_at (take k s) = (multibyte_at s \<and> rune_width s \<le> k)" if "k \<le> length s"
  using that by (auto simp: multibyte_at_def rune_width_def Let_def take_Cons' split: list.splits)

lemma multibyte_append: "multibyte_at s \<Longrightarrow> multibyte_at (s @ t) \<and> rune_width (s @ t) = rune_width s"
  by (auto simp: multibyte_at_def rune_width_def Let_def split: list.splits)

lemma utf8_append: "utf8_valid s \<Longrightarrow> utf8_valid t \<Longrightarrow> utf8_valid (s @ t)"
proof (induction s rule: utf8_valid.induct)
  case (2 c cs)
  show ?case
  proof (cases "multibyte_at (c # cs)")
    case True
    have "drop (rune_width (c # cs)) (c # cs @ t) = drop (rune_width (c # cs)) (c # cs) @ t"
      using multibyte_bytes(2) [OF True] drop_append [of "rune_width (c # cs)" "c # cs" t] by simp
    then show ?thesis
      using True 2 multibyte_append [OF True, of t] by simp
  next
    case False
    then have w: "rune_width (c # cs) = 1" "code c < 0x80" using 2(2) by (simp_all add: rune_width_def)
    then have "\<not> multibyte_at (c # u)" for u
      by (auto simp: multibyte_at_def lead_len_def Let_def split: list.splits)
    then have "rune_width (c # cs @ t) = 1" by (simp add: rune_width_def)
    then show ?thesis using 2 w by simp
  qed
qed simp

lemma utf8_ascii: "\<forall>c\<in>set s. code c < 0x80 \<Longrightarrow> utf8_valid s"
proof (induction s)
  case (Cons c s)
  then have "\<not> multibyte_at (c # s)"
    by (auto simp: multibyte_at_def lead_len_def Let_def split: list.splits)
  then show ?case using Cons by (simp add: rune_width_def)
qed simp

lemma utf8_take:
  "utf8_valid s \<Longrightarrow> n \<le> length s \<Longrightarrow> n = length s \<or> rune_start (s ! n) \<Longrightarrow> utf8_valid (take n s)"
proof (induction s arbitrary: n rule: utf8_valid.induct)
  case (2 c cs)
  let ?w = "rune_width (c # cs)"
  show ?case
  proof (cases "n < ?w")
    case True
    have "n = 0"
    proof (rule ccontr)
      assume n: "n \<noteq> 0"
      then have m: "multibyte_at (c # cs)" using True by (auto simp: rune_width_def split: if_splits)
      then have "is_cont ((c # cs) ! n)" using multibyte_bytes(3) [OF m] n True by blast
      moreover have "n < length (c # cs)" using multibyte_bytes(2) [OF m] True by simp
      ultimately show False using 2(4) by (auto simp: rune_start_def)
    qed
    then show ?thesis by simp
  next
    case False
    have w: "?w \<le> length (c # cs)" using rune_width_le_length by blast
    have "utf8_valid (take (n - ?w) (drop ?w (c # cs)))"
      using 2 False w by (intro "2.IH") (auto simp: nth_append)
    moreover obtain u v where uv: "c # cs = u @ v" "length u = ?w"
      using w by (metis append_take_drop_id length_take min.absorb2)
    then have "take n (c # cs) = u @ take (n - ?w) (drop ?w (c # cs))" using False by simp
    moreover have "utf8_valid u"
    proof (cases "multibyte_at (c # cs)")
      case True
      have "u = take ?w (c # cs)" using uv by simp
      then have "multibyte_at u" using multibyte_take [OF w] True by simp
      moreover have "rune_width u = ?w" using multibyte_append [OF calculation, of v] uv(1) by simp
      ultimately show ?thesis using uv(2) by (cases u) auto
    next
      case False
      then have "u = [c]" "code c < 0x80" using 2(2) uv by (cases u; simp add: rune_width_def)+
      then show ?thesis by (intro utf8_ascii) simp
    qed
    ultimately show ?thesis by (simp add: utf8_append)
  qed
qed simp

lemma truncate_text_spec:
  assumes "3 \<le> m"
  shows "length (truncate_text s m) \<le> m" "utf8_valid s \<Longrightarrow> utf8_valid (truncate_text s m)"
proof -
  let ?e = "rune_floor s (m - length ellipsis)"
  have e: "?e \<le> m - 3" using rune_floor_le [of s "m - length ellipsis"] by (simp add: ellipsis_def)
  then show "length (truncate_text s m) \<le> m" using assms by (auto simp: truncate_text_def ellipsis_def)
  have dots: "utf8_valid ellipsis" by (rule utf8_ascii) (simp add: ellipsis_def code_def)
  assume s: "utf8_valid s"
  show "utf8_valid (truncate_text s m)"
  proof (cases "length s \<le> m \<or> ?e = 0")
    case False
    then have "utf8_valid (take ?e s)"
      using e rune_floor_start [of s "m - length ellipsis"] by (intro utf8_take [OF s]) auto
    with False dots show ?thesis by (simp add: truncate_text_def utf8_append)
  qed (use s dots in \<open>auto simp: truncate_text_def\<close>)
qed

lemma sentence_end_spec:
  "sentence_end s = Some e \<Longrightarrow> e \<le> length s \<and> (e = length s \<or> s ! e \<in> {CHR '' '', nl})"
  by (induction s arbitrary: e) (auto split: if_splits simp: hd_conv_nth)



end
