(* ===== verification/Transform.thy ===== *)
theory Transform
  imports Text_Label Redaction
begin

text \<open>
  \<open>pkg/transformer\<close>: what happens to the parsed trees before they are compared with the store. The
  per-node steps are maps over the trees (each Go routine of the error group writes only its own
  node); identities are wired parent first.
\<close>

subsection \<open>Source paths\<close>

definition split_path :: "bytes \<Rightarrow> bytes list" where
  "split_path p = (if clean p = dot then [] else split_on (CHR ''/'') (clean p))"

fun common_parts :: "bytes list \<Rightarrow> bytes list \<Rightarrow> bytes list" where
  "common_parts (a # as) (b # bs) = (if a = b then a # common_parts as bs else [])"
| "common_parts _ _ = []"

fun common_dirs :: "bytes list \<Rightarrow> cnode list \<Rightarrow> bytes list option" where
  "common_dirs parts [] = Some parts"
| "common_dirs parts (n # ns) =
     (let parts = common_parts parts (split_path (path_dir (c_source n)))
      in if parts = [] then None else common_dirs parts ns)"

definition common_dir_prefix :: "cnode list \<Rightarrow> bytes" where
  "common_dir_prefix ns =
     (case common_dirs (split_path (path_dir (c_source (hd ns)))) (tl ns) of
        None \<Rightarrow> []
      | Some parts \<Rightarrow> let result = join_with ''/'' parts
          in if result = [] \<or> result = dot \<or> result = ''/'' then [] else result @ ''/'')"

definition compile_root_prefix :: "bytes \<Rightarrow> bytes" where
  "compile_root_prefix rt =
     (if rt = [] then []
      else if has_suffix (clean rt) ''/'' then clean rt else clean rt @ ''/'')"

definition stored_source_file :: "bytes \<Rightarrow> bytes \<Rightarrow> bytes" where
  "stored_source_file path rt =
     (if compile_root_prefix rt = [] then path else trim_prefix path (compile_root_prefix rt))"

definition path_prefix :: "cnode list \<Rightarrow> bytes \<Rightarrow> bytes" where
  "path_prefix ns rt =
     (if compile_root_prefix rt = [] then common_dir_prefix ns else compile_root_prefix rt)"

definition compress_prefix :: "bytes \<Rightarrow> ctree list \<Rightarrow> ctree list" where
  "compress_prefix rt ts =
     (if flatten ts = [] then ts
      else let prefix = path_prefix (flatten ts) rt
           in if prefix = [] then ts
              else map (map_tree (\<lambda>n. n\<lparr>c_source := trim_prefix (c_source n) prefix\<rparr>)) ts)"

subsection \<open>Hash, token count, identity\<close>

definition set_content_hash :: "hash64 \<Rightarrow> cnode \<Rightarrow> cnode" where
  "set_content_hash xxh n = n\<lparr>c_hash := content_hash xxh (c_content n)\<rparr>"

definition set_token_count :: "cnode \<Rightarrow> cnode" where
  "set_token_count n = n\<lparr>c_tokens := estimate (c_content n)\<rparr>"

definition set_identity :: "hash64 \<Rightarrow> node_id \<Rightarrow> int \<Rightarrow> cnode \<Rightarrow> cnode" where
  "set_identity xxh parent i n = n\<lparr>c_id := identify_node xxh (c_source n) parent i, c_parent := parent\<rparr>"

definition bump :: "bytes \<Rightarrow> (bytes \<Rightarrow> int) \<Rightarrow> bytes \<Rightarrow> int" where
  "bump s seen = seen(s := seen s + 1)"

text \<open>
  The loop of \<open>wireIdentity\<close> over siblings: \<open>seen\<close> counts the roots of each file (used when there is
  no parent), \<open>i\<close> is the index of the range loop.
\<close>

fun wire_siblings :: "hash64 \<Rightarrow> node_id \<Rightarrow> (bytes \<Rightarrow> int) \<Rightarrow> int \<Rightarrow> ctree list \<Rightarrow> ctree list" where
  "wire_siblings xxh parent seen i [] = []"
| "wire_siblings xxh parent seen i (CTree n ks # ts) =
     (let k = (if parent = [] then seen (c_source n) else i);
          n' = set_identity xxh parent k n
      in CTree n' (wire_siblings xxh (c_id n') (\<lambda>_. 0) 0 ks)
         # wire_siblings xxh parent (bump (c_source n) seen) (i + 1) ts)"

definition wire_identity :: "hash64 \<Rightarrow> ctree list \<Rightarrow> node_id \<Rightarrow> ctree list" where
  "wire_identity xxh ts parent = wire_siblings xxh parent (\<lambda>_. 0) 0 ts"

definition scrub_node :: "redactor \<Rightarrow> cnode \<Rightarrow> cnode" where
  "scrub_node red n = n\<lparr>c_content := fst (scrub red (c_content n))\<rparr>"

definition enrich :: "hash64 \<Rightarrow> cnode \<Rightarrow> cnode" where
  "enrich xxh n = set_token_count (set_label (set_content_hash xxh n))"

definition transform :: "hash64 \<Rightarrow> redactor \<Rightarrow> bytes \<Rightarrow> ctree list \<Rightarrow> ctree list" where
  "transform xxh red rt roots =
     (if flatten roots = [] then roots
      else wire_identity xxh
        (map (map_tree (enrich xxh))
          (compress_prefix rt (map (map_tree (scrub_node red)) (map (map_tree compress) roots)))) [])"

subsection \<open>Positions\<close>

text \<open>
  The position of a node: the chain of (source, index) pairs from its root. Its identifier is computed
  along the chain.
\<close>

type_synonym position = "(bytes \<times> int) list"

fun positions :: "position \<Rightarrow> (bytes \<Rightarrow> int) \<Rightarrow> int \<Rightarrow> ctree list \<Rightarrow> position list" where
  "positions pre seen i [] = []"
| "positions pre seen i (CTree n ks # ts) =
     (let p = pre @ [(c_source n, if pre = [] then seen (c_source n) else i)]
      in p # positions p (\<lambda>_. 0) 0 ks
         @ positions pre (bump (c_source n) seen) (i + 1) ts)"

definition id_at :: "hash64 \<Rightarrow> position \<Rightarrow> node_id" where
  "id_at xxh p = foldl (\<lambda>par (s, i). identify_node xxh s par i) [] p"

definition id_input :: "hash64 \<Rightarrow> position \<Rightarrow> bytes" where
  "id_input xxh p = node_input (fst (last p)) (id_at xxh (butlast p)) (snd (last p))"

definition tree_positions :: "ctree list \<Rightarrow> position list" where
  "tree_positions ts = positions [] (\<lambda>_. 0) 0 ts"

lemma id_at_snoc [simp]: "id_at xxh (p @ [(s, i)]) = identify_node xxh s (id_at xxh p) i"
  by (simp add: id_at_def)

lemma id_at_Nil [simp]: "id_at xxh [] = []"
  by (simp add: id_at_def)

lemma id_at_eq_Nil [simp]: "id_at xxh p = [] \<longleftrightarrow> p = []"
  by (cases p rule: rev_cases) auto

lemma wire_siblings_ids:
  assumes "parent = id_at xxh pre"
  shows "map c_id (flatten (wire_siblings xxh parent seen i ts)) = map (id_at xxh) (positions pre seen i ts)
    \<and> map c_parent (flatten (wire_siblings xxh parent seen i ts))
        = map (\<lambda>p. id_at xxh (butlast p)) (positions pre seen i ts)"
  using assms
proof (induction pre seen i ts arbitrary: parent rule: positions.induct)
  case (2 pre seen i n ks ts)
  let ?p = "pre @ [(c_source n, if pre = [] then seen (c_source n) else i)]"
  have "c_id (set_identity xxh parent (if parent = [] then seen (c_source n) else i) n) = id_at xxh ?p"
    using "2.prems" by (simp add: set_identity_def)
  moreover have "c_parent (set_identity xxh parent k n) = id_at xxh (butlast ?p)" for k
    using "2.prems" by (simp add: set_identity_def)
  ultimately show ?case
    using "2.IH"(1) [OF refl refl] "2.IH"(2) [OF refl "2.prems"] by (simp add: Let_def)
qed simp

lemma flatten_wire_content:
  "map (\<lambda>n. n\<lparr>c_id := [], c_parent := []\<rparr>) (flatten (wire_siblings xxh parent seen i ts))
     = map (\<lambda>n. n\<lparr>c_id := [], c_parent := []\<rparr>) (flatten ts)"
  by (induction xxh parent seen i ts rule: wire_siblings.induct) (simp_all add: Let_def set_identity_def)

lemma positions_extend:
  "p \<in> set (positions pre seen i ts) \<Longrightarrow>
     \<exists>s k r. p = pre @ (s, k) # r \<and> (if pre = [] then seen s else i) \<le> k"
proof (induction pre seen i ts rule: positions.induct)
  case (2 pre seen i n ks ts)
  then consider "p = pre @ [(c_source n, if pre = [] then seen (c_source n) else i)]"
    | "p \<in> set (positions (pre @ [(c_source n, if pre = [] then seen (c_source n) else i)]) (\<lambda>_. 0) 0 ks)"
    | "p \<in> set (positions pre (bump (c_source n) seen) (i + 1) ts)"
    by (auto simp: Let_def)
  then show ?case
  proof cases
    case 2
    from "2.IH"(1) [OF refl 2] show ?thesis by force
  next
    case 3
    from "2.IH"(2) [OF refl 3] show ?thesis by (fastforce simp: bump_def split: if_splits)
  qed auto
qed simp

lemma distinct_positions: "distinct (positions pre seen i ts)"
proof (induction pre seen i ts rule: positions.induct)
  case (2 pre seen i n ks ts)
  let ?p = "pre @ [(c_source n, if pre = [] then seen (c_source n) else i)]"
  let ?below = "positions ?p (\<lambda>_. 0) 0 ks" and ?after = "positions pre (bump (c_source n) seen) (i + 1) ts"
  have below: "\<exists>r. p = ?p @ r \<and> r \<noteq> []" if "p \<in> set ?below" for p
    using positions_extend [OF that] by auto
  have after: "\<not> (\<exists>r. p = ?p @ r)" if "p \<in> set ?after" for p
    using positions_extend [OF that] by (auto simp: bump_def split: if_splits)
  have "?p \<notin> set ?below" "?p \<notin> set ?after" "set ?below \<inter> set ?after = {}"
    using below after by force+
  with 2 show ?case by (simp add: Let_def)
qed simp

lemma positions_closed:
  "p \<in> set (positions pre seen i ts) \<Longrightarrow> butlast p = pre \<or> butlast p \<in> set (positions pre seen i ts)"
  by (induction pre seen i ts rule: positions.induct) (auto simp: Let_def)

lemma position_source:
  "p \<in> set (positions pre seen i ts) \<Longrightarrow> p \<noteq> [] \<and> fst (last p) \<in> c_source ` set (flatten ts)"
  by (induction pre seen i ts rule: positions.induct) (auto simp: Let_def)

lemma id_at_no_nul: "byte 0 \<notin> set (id_at xxh p)"
  by (cases p rule: rev_cases) (auto simp: identify_node_no_nul)

text \<open>
  Identifiers are as good as the hash: on a prefix-closed set of positions they are distinct if the
  hash is injective on the inputs it is given there.
\<close>

lemma id_at_inj:
  assumes "\<And>p. p \<in> P \<Longrightarrow> p \<noteq> [] \<and> (butlast p = [] \<or> butlast p \<in> P) \<and> byte 0 \<notin> set (fst (last p))"
    and "inj_on xxh (id_input xxh ` P)"
  shows "inj_on (id_at xxh) P"
proof -
  have "id_at xxh p = id_at xxh q \<Longrightarrow> p \<in> P \<Longrightarrow> q \<in> P \<Longrightarrow> p = q" for p q
  proof (induction "length p" arbitrary: p q rule: less_induct)
    case less
    obtain p' s i where p: "p = p' @ [(s, i)]" using assms(1) [OF less(3)] by (cases p rule: rev_cases) auto
    obtain q' t j where q: "q = q' @ [(t, j)]" using assms(1) [OF less(4)] by (cases q rule: rev_cases) auto
    have "xxh (id_input xxh p) = xxh (id_input xxh q)"
      using less(2) by (simp add: p q identify_node_eq_iff id_input_def)
    then have "id_input xxh p = id_input xxh q"
      using assms(2) less(3,4) by (auto dest: inj_onD)
    then have same: "s = t" "id_at xxh p' = id_at xxh q'" "i = j"
      using assms(1) [OF less(3)] assms(1) [OF less(4)]
        node_input_inj [of s t "id_at xxh p'" "id_at xxh q'" i j, OF _ _ id_at_no_nul id_at_no_nul]
      by (auto simp: p q id_input_def)
    have "p' = q'"
    proof (cases "p' = [] \<or> q' = []")
      case True
      with same(2) show ?thesis by (metis id_at_eq_Nil)
    next
      case False
      then have "p' \<in> P" "q' \<in> P" using assms(1) [OF less(3)] assms(1) [OF less(4)] by (auto simp: p q)
      with less(1) [of p' q'] same(2) show ?thesis by (simp add: p)
    qed
    with same show ?case by (simp add: p q)
  qed
  then show ?thesis by (auto intro: inj_onI)
qed

lemma positions_sources:
  "map c_source (flatten ts) = map (\<lambda>p. fst (last p)) (positions pre seen i ts)"
  by (induction pre seen i ts rule: positions.induct) (simp_all add: Let_def)

lemma positions_wire [simp]:
  "positions pre seen i (wire_siblings xxh parent seen' i' ts) = positions pre seen i ts"
proof (induction xxh parent seen' i' ts arbitrary: pre seen i rule: wire_siblings.induct)
  case (2 xxh parent seen' i' n ks ts)
  then show ?case by (simp add: Let_def) (simp add: set_identity_def)
qed simp

subsection \<open>What a transformed forest satisfies\<close>

text \<open>Every node's parent is empty, known, or an earlier node.\<close>

fun parents_precede :: "node_id set \<Rightarrow> cnode list \<Rightarrow> bool" where
  "parents_precede ids [] = True"
| "parents_precede ids (n # ns) =
     ((c_parent n = [] \<or> c_parent n \<in> ids) \<and> parents_precede (insert (c_id n) ids) ns)"

lemma parents_precede_append:
  "parents_precede ids (xs @ ys) \<longleftrightarrow> parents_precede ids xs \<and> parents_precede (ids \<union> c_id ` set xs) ys"
  by (induction xs arbitrary: ids) (simp_all add: Un_commute)

lemma parents_precede_mono: "parents_precede ids xs \<Longrightarrow> ids \<subseteq> ids' \<Longrightarrow> parents_precede ids' xs"
proof (induction xs arbitrary: ids ids')
  case (Cons x xs)
  have "parents_precede (insert (c_id x) ids') xs"
    by (rule Cons.IH [of "insert (c_id x) ids"]) (use Cons.prems in auto)
  with Cons.prems show ?case by auto
qed simp

lemma wire_parents_precede:
  "parent = [] \<or> parent \<in> ids \<Longrightarrow> parents_precede ids (flatten (wire_siblings xxh parent seen i ts))"
proof (induction xxh parent seen i ts arbitrary: ids rule: wire_siblings.induct)
  case (2 xxh parent seen i n ks ts)
  let ?n = "set_identity xxh parent (if parent = [] then seen (c_source n) else i) n"
  let ?below = "flatten (wire_siblings xxh (c_id ?n) (\<lambda>_. 0) 0 ks)"
  have "parents_precede (insert (c_id ?n) ids) ?below" by (rule "2.IH"(1) [OF refl refl]) simp
  moreover have "parents_precede (insert (c_id ?n) ids \<union> c_id ` set ?below)
      (flatten (wire_siblings xxh parent (bump (c_source n) seen) (i + 1) ts))"
    by (rule "2.IH"(2) [OF refl refl]) (use 2(3) in auto)
  moreover have "c_parent ?n = parent" by (simp add: set_identity_def)
  ultimately show ?case using 2(3) by (simp add: Let_def parents_precede_append)
qed simp

lemma wire_sources: "map c_source (flatten (wire_siblings xxh p seen i ts)) = map c_source (flatten ts)"
  and wire_contents: "map c_content (flatten (wire_siblings xxh p seen i ts)) = map c_content (flatten ts)"
  and wire_hashes: "map (\<lambda>n. (c_content n, c_hash n, c_tokens n)) (flatten (wire_siblings xxh p seen i ts))
      = map (\<lambda>n. (c_content n, c_hash n, c_tokens n)) (flatten ts)"
  by (induction xxh p seen i ts rule: wire_siblings.induct) (simp_all add: Let_def set_identity_def)

lemma flatten_maps:
  "flatten (map (map_tree f) ts) = map f (flatten ts)"
  "flatten (map (map_tree f \<circ> map_tree g) ts) = map (\<lambda>n. f (g n)) (flatten ts)"
  "flatten (map (\<lambda>t. map_tree f (map_tree g t)) ts) = map (\<lambda>n. f (g n)) (flatten ts)"
  using flatten_map_tree [of f "map (map_tree g) ts"] by (simp_all add: flatten_map_tree comp_def)

definition stored_content :: "redactor \<Rightarrow> bytes \<Rightarrow> bytes" where
  "stored_content red c = fst (scrub red (compress_text c))"

lemma flatten_compress_prefix:
  "flatten (compress_prefix rt ts) = map (\<lambda>n. n\<lparr>c_source := trim_prefix (c_source n) (path_prefix (flatten ts) rt)\<rparr>)
     (flatten ts)"
proof -
  have "trim_prefix s [] = s" for s by (simp add: trim_prefix_def)
  then show ?thesis
    by (auto simp: compress_prefix_def Let_def flatten_maps map_idI)
qed

lemma enrich_simps [simp]:
  "c_content (enrich xxh n) = c_content n" "c_source (enrich xxh n) = c_source n"
  "c_hash (enrich xxh n) = content_hash xxh (c_content n)" "c_tokens (enrich xxh n) = estimate (c_content n)"
  by (simp_all add: enrich_def set_token_count_def set_label_def set_content_hash_def)

lemma transform_fields:
  "map c_content (flatten (transform xxh red rt roots)) = map (\<lambda>n. stored_content red (c_content n)) (flatten roots)"
  "map (\<lambda>n. (c_hash n, c_tokens n)) (flatten (transform xxh red rt roots))
     = map (\<lambda>n. let c = stored_content red (c_content n) in (content_hash xxh c, estimate c)) (flatten roots)"
proof -
  let ?ts = "map (map_tree (enrich xxh))
          (compress_prefix rt (map (map_tree (scrub_node red)) (map (map_tree compress) roots)))"
  have base: "map (\<lambda>n. (c_content n, c_hash n, c_tokens n)) (flatten ?ts)
      = map (\<lambda>n. let c = stored_content red (c_content n) in (c, content_hash xxh c, estimate c)) (flatten roots)"
    by (simp add: flatten_maps flatten_compress_prefix comp_def scrub_node_def compress_def stored_content_def
        Let_def)
  have out: "map (\<lambda>n. (c_content n, c_hash n, c_tokens n)) (flatten (transform xxh red rt roots))
      = map (\<lambda>n. let c = stored_content red (c_content n) in (c, content_hash xxh c, estimate c)) (flatten roots)"
    using base by (simp add: transform_def wire_identity_def wire_hashes)
  show "map c_content (flatten (transform xxh red rt roots)) = map (\<lambda>n. stored_content red (c_content n)) (flatten roots)"
    using arg_cong [OF out, of "map fst"] by (simp add: comp_def Let_def)
  show "map (\<lambda>n. (c_hash n, c_tokens n)) (flatten (transform xxh red rt roots))
     = map (\<lambda>n. let c = stored_content red (c_content n) in (content_hash xxh c, estimate c)) (flatten roots)"
    using arg_cong [OF out, of "map snd"] by (simp add: comp_def Let_def)
qed

lemma transform_sources:
  assumes "compile_root_prefix rt \<noteq> []"
  shows "map c_source (flatten (transform xxh red rt roots)) = map (\<lambda>n. stored_source_file (c_source n) rt) (flatten roots)"
  using assms
  by (simp add: transform_def wire_identity_def wire_sources flatten_maps flatten_compress_prefix comp_def
      scrub_node_def compress_def stored_source_file_def path_prefix_def)

lemma set_trim_prefix: "set (trim_prefix s p) \<subseteq> set s"
  by (auto simp: trim_prefix_def dest: in_set_dropD)

lemma transform_sources_sub:
  assumes "n \<in> set (flatten (transform xxh red rt roots))"
  shows "\<exists>m\<in>set (flatten roots). set (c_source n) \<subseteq> set (c_source m)"
proof (cases "flatten roots = []")
  case True
  with assms show ?thesis by (simp add: transform_def)
next
  case False
  have "c_source n \<in> set (map c_source (flatten (transform xxh red rt roots)))" using assms by auto
  with False obtain m p where "m \<in> set (flatten roots)" "c_source n = trim_prefix (c_source m) p"
    by (auto simp: transform_def wire_identity_def wire_sources flatten_maps flatten_compress_prefix
        scrub_node_def compress_def comp_def simp del: set_map) auto
  then show ?thesis using set_trim_prefix [of "c_source m" p] by auto
qed

text \<open>C14:
  The transformed nodes of a compile have pairwise distinct identifiers, as long as the 64-bit hash
  does not collide on the (source, parent, index) inputs of this very compile, and every node comes
  after its parent. Their contents are the normalised and scrubbed ones, and hash and token count are
  those of the scrubbed content, so a secret never reaches the stored hash.
\<close>

theorem transform_identities:
  assumes "\<forall>n\<in>set (flatten roots). byte 0 \<notin> set (c_source n)"
    and "inj_on xxh (id_input xxh ` set (tree_positions (transform xxh red rt roots)))"
  shows "distinct (map c_id (flatten (transform xxh red rt roots)))
    \<and> parents_precede {} (flatten (transform xxh red rt roots))
    \<and> map c_content (flatten (transform xxh red rt roots)) = map (\<lambda>n. fst (scrub red (compress_text (c_content n)))) (flatten roots)
    \<and> (\<forall>n\<in>set (flatten (transform xxh red rt roots)).
         c_hash n = content_hash xxh (c_content n) \<and> c_tokens n = estimate (c_content n))"
proof (cases "flatten roots = []")
  case True
  then show ?thesis by (simp add: transform_def)
next
  case False
  obtain ts where ts: "transform xxh red rt roots = wire_identity xxh ts []"
    and pos: "tree_positions (transform xxh red rt roots) = tree_positions ts"
    using False by (simp add: transform_def tree_positions_def wire_identity_def)
  let ?P = "set (tree_positions ts)"
  have sources: "c_source ` set (flatten ts) = c_source ` set (flatten (transform xxh red rt roots))"
    using arg_cong [OF wire_sources, of set] by (simp add: ts wire_identity_def)
  have "inj_on (id_at xxh) ?P"
  proof (rule id_at_inj)
    fix p assume p: "p \<in> ?P"
    then have "fst (last p) \<in> c_source ` set (flatten (transform xxh red rt roots))" "p \<noteq> []"
      using position_source sources unfolding tree_positions_def by blast+
    then have "byte 0 \<notin> set (fst (last p))"
      using assms(1) transform_sources_sub by fastforce
    with p \<open>p \<noteq> []\<close> positions_closed show "p \<noteq> [] \<and> (butlast p = [] \<or> butlast p \<in> ?P) \<and> byte 0 \<notin> set (fst (last p))"
      unfolding tree_positions_def by blast
  qed (use assms(2) pos in simp)
  moreover have "map c_id (flatten (wire_identity xxh ts [])) = map (id_at xxh) (tree_positions ts)"
    using wire_siblings_ids [of "[]" xxh "[]"] by (simp add: wire_identity_def tree_positions_def)
  ultimately have "distinct (map c_id (flatten (transform xxh red rt roots)))"
    using distinct_positions by (simp add: ts distinct_map tree_positions_def)
  moreover have "parents_precede {} (flatten (transform xxh red rt roots))"
    unfolding ts wire_identity_def by (rule wire_parents_precede) simp
  moreover have "c_hash n = content_hash xxh (c_content n) \<and> c_tokens n = estimate (c_content n)"
    if n: "n \<in> set (flatten (transform xxh red rt roots))" for n
  proof -
    obtain k where "k < length (flatten (transform xxh red rt roots))" "n = flatten (transform xxh red rt roots) ! k"
      using n by (auto simp: in_set_conv_nth)
    moreover have "length (flatten (transform xxh red rt roots)) = length (flatten roots)"
      using arg_cong [OF transform_fields(1), of length] by simp
    ultimately show ?thesis
      using arg_cong [OF transform_fields(1) [of xxh red rt roots], of "\<lambda>l. l ! k"]
        arg_cong [OF transform_fields(2) [of xxh red rt roots], of "\<lambda>l. l ! k"]
      by (simp add: Let_def)
  qed
  ultimately show ?thesis by (simp add: transform_fields stored_content_def)
qed

text \<open>
  The identifiers of a file's nodes do not depend on which other files are compiled with it: picking
  the trees of one file out of the wired forest is wiring the trees of that file alone.
\<close>

lemma identities_per_file:
  "filter (\<lambda>t. c_source (cdata t) = f) (wire_identity xxh ts [])
     = wire_identity xxh (filter (\<lambda>t. c_source (cdata t) = f) ts) []"
proof -
  have "filter (\<lambda>t. c_source (cdata t) = f) (wire_siblings xxh [] seen i ts)
      = wire_siblings xxh [] seen' j (filter (\<lambda>t. c_source (cdata t) = f) ts)"
    if "seen f = seen' f" for seen seen' i j
    using that
  proof (induction ts arbitrary: seen seen' i j)
    case (Cons t ts)
    obtain n ks where t: "t = CTree n ks" by (cases t)
    have src: "c_source (set_identity xxh [] k n) = c_source n" for k by (simp add: set_identity_def)
    show ?case
    proof (cases "c_source n = f")
      case True
      have "bump f seen f = bump f seen' f" using Cons.prems by (simp add: bump_def)
      from Cons.IH [of "bump f seen" "bump f seen'", OF this] True Cons.prems show ?thesis by (simp add: t Let_def src)
    next
      case False
      then have "bump (c_source n) seen f = seen' f" using Cons.prems by (simp add: bump_def)
      from Cons.IH [of "bump (c_source n) seen" seen', OF this] False show ?thesis by (simp add: t Let_def src)
    qed
  qed simp
  then show ?thesis by (simp add: wire_identity_def)
qed

definition sample_file :: "ctree list" where
  "sample_file = [CTree (zero_cnode\<lparr>c_type := node_heading, c_content := ''A  '', c_source := ''/m/a''\<rparr>) []]"

theorem transform_identities_witness:
  "map c_content (flatten (transform (\<lambda>_. 0) None ''/m'' sample_file)) = [''A'']
   \<and> distinct (map c_id (flatten (transform (\<lambda>_. 0) None ''/m'' sample_file)))"
proof -
  have flat: "flatten sample_file = [zero_cnode\<lparr>c_type := node_heading, c_content := ''A  '', c_source := ''/m/a''\<rparr>]"
    by (simp add: sample_file_def)
  have n: "\<forall>n\<in>set (flatten sample_file). byte 0 \<notin> set (c_source n)"
    unfolding flat by (simp add: byte_def char_of_def)
  have "length (tree_positions (transform (\<lambda>_. 0) None ''/m'' sample_file))
      = length (flatten (transform (\<lambda>_. 0) None ''/m'' sample_file))"
    using arg_cong [OF positions_sources, of length] by (simp add: tree_positions_def)
  also have "\<dots> = 1" using arg_cong [OF transform_fields(1), of length] flat by simp
  finally have "inj_on (\<lambda>_. 0 :: 64 word)
      (id_input (\<lambda>_. 0) ` set (tree_positions (transform (\<lambda>_. 0) None ''/m'' sample_file)))"
    by (auto simp: length_Suc_conv)
  note t = transform_identities [OF n this]
  have "compress_text ''A  '' = ''A''"
    by (simp add: compress_text_def trim_trailing_per_line_def collapse_blank_lines.simps trim_empty_edges_def
        nl_def cr_def blanks_def tab_def has_prefix_def trim_right_set_def trim_left_set_def str_contains_def)
  then have "map (\<lambda>n. fst (scrub None (compress_text (c_content n)))) (flatten sample_file) = [''A'']"
    unfolding flat by (simp add: scrub_def)
  with t show ?thesis by simp
qed

end
