(* ===== verification/Compiler.thy ===== *)
theory Compiler
  imports Transform Resolver Emitter
begin

text \<open>
  \<open>pkg/compiler/compiler.go\<close>: a compile reads and parses the files, transforms the trees, compares
  them with what the store holds for these files, and writes the difference, the snapshot and the
  links in one transaction. Reading and parsing a file are parameters (\<open>file_io\<close>): the operating
  system and the parsers. The reader goroutines run in any order: \<open>sched\<close> lists the files in the order
  in which their readers end, \<open>stopped\<close> tells which of them found the context cancelled.
\<close>

record compile_result =
  cr_added :: int
  cr_modified :: int
  cr_removed :: int
  cr_total :: int

record compile_options =
  co_paths :: "bytes list"
  co_message :: bytes
  co_root :: bytes
  co_temps :: "bytes \<Rightarrow> real option"
  co_pins :: "bytes \<Rightarrow> bool"
  co_max_size :: int
  co_timeout :: int
  co_full_rescan :: bool
  co_redactor :: redactor

record file_io =
  io_size :: "bytes \<Rightarrow> int result"
  io_read :: "bytes \<Rightarrow> bytes result"
  io_parse :: "bytes \<Rightarrow> bytes \<Rightarrow> ctree list result"

definition err_unsupported_ext :: error where "err_unsupported_ext = Failure ''unsupported extension''"
definition err_malformed :: error where "err_malformed = Failure ''malformed content''"

definition seed_temp :: "real \<Rightarrow> ctree list \<Rightarrow> ctree list" where
  "seed_temp t ts = map (map_tree (\<lambda>n. n\<lparr>c_temp := Some t\<rparr>)) ts"

definition seed_pin :: "ctree list \<Rightarrow> ctree list" where
  "seed_pin ts = map (map_tree (\<lambda>n. n\<lparr>c_pin := True\<rparr>)) ts"

text \<open>One reader goroutine. A file that is skipped leaves its slot of the results empty.\<close>

definition read_one :: "file_io \<Rightarrow> compile_options \<Rightarrow> bytes \<Rightarrow> ctree list result" where
  "read_one io o' p =
     bind_result (if co_max_size o' > 0 then io_size io p else Inr 0) (\<lambda>size.
       if co_max_size o' > 0 \<and> size > co_max_size o' then Inr []
       else bind_result (io_read io p) (\<lambda>data.
         case io_parse io p data of
           Inl e \<Rightarrow> if e = err_unsupported_ext \<or> e = err_malformed then Inr [] else Inl e
         | Inr ns \<Rightarrow>
             let ns1 = (case co_temps o' p of None \<Rightarrow> ns | Some t \<Rightarrow> seed_temp t ns)
             in Inr (if co_pins o' p then seed_pin ns1 else ns1)))"

definition reader_results :: "file_io \<Rightarrow> (nat \<Rightarrow> bool) \<Rightarrow> compile_options \<Rightarrow> ctree list result list" where
  "reader_results io stopped o' =
     map (\<lambda>(i, p). if stopped i then Inl Cancelled else read_one io o' p) (enumerate 0 (co_paths o'))"

definition unique_files_flat :: "cnode list \<Rightarrow> bytes list" where
  "unique_files_flat flat = first_occs (map c_source flat)"

definition append_skipped_keys :: "bytes list \<Rightarrow> bytes list \<Rightarrow> bytes \<Rightarrow> bytes list" where
  "append_skipped_keys files skipped rt =
     (if rt = [] \<or> skipped = [] then files
      else files @ first_occs_from files (map (\<lambda>p. stored_source_file p rt) skipped))"

definition load_prev_nodes :: "db \<Rightarrow> cnode list \<Rightarrow> bytes list \<Rightarrow> bool \<Rightarrow> bytes \<Rightarrow> node list" where
  "load_prev_nodes db flat skipped full rt =
     (if full \<and> rt \<noteq> [] then nodes_by_compile_root db rt
      else nodes_by_files db (append_skipped_keys (unique_files_flat flat) skipped rt))"

text \<open>A Go map from identifiers; the rows' identifiers are unique.\<close>

definition node_states :: "node list \<Rightarrow> prev_state" where
  "node_states ns = map (\<lambda>n. (n_id n, \<lparr>st_hash = n_hash n, st_content = n_content n\<rparr>)) ns"

definition build_prev_state :: "db \<Rightarrow> cnode list \<Rightarrow> bytes list \<Rightarrow> bool \<Rightarrow> bytes \<Rightarrow> prev_state" where
  "build_prev_state db flat skipped full rt = node_states (load_prev_nodes db flat skipped full rt)"

definition count_result :: "delta list \<Rightarrow> compile_result" where
  "count_result ds =
     (let a = int (length (filter (\<lambda>d. d_op d = OpAdd) ds)); m = int (length (filter (\<lambda>d. d_op d = OpMod) ds));
          r = int (length (filter (\<lambda>d. d_op d = OpRem) ds))
      in \<lparr>cr_added = a, cr_modified = m, cr_removed = r, cr_total = a + m + r\<rparr>)"

definition compile_tx :: "hash64 \<Rightarrow> ctree list \<Rightarrow> delta list \<Rightarrow> bytes \<Rightarrow> bytes \<Rightarrow> unit tx" where
  "compile_tx xxh roots ds msg rt db =
     (let flat = flatten roots; cursor = cursor_hash_for_compile xxh (head_snapshot_id db) flat
      in bind_result (emit_tx \<lparr>e_roots = roots, e_deltas = ds, e_cursor = cursor, e_message = msg, e_root = rt\<rparr> db)
           (\<lambda>(u, db1). bind_result (link_nodes flat db1) (\<lambda>db2. Inr ((), db2))))"

definition skipped_paths :: "compile_options \<Rightarrow> ctree list list \<Rightarrow> bytes list" where
  "skipped_paths o' results = map fst (filter (\<lambda>(p, ns). ns = []) (zip (co_paths o') results))"

record compile_env =
  ce_io :: file_io
  ce_stopped :: "nat \<Rightarrow> bool"
  ce_sched :: "nat list"
  ce_fault :: "nat \<Rightarrow> error option"
  ce_awake :: "nat \<Rightarrow> bool"

definition compile_roots :: "hash64 \<Rightarrow> compile_options \<Rightarrow> ctree list list \<Rightarrow> ctree list" where
  "compile_roots xxh o' results = transform xxh (co_redactor o') (co_root o') (concat results)"

definition compile_deltas :: "compile_options \<Rightarrow> ctree list \<Rightarrow> bytes list \<Rightarrow> db \<Rightarrow> delta list" where
  "compile_deltas o' roots skipped db =
     diff_flat (flatten roots) (build_prev_state db (flatten roots) skipped (co_full_rescan o') (co_root o'))"

definition compile :: "hash64 \<Rightarrow> compile_env \<Rightarrow> compile_options \<Rightarrow> db \<Rightarrow> compile_result result \<times> db" where
  "compile xxh env o' db =
     (case gather (ce_sched env) (reader_results (ce_io env) (ce_stopped env) o') of
        Inl e \<Rightarrow> (Inl (if co_timeout o' > 0 \<and> e = Cancelled
            then Failure ''failed to compile: wall-clock timeout exceeded'' else e), db)
      | Inr results \<Rightarrow>
          let roots = compile_roots xxh o' results;
              ds = compile_deltas o' roots (skipped_paths o' results) db
          in case store_tx (ce_fault env) (ce_awake env) (compile_tx xxh roots ds (co_message o') (co_root o')) db of
               (Inl e, db', _) \<Rightarrow> (Inl e, db')
             | (Inr _, db', _) \<Rightarrow> (Inr (count_result ds), db'))"

subsection \<open>Deltas against rows of the table fit the table\<close>

text \<open>
  What the rows read for the previous state must satisfy: they are rows of the table; a node of the
  forest that is in the table is among them; the row of a node of the forest has the parent that the
  forest gives it; the rows below one of them are among them. Identifiers are not empty.
\<close>

definition faithful_prev :: "db \<Rightarrow> cnode list \<Rightarrow> node list \<Rightarrow> bool" where
  "faithful_prev db flat rows \<longleftrightarrow>
     set rows \<subseteq> set (db_nodes db) \<and> distinct (map n_id rows) \<and> [] \<notin> n_id ` set rows
     \<and> list_all (\<lambda>b. n_id b \<in> c_id ` set flat \<longrightarrow> b \<in> set rows) (db_nodes db)
     \<and> list_all (\<lambda>n. list_all (\<lambda>b. n_id b = c_id n \<longrightarrow> n_parent b = c_parent n) rows) flat
     \<and> list_all (\<lambda>b. n_parent b \<in> n_id ` set rows \<longrightarrow> b \<in> set rows) (db_nodes db)"

lemma map_of_node_states: "map_of (node_states rows) i =
    map_option (\<lambda>b. \<lparr>st_hash = n_hash b, st_content = n_content b\<rparr>) (lookup_by n_id i rows)"
  by (induction rows) (auto simp: node_states_def)

lemma lookup_subset:
  assumes "distinct (map n_id all)" "set rows \<subseteq> set all" "lookup_by n_id i rows = Some b"
  shows "lookup_by n_id i all = Some b"
proof -
  have "b \<in> set all" "n_id b = i" using assms(2,3) by (auto dest: lookup_by_SomeD)
  then show ?thesis using lookup_by_mem [OF assms(1)] by auto
qed

lemma ops_diff_flat:
  "d \<in> set (concat (map (node_deltas prev) flat)) \<Longrightarrow> d_op d \<noteq> OpRem"
  by (auto simp: node_deltas_def add_delta_def mod_delta_def split: option.splits if_splits)

lemma upserts_diff_flat: "upserts (diff_flat flat prev) = concat (map (node_deltas prev) flat)"
  and removals_diff_flat: "removals (diff_flat flat prev)
     = map (\<lambda>i. rem_delta_of i (the (map_of prev i))) (removed_ids flat prev)"
proof -
  have "filter (\<lambda>d. d_op d \<noteq> OpRem) (concat (map (node_deltas prev) flat)) = concat (map (node_deltas prev) flat)"
    "filter (\<lambda>d. d_op d = OpRem) (concat (map (node_deltas prev) flat)) = []"
    using ops_diff_flat by (auto simp: filter_id_conv filter_empty_conv simp del: set_concat)
  then show "upserts (diff_flat flat prev) = concat (map (node_deltas prev) flat)"
    "removals (diff_flat flat prev) = map (\<lambda>i. rem_delta_of i (the (map_of prev i))) (removed_ids flat prev)"
    by (simp_all add: upserts_def removals_def diff_flat_def filter_map comp_def rem_delta_of_def)
qed

lemma removed_nodes: "d_node ` set (removals (diff_flat flat prev)) = dom (map_of prev) - c_id ` set flat"
  by (simp add: removals_diff_flat image_image rem_delta_of_def set_removed_ids)

text \<open>The parents-first order of the forest survives leaving out nodes that are in the table.\<close>

lemma parents_first_kept:
  assumes "parents_precede known flat" "known \<subseteq> ids"
    and "\<And>n. n \<in> set flat \<Longrightarrow> \<not> keep n \<Longrightarrow> c_id n \<in> ids"
  shows "parents_first ids (map node_from_context (filter keep flat))"
  using assms
proof (induction flat arbitrary: known ids)
  case (Cons n flat)
  have "parents_first (if keep n then insert (c_id n) ids else ids) (map node_from_context (filter keep flat))"
    by (rule Cons.IH [of "insert (c_id n) known"]) (use Cons.prems in auto)
  with Cons.prems show ?case by (auto split: if_splits)
qed simp

lemma delta_nodes_in_forest: "d \<in> set (concat (map (node_deltas prev) flat)) \<Longrightarrow> d_node d \<in> c_id ` set flat"
  using node_deltas_node by fastforce

text \<open>The nodes that a diff writes, in the order of the forest, and what their deltas say.\<close>

lemma upsert_tells_new:
  assumes "distinct (map c_id (flatten roots))" "d \<in> set (upserts (diff_flat (flatten roots) prev))"
  shows "tells_new (flatten_map roots) d"
proof -
  from assms(2) obtain n where n: "n \<in> set (flatten roots)" "d \<in> set (node_deltas prev n)"
    by (auto simp: upserts_diff_flat)
  have "flatten_map roots (c_id n) = Some n"
    using n(1) assms(1) by (auto simp: flatten_map_def rev_map [symmetric] comp_def intro!: map_of_is_SomeI)
  with n(2) show ?thesis
    by (auto simp: tells_new_def node_deltas_def add_delta_def mod_delta_def split: option.splits if_splits)
qed

lemma upserted_filter:
  assumes "distinct (map c_id flat)"
  shows "map (\<lambda>d. node_from_context (the (map_of (rev (map (\<lambda>n. (c_id n, n)) flat)) (d_node d))))
       (concat (map (node_deltas prev) flat))
     = map node_from_context (filter (\<lambda>n. node_deltas prev n \<noteq> []) flat)"
proof -
  have look: "map_of (rev (map (\<lambda>n. (c_id n, n)) flat)) (c_id n) = Some n" if "n \<in> set flat" for n
    using that assms by (auto simp: rev_map [symmetric] comp_def intro!: map_of_is_SomeI)
  have one: "map (\<lambda>d. node_from_context (the (map_of (rev (map (\<lambda>n. (c_id n, n)) flat)) (d_node d)))) (node_deltas prev n)
      = (if node_deltas prev n \<noteq> [] then [node_from_context n] else [])" if "n \<in> set flat" for n
    using look [OF that] by (auto simp: node_deltas_def add_delta_def mod_delta_def split: option.splits)
  have "concat (map (\<lambda>n. map (\<lambda>d. node_from_context (the (map_of (rev (map (\<lambda>n. (c_id n, n)) flat)) (d_node d))))
      (node_deltas prev n)) ns) = map node_from_context (filter (\<lambda>n. node_deltas prev n \<noteq> []) ns)"
    if "set ns \<subseteq> set flat" for ns
    using that by (induction ns) (simp_all add: one)
  then show ?thesis by (simp add: map_concat comp_def)
qed

lemma faithful_prevD:
  assumes "faithful_prev db flat rows"
  shows "set rows \<subseteq> set (db_nodes db)" "distinct (map n_id rows)"
    "\<And>b. b \<in> set (db_nodes db) \<Longrightarrow> n_id b \<in> c_id ` set flat \<Longrightarrow> b \<in> set rows"
    "\<And>n b. n \<in> set flat \<Longrightarrow> b \<in> set rows \<Longrightarrow> n_id b = c_id n \<Longrightarrow> n_parent b = c_parent n"
    "\<And>b. b \<in> set (db_nodes db) \<Longrightarrow> n_parent b \<in> n_id ` set rows \<Longrightarrow> b \<in> set rows"
    "[] \<notin> n_id ` set rows"
  using assms by (auto simp: faithful_prev_def list_all_iff)

lemma dom_node_states: "dom (map_of (node_states rows)) = n_id ` set rows"
proof -
  have "i \<in> dom (map_of (node_states rows)) \<longleftrightarrow> i \<in> n_id ` set rows" for i
    using lookup_by_None_iff [of n_id i rows] by (auto simp: map_of_node_states dom_def)
  then show ?thesis by blast
qed

lemma prev_row:
  assumes "distinct (node_ids db)" "faithful_prev db flat rows" "n_id b \<in> n_id ` set rows" "b \<in> set (db_nodes db)"
  shows "b \<in> set rows"
  using assms faithful_prevD(1) [OF assms(2)] by (auto simp: node_ids_def distinct_map dest: inj_onD)

lemma diff_fits:
  assumes "db_ok db" "distinct (map c_id flat)" "faithful_prev db flat rows" "d \<in> set (diff_flat flat (node_states rows))"
  shows "fits db d"
proof -
  note f = faithful_prevD [OF assms(3)]
  have keys: "distinct (map n_id (db_nodes db))" using assms(1) by (simp add: db_ok_def keys_ok_def node_ids_def)
  consider n where "n \<in> set flat" "d \<in> set (node_deltas (node_states rows) n)"
    | i where "i \<in> set (removed_ids flat (node_states rows))" "d = rem_delta_of i (the (map_of (node_states rows) i))"
    using assms(4) by (auto simp: diff_flat_def)
  then show ?thesis
  proof cases
    case 1
    show ?thesis
    proof (cases "lookup_by n_id (c_id n) rows")
      case None
      then have "d = add_delta n" using 1(2) by (simp add: node_deltas_def map_of_node_states)
      moreover have "node_at db (c_id n) = None"
      proof (rule ccontr)
        assume "node_at db (c_id n) \<noteq> None"
        then obtain b where b: "b \<in> set (db_nodes db)" "n_id b = c_id n" by (auto dest: node_at_SomeD)
        with f(3) 1(1) have "b \<in> set rows" by auto
        with None b(2) show False by (metis image_eqI lookup_by_None_iff)
      qed
      ultimately show ?thesis by (simp add: fits_def add_delta_def)
    next
      case (Some b)
      then have "d = mod_delta \<lparr>st_hash = n_hash b, st_content = n_content b\<rparr> n"
        using 1(2) by (auto simp: node_deltas_def map_of_node_states split: if_splits)
      moreover have "node_at db (c_id n) = Some b"
        unfolding node_at_def by (rule lookup_subset [OF keys f(1) Some])
      ultimately show ?thesis by (simp add: fits_def mod_delta_def)
    qed
  next
    case 2
    then obtain b where b: "lookup_by n_id i rows = Some b"
      by (auto simp: set_removed_ids map_of_node_states)
    then have "node_at db i = Some b" unfolding node_at_def by (rule lookup_subset [OF keys f(1)])
    with b 2(2) show ?thesis by (simp add: fits_def rem_delta_of_def map_of_node_states)
  qed
qed

text \<open>Deltas computed against faithful rows meet every condition of the emitter.\<close>

lemma diff_emit_ready:
  assumes "db_ok db" "distinct (map c_id (flatten roots))" "parents_precede {} (flatten roots)"
    and "faithful_prev db (flatten roots) rows" "e_cursor o' \<notin> set (map s_cursor (db_snapshots db))"
    and "e_roots o' = roots" "e_deltas o' = diff_flat (flatten roots) (node_states rows)"
  shows "emit_ready db o'"
    "upserted_nodes o' = map node_from_context (filter (\<lambda>n. node_deltas (node_states rows) n \<noteq> []) (flatten roots))"
proof -
  let ?flat = "flatten roots" and ?prev = "node_states rows"
  let ?ds = "diff_flat ?flat ?prev" and ?keep = "\<lambda>n. node_deltas ?prev n \<noteq> []"
  let ?gone = "d_node ` set (removals ?ds)"
  note f = faithful_prevD [OF assms(4)]
  have keys: "distinct (node_ids db)" using assms(1) by (simp add: db_ok_def keys_ok_def)
  show ns: "upserted_nodes o' = map node_from_context (filter ?keep ?flat)"
    by (simp add: upserted_nodes_def assms(6,7) upserts_diff_flat flatten_map_def upserted_filter [OF assms(2)])
  have gone: "?gone = n_id ` set rows - c_id ` set ?flat" by (simp add: removed_nodes dom_node_states)
  have kept: "\<exists>b. b \<in> set rows \<and> n_id b = c_id n" if "n \<in> set ?flat" "\<not> ?keep n" for n
    using that by (auto simp: node_deltas_def map_of_node_states split: option.splits if_splits dest!: lookup_by_SomeD)
  have parent: "c_parent n = [] \<or> c_parent n \<in> c_id ` set ?flat" if "n \<in> set ?flat" for n
  proof -
    have "parents_precede ids ns \<Longrightarrow> n \<in> set ns \<Longrightarrow> c_parent n = [] \<or> c_parent n \<in> ids \<union> c_id ` set ns" for ids ns
      by (induction ns arbitrary: ids) fastforce+
    from this [OF assms(3) that] show ?thesis by simp
  qed
  have nonempty: "[] \<notin> ?gone" using f(6) by (auto simp: gone)
  have first: "parents_first (set (node_ids db)) (map node_from_context (filter ?keep ?flat))"
  proof (rule parents_first_kept [OF assms(3)])
    fix n assume "n \<in> set ?flat" "\<not> ?keep n"
    then obtain b where "b \<in> set rows" "n_id b = c_id n" using kept by blast
    then show "c_id n \<in> set (node_ids db)" using f(1) by (auto simp: node_ids_def intro!: rev_image_eqI)
  qed simp
  have above: "n_parent n \<notin> ?gone" if w: "n \<in> set (map node_from_context (filter ?keep ?flat))" for n
  proof -
    obtain m where m: "m \<in> set ?flat" "n = node_from_context m" using w by auto
    show ?thesis
    proof (cases "c_parent m = []")
      case True
      then show ?thesis using nonempty m(2) by simp
    next
      case False
      then show ?thesis using parent [OF m(1)] m(2) by (simp add: gone)
    qed
  qed
  have below: "n_id b \<in> ?gone \<or> n_id b \<in> n_id ` set (map node_from_context (filter ?keep ?flat))"
    if b: "b \<in> set (db_nodes db)" "n_parent b \<in> ?gone" for b
  proof (rule ccontr)
    assume no: "\<not> ?thesis"
    have "b \<in> set rows" using f(5) b by (auto simp: gone)
    with no obtain n where n: "n \<in> set ?flat" "n_id b = c_id n" by (auto simp: gone)
    then have "n_parent b = c_parent n" using f(4) \<open>b \<in> set rows\<close> by blast
    moreover from this b(2) nonempty have "c_parent n \<noteq> []" by auto
    ultimately show False using parent [OF n(1)] b(2) by (simp add: gone)
  qed
  have mapped: "tells_new (flatten_map roots) d" if "d \<in> set (upserts ?ds)" for d
    using that by (rule upsert_tells_new [OF assms(2)])
  have split: "?ds = upserts ?ds @ removals ?ds"
    by (simp add: upserts_diff_flat removals_diff_flat) (simp add: diff_flat_def)
  show "emit_ready db o'"
    unfolding emit_ready_def Let_def assms(6,7) ns list_all_iff
    using assms(5) distinct_diff_flat [OF assms(2)] diff_fits [OF assms(1,2,4)] first above below mapped split
    by blast
qed

subsection \<open>The transaction\<close>

lemma pend_ok_frame: "db_pending db' = db_pending db \<Longrightarrow> db_next_pending db' = db_next_pending db \<Longrightarrow> pend_ok db' = pend_ok db"
  by (simp add: pend_ok_def)

lemma pend_ok_delete_row: "pend_ok db \<Longrightarrow> pend_ok (delete_row old db)"
proof -
  assume ok: "pend_ok db"
  let ?rs = "filter (\<lambda>r. l_target r = n_id old) (db_relations db)" and ?n = "db_next_pending db"
  have ids: "map p_id (repend db old) = map (\<lambda>k. ?n + int k) [0..<length ?rs]"
  proof -
    have "map p_id (repend db old) = map (\<lambda>k. ?n + int k) (map fst (enumerate 0 ?rs))"
      by (simp add: repend_def comp_def case_prod_unfold del: map_fst_enumerate)
    then show ?thesis by (simp only: map_fst_enumerate add_0)
  qed
  have old: "distinct (map p_id (db_pending db))" "\<forall>x\<in>set (map p_id (db_pending db)). x < ?n"
    using ok by (auto simp: pend_ok_def list_all_iff)
  have new: "distinct (map p_id (repend db old))"
    "\<forall>x\<in>set (map p_id (repend db old)). ?n \<le> x \<and> x < ?n + int (length ?rs)"
    unfolding ids by (auto simp: distinct_map inj_on_def)
  have "distinct (map p_id (db_pending db @ repend db old))" using old new by fastforce
  moreover have "\<forall>i\<in>set (map p_id (db_pending db @ repend db old)). i < ?n + int (length (repend db old))"
    using old(2) new(2) by (fastforce simp: repend_def)
  ultimately show "pend_ok (delete_row old db)"
    using distinct_map_filter [of p_id "db_pending db @ repend db old"]
    by (auto simp: pend_ok_def delete_row_def list_all_iff simp del: map_append filter_append)
qed

lemma pend_ok_delete_node: "pend_ok db \<Longrightarrow> pend_ok (delete_node i db)"
proof -
  have "pend_ok db \<Longrightarrow> pend_ok (delete_rows is db)" for "is"
    by (induction "is" db rule: delete_rows.induct) (auto simp: pend_ok_delete_row delete_rows.simps split: option.splits)
  then show "pend_ok db \<Longrightarrow> pend_ok (delete_node i db)" by (simp add: delete_node_def)
qed

lemma emit_frame:
  assumes "emit o' db = Inr db'" "pend_ok db"
  shows "pend_ok db' \<and> db_defer db' = db_defer db"
proof -
  let ?P = "\<lambda>x. pend_ok x \<and> db_defer x = db_defer db"
  obtain db1 sid db2 db3 where s: "fold_result (emit_delta (flatten_map (e_roots o'))) (e_deltas o') db = Inr db1"
    "create_snapshot \<lparr>o_cursor = e_cursor o', o_message = e_message o', o_root = e_root o', o_parent = 0,
       o_has_parent = False\<rparr> db1 = Inr (sid, db2)"
    "fold_result (\<lambda>d. insert_diff (diff_record sid (capture_pre_state db (e_deltas o')) d)) (e_deltas o') db2 = Inr db3"
    "advance_cursor sid db3 = Inr db'"
    using assms(1) by (auto simp: emit_def Let_def elim!: bind_result_InrE)
  have "?P db1"
  proof (rule fold_result_invariant [OF s(1)])
    fix d x x' assume x: "?P x" "emit_delta (flatten_map (e_roots o')) d x = Inr x'"
    have up: "?P x'" if "upsert_node n x = Inr x'" for n
      using x(1) upsert_node_Inr [OF that] by (simp add: pend_ok_frame [OF _ _, of "put_row n x"] frame_simps put_row_def pend_ok_def)
    have "db_defer (delete_node i x) = db_defer x" for i by (simp add: delete_node_def frame_simps)
    then show "?P x'"
      using x up by (auto simp: emit_delta_def pend_ok_delete_node split: op.splits option.splits)
  qed (use assms(2) in simp)
  moreover have "?P db1 \<Longrightarrow> ?P db2"
    using s(2) by (auto simp: create_snapshot_def Let_def pend_ok_def split: if_splits)
  moreover have "?P db3" if "?P db2"
    by (rule fold_result_invariant [where P = ?P, OF s(3) that]) (auto simp: insert_diff_def pend_ok_def split: if_splits)
  ultimately show ?thesis using s(4) by (auto simp: advance_cursor_def pend_ok_def split: if_splits)
qed

lemma restorable_frame:
  "db_nodes db' = db_nodes db \<Longrightarrow> db_diffs db' = db_diffs db \<Longrightarrow> restorable db' t v = restorable db t v"
proof -
  assume "db_nodes db' = db_nodes db" "db_diffs db' = db_diffs db"
  then have "core_view db' = core_view db" "later_diffs db' t = later_diffs db t"
    by (simp_all add: core_view_def node_at_def fun_eq_iff later_diffs_def)
  then show ?thesis by (simp add: restorable_def)
qed

lemma transform_parents: "parents_precede {} (flatten (transform xxh red rt roots))"
proof (cases "flatten roots = []")
  case False
  then show ?thesis
    unfolding transform_def wire_identity_def by (simp add: wire_parents_precede)
qed (simp add: transform_def)

text \<open>What a compile leaves in the nodes table.\<close>

definition stored_forest :: "db \<Rightarrow> cnode list \<Rightarrow> node list \<Rightarrow> db \<Rightarrow> bool" where
  "stored_forest db flat rows db' \<longleftrightarrow>
     (\<forall>n\<in>set flat. \<exists>a. core_view db' (c_id n) = Some a \<and> n_hash a = c_hash n \<and> n_parent a = c_parent n)
     \<and> (\<forall>i. i \<notin> c_id ` set flat \<longrightarrow> core_view db' i = (if i \<in> n_id ` set rows then None else core_view db i))"

lemma core_of_simps [simp]:
  "n_hash (core_of b) = n_hash b" "n_parent (core_of b) = n_parent b" "n_id (core_of b) = n_id b"
  by (simp_all add: core_of_def)

lemma unchanged_node:
  assumes "db_ok db" "faithful_prev db flat rows" "n \<in> set flat" "node_deltas (node_states rows) n = []"
  shows "\<exists>a. core_view db (c_id n) = Some a \<and> n_hash a = c_hash n \<and> n_parent a = c_parent n"
proof -
  note f = faithful_prevD [OF assms(2)]
  have keys: "distinct (map n_id (db_nodes db))" using assms(1) by (simp add: db_ok_def keys_ok_def node_ids_def)
  obtain b where b: "lookup_by n_id (c_id n) rows = Some b" "n_hash b = c_hash n"
    using assms(4) by (auto simp: node_deltas_def map_of_node_states split: option.splits if_splits)
  then have "node_at db (c_id n) = Some b"
    unfolding node_at_def by (intro lookup_subset [OF keys f(1)])
  moreover have "n_parent b = c_parent n" using f(4) [OF assms(3)] b(1) by (auto dest: lookup_by_SomeD)
  ultimately show ?thesis using b(2) by (simp add: core_view_def)
qed

lemma emit_tx_stores:
  assumes "db_ok db" "\<not> db_defer db" "pend_ok db" "distinct (map c_id (flatten roots))"
    "parents_precede {} (flatten roots)" "faithful_prev db (flatten roots) rows"
    "e_cursor o' \<notin> set (map s_cursor (db_snapshots db))"
    "e_roots o' = roots" "e_deltas o' = diff_flat (flatten roots) (node_states rows)"
  shows "\<exists>db1. emit_tx o' db = Inr ((), db1) \<and> db_ok db1 \<and> \<not> db_defer db1 \<and> pend_ok db1
    \<and> stored_forest db (flatten roots) rows db1
    \<and> {(t, v). t < db_next_snapshot db \<and> restorable db t v} \<subseteq> {(t, v). restorable db1 t v}"
proof (cases "e_deltas o' = []")
  case True
  then have none: "\<forall>n\<in>set (flatten roots). node_deltas (node_states rows) n = []"
    "dom (map_of (node_states rows)) \<subseteq> c_id ` set (flatten roots)"
    using assms(9) set_removed_ids [of "flatten roots" "node_states rows"] by (auto simp: diff_flat_def)
  have "stored_forest db (flatten roots) rows db"
    using unchanged_node [OF assms(1,6)] none by (auto simp: stored_forest_def dom_node_states)
  with True assms(1-3) show ?thesis by (auto simp: emit_tx_def)
next
  case False
  let ?ds = "diff_flat (flatten roots) (node_states rows)"
  note ready = diff_emit_ready [OF assms(1,4-9)]
  obtain db1 where db1: "emit o' db = Inr db1" "db_ok db1"
    "core_view db1 = (\<lambda>i. if i \<in> d_node ` set (removals ?ds) then None
         else if i \<in> d_node ` set (upserts ?ds) then Some (core_of (node_from_context (the (flatten_map roots i))))
         else core_view db i)"
    "{(t, v). t < db_next_snapshot db \<and> restorable db t v} \<subseteq> {(t, v). restorable db1 t v}"
    using emit_history [OF assms(1,2) ready(1), unfolded assms(8,9)] by blast
  have "stored_forest db (flatten roots) rows db1"
    unfolding stored_forest_def
  proof (intro conjI ballI allI impI)
    fix n assume n: "n \<in> set (flatten roots)"
    then have here: "c_id n \<notin> d_node ` set (removals ?ds)" by (simp add: removed_nodes)
    show "\<exists>a. core_view db1 (c_id n) = Some a \<and> n_hash a = c_hash n \<and> n_parent a = c_parent n"
    proof (cases "c_id n \<in> d_node ` set (upserts ?ds)")
      case True
      then show ?thesis using here flatten_map_lookup [OF assms(4) n] by (simp add: db1(3))
    next
      case False
      have "node_deltas (node_states rows) n = []"
      proof (rule ccontr)
        assume "node_deltas (node_states rows) n \<noteq> []"
        then obtain d where "d \<in> set (node_deltas (node_states rows) n)" by (cases "node_deltas (node_states rows) n") auto
        with n have "d \<in> set (upserts ?ds)" "d_node d = c_id n" by (auto simp: upserts_diff_flat node_deltas_node)
        with False show False by (metis image_eqI)
      qed
      from unchanged_node [OF assms(1,6) n this] show ?thesis using False here by (simp add: db1(3))
    qed
  next
    fix i assume i: "i \<notin> c_id ` set (flatten roots)"
    then have "i \<notin> d_node ` set (upserts ?ds)"
      using delta_nodes_in_forest by (auto simp: upserts_diff_flat simp del: set_concat)
    then show "core_view db1 i = (if i \<in> n_id ` set rows then None else core_view db i)"
      using i by (simp add: db1(3) removed_nodes dom_node_states)
  qed
  moreover have "pend_ok db1" "\<not> db_defer db1" using emit_frame [OF db1(1) assms(3)] assms(2) by simp_all
  ultimately show ?thesis using db1(1,2,4) False by (simp add: emit_tx_def)
qed

lemma compile_stores:
  assumes "db_ok db" "\<not> db_defer db" "pend_ok db"
    and "gather (ce_sched env) (reader_results (ce_io env) (ce_stopped env) o') = Inr results"
    and "ce_fault env = (\<lambda>_. None)"
    and "distinct (map c_id (flatten (compile_roots xxh o' results)))"
    and "faithful_prev db (flatten (compile_roots xxh o' results))
      (load_prev_nodes db (flatten (compile_roots xxh o' results)) (skipped_paths o' results) (co_full_rescan o') (co_root o'))"
    and "cursor_hash_for_compile xxh (head_snapshot_id db) (flatten (compile_roots xxh o' results))
      \<notin> set (map s_cursor (db_snapshots db))"
  shows "let roots = compile_roots xxh o' results; flat = flatten roots;
      rows = load_prev_nodes db flat (skipped_paths o' results) (co_full_rescan o') (co_root o')
    in \<exists>db'. compile xxh env o' db = (Inr (count_result (compile_deltas o' roots (skipped_paths o' results) db)), db')
      \<and> db_ok db' \<and> pend_ok db' \<and> stored_forest db flat rows db'
      \<and> {(t, v). t < db_next_snapshot db \<and> restorable db t v} \<subseteq> {(t, v). restorable db' t v}
      \<and> new_edges db' flat \<subseteq> edge_keys db' \<and> new_waits db' flat \<subseteq> pending_bodies db'"
proof -
  define roots where "roots = compile_roots xxh o' results"
  define rows where "rows = load_prev_nodes db (flatten roots) (skipped_paths o' results) (co_full_rescan o') (co_root o')"
  let ?flat = "flatten roots" and ?ds = "compile_deltas o' roots (skipped_paths o' results) db"
  let ?eo = "\<lparr>e_roots = roots, e_deltas = ?ds, e_cursor = cursor_hash_for_compile xxh (head_snapshot_id db) ?flat,
      e_message = co_message o', e_root = co_root o'\<rparr>"
  have pre: "distinct (map c_id ?flat)" "faithful_prev db ?flat rows"
    "e_cursor ?eo \<notin> set (map s_cursor (db_snapshots db))"
    "parents_precede {} ?flat" "e_roots ?eo = roots" "e_deltas ?eo = diff_flat ?flat (node_states rows)"
    using assms(6-8) transform_parents
    by (simp_all add: roots_def rows_def compile_roots_def compile_deltas_def build_prev_state_def)
  obtain db1 where db1: "emit_tx ?eo db = Inr ((), db1)" "db_ok db1" "\<not> db_defer db1" "pend_ok db1"
    "stored_forest db ?flat rows db1"
    "{(t, v). t < db_next_snapshot db \<and> restorable db t v} \<subseteq> {(t, v). restorable db1 t v}"
    using emit_tx_stores [OF assms(1-3) pre(1,4,2,3,5,6)] by blast
  have "c_id n \<in> set (node_ids db1)" if "n \<in> set ?flat" for n
    using db1(5) that by (auto simp: stored_forest_def core_view_def simp flip: node_at_Some_iff)
  then obtain db2 where db2: "link_nodes ?flat db1 = Inr db2" "db_ok db2" "db_nodes db2 = db_nodes db1"
    "db_diffs db2 = db_diffs db1" "edge_keys db2 = edge_keys db1 \<union> new_edges db1 ?flat \<union> late_edges db1 (still_pending db1 ?flat)"
    "pending_bodies db2 = new_waits db1 ?flat \<union>
        pending_body ` {p \<in> set (still_pending db1 ?flat). resolve (pending_ref p) db1 = []}" "pend_ok db2"
    using link_nodes_runs [OF db1(2-4) pre(1)] by auto
  let ?db' = "db2\<lparr>db_defer := False\<rparr>"
  have same: "db_nodes ?db' = db_nodes db1" "db_diffs ?db' = db_diffs db1" using db2(3,4) by simp_all
  have "compile_tx xxh roots ?ds (co_message o') (co_root o') db = Inr ((), db2)"
    by (simp add: compile_tx_def Let_def db1(1) db2(1))
  then have "compile xxh env o' db = (Inr (count_result ?ds), ?db')"
    using store_tx_no_fault [of "compile_tx xxh roots ?ds (co_message o') (co_root o')" db "()" db2 "ce_awake env"] db2(2)
    by (simp add: compile_def assms(4,5) Let_def roots_def db_ok_def)
  moreover have "stored_forest db ?flat rows ?db'"
    using db1(5) same(1) by (simp add: stored_forest_def core_view_def node_at_def)
  moreover have "new_edges ?db' ?flat = new_edges db1 ?flat" "new_waits ?db' ?flat = new_waits db1 ?flat"
    by (simp_all add: new_edges_def new_waits_def resolve_frame [OF same(1)])
  moreover have "edge_keys ?db' = edge_keys db2" "pending_bodies ?db' = pending_bodies db2" "pend_ok ?db'"
    using db2(7) by (simp_all add: edge_keys_def pending_bodies_def pend_ok_def)
  moreover have "{(t, v). t < db_next_snapshot db \<and> restorable db t v} \<subseteq> {(t, v). restorable ?db' t v}"
    using db1(6) by (simp only: restorable_frame [OF same])
  ultimately show ?thesis
    using db2(2,5,6)
    unfolding Let_def roots_def [symmetric] rows_def [symmetric] by (intro exI [of _ ?db']) auto
qed


subsection \<open>A first compile\<close>

definition sample_env :: compile_env where
  "sample_env = \<lparr>ce_io = \<lparr>io_size = \<lambda>_. Inr 3, io_read = \<lambda>_. Inr ''A'', io_parse = \<lambda>_ _. Inr sample_file\<rparr>,
     ce_stopped = \<lambda>_. False, ce_sched = [0], ce_fault = \<lambda>_. None, ce_awake = \<lambda>_. True\<rparr>"

definition sample_compile :: compile_options where
  "sample_compile = \<lparr>co_paths = [''/m/a''], co_message = [], co_root = ''/m'', co_temps = \<lambda>_. None,
     co_pins = \<lambda>_. False, co_max_size = 0, co_timeout = 0, co_full_rescan = False, co_redactor = None\<rparr>"

lemma sample_gather:
  assumes "co_paths o' = [p]" "co_max_size o' = 0" "co_temps o' p = None" "\<not> co_pins o' p"
  shows "gather (ce_sched sample_env) (reader_results (ce_io sample_env) (ce_stopped sample_env) o') = Inr [sample_file]"
  using assms by (simp add: gather_def reader_results_def read_one_def sample_env_def)

lemma sample_ready:
  assumes "co_paths o' = [p]"
  obtains n where "flatten (compile_roots (\<lambda>_. 0) o' [sample_file]) = [n]"
    "db_ok empty_db" "\<not> db_defer empty_db" "pend_ok empty_db" "ce_fault sample_env = (\<lambda>_. None)"
    "distinct (map c_id (flatten (compile_roots (\<lambda>_. 0) o' [sample_file])))"
    "faithful_prev empty_db (flatten (compile_roots (\<lambda>_. 0) o' [sample_file]))
      (load_prev_nodes empty_db (flatten (compile_roots (\<lambda>_. 0) o' [sample_file])) (skipped_paths o' [sample_file])
         (co_full_rescan o') (co_root o'))"
    "cursor_hash_for_compile (\<lambda>_. 0) (head_snapshot_id empty_db) (flatten (compile_roots (\<lambda>_. 0) o' [sample_file]))
      \<notin> set (map s_cursor (db_snapshots empty_db))"
proof -
  let ?flat = "flatten (compile_roots (\<lambda>_. 0) o' [sample_file])"
  have "length ?flat = 1"
    using arg_cong [OF transform_fields(1), of length] by (simp add: compile_roots_def sample_file_def)
  then obtain n where n: "?flat = [n]" by (auto simp: length_Suc_conv)
  have ok: "db_ok empty_db" "\<not> db_defer empty_db" "pend_ok empty_db" "db_nodes empty_db = []" "db_snapshots empty_db = []"
    by (simp_all add: empty_db_def db_ok_def keys_ok_def fk_ok_def parents_ok_def snapshots_ok_def edges_ok_def
        node_ids_def snapshot_ids_def pend_ok_def)
  have "load_prev_nodes empty_db fl sk b rt = []" for fl sk b rt
    using ok(4) by (simp add: load_prev_nodes_def nodes_by_compile_root_def nodes_by_files_def)
  then have prev: "faithful_prev empty_db ?flat (load_prev_nodes empty_db ?flat (skipped_paths o' [sample_file])
      (co_full_rescan o') (co_root o'))"
    by (simp add: faithful_prev_def ok list_all_iff)
  show thesis by (rule that [OF n ok(1-3) _ _ prev]) (simp_all add: sample_env_def n ok)
qed

lemma sample_compile_runs:
  assumes "co_paths o' = [p]" "co_max_size o' = 0" "co_temps o' p = None" "\<not> co_pins o' p"
  shows "\<exists>r db'. compile (\<lambda>_. 0) sample_env o' empty_db = (Inr r, db')"
proof (rule sample_ready [OF assms(1)])
  fix n
  assume a: "flatten (compile_roots (\<lambda>_. 0) o' [sample_file]) = [n]" "db_ok empty_db" "\<not> db_defer empty_db"
    "pend_ok empty_db" "ce_fault sample_env = (\<lambda>_. None)"
    "distinct (map c_id (flatten (compile_roots (\<lambda>_. 0) o' [sample_file])))"
    "faithful_prev empty_db (flatten (compile_roots (\<lambda>_. 0) o' [sample_file]))
      (load_prev_nodes empty_db (flatten (compile_roots (\<lambda>_. 0) o' [sample_file])) (skipped_paths o' [sample_file])
         (co_full_rescan o') (co_root o'))"
    "cursor_hash_for_compile (\<lambda>_. 0) (head_snapshot_id empty_db) (flatten (compile_roots (\<lambda>_. 0) o' [sample_file]))
      \<notin> set (map s_cursor (db_snapshots empty_db))"
  from compile_stores [OF a(2-4) sample_gather [OF assms] a(5-8)] show ?thesis unfolding Let_def by blast
qed


end
