(* ===== verification/Lost_Write.thy ===== *)
theory Lost_Write
  imports Compiler Memory_Write
begin

text \<open>
  A written node and a full rescan. \<open>loadPrevNodes\<close> (\<open>pkg/compiler/compiler.go\<close>) takes as the previous
  state of a full rescan the rows whose latest diff belongs to a snapshot of the same compile root. A
  write by a tool is committed in a snapshot without a root, so the row it edited is not among them, and
  the compile takes the node for a new one.
\<close>

subsection \<open>What an emit logs\<close>

lemma insert_diffs_log: "fold_result insert_diff rs db = Inr db' \<Longrightarrow> db_diffs db' = db_diffs db @ rs"
proof (induction rs arbitrary: db)
  case (Cons r rs)
  then show ?case by (auto simp: insert_diff_def elim!: bind_result_InrE split: if_splits)
qed simp

lemma emit_deltas_log: "fold_result (emit_delta m) ds db = Inr db' \<Longrightarrow> db_diffs db' = db_diffs db"
proof (induction ds arbitrary: db)
  case (Cons d ds)
  have "db_diffs x = db_diffs db" if "emit_delta m d db = Inr x" for x
    using that by (auto simp: emit_delta_def upsert_node_def Let_def delete_node_def frame_simps
        split: op.splits option.splits if_splits)
  with Cons show ?case by (auto elim!: bind_result_InrE)
qed simp

lemma emit_log:
  assumes "emit o' db = Inr db'"
  shows "db_diffs db' = db_diffs db @
      map (diff_record (db_next_snapshot db) (capture_pre_state db (e_deltas o'))) (e_deltas o')"
    "\<exists>s. db_snapshots db' = db_snapshots db @ [s] \<and> s_id s = db_next_snapshot db \<and> s_root s = e_root o'
      \<and> s_cursor s = e_cursor o'"
    "db_head db' = Some (db_next_snapshot db)"
proof -
  obtain db1 sid db2 db3 where run:
    "fold_result (emit_delta (flatten_map (e_roots o'))) (e_deltas o') db = Inr db1"
    "create_snapshot \<lparr>o_cursor = e_cursor o', o_message = e_message o', o_root = e_root o', o_parent = 0,
      o_has_parent = False\<rparr> db1 = Inr (sid, db2)"
    "fold_result (\<lambda>d. insert_diff (diff_record sid (capture_pre_state db (e_deltas o')) d)) (e_deltas o') db2 = Inr db3"
    "advance_cursor sid db3 = Inr db'"
    using assms by (auto simp: emit_def Let_def elim!: bind_result_InrE)
  have same: "db_diffs db1 = db_diffs db" "db_snapshots db1 = db_snapshots db" "db_next_snapshot db1 = db_next_snapshot db"
    using emit_deltas_log [OF run(1)] emit_deltas_frame [OF run(1)] by simp_all
  note c = create_snapshot_InrD [OF run(2)]
  have root: "\<exists>s. db_snapshots db2 = db_snapshots db1 @ [s] \<and> s_id s = sid \<and> s_root s = e_root o'
      \<and> s_cursor s = e_cursor o'"
    using run(2) by (auto simp: create_snapshot_def Let_def split: if_splits)
  note i = insert_diffs_log [OF run(3) [unfolded fold_result_map]] insert_diffs_frame [OF run(3) [unfolded fold_result_map]]
  have last: "db_diffs db' = db_diffs db3" "db_snapshots db' = db_snapshots db3" "db_head db' = Some sid"
    using run(4) by (auto simp: advance_cursor_def split: if_splits)
  show "db_diffs db' = db_diffs db @
      map (diff_record (db_next_snapshot db) (capture_pre_state db (e_deltas o'))) (e_deltas o')"
    "\<exists>s. db_snapshots db' = db_snapshots db @ [s] \<and> s_id s = db_next_snapshot db \<and> s_root s = e_root o'
      \<and> s_cursor s = e_cursor o'"
    "db_head db' = Some (db_next_snapshot db)"
    using last i c(1,4) root same by simp_all
qed

subsection \<open>The rows of a root after a write\<close>

lemma fold_max_member: "s \<le> fold max ss (s :: int) \<and> (\<forall>x\<in>set ss. x \<le> fold max ss s) \<and> fold max ss s \<in> insert s (set ss)"
proof (induction ss arbitrary: s)
  case (Cons x ss)
  from Cons [of "max x s"] show ?case by auto
qed simp

lemma latest_snap_new:
  assumes "db_diffs db' = db_diffs db @ rs" "\<And>d. d \<in> set (db_diffs db) \<Longrightarrow> r_snap d < k"
    and "\<And>r. r \<in> set rs \<Longrightarrow> r_snap r = k" "i \<in> r_node ` set rs"
  shows "latest_snap db' i = Some k"
proof -
  let ?ks = "map r_snap (filter (\<lambda>d. r_node d = i) (db_diffs db'))"
  have k: "k \<in> set ?ks" "\<forall>x\<in>set ?ks. x \<le> k" using assms by (force simp: less_imp_le)+
  then obtain s ss where s: "?ks = s # ss" by (cases ?ks) auto
  with k fold_max_member [of s ss] have "fold max ss s = k" by (metis antisym insert_iff list.simps(15))
  with s show ?thesis by (simp add: latest_snap_def)
qed

lemma written_row_unseen:
  assumes "exact db0" "tl_hash t = xxh" "c_id cn = i" "\<not> unchanged db0 cn"
    and "emit_node_change t cn (old_state i (node_at db0 i)) msg db0 = (Inr u, db)" "rt \<noteq> []"
  shows "i \<notin> n_id ` set (nodes_by_compile_root db rt)" "\<not> db_defer db"
    "\<And>d. d \<in> set (db_diffs db) \<Longrightarrow> r_snap d \<le> db_next_snapshot db0"
    "\<exists>s. db_snapshots db = db_snapshots db0 @ [s]
      \<and> s_cursor s = cursor_hash_for_change xxh (head_snapshot_id db0) [node_delta db0 cn]"
proof -
  let ?c = "cursor_hash_for_change (tl_hash t) (head_snapshot_id db0) [node_delta db0 cn]"
  let ?o = "\<lparr>e_roots = [CTree cn []], e_deltas = [node_delta db0 cn], e_cursor = ?c, e_message = msg, e_root = []\<rparr>"
  have ok: "db_ok db0" "\<not> db_defer db0" using assms(1) by (simp_all add: exact_def)
  obtain k where "emit_in_store (tl_fault t) (tl_awake t) ?o db0 = (Inr u, db, k)"
    using assms(3-5) one_node_deltas by (auto simp: emit_node_change_def Let_def split: prod.splits)
  from emit_in_store_result [OF this] obtain db1 where run: "emit ?o db0 = Inr db1" "db = db1\<lparr>db_defer := False\<rparr>" by auto
  note e = emit_log [OF run(1)]
  let ?k = "db_next_snapshot db0"
  have old: "r_snap d < ?k" if "d \<in> set (db_diffs db0)" for d
    using diff_snap_less [OF ok(1) that] .
  have rows: "db_diffs db = db_diffs db0 @ [diff_record ?k (capture_pre_state db0 [node_delta db0 cn]) (node_delta db0 cn)]"
    by (simp add: run(2) e(1))
  have latest: "latest_snap db i = Some ?k"
    by (rule latest_snap_new [OF rows old]) (simp_all add: assms(3))
  have fresh: "?k \<notin> set (snapshot_ids db0)" using fresh_snapshot [OF ok(1)] by blast
  then have "lookup_by s_id ?k (db_snapshots db0) = None" by (auto simp: lookup_by_None_iff snapshot_ids_def)
  then obtain s where "lookup_by s_id ?k (db_snapshots db) = Some s" "s_root s = []"
    using e(2) by (auto simp: run(2) lookup_by_append)
  with latest assms(6) show "i \<notin> n_id ` set (nodes_by_compile_root db rt)"
    by (auto simp: nodes_by_compile_root_def)
  show "\<not> db_defer db" by (simp add: run(2))
  show "r_snap d \<le> ?k" if "d \<in> set (db_diffs db)" for d
    using that old by (auto simp: rows less_imp_le)
  show "\<exists>s. db_snapshots db = db_snapshots db0 @ [s]
      \<and> s_cursor s = cursor_hash_for_change xxh (head_snapshot_id db0) [node_delta db0 cn]"
    using e(2) by (auto simp: run(2) assms(2))
qed

subsection \<open>Undoing the compile\<close>

lemma ids_undo: "n_id ` set (rr_nodes (reverse_apply_diff d st)) \<subseteq> insert (r_node d) (n_id ` set (rr_nodes st))"
  by (auto simp: reverse_apply_diff_def)

lemma undo_add_gone:
  assumes "\<And>d. d \<in> set ds \<Longrightarrow> r_node d = i \<Longrightarrow> r_op d = ''add''" "i \<in> r_node ` set ds \<or> i \<notin> n_id ` set (rr_nodes st)"
  shows "i \<notin> n_id ` set (rr_nodes (fold reverse_apply_diff ds st))"
  using assms
proof (induction ds arbitrary: st)
  case (Cons d ds)
  have "i \<notin> n_id ` set (rr_nodes (reverse_apply_diff d st))" if "r_node d = i"
    using Cons.prems(1) [of d] that by (auto simp: reverse_apply_diff_def)
  moreover have "i \<notin> n_id ` set (rr_nodes (reverse_apply_diff d st))"
    if "r_node d \<noteq> i" "i \<notin> n_id ` set (rr_nodes st)"
    using that subsetD [OF ids_undo [of d st], of i] by (metis insertE)
  ultimately have "i \<in> r_node ` set ds \<or> i \<notin> n_id ` set (rr_nodes (reverse_apply_diff d st))"
    using Cons.prems(2) unfolding list.set image_insert insert_iff by metis
  from Cons.IH [OF _ this] Cons.prems(1) show ?case by simp
qed simp

lemma link_frame:
  "link_nodes ns db = Inr db' \<Longrightarrow> db_diffs db' = db_diffs db \<and> db_snapshots db' = db_snapshots db"
proof -
  have up: "db_diffs y = db_diffs x \<and> db_snapshots y = db_snapshots x" if "upsert_relation r x = Inr y" for r x y
    using that by (auto simp: upsert_relation_def frame_simps split: if_splits)
  have pe: "db_diffs y = db_diffs x \<and> db_snapshots y = db_snapshots x" if "insert_pending r x = Inr y" for r x y
    using that by (auto simp: insert_pending_def frame_simps split: if_splits)
  have refs: "db_diffs y = db_diffs x \<and> db_snapshots y = db_snapshots x"
    if "fold_result (emit_ref s origin) rs x = Inr y" for s origin rs x y
    using that by (induction rs arbitrary: x)
      (auto simp: emit_ref_def Let_def elim!: bind_result_InrE dest!: up pe split: if_splits)
  have nodes: "db_diffs y = db_diffs x \<and> db_snapshots y = db_snapshots x"
    if "fold_result link_node ns x = Inr y" for ns x y
    using that by (induction ns arbitrary: x)
      (auto simp: link_node_def delete_parsed_pending_def elim!: bind_result_InrE dest!: refs split: if_splits)
  have retry: "db_diffs y = db_diffs x \<and> db_snapshots y = db_snapshots x"
    if "fold_result retry_one ps x = Inr y" for ps x y
    using that by (induction ps arbitrary: x)
      (auto simp: retry_one_def delete_pending_by_id_def Let_def elim!: bind_result_InrE dest!: up split: if_splits)
  show "link_nodes ns db = Inr db' \<Longrightarrow> db_diffs db' = db_diffs db \<and> db_snapshots db' = db_snapshots db"
    by (auto simp: link_nodes_def retry_pending_def elim!: bind_result_InrE dest!: nodes retry)
qed

lemma unseen_is_added:
  assumes "n \<in> set flat" "c_id n \<notin> n_id ` set rows" "distinct (map c_id flat)"
  shows "add_delta n \<in> set (diff_flat flat (node_states rows))"
    "d \<in> set (diff_flat flat (node_states rows)) \<Longrightarrow> d_node d = c_id n \<Longrightarrow> d_op d = OpAdd"
proof -
  have none: "map_of (node_states rows) (c_id n) = None"
    using assms(2) by (simp add: map_of_node_states lookup_by_None_iff)
  then show "add_delta n \<in> set (diff_flat flat (node_states rows))"
    using assms(1) by (force simp: diff_flat_def node_deltas_def)
  assume d: "d \<in> set (diff_flat flat (node_states rows))" "d_node d = c_id n"
  show "d_op d = OpAdd"
  proof (cases "d \<in> set (upserts (diff_flat flat (node_states rows)))")
    case True
    then obtain m where "m \<in> set flat" "d \<in> set (node_deltas (node_states rows) m)" by (auto simp: upserts_diff_flat)
    moreover from this d(2) have "c_id m = c_id n" by (simp add: node_deltas_node)
    ultimately show ?thesis using none by (auto simp: node_deltas_def add_delta_def)
  next
    case False
    with d(1) have "d \<in> set (removals (diff_flat flat (node_states rows)))" by (auto simp: upserts_def removals_def)
    then have "c_id n \<in> d_node ` set (removals (diff_flat flat (node_states rows)))" using d(2) by (metis image_eqI)
    with none show ?thesis by (auto simp: removed_nodes)
  qed
qed

lemma compile_success:
  assumes "compile xxh env o' db = (Inr r, db')" "gather (ce_sched env) (reader_results (ce_io env) (ce_stopped env) o') = Inr results"
    and "compile_deltas o' (compile_roots xxh o' results) (skipped_paths o' results) db \<noteq> []"
  shows "\<exists>db1 db2 c. emit \<lparr>e_roots = compile_roots xxh o' results,
      e_deltas = compile_deltas o' (compile_roots xxh o' results) (skipped_paths o' results) db,
      e_cursor = c, e_message = co_message o', e_root = co_root o'\<rparr> db = Inr db1
    \<and> link_nodes (flatten (compile_roots xxh o' results)) db1 = Inr db2 \<and> db' = db2\<lparr>db_defer := False\<rparr>"
proof -
  let ?roots = "compile_roots xxh o' results"
  let ?ds = "compile_deltas o' ?roots (skipped_paths o' results) db"
  obtain k where "store_tx (ce_fault env) (ce_awake env) (compile_tx xxh ?roots ?ds (co_message o') (co_root o')) db = (Inr (), db', k)"
    using assms(1,2) by (auto simp: compile_def Let_def split: prod.splits sum.splits)
  from tx_loop_result [OF this [unfolded store_tx_def]]
  obtain db2 where "compile_tx xxh ?roots ?ds (co_message o') (co_root o') db = Inr ((), db2)" "db' = db2\<lparr>db_defer := False\<rparr>"
    by (auto simp: max_attempts_def)
  then show ?thesis using assms(3)
    by (auto simp: compile_tx_def emit_tx_def Let_def elim!: bind_result_InrE)
qed

lemma rescan_loses:
  assumes "\<And>d. d \<in> set (db_diffs db) \<Longrightarrow> r_snap d \<le> h" "h < db_next_snapshot db"
    and "co_full_rescan o'" "co_root o' \<noteq> []" "i \<notin> n_id ` set (nodes_by_compile_root db (co_root o'))"
    and "gather (ce_sched env) (reader_results (ce_io env) (ce_stopped env) o') = Inr results"
    and "i \<in> c_id ` set (flatten (compile_roots xxh o' results))"
    and "distinct (map c_id (flatten (compile_roots xxh o' results)))"
    and "compile xxh env o' db = (Inr r, db')" "restore_to_snapshot db' h = Inr st"
  shows "i \<notin> n_id ` set (rr_nodes st)"
proof -
  let ?flat = "flatten (compile_roots xxh o' results)"
  let ?rows = "nodes_by_compile_root db (co_root o')"
  let ?ds = "compile_deltas o' (compile_roots xxh o' results) (skipped_paths o' results) db"
  obtain n where n: "n \<in> set ?flat" "c_id n = i" using assms(7) by auto
  have ds: "?ds = diff_flat ?flat (node_states ?rows)"
    using assms(3,4) by (simp add: compile_deltas_def build_prev_state_def load_prev_nodes_def)
  note unseen = unseen_is_added [OF n(1) assms(5) [folded n(2)] assms(8), folded ds]
  then have "?ds \<noteq> []" by auto
  from compile_success [OF assms(9,6) this] obtain db1 db2 c where run:
    "emit \<lparr>e_roots = compile_roots xxh o' results, e_deltas = ?ds, e_cursor = c, e_message = co_message o',
      e_root = co_root o'\<rparr> db = Inr db1"
    "link_nodes ?flat db1 = Inr db2" "db' = db2\<lparr>db_defer := False\<rparr>" by blast
  let ?rs = "map (diff_record (db_next_snapshot db) (capture_pre_state db ?ds)) ?ds"
  have rows: "db_diffs db' = db_diffs db @ ?rs"
    using emit_log(1) [OF run(1)] link_frame [OF run(2)] by (simp add: run(3))
  have later: "set (diffs_after db' h) = set ?rs"
    using assms(1,2) by (auto simp: diffs_after_def later_diffs_def rows dest!: assms(1))
  have adds: "r_op d = ''add''" if "d \<in> set (diffs_after db' h)" "r_node d = i" for d
    using that unseen(2) n(2) unfolding later by (auto simp: op_string_def)
  have "add_delta n \<in> set ?ds" by (rule unseen(1))
  then have "i \<in> r_node ` set (diffs_after db' h)"
    unfolding later using n(2) by (force simp: add_delta_def)
  with undo_add_gone [OF adds] assms(10) show ?thesis
    by (auto simp: restore_to_snapshot_def split: sum.splits error.splits)
qed

lemma re_add_runs:
  assumes "db_ok db" "\<not> db_defer db" "pend_ok db" "flatten roots = [n]" "c_parent n = []"
    and "cursor_hash_for_compile xxh (head_snapshot_id db) [n] \<notin> set (map s_cursor (db_snapshots db))"
  shows "\<exists>db'. compile_tx xxh roots [add_delta n] msg rt db = Inr ((), db') \<and> fk_ok db'"
proof -
  let ?c = "cursor_hash_for_compile xxh (head_snapshot_id db) [n]"
  let ?o = "\<lparr>e_roots = roots, e_deltas = [add_delta n], e_cursor = ?c, e_message = msg, e_root = rt\<rparr>"
  let ?so = "\<lparr>o_cursor = ?c, o_message = msg, o_root = rt, o_parent = 0, o_has_parent = False\<rparr>"
  let ?db1 = "put_row (node_from_context n) db" and ?sid = "db_next_snapshot db"
  have up: "upsert_node (node_from_context n) db = Inr ?db1" using assms(5) by (simp add: upsert_node_def Let_def)
  note ok1 = upsert_node_ok [OF assms(1,2) up]
  have "flatten_map roots (c_id n) = Some n" by (simp add: flatten_map_def assms(4))
  with up have one: "fold_result (emit_delta (flatten_map roots)) [add_delta n] db = Inr ?db1"
    by (simp add: emit_delta_def add_delta_def)
  have "db_head ?db1 = Some p \<Longrightarrow> p \<in> set (snapshot_ids ?db1)" for p
    using ok1 by (simp add: db_ok_def fk_ok_def snapshots_ok_alt)
  then obtain db2 where c: "create_snapshot ?so ?db1 = Inr (?sid, db2)"
    using assms(6) by (cases "db_head db") (simp_all add: create_snapshot_def Let_def frame_simps)
  have ok2: "db_ok db2" by (rule create_snapshot_ok [OF ok1 _ c]) (simp add: assms(2) frame_simps)
  note c2 = create_snapshot_InrD [OF c]
  let ?r = "diff_record ?sid (capture_pre_state db [add_delta n]) (add_delta n)"
  let ?db3 = "db2\<lparr>db_diffs := db_diffs db2 @ [?r], db_head := Some ?sid\<rparr>"
  have sid: "?sid \<in> set (snapshot_ids db2)" by (simp add: c2(11))
  have run: "emit ?o db = Inr ?db3"
    using one c sid by (simp add: emit_def Let_def insert_diff_def advance_cursor_def) (simp add: snapshot_ids_def)
  have ok3: "db_ok ?db3"
  proof -
    have "snapshots_ok ?db3"
      using ok2 sid by (auto simp: db_ok_def fk_ok_def snapshots_ok_alt snapshot_ids_def)
    with ok2 show ?thesis
      by (simp add: db_ok_def keys_ok_def fk_ok_def parents_ok_def edges_ok_def node_ids_def snapshot_ids_def)
  qed
  have "\<not> db_defer ?db3" "pend_ok ?db3" using emit_frame [OF run assms(3)] assms(2) by simp_all
  moreover have "node_ids ?db3 = node_ids ?db1" by (simp add: node_ids_def c2(3))
  then have "c_id ` set [n] \<subseteq> set (node_ids ?db3)" by (simp add: node_ids_put_row)
  ultimately obtain db4 where "link_nodes [n] ?db3 = Inr db4" "db_ok db4"
    using link_nodes_runs [OF ok3, of "[n]"] by auto
  with run show ?thesis
    by (intro exI [of _ db4]) (simp add: compile_tx_def Let_def emit_tx_def assms(4) db_ok_def)
qed

text \<open>C28::
  A full rescan of the compile root after \<open>MemoryWrite\<close> edited one of its nodes loses the write from the
  history. Right after the write its snapshot restores the written text. If a later full rescan of any
  root finds the node again, the node is logged as added, although its row existed: from then on restoring the
  snapshot of the write gives a forest without the node.
\<close>

theorem recompile_loses_write:
  assumes "exact db0" "node_at db0 i = Some old" "n_hash old \<noteq> content_hash (tl_hash t) content"
    and "content = fst (scrub (tl_redactor t) payload)" "i \<noteq> []"
    and "handle_write t \<lparr>wi_anchor = i, wi_payload = payload\<rparr> db0 = (Inr m, db)"
    and "co_full_rescan o'" "co_root o' \<noteq> []"
    and "gather (ce_sched env) (reader_results (ce_io env) (ce_stopped env) o') = Inr results"
    and "i \<in> c_id ` set (flatten (compile_roots xxh o' results))"
    and "distinct (map c_id (flatten (compile_roots xxh o' results)))"
    and "compile xxh env o' db = (Inr r, db')"
  shows "\<exists>v st. versions db (head_snapshot_id db) = Some v \<and> map_option n_content (v i) = Some content
    \<and> restore_to_snapshot db' (head_snapshot_id db) = Inr st \<and> lookup_by n_id i (rr_nodes st) = None"
proof -
  let ?cn = "write_node (tl_hash t) i content (Some old)" and ?h = "db_next_snapshot db0"
  have ok: "db_ok db0" using assms(1) by (simp add: exact_def)
  note place = write_node_place [OF ok, where xxh = "tl_hash t" and s = content and i = i, unfolded assms(2)]
  have un: "\<not> unchanged db0 ?cn" using assms(2,3) place(1) by (simp add: unchanged_def)
  from assms(5,6) obtain u where run: "emit_node_change t ?cn (old_state i (node_at db0 i)) (''write:'' @ i) db0 = (Inr u, db)"
    by (auto simp: handle_write_def Let_def assms(2,4) split: prod.splits sum.splits)
  note v = emit_node_change_versions [OF assms(1) _ place(2), unfolded place(1), OF run]
  with un have db: "exact db" "db_head db = Some ?h" "db_next_snapshot db = ?h + 1"
    "core_view db = (core_view db0)(i \<mapsto> core_of (node_from_context ?cn))"
    "versions db = (versions db0)(?h \<mapsto> core_view db)" by simp_all
  have head: "head_snapshot_id db = ?h" by (simp add: head_snapshot_id_def db(2))
  note w = written_row_unseen [OF assms(1) refl place(1) un run assms(8)]
  have h: "?h \<in> set (snapshot_ids db)"
    using db(5) versions_none [of ?h db] by (metis fun_upd_same option.distinct(1))
  have "?h \<in> set (snapshot_ids db')"
  proof -
    have "compile_deltas o' (compile_roots xxh o' results) (skipped_paths o' results) db \<noteq> []"
    proof -
      obtain n where n: "n \<in> set (flatten (compile_roots xxh o' results))" "c_id n = i" using assms(10) by auto
      from unseen_is_added(1) [OF n(1) w(1) [folded n(2)] assms(11)] show ?thesis
        using assms(7,8) by (auto simp: compile_deltas_def build_prev_state_def load_prev_nodes_def)
    qed
    from compile_success [OF assms(12,9) this] obtain db1 db2 o'' where
      c: "emit o'' db = Inr db1" "link_nodes (flatten (compile_roots xxh o' results)) db1 = Inr db2"
      "db' = db2\<lparr>db_defer := False\<rparr>" by blast
    from emit_log(2) [OF c(1)] link_frame [OF c(2)] h show ?thesis by (auto simp: c(3) snapshot_ids_def)
  qed
  then obtain st where st: "restore_to_snapshot db' ?h = Inr st"
    by (cases "lookup_by s_id ?h (db_snapshots db')")
      (auto simp: restore_to_snapshot_def get_snapshot_def lookup_by_None_iff snapshot_ids_def)
  have "i \<notin> n_id ` set (rr_nodes st)"
    by (rule rescan_loses [OF w(3) _ assms(7,8) w(1) assms(9-12) st]) (simp_all add: db(3))
  moreover have "map_option n_content (core_view db i) = Some content"
    by (simp add: db(4) node_from_context_def)
  ultimately show ?thesis using st db(5) by (simp add: head lookup_by_None_iff)
qed

subsection \<open>A lost write\<close>

text \<open>A hash that tells the two heads apart.\<close>

definition second_head :: hash64 where
  "second_head s = (if take 8 s = write_id 1 then 1 else 0)"

definition rescan_options :: compile_options where
  "rescan_options = sample_compile\<lparr>co_full_rescan := True\<rparr>"

definition rescan_id :: node_id where
  "rescan_id = c_id (hd (flatten (compile_roots second_head rescan_options [sample_file])))"

definition before_write :: db where
  "before_write = empty_db\<lparr>db_nodes := [blank_node rescan_id [] ''A'']\<rparr>"

definition writer :: tools where
  "writer = sample_tools\<lparr>tl_hash := second_head\<rparr>"

lemma length_write_id: "length (write_id k) = 8"
  by (simp add: write_id_def put_uint64_be_def)

lemma wired_ids: "n \<in> set (flatten (wire_siblings xxh par seen i ts)) \<Longrightarrow> c_id n \<noteq> []"
proof (induction xxh par seen i ts rule: wire_siblings.induct)
  case (2 xxh par seen i m ks ts)
  then show ?case by (auto simp: Let_def set_identity_def)
qed simp

lemma rescan_node: "\<exists>n. flatten (compile_roots second_head rescan_options [sample_file]) = [n] \<and> c_id n = rescan_id
    \<and> c_parent n = [] \<and> rescan_id \<noteq> []"
proof -
  let ?flat = "flatten (compile_roots second_head rescan_options [sample_file])"
  have "length ?flat = 1"
    using arg_cong [OF transform_fields(1), of length] by (simp add: compile_roots_def sample_file_def)
  then obtain n where n: "?flat = [n]" by (auto simp: length_Suc_conv)
  moreover have "parents_precede {} ?flat" unfolding compile_roots_def by (rule transform_parents)
  moreover have "c_id n \<noteq> []"
    using n wired_ids [of n second_head "[]"]
    by (simp add: compile_roots_def transform_def wire_identity_def sample_file_def) (metis list.set_intros(1))
  ultimately show ?thesis by (simp add: rescan_id_def)
qed

theorem recompile_loses_write_witness:
  "\<exists>m r db db' v st. handle_write writer \<lparr>wi_anchor = rescan_id, wi_payload = ''new''\<rparr> before_write = (Inr m, db)
     \<and> compile second_head sample_env rescan_options db = (Inr r, db')
     \<and> versions db (head_snapshot_id db) = Some v \<and> map_option n_content (v rescan_id) = Some ''new''
     \<and> restore_to_snapshot db' (head_snapshot_id db) = Inr st \<and> lookup_by n_id rescan_id (rr_nodes st) = None"
proof -
  obtain n where n: "flatten (compile_roots second_head rescan_options [sample_file]) = [n]" "c_id n = rescan_id"
    "c_parent n = []" "rescan_id \<noteq> []" using rescan_node by blast
  let ?row = "blank_node rescan_id [] ''A''"
  have row: "node_at before_write rescan_id = Some ?row" "db_snapshots before_write = []" "db_head before_write = None"
    "db_next_snapshot before_write = 1" "db_pending before_write = []"
    by (simp_all add: before_write_def empty_db_def node_at_def blank_node_def)
  have ok: "exact before_write"
    using n(4) by (simp add: exact_def before_write_def empty_db_def db_ok_def keys_ok_def fk_ok_def parents_ok_def
        snapshots_ok_def edges_ok_def node_ids_def snapshot_ids_def blank_node_def)
  have t: "tl_hash writer = second_head" "tl_fault writer = (\<lambda>_. None)" "''new'' = fst (scrub (tl_redactor writer) ''new'')"
    by (simp_all add: writer_def sample_tools_def scrub_def)
  have "length (n_hash ?row) \<noteq> length (content_hash (tl_hash writer) ''new'')" by (simp add: blank_node_def)
  then have changed: "n_hash ?row \<noteq> content_hash (tl_hash writer) ''new''" by metis
  let ?cn = "write_node (tl_hash writer) rescan_id ''new'' (Some ?row)"
  have cn: "c_id ?cn = rescan_id" "c_parent ?cn = []" by (simp_all add: write_node_def blank_node_def)
  have un: "\<not> unchanged before_write ?cn" using row(1) changed cn(1) by (simp add: unchanged_def)
  obtain db where run: "emit_node_change writer ?cn (old_state rescan_id (Some ?row)) (''write:'' @ rescan_id) before_write = (Inr (), db)"
    using emit_node_change_runs [OF ok t(2), of ?cn] cn row by fastforce
  then obtain m where w: "handle_write writer \<lparr>wi_anchor = rescan_id, wi_payload = ''new''\<rparr> before_write = (Inr m, db)"
    using n(4) t(3) row(1) by (simp add: handle_write_def)
  from emit_node_change_versions [OF ok, of writer ?cn] run un cn row
  have db: "exact db" "db_head db = Some 1" "db_pending db = []" by simp_all
  have full: "co_full_rescan rescan_options" "co_root rescan_options \<noteq> []" by (simp_all add: rescan_options_def sample_compile_def)
  have g: "gather (ce_sched sample_env) (reader_results (ce_io sample_env) (ce_stopped sample_env) rescan_options) = Inr [sample_file]"
    by (simp add: gather_def reader_results_def read_one_def sample_env_def rescan_options_def sample_compile_def)
  have "emit_node_change writer ?cn (old_state rescan_id (node_at before_write rescan_id)) (''write:'' @ rescan_id) before_write = (Inr (), db)"
    using run row(1) by simp
  note unseen = written_row_unseen [OF ok t(1) cn(1) un this full(2), unfolded row]
  have "node_ids db = [rescan_id]"
    using emit_node_change_versions [OF ok, of writer ?cn] run un cn row
    by (simp add: node_ids_def put_row_def before_write_def empty_db_def blank_node_def)
  then have rows: "nodes_by_compile_root db (co_root rescan_options) = []"
    using unseen(1) unfolding nodes_by_compile_root_def node_ids_def
    by (cases "db_nodes db") (simp_all split: if_splits)
  then have ds: "compile_deltas rescan_options (compile_roots second_head rescan_options [sample_file])
      (skipped_paths rescan_options [sample_file]) db = [add_delta n]"
    using full by (simp add: compile_deltas_def build_prev_state_def load_prev_nodes_def n(1) node_states_def
        diff_flat_def node_deltas_def removed_ids_def)
  have "write_id 0 \<noteq> write_id 1" by (auto simp: write_id_def dest!: put_uint64_be_inj)
  then have "second_head (write_id 1 @ x) \<noteq> second_head (write_id 0 @ y)" for x y
    by (simp add: second_head_def length_write_id)
  then have "cursor_hash_for_compile second_head (head_snapshot_id db) [n] \<notin> set (map s_cursor (db_snapshots db))"
    using unseen(4) db(2) row
    by (auto simp: cursor_hash_for_compile_def cursor_hash_for_change_def head_snapshot_id_def sum_hex_def
        dest!: hex_encode_inj put_uint64_be_inj)
  moreover have "pend_ok db" using db(3) by (simp add: pend_ok_def)
  ultimately obtain db2 where "compile_tx second_head (compile_roots second_head rescan_options [sample_file]) [add_delta n]
      (co_message rescan_options) (co_root rescan_options) db = Inr ((), db2)" "fk_ok db2"
    using re_add_runs [OF _ unseen(2) _ n(1,3), where xxh = second_head and msg = "co_message rescan_options"
      and rt = "co_root rescan_options"] db(1) unfolding exact_def by blast
  from store_tx_no_fault [where fn = "compile_tx second_head (compile_roots second_head rescan_options [sample_file])
      [add_delta n] (co_message rescan_options) (co_root rescan_options)", OF this, of "ce_awake sample_env"]
  obtain r db' where c: "compile second_head sample_env rescan_options db = (Inr r, db')"
    using g by (simp add: compile_def Let_def ds) (simp add: sample_env_def)
  have i: "rescan_id \<in> c_id ` set (flatten (compile_roots second_head rescan_options [sample_file]))"
    "distinct (map c_id (flatten (compile_roots second_head rescan_options [sample_file])))"
    by (simp_all add: n(1,2))
  from recompile_loses_write [OF ok row(1) changed t(3) n(4) w full g i c] w c show ?thesis by blast
qed

end
