(* ===== verification/Path_Match.thy ===== *)
theory Path_Match
  imports Go_Strings
begin

text \<open>
  Which files a directory compile looks at by name: \<open>internal/fileext\<close> and \<open>internal/pathmatch\<close>, the
  gitignore-style sidecar files \<open>.remindb/ignore\<close> and \<open>.remindb/pinned\<close>. The standard library's
  \<open>path.Match\<close> is translated with them (\<open>glob\<close>): it is what the segments of a pattern mean.
\<close>

subsection \<open>Extensions and directories\<close>

definition supported_exts :: "bytes list" where
  "supported_exts = [''.md'', ''.markdown'', ''.html'', ''.htm'', ''.yaml'', ''.yml'', ''.json'', ''.jsonl'',
     ''.ndjson'', ''.toon'']"

definition supported :: "bytes \<Rightarrow> bool" where
  "supported path \<longleftrightarrow> to_lower (path_ext path) \<in> set supported_exts"

definition skip_dirs :: "bytes list" where
  "skip_dirs = [''Pods'', ''__pycache__'', ''bower_components'', ''dist'', ''node_modules'', ''target'',
     ''vendor'', ''venv'']"

definition should_skip_dir :: "bytes \<Rightarrow> bool" where
  "should_skip_dir name \<longleftrightarrow> \<not> (name = [] \<or> name = dot \<or> name = dotdot)
     \<and> (has_prefix name dot \<or> name \<in> set skip_dirs)"

subsection \<open>Runes\<close>

text \<open>\<open>utf8.DecodeRuneInString\<close>: the code point of the well-formed sequence at the front, else U+FFFD.\<close>

definition rune_error :: nat where "rune_error = 0xFFFD"

definition decode_rune :: "bytes \<Rightarrow> nat" where
  "decode_rune s =
     (case s of [] \<Rightarrow> rune_error
      | c # cs \<Rightarrow>
          if code c < 0x80 then code c
          else if multibyte_at s then
            foldl (\<lambda>v b. v * 64 + (code b - 0x80))
              (code c - (if lead_len (code c) = 2 then 0xC0 else if lead_len (code c) = 3 then 0xE0 else 0xF0))
              (take (lead_len (code c) - 1) cs)
          else rune_error)"

subsection \<open>The glob of one path segment\<close>

definition bad_pattern :: error where "bad_pattern = Failure ''syntax error in pattern''"

definition backslash :: char where "backslash = byte 92"

text \<open>\<open>getEsc\<close>: one possibly escaped rune of a character class, which must not be the last of the chunk.\<close>

definition get_esc :: "bytes \<Rightarrow> (nat \<times> bytes) result" where
  "get_esc chunk =
     (if chunk = [] \<or> hd chunk = CHR ''-'' \<or> hd chunk = CHR '']'' then Inl bad_pattern
      else let c = (if hd chunk = backslash then tl chunk else chunk)
        in if c = [] then Inl bad_pattern
           else let n = rune_width c; r = decode_rune c
             in if (r = rune_error \<and> n = 1) \<or> drop n c = [] then Inl bad_pattern else Inr (r, drop n c))"

lemma get_esc_shorter:
  assumes "get_esc c = Inr (r, c')"
  shows "length c' < length c \<and> c' \<noteq> []"
proof -
  define d where "d = (if hd c = backslash then tl c else c)"
  have "c \<noteq> []" "d \<noteq> []" "c' = drop (rune_width d) d" "c' \<noteq> []"
    using assms by (auto simp: get_esc_def Let_def d_def split: if_splits)
  moreover have "length d \<le> length c" by (simp add: d_def)
  ultimately show ?thesis using rune_width_pos [of d] by (simp del: rune_width_pos)
qed

text \<open>The ranges of a class, up to its closing bracket, which counts only after the first range.\<close>

function class_loop :: "nat \<Rightarrow> bool \<Rightarrow> bool \<Rightarrow> bytes \<Rightarrow> (bool \<times> bytes) result" where
  "class_loop r some hit chunk =
     (if chunk \<noteq> [] \<and> hd chunk = CHR '']'' \<and> some then Inr (hit, tl chunk)
      else case get_esc chunk of
        Inl e \<Rightarrow> Inl e
      | Inr (lo, c1) \<Rightarrow>
          if hd c1 = CHR ''-'' then
            (case get_esc (tl c1) of
               Inl e \<Rightarrow> Inl e
             | Inr (hi, c2) \<Rightarrow> class_loop r True (hit \<or> lo \<le> r \<and> r \<le> hi) c2)
          else class_loop r True (hit \<or> lo = r) c1)"
  by pat_completeness auto
termination
proof (relation "measure (\<lambda>(r, some, hit, c). length c)", goal_cases)
  case (2 r some hit chunk lc lo c1 hic hi c2)
  then show ?case using get_esc_shorter [of chunk] get_esc_shorter [of "tl c1"] by fastforce
next
  case (3 r some hit chunk lc lo c1)
  then show ?case using get_esc_shorter [of chunk] by fastforce
qed simp

declare class_loop.simps [simp del]

lemma class_loop_shorter: "class_loop r some hit c = Inr (h, c') \<Longrightarrow> length c' < length c"
proof (induction r some hit c rule: class_loop.induct)
  case (1 r some hit chunk)
  note e = get_esc_shorter
  show ?case
  proof (cases "chunk \<noteq> [] \<and> hd chunk = CHR '']'' \<and> some")
    case True
    with 1(3) show ?thesis by (subst (asm) class_loop.simps) auto
  next
    case False
    with 1(3) obtain lo c1 where lo: "get_esc chunk = Inr (lo, c1)"
      by (subst (asm) class_loop.simps) (auto split: sum.splits)
    show ?thesis
    proof (cases "hd c1 = CHR ''-''")
      case True
      with 1(3) False lo obtain hi c2 where hi: "get_esc (tl c1) = Inr (hi, c2)"
        by (subst (asm) class_loop.simps) (auto split: sum.splits)
      with 1(3) False lo True have "class_loop r True (hit \<or> lo \<le> r \<and> r \<le> hi) c2 = Inr (h, c')"
        by (subst (asm) class_loop.simps) auto
      from 1(1) [OF False lo refl True hi refl this] e [OF lo] e [OF hi] show ?thesis by (cases c1) simp_all
    next
      case no: False
      with 1(3) False lo have "class_loop r True (hit \<or> lo = r) c1 = Inr (h, c')"
        by (subst (asm) class_loop.simps) auto
      from 1(2) [OF False lo refl no this] e [OF lo] show ?thesis by simp
    qed
  qed
qed

text \<open>
  \<open>matchChunk\<close>: after a mismatch the rest of the chunk is only checked for its syntax. The answer is an
  error, no match, or the rest of the name.
\<close>

function match_chunk :: "bool \<Rightarrow> bytes \<Rightarrow> bytes \<Rightarrow> bytes option result" where
  "match_chunk failed [] s = Inr (if failed then None else Some s)"
| "match_chunk failed0 (c # cs) s =
     (let failed = (failed0 \<or> s = [])
      in if c = CHR ''['' then
           (let r = (if failed then 0 else decode_rune s); s' = (if failed then s else drop (rune_width s) s);
                neg = (cs \<noteq> [] \<and> hd cs = CHR ''^'')
            in case class_loop r False False (if neg then tl cs else cs) of
                 Inl e \<Rightarrow> Inl e
               | Inr (hit, cs') \<Rightarrow> match_chunk (failed \<or> hit = neg) cs' s')
         else if c = CHR ''?'' then
           match_chunk (failed \<or> hd s = CHR ''/'') cs (if failed then s else drop (rune_width s) s)
         else if c = backslash then
           (case cs of
              [] \<Rightarrow> Inl bad_pattern
            | d # ds \<Rightarrow> match_chunk (failed \<or> hd s \<noteq> d) ds (if failed then s else tl s))
         else match_chunk (failed \<or> hd s \<noteq> c) cs (if failed then s else tl s))"
  by pat_completeness auto
termination
proof (relation "measure (\<lambda>(f, c, s). length c)", goal_cases)
  case (2 failed0 c cs s failed r s' neg p hit cs')
  then show ?case using class_loop_shorter by (fastforce split: if_splits)
qed auto

declare match_chunk.simps [simp del]

text \<open>\<open>scanChunk\<close>: leading stars, then what is before the next star outside a class.\<close>

fun chunk_len :: "bool \<Rightarrow> bytes \<Rightarrow> nat" where
  "chunk_len inrange [] = 0"
| "chunk_len inrange (c # cs) =
     (if c = backslash then (case cs of [] \<Rightarrow> 1 | _ # ds \<Rightarrow> 2 + chunk_len inrange ds)
      else if c = CHR ''['' then 1 + chunk_len True cs
      else if c = CHR '']'' then 1 + chunk_len False cs
      else if c = CHR ''*'' \<and> \<not> inrange then 0
      else 1 + chunk_len inrange cs)"

definition scan_chunk :: "bytes \<Rightarrow> bool \<times> bytes \<times> bytes" where
  "scan_chunk pat =
     (let p = dropWhile (\<lambda>c. c = CHR ''*'') pat; n = chunk_len False p
      in (p \<noteq> pat, take n p, drop n p))"

lemma scan_chunk_shorter:
  assumes "scan_chunk pat = (star, chunk, rest)" "pat \<noteq> []"
  shows "length rest < length pat"
proof -
  let ?p = "dropWhile (\<lambda>c. c = CHR ''*'') pat"
  have rest: "rest = drop (chunk_len False ?p) ?p" using assms(1) by (auto simp: scan_chunk_def Let_def)
  obtain c cs where c: "pat = c # cs" using assms(2) by (cases pat) auto
  show ?thesis
  proof (cases "c = CHR ''*''")
    case True
    then have "length ?p \<le> length cs" by (simp add: c length_dropWhile_le)
    then show ?thesis by (simp add: rest c)
  next
    case False
    then have "?p = pat" "0 < chunk_len False pat" by (auto simp: c split: list.split)
    then show ?thesis using assms(2) by (simp add: rest)
  qed
qed

text \<open>The loop behind a star: the first later place where the chunk matches, the last chunk to the end.\<close>

fun skip_match :: "bytes \<Rightarrow> bool \<Rightarrow> bytes \<Rightarrow> bytes option result" where
  "skip_match chunk final [] = Inr None"
| "skip_match chunk final (c # cs) =
     (if c = CHR ''/'' then Inr None
      else case match_chunk False chunk cs of
        Inl e \<Rightarrow> Inl e
      | Inr None \<Rightarrow> skip_match chunk final cs
      | Inr (Some t) \<Rightarrow> if final \<and> t \<noteq> [] then skip_match chunk final cs else Inr (Some t))"

text \<open>Before a mismatch is reported, the rest of the pattern is checked.\<close>

function check_rest :: "bytes \<Rightarrow> bool result" where
  "check_rest pat =
     (if pat = [] then Inr False
      else case scan_chunk pat of (star, chunk, rest) \<Rightarrow>
        (case match_chunk False chunk [] of Inl e \<Rightarrow> Inl e | Inr _ \<Rightarrow> check_rest rest))"
  by pat_completeness auto
termination
  by (relation "measure length") (auto dest: scan_chunk_shorter [OF sym])

declare check_rest.simps [simp del]

function glob :: "bytes \<Rightarrow> bytes \<Rightarrow> bool result" where
  "glob pat name =
     (if pat = [] then Inr (name = [])
      else case scan_chunk pat of (star, chunk, rest) \<Rightarrow>
        if star \<and> chunk = [] then Inr (CHR ''/'' \<notin> set name)
        else case match_chunk False chunk name of
          Inl e \<Rightarrow> Inl e
        | Inr found \<Rightarrow>
            if found \<noteq> None \<and> (the found = [] \<or> rest \<noteq> []) then glob rest (the found)
            else if star then
              (case skip_match chunk (rest = []) name of
                 Inl e \<Rightarrow> Inl e
               | Inr None \<Rightarrow> check_rest rest
               | Inr (Some t) \<Rightarrow> glob rest t)
            else check_rest rest)"
  by pat_completeness auto
termination
  by (relation "measure (\<lambda>(p, n). length p)") (auto dest: scan_chunk_shorter [OF sym])

declare glob.simps [simp del]

subsection \<open>Errors do not depend on the name\<close>

lemma class_loop_syntax:
  "map_sum id snd (class_loop r some hit c) = map_sum id snd (class_loop r' some hit' c)"
proof (induction r some hit c arbitrary: r' hit' rule: class_loop.induct)
  case (1 r some hit chunk)
  show ?case
  proof (cases "chunk \<noteq> [] \<and> hd chunk = CHR '']'' \<and> some")
    case True
    then show ?thesis by (auto simp: class_loop.simps [of r True] class_loop.simps [of r' True])
  next
    case False
    show ?thesis
    proof (cases "get_esc chunk")
      case (Inl e)
      with False show ?thesis by (auto simp: class_loop.simps [of _ some])
    next
      case (Inr p)
      obtain lo c1 where p: "p = (lo, c1)" by fastforce
      show ?thesis
      proof (cases "hd c1 = CHR ''-''")
        case no: False
        from 1(2) [OF False Inr p [symmetric] no] False Inr p no show ?thesis
          by (auto simp: class_loop.simps [of _ some])
      next
        case dash: True
        show ?thesis
        proof (cases "get_esc (tl c1)")
          case (Inl e)
          with False Inr p dash show ?thesis by (auto simp: class_loop.simps [of _ some])
        next
          case hi: (Inr q)
          obtain h c2 where q: "q = (h, c2)" by fastforce
          from 1(1) [OF False Inr p [symmetric] dash hi q [symmetric]] False Inr p dash hi q show ?thesis
            by (auto simp: class_loop.simps [of _ some])
        qed
      qed
    qed
  qed
qed

lemma map_sum_snd: "map_sum id snd x = map_sum id snd y \<Longrightarrow> x = Inl e \<Longrightarrow> y = Inl e"
  "map_sum id snd x = map_sum id snd y \<Longrightarrow> x = Inr (h, c) \<Longrightarrow> \<exists>h'. y = Inr (h', c)"
  by (cases y; force)+

lemma match_chunk_syntax: "isl (match_chunk f chunk s) = isl (match_chunk f' chunk s')"
proof (induction f chunk s arbitrary: f' s' rule: match_chunk.induct)
  case (1 f s)
  then show ?case by (simp add: match_chunk.simps)
next
  case (2 f c cs s)
  show ?case
  proof (cases "c = CHR ''[''")
    case True
    let ?neg = "cs \<noteq> [] \<and> hd cs = CHR ''^''"
    let ?r = "\<lambda>f s. if f \<or> s = [] then 0 else decode_rune s"
    let ?l = "\<lambda>f s. class_loop (?r f s) False False (if ?neg then tl cs else cs)"
    have same: "map_sum id snd (?l f s) = map_sum id snd (?l f' s')" by (rule class_loop_syntax)
    show ?thesis
    proof (cases "?l f s")
      case (Inl e)
      note q = map_sum_snd(1) [OF same Inl]
      with Inl True show ?thesis by (simp add: match_chunk.simps(2) Let_def)
    next
      case (Inr p)
      obtain h cs' where p: "p = (h, cs')" by fastforce
      from map_sum_snd(2) [OF same Inr [unfolded p]] obtain h' where q: "?l f' s' = Inr (h', cs')" by blast
      from 2(1) [OF refl True refl refl refl Inr p [symmetric]] Inr p q True show ?thesis
        by (simp add: match_chunk.simps(2) Let_def)
    qed
  next
    case bracket: False
    show ?thesis
    proof (cases "c = CHR ''?''")
      case True
      from 2(2) [OF refl bracket True] True show ?thesis by (simp add: match_chunk.simps(2) Let_def)
    next
      case mark: False
      show ?thesis
      proof (cases "c = backslash")
        case True
        show ?thesis
        proof (cases cs)
          case Nil
          with True bracket mark show ?thesis by (simp add: match_chunk.simps(2) Let_def)
        next
          case (Cons d ds)
          from 2(3) [OF refl bracket mark True Cons] True Cons bracket mark show ?thesis
            by (simp add: match_chunk.simps(2) Let_def)
        qed
      next
        case False
        from 2(4) [OF refl bracket mark False] False bracket mark show ?thesis
          by (simp add: match_chunk.simps(2) Let_def)
      qed
    qed
  qed
qed

lemma skip_match_ok: "\<not> isl (match_chunk False chunk []) \<Longrightarrow> \<not> isl (skip_match chunk final name)"
proof (induction name)
  case (Cons c cs)
  with match_chunk_syntax [of False chunk "[]" False cs] show ?case
    by (auto split: sum.split option.split)
qed simp

text \<open>A pattern that \<open>path.Match\<close> accepts for the empty name never fails for any other.\<close>

lemma check_rest_glob: "isl (check_rest pat) \<longleftrightarrow> pat \<noteq> [] \<and> (case scan_chunk pat of (star, chunk, rest) \<Rightarrow>
    isl (match_chunk False chunk []) \<or> isl (check_rest rest))"
  by (subst check_rest.simps) (auto split: prod.splits sum.splits)

lemma glob_ok: "\<not> isl (check_rest pat) \<Longrightarrow> \<not> isl (glob pat name)"
proof (induction pat name rule: glob.induct)
  case (1 pat name)
  show ?case
  proof (cases "pat = []")
    case False
    obtain star chunk rest where s: "scan_chunk pat = (star, chunk, rest)" by (cases "scan_chunk pat") auto
    have chunk: "\<not> isl (match_chunk False chunk x)" and rest: "\<not> isl (check_rest rest)" for x
      using 1(3) False match_chunk_syntax [of False chunk x False "[]"] by (auto simp: check_rest_glob [of pat] s)
    obtain found where m: "match_chunk False chunk name = Inr found" using chunk [of name] by (cases "match_chunk False chunk name") auto
    obtain sk where sk: "skip_match chunk (rest = []) name = Inr sk"
      using skip_match_ok [OF chunk, of "rest = []" name] by (cases "skip_match chunk (rest = []) name") auto
    show ?thesis
    proof (cases "star \<and> chunk = []")
      case True
      then show ?thesis using False by (subst glob.simps) (simp add: s)
    next
      case no: False
      note I1 = 1(1) [OF False s [symmetric] refl no m]
      note I2 = 1(2) [OF False s [symmetric] refl no m]
      show ?thesis
        apply (subst glob.simps)
        using False s no m sk rest I1 I2
        by (auto split: option.splits)
    qed
  qed (simp add: glob.simps)
qed

lemma match_chunk_failed: "match_chunk f chunk s = Inr (Some t) \<Longrightarrow> \<not> f"
proof (induction f chunk s rule: match_chunk.induct)
  case (1 f s)
  then show ?case by (simp add: match_chunk.simps split: if_splits)
next
  case (2 f c cs s)
  show ?case
  proof
    assume f: f
    let ?neg = "cs \<noteq> [] \<and> hd cs = CHR ''^''"
    consider (cls) h cs' where "c = CHR ''[''" "class_loop 0 False False (if ?neg then tl cs else cs) = Inr (h, cs')"
      | (any) "c = CHR ''?''" | (esc) d ds where "c = backslash" "c \<noteq> CHR ''[''" "c \<noteq> CHR ''?''" "cs = d # ds"
      | (other) "c \<noteq> CHR ''[''" "c \<noteq> CHR ''?''" "c \<noteq> backslash"
      using 2(5) f by (cases "c = CHR ''[''") (auto simp: match_chunk.simps(2) Let_def split: sum.splits list.splits if_splits)
    then show False
    proof cases
      case (cls h cs')
      with 2(5) f cls have m: "match_chunk (True \<or> h = ?neg) cs' s = Inr (Some t)" by (simp add: match_chunk.simps(2) Let_def)
      from 2(1) [OF refl cls(1) refl refl refl _ refl, of h cs'] cls f m show False by simp
    next
      case any
      with 2(5) f 2(2) show False by (simp add: match_chunk.simps(2) Let_def)
    next
      case (esc d ds)
      with 2(5) f 2(3) [OF refl esc(2,3,1,4)] show False by (simp add: match_chunk.simps(2) Let_def)
    next
      case other
      with 2(5) f 2(4) show False by (simp add: match_chunk.simps(2) Let_def)
    qed
  qed
qed

lemma match_chunk_empty_name: "match_chunk f chunk [] = Inr (Some t) \<Longrightarrow> chunk = []"
proof (cases chunk)
  case (Cons c cs)
  assume m: "match_chunk f chunk [] = Inr (Some t)"
  have "match_chunk f chunk [] = match_chunk True chunk []" by (simp add: Cons match_chunk.simps(2))
  with m match_chunk_failed [of True chunk "[]" t] show ?thesis by simp
qed simp

lemma glob_checked: "\<not> isl (glob pat []) \<Longrightarrow> \<not> isl (check_rest pat)"
proof -
  assume g: "\<not> isl (glob pat [])"
  show ?thesis
  proof (cases "pat = []")
    case False
    obtain star chunk rest where s: "scan_chunk pat = (star, chunk, rest)" by (cases "scan_chunk pat") auto
    let ?p = "dropWhile (\<lambda>c. c = CHR ''*'') pat"
    have parts: "star = (?p \<noteq> pat)" "chunk = take (chunk_len False ?p) ?p" "rest = drop (chunk_len False ?p) ?p"
      using s by (auto simp: scan_chunk_def Let_def)
    show ?thesis
    proof (cases "chunk = []")
      case True
      have "?p = []"
      proof (rule ccontr)
        assume ne: "?p \<noteq> []"
        then have "hd ?p \<noteq> CHR ''*''" using hd_dropWhile [of "\<lambda>c. c = CHR ''*''" pat] by simp
        with ne have "0 < chunk_len False ?p" by (cases ?p) (auto split: list.split)
        with ne True parts(2) show False by simp
      qed
      then have "chunk = []" "rest = []" by (simp_all only: parts) simp_all
      then show ?thesis by (simp add: check_rest_glob [of pat] s match_chunk.simps check_rest.simps [of "[]"])
    next
      case False
      then have "match_chunk False chunk [] \<noteq> Inr (Some t)" for t using match_chunk_empty_name by blast
      with g \<open>pat \<noteq> []\<close> False show ?thesis
        by (subst (asm) glob.simps)
          (auto simp: check_rest_glob [of pat] s split: sum.splits option.splits if_splits)
    qed
  qed (simp add: check_rest.simps)
qed

text \<open>A pattern without special characters matches itself.\<close>

definition plain :: "bytes \<Rightarrow> bool" where
  "plain s \<longleftrightarrow> list_all (\<lambda>c. c \<noteq> CHR ''*'' \<and> c \<noteq> CHR ''?'' \<and> c \<noteq> CHR ''['' \<and> c \<noteq> backslash) s"

lemma match_chunk_plain:
  "plain chunk \<Longrightarrow> match_chunk f chunk s
     = Inr (if f \<or> \<not> has_prefix s chunk then None else Some (drop (length chunk) s))"
proof (induction chunk arbitrary: f s)
  case Nil
  then show ?case by (simp add: match_chunk.simps has_prefix_def)
next
  case (Cons c cs)
  then show ?case by (cases s) (auto simp: match_chunk.simps plain_def has_prefix_def)
qed

lemma chunk_len_plain: "plain p \<Longrightarrow> chunk_len False p = length p"
proof -
  have "plain p \<Longrightarrow> chunk_len b p = length p" for b
    by (induction b p rule: chunk_len.induct) (auto simp: plain_def split: list.splits)
  then show "plain p \<Longrightarrow> chunk_len False p = length p" .
qed

lemma glob_plain: "plain pat \<Longrightarrow> glob pat name = Inr (name = pat)"
proof -
  assume p: "plain pat"
  show ?thesis
  proof (cases "pat = []")
    case False
    then have "dropWhile (\<lambda>c. c = CHR ''*'') pat = pat" using p by (cases pat) (auto simp: plain_def)
    then have s: "scan_chunk pat = (False, pat, [])" using p by (simp add: scan_chunk_def chunk_len_plain)
    show ?thesis
      using False p s
      by (subst glob.simps) (auto simp: match_chunk_plain has_prefix_def glob.simps [of "[]"] check_rest.simps [of "[]"])
  qed (simp add: glob.simps)
qed

subsection \<open>Patterns\<close>

record pattern =
  pt_raw :: bytes
  pt_segments :: "bytes list"
  pt_dir_only :: bool
  pt_anchored :: bool
  pt_negated :: bool

definition slash :: char where "slash = CHR ''/''"

definition double_star :: bytes where "double_star = ''**''"

definition parse_pattern :: "bytes \<Rightarrow> pattern result" where
  "parse_pattern raw =
     (let escaped = (length raw \<ge> 2 \<and> raw ! 0 = backslash \<and> (raw ! 1 = CHR ''!'' \<or> raw ! 1 = CHR ''#''));
          s1 = (if escaped then drop 1 raw else raw);
          negated = (\<not> escaped \<and> has_prefix s1 ''!'');
          s2 = (if negated then drop 1 s1 else s1);
          rooted = has_prefix s2 [slash];
          s3 = (if rooted then drop 1 s2 else s2);
          dir = has_suffix s3 [slash];
          s4 = (if dir then trim_suffix s3 [slash] else s3);
          anchored = (rooted \<or> slash \<in> set s4)
      in if s4 = [] then Inl (Failure ''empty pattern'')
         else let segs = split_on slash s4
           in if [] \<in> set segs then Inl (Failure ''empty path segment'')
              else case find (\<lambda>seg. seg \<noteq> double_star \<and> isl (glob seg [])) segs of
                Some seg \<Rightarrow> Inl (Failure ''invalid pattern'')
              | None \<Rightarrow> Inr \<lparr>pt_raw = raw, pt_segments = segs, pt_dir_only = dir, pt_anchored = anchored,
                  pt_negated = negated\<rparr>)"

text \<open>An error of \<open>path.Match\<close> counts as no match.\<close>

definition match_segment :: "bytes \<Rightarrow> bytes \<Rightarrow> bool" where
  "match_segment pat seg = (case glob pat seg of Inl _ \<Rightarrow> False | Inr b \<Rightarrow> b)"

fun match_path :: "bytes list \<Rightarrow> bytes list \<Rightarrow> bool" where
  "match_path [] segs = (segs = [])"
| "match_path (p # ps) segs =
     (if p = double_star then list_ex (\<lambda>i. match_path ps (drop i segs)) [0..<Suc (length segs)]
      else case segs of [] \<Rightarrow> False | s # ss \<Rightarrow> match_segment p s \<and> match_path ps ss)"

definition match_pattern :: "pattern \<Rightarrow> bytes list \<Rightarrow> bool" where
  "match_pattern p segs =
     (if \<not> pt_anchored p then match_segment (hd (pt_segments p)) (last segs)
      else match_path (pt_segments p) segs)"

type_synonym matcher = "pattern list option"

definition matcher_match :: "matcher \<Rightarrow> bytes \<Rightarrow> bool \<Rightarrow> bool" where
  "matcher_match m rel is_dir =
     (case m of None \<Rightarrow> False
      | Some ps \<Rightarrow>
          if rel = [] \<or> rel = dot then False
          else fold (\<lambda>p matched. if pt_dir_only p \<and> \<not> is_dir then matched
              else if match_pattern p (split_on slash rel) then \<not> pt_negated p else matched) ps False)"

subsection \<open>Loading\<close>

definition newline :: char where "newline = byte 10"

definition max_line :: nat where "max_line = 65535"

text \<open>
  \<open>bufio.Scanner\<close> hands out the lines, without the line break, and stops at one that does not fit its
  buffer. Trimming takes care of a carriage return; the empty piece behind the last line break is skipped
  like any blank line.
\<close>

fun read_patterns :: "bytes list \<Rightarrow> pattern list result" where
  "read_patterns [] = Inr []"
| "read_patterns (l # ls) =
     (if length l > max_line then Inl (Failure ''token too long'')
      else let raw = trim_space l
        in if raw = [] \<or> has_prefix raw ''#'' then read_patterns ls
           else case parse_pattern raw of
             Inl e \<Rightarrow> Inl e
           | Inr p \<Rightarrow> bind_result (read_patterns ls) (\<lambda>ps. Inr (p # ps)))"

definition load_matcher :: "bytes result \<Rightarrow> matcher result" where
  "load_matcher file =
     (case file of
        Inl NoRows \<Rightarrow> Inr None
      | Inl e \<Rightarrow> Inl e
      | Inr data \<Rightarrow> bind_result (read_patterns (split_on newline data)) (\<lambda>ps. Inr (Some ps)))"

subsection \<open>What a matcher decides\<close>

text \<open>The reference: \<open>**\<close> stands for any number of segments, every other one for a segment it globs.\<close>

inductive covers :: "bytes list \<Rightarrow> bytes list \<Rightarrow> bool" where
  empty: "covers [] []"
| stars: "covers ps ys \<Longrightarrow> covers (double_star # ps) (xs @ ys)"
| one: "p \<noteq> double_star \<Longrightarrow> glob p x = Inr True \<Longrightarrow> covers ps xs \<Longrightarrow> covers (p # ps) (x # xs)"

inductive_simps covers_Nil: "covers [] xs"
inductive_simps covers_Cons: "covers (p # ps) xs"

lemma match_segment_iff: "match_segment p x \<longleftrightarrow> glob p x = Inr True"
  by (auto simp: match_segment_def split: sum.splits)

lemma match_path_covers: "match_path ps xs \<longleftrightarrow> covers ps xs"
proof (induction ps xs rule: match_path.induct)
  case (1 xs)
  then show ?case by (simp add: covers_Nil)
next
  case (2 p ps xs)
  show ?case
  proof (cases "p = double_star")
    case True
    have "match_path (p # ps) xs \<longleftrightarrow> (\<exists>i\<le>length xs. covers ps (drop i xs))"
      using 2(1) [OF True] True by (auto simp: list_ex_iff less_Suc_eq_le simp del: upt_Suc)
    also have "\<dots> \<longleftrightarrow> (\<exists>as ys. xs = as @ ys \<and> covers ps ys)"
      by (metis append_eq_conv_conj append_take_drop_id le_add1 length_append)
    also have "\<dots> \<longleftrightarrow> covers (p # ps) xs" using True by (auto simp: covers_Cons)
    finally show ?thesis .
  next
    case False
    with 2(2) show ?thesis by (cases xs) (auto simp: covers_Cons match_segment_iff)
  qed
qed

lemma fold_last_wins:
  "fold (\<lambda>p m. if P p then m else if Q p then v p else m) ps b =
     (case rev (filter (\<lambda>p. \<not> P p \<and> Q p) ps) of [] \<Rightarrow> b | p # _ \<Rightarrow> v p)"
proof (induction ps rule: rev_induct)
  case (snoc p ps)
  then show ?case by auto
qed simp

lemma checked_segments:
  "(if s = [] then Inl e1 else if [] \<in> set (split_on slash s) then Inl e2
    else case find P (split_on slash s) of Some seg \<Rightarrow> Inl e3
      | None \<Rightarrow> Inr \<lparr>pt_raw = raw, pt_segments = split_on slash s, pt_dir_only = d, pt_anchored = a, pt_negated = n\<rparr>)
   = Inr p \<Longrightarrow> find P (pt_segments p) = None \<and> pt_segments p \<noteq> [] \<and> [] \<notin> set (pt_segments p)"
  by (auto split: if_splits option.splits)

lemma parse_pattern_segments:
  assumes "parse_pattern raw = Inr p"
  shows "pt_segments p \<noteq> []" "seg \<in> set (pt_segments p) \<Longrightarrow> seg \<noteq> [] \<and> (\<exists>b. glob seg name = Inr b)"
proof -
  note c = checked_segments [OF assms [unfolded parse_pattern_def Let_def]]
  then show "pt_segments p \<noteq> []" by blast
  assume seg: "seg \<in> set (pt_segments p)"
  with c have "seg = double_star \<or> \<not> isl (glob seg [])" by (auto simp: find_None_iff)
  moreover have "\<not> isl (glob double_star [])" by (subst glob.simps) (simp add: double_star_def scan_chunk_def)
  ultimately have "\<not> isl (glob seg name)" using glob_ok [OF glob_checked] by blast
  then have "\<exists>b. glob seg name = Inr b" by (cases "glob seg name") auto
  with c seg show "seg \<noteq> [] \<and> (\<exists>b. glob seg name = Inr b)" by auto
qed

text \<open>
  The last pattern that applies decides, and a negated one decides for the path; a pattern for directories
  applies to nothing else, an anchored one to the whole path, any other one to the last segment.
\<close>

definition applies :: "bytes list \<Rightarrow> bool \<Rightarrow> pattern \<Rightarrow> bool" where
  "applies segs is_dir p \<longleftrightarrow> (pt_dir_only p \<longrightarrow> is_dir)
     \<and> (if pt_anchored p then covers (pt_segments p) segs else glob (hd (pt_segments p)) (last segs) = Inr True)"

lemma matcher_match_last:
  "matcher_match (Some ps) rel is_dir \<longleftrightarrow> rel \<noteq> [] \<and> rel \<noteq> dot \<and>
     (case rev (filter (applies (split_on slash rel) is_dir) ps) of [] \<Rightarrow> False | p # _ \<Rightarrow> \<not> pt_negated p)"
proof -
  let ?segs = "split_on slash rel"
  have "filter (\<lambda>p. \<not> (pt_dir_only p \<and> \<not> is_dir) \<and> match_pattern p ?segs) ps = filter (applies ?segs is_dir) ps"
    by (rule filter_cong) (auto simp: applies_def match_pattern_def match_path_covers match_segment_iff)
  then show ?thesis by (simp add: matcher_match_def fold_last_wins)
qed

end
