(* ===== verification/Tempfile.thy ===== *)
theory Tempfile
  imports Go_Strings "HOL-Library.AList"
begin

text \<open>
  \<open>internal/tempfile\<close>: the seed temperatures of \<open>.remindb/temperatures.json\<close>, a tree of path segments.
  Decoding the JSON text is a parameter; what it gives is the list of the members of an object, in the
  order in which Go's \<open>range\<close> visits the decoded map.
\<close>

datatype json =
    JNumber real
  | JObject "(bytes \<times> json) list"
  | JOther

datatype entry = Entry (e_temp: "real option") (e_children: "(bytes \<times> entry) list")

definition no_entry :: entry where "no_entry = Entry None []"

definition temp_conflict :: "entry \<Rightarrow> entry \<Rightarrow> bool" where
  "temp_conflict dst src \<longleftrightarrow>
     (if e_temp dst \<noteq> None then e_temp src \<noteq> None \<or> e_children src \<noteq> []
      else e_temp src \<noteq> None \<and> e_children dst \<noteq> [])"

definition conflicting :: error where "conflicting = Failure ''conflicting temperatures''"

function merge_entry :: "entry \<Rightarrow> entry \<Rightarrow> entry result"
  and merge_children :: "(bytes \<times> entry) list \<Rightarrow> (bytes \<times> entry) list \<Rightarrow> (bytes \<times> entry) list result" where
  "merge_entry dst src =
     (if temp_conflict dst src then Inl conflicting
      else if e_temp src \<noteq> None then Inr (Entry (e_temp src) (e_children dst))
      else bind_result (merge_children (e_children dst) (e_children src)) (\<lambda>cs. Inr (Entry (e_temp dst) cs)))"
| "merge_children dst [] = Inr dst"
| "merge_children dst ((k, child) # src) =
     (case map_of dst k of
        None \<Rightarrow> merge_children (AList.update k child dst) src
      | Some existing \<Rightarrow>
          bind_result (merge_entry existing child) (\<lambda>m. merge_children (AList.update k m dst) src))"
  by pat_completeness auto
termination
proof (relation "measure (\<lambda>x. case x of Inl (d, s) \<Rightarrow> size s | Inr (d, s) \<Rightarrow> size_list (size_prod (\<lambda>_. 0) size) s)", goal_cases)
  case (2 dst src)
  then show ?case by (cases src) simp
qed simp_all

declare merge_entry.simps [simp del]

fun insert_path :: "bytes list \<Rightarrow> entry \<Rightarrow> entry \<Rightarrow> entry result" where
  "insert_path [] leaf cur = Inr cur"
| "insert_path [seg] leaf cur =
     (case map_of (e_children cur) seg of
        None \<Rightarrow> Inr (Entry (e_temp cur) (AList.update seg leaf (e_children cur)))
      | Some existing \<Rightarrow> bind_result (merge_entry existing leaf) (\<lambda>m.
          Inr (Entry (e_temp cur) (AList.update seg m (e_children cur)))))"
| "insert_path (seg # seg' # segs) leaf cur =
     (let next = (case map_of (e_children cur) seg of None \<Rightarrow> no_entry | Some e \<Rightarrow> e)
      in if e_temp next \<noteq> None then Inl conflicting
         else bind_result (insert_path (seg' # segs) leaf next) (\<lambda>m.
           Inr (Entry (e_temp cur) (AList.update seg m (e_children cur)))))"

definition norm_key :: "bytes \<Rightarrow> bytes" where
  "norm_key key = trim_suffix (trim_prefix key ''./'') ''/''"

definition insert_key :: "entry \<Rightarrow> entry \<Rightarrow> bytes \<Rightarrow> entry result" where
  "insert_key root_entry leaf key =
     (let norm = norm_key key; segs = split_on (CHR ''/'') norm
      in if norm = [] then Inl (Failure ''empty key'')
         else if list_ex (\<lambda>seg. seg = [] \<or> seg = dot \<or> seg = dotdot) segs then Inl (Failure ''invalid path segment'')
         else insert_path segs leaf root_entry)"

fun parse_value :: "json \<Rightarrow> entry result" and build_from :: "entry \<Rightarrow> (bytes \<times> json) list \<Rightarrow> entry result" where
  "parse_value (JNumber x) = (if x < 0 \<or> 1 < x then Inl (Failure ''temperature out of range'') else Inr (Entry (Some x) []))"
| "parse_value (JObject raw) = build_from no_entry raw"
| "parse_value JOther = Inl (Failure ''unexpected type'')"
| "build_from root_entry [] = Inr root_entry"
| "build_from root_entry ((k, v) # raw) =
     bind_result (parse_value v) (\<lambda>leaf. bind_result (insert_key root_entry leaf k) (\<lambda>e. build_from e raw))"

definition build_entry :: "(bytes \<times> json) list \<Rightarrow> entry result" where
  "build_entry raw = build_from no_entry raw"

type_synonym temp_resolver = "entry option"

definition load_temps :: "(bytes \<Rightarrow> (bytes \<times> json) list result) \<Rightarrow> bytes result \<Rightarrow> temp_resolver result" where
  "load_temps decode file =
     (case file of
        Inl NoRows \<Rightarrow> Inr None
      | Inl e \<Rightarrow> Inl e
      | Inr data \<Rightarrow> bind_result (decode data) (\<lambda>raw. bind_result (build_entry raw) (\<lambda>e. Inr (Some e))))"

fun resolve_parts :: "entry \<Rightarrow> real option \<Rightarrow> bytes list \<Rightarrow> real option" where
  "resolve_parts cur fallback [] = fallback"
| "resolve_parts cur fallback (seg # segs) =
     (let fb = (case map_of (e_children cur) ''*'' of
                  None \<Rightarrow> fallback | Some g \<Rightarrow> if e_temp g \<noteq> None then e_temp g else fallback)
      in case map_of (e_children cur) seg of
           None \<Rightarrow> fb
         | Some child \<Rightarrow> if e_temp child \<noteq> None then e_temp child else resolve_parts child fb segs)"

definition resolve_temp :: "temp_resolver \<Rightarrow> bytes \<Rightarrow> real option" where
  "resolve_temp r rel =
     (case r of None \<Rightarrow> None | Some e \<Rightarrow> resolve_parts e None (split_on (CHR ''/'') rel))"

subsection \<open>Well-formed trees\<close>

text \<open>A temperature is in the unit interval and stands at a leaf; children have distinct names.\<close>

inductive wf_entry :: "entry \<Rightarrow> bool" where
  "(\<And>x. t = Some x \<Longrightarrow> 0 \<le> x \<and> x \<le> 1 \<and> cs = []) \<Longrightarrow> distinct (map fst cs) \<Longrightarrow>
     (\<And>k e. (k, e) \<in> set cs \<Longrightarrow> wf_entry e) \<Longrightarrow> wf_entry (Entry t cs)"

inductive_simps wf_Entry: "wf_entry (Entry t cs)"

lemma wf_iff: "wf_entry e \<longleftrightarrow> (\<forall>x. e_temp e = Some x \<longrightarrow> 0 \<le> x \<and> x \<le> 1 \<and> e_children e = [])
    \<and> distinct (map fst (e_children e)) \<and> (\<forall>c\<in>set (e_children e). wf_entry (snd c))"
  by (cases e) (auto simp: wf_Entry)

lemma wf_no_entry [simp]: "wf_entry no_entry"
  by (simp add: no_entry_def wf_Entry)

lemma set_update: "c \<in> set (AList.update k e cs) \<Longrightarrow> c = (k, e) \<or> c \<in> set cs"
  by (induction cs) (auto split: if_splits)

lemma wf_children:
  assumes "distinct (map fst cs)" "\<forall>c\<in>set cs. wf_entry (snd c)" "wf_entry e"
  shows "distinct (map fst (AList.update k e cs)) \<and> (\<forall>c\<in>set (AList.update k e cs). wf_entry (snd c))"
  using assms distinct_update [OF assms(1)] by (auto dest!: set_update)

lemma update_nonempty [simp]: "AList.update k e cs \<noteq> []"
  by (cases cs) auto

lemma merge_wf:
  "wf_entry dst \<Longrightarrow> wf_entry src \<Longrightarrow> merge_entry dst src = Inr e \<Longrightarrow> wf_entry e"
  "distinct (map fst ds) \<and> (\<forall>c\<in>set ds. wf_entry (snd c)) \<Longrightarrow> \<forall>c\<in>set ss. wf_entry (snd c) \<Longrightarrow>
     merge_children ds ss = Inr cs \<Longrightarrow> distinct (map fst cs) \<and> (\<forall>c\<in>set cs. wf_entry (snd c)) \<and> (ss = [] \<longrightarrow> cs = ds)"
proof (induction dst src and ds ss arbitrary: e and cs rule: merge_entry_merge_children.induct)
  case (1 dst src)
  have ok: "\<not> temp_conflict dst src" using 1(4) by (auto simp: merge_entry.simps split: if_splits)
  show ?case
  proof (cases "e_temp src \<noteq> None")
    case True
    then have "e = Entry (e_temp src) (e_children dst)" using 1(4) ok by (simp add: merge_entry.simps)
    moreover have "e_children dst = []" using ok True 1(2) by (cases "e_temp dst") (auto simp: temp_conflict_def)
    ultimately show ?thesis using wf_iff [THEN iffD1, OF 1(3)] True by (simp add: wf_Entry)
  next
    case False
    with 1(4) ok obtain cs where cs: "merge_children (e_children dst) (e_children src) = Inr cs" "e = Entry (e_temp dst) cs"
      by (auto simp: merge_entry.simps elim!: bind_result_InrE)
    have k: "distinct (map fst cs) \<and> (\<forall>c\<in>set cs. wf_entry (snd c)) \<and> (e_children src = [] \<longrightarrow> cs = e_children dst)"
    proof (rule 1(1) [OF ok _ _ _ cs(1)])
      show "distinct (map fst (e_children dst)) \<and> (\<forall>c\<in>set (e_children dst). wf_entry (snd c))"
        using wf_iff [THEN iffD1, OF 1(2)] by blast
      show "\<forall>c\<in>set (e_children src). wf_entry (snd c)" using wf_iff [THEN iffD1, OF 1(3)] by blast
    qed (use False in simp)
    have "0 \<le> x \<and> x \<le> 1 \<and> cs = []" if t: "e_temp dst = Some x" for x
    proof -
      have "e_children src = []" using ok t by (simp add: temp_conflict_def)
      with k have "cs = e_children dst" by blast
      with wf_iff [of dst] 1(2) t show ?thesis by simp
    qed
    moreover have "wf_entry c" if "(n, c) \<in> set cs" for n c using k that by (metis snd_conv)
    ultimately show ?thesis using k unfolding cs(2) wf_Entry by blast
  qed
next
  case (2 dst)
  then show ?case by simp
next
  case (3 dst k child src)
  show ?case
  proof (cases "map_of dst k")
    case None
    have c: "wf_entry child" using 3(5) by simp
    from 3(1) [OF None wf_children [OF _ _ c]] 3(4-6) None show ?thesis by simp
  next
    case (Some ex)
    then have "wf_entry ex" using 3(4) by (metis map_of_SomeD snd_conv)
    from Some 3(6) obtain m where m: "merge_entry ex child = Inr m" "merge_children (AList.update k m dst) src = Inr cs"
      by (auto elim!: bind_result_InrE)
    have "wf_entry m" using 3(2) [OF Some \<open>wf_entry ex\<close> _ m(1)] 3(5) by simp
    then have "distinct (map fst (AList.update k m dst)) \<and> (\<forall>c\<in>set (AList.update k m dst). wf_entry (snd c))"
      using 3(4) by (intro wf_children) simp_all
    from 3(3) [OF Some this _ m(2)] 3(5) show ?thesis by simp
  qed
qed

lemma wf_child: "wf_entry e \<Longrightarrow> map_of (e_children e) k = Some c \<Longrightarrow> wf_entry c"
  using wf_iff [of e] by (metis map_of_SomeD snd_conv)

lemma wf_put:
  "wf_entry e \<Longrightarrow> wf_entry c \<Longrightarrow> e_temp e = None \<Longrightarrow> wf_entry (Entry (e_temp e) (AList.update k c (e_children e)))"
  using wf_children [of "e_children e" c k] wf_iff [of e] by (simp add: wf_Entry) (metis snd_conv)

lemma insert_path_wf:
  "wf_entry cur \<Longrightarrow> wf_entry leaf \<Longrightarrow> e_temp cur = None \<Longrightarrow> insert_path segs leaf cur = Inr e \<Longrightarrow>
     wf_entry e \<and> e_temp e = None"
proof (induction segs leaf cur arbitrary: e rule: insert_path.induct)
  case (2 seg leaf cur)
  then show ?case using wf_put merge_wf(1) [OF wf_child [OF 2(1)]]
    by (auto split: option.splits elim!: bind_result_InrE)
next
  case (3 seg seg' segs leaf cur)
  let ?next = "case map_of (e_children cur) seg of None \<Rightarrow> no_entry | Some e \<Rightarrow> e"
  have wf: "wf_entry ?next" using wf_child [OF 3(2)] by (simp split: option.split)
  from 3(5) obtain m where n: "e_temp ?next = None" and m: "insert_path (seg' # segs) leaf ?next = Inr m"
    "e = Entry (e_temp cur) (AList.update seg m (e_children cur))"
    by (auto simp: Let_def elim!: bind_result_InrE split: if_splits)
  from 3(1) [OF refl _ wf 3(3) n m(1)] n wf_put [OF 3(2) _ 3(4)] m(2) 3(4) show ?case by simp
qed simp

lemma build_wf:
  "parse_value v = Inr e \<Longrightarrow> wf_entry e"
  "wf_entry cur \<Longrightarrow> e_temp cur = None \<Longrightarrow> build_from cur raw = Inr e \<Longrightarrow> wf_entry e \<and> e_temp e = None"
proof (induction v and cur raw arbitrary: e and e rule: parse_value_build_from.induct)
  case (1 x)
  then show ?case by (auto simp: wf_Entry split: if_splits)
next
  case (2 raw)
  then show ?case by (simp add: no_entry_def [symmetric]) (simp add: no_entry_def)
next
  case (5 cur k v raw)
  from 5(5) obtain leaf m where run: "parse_value v = Inr leaf" "insert_key cur leaf k = Inr m" "build_from m raw = Inr e"
    by (auto elim!: bind_result_InrE)
  have "insert_path (split_on (CHR ''/'') (norm_key k)) leaf cur = Inr m"
    using run(2) by (auto simp: insert_key_def Let_def split: if_splits)
  from insert_path_wf [OF 5(3) 5(1) [OF run(1)] 5(4) this] 5(2) [OF _ _ run(3)] run(1,2) show ?case by simp
qed simp_all

lemma resolve_parts_range:
  "wf_entry e \<Longrightarrow> (\<And>x. fb = Some x \<Longrightarrow> 0 \<le> x \<and> x \<le> 1) \<Longrightarrow> resolve_parts e fb segs = Some x \<Longrightarrow> 0 \<le> x \<and> x \<le> 1"
proof (induction e fb segs rule: resolve_parts.induct)
  case (2 e fb seg segs)
  let ?fb = "case map_of (e_children e) ''*'' of None \<Rightarrow> fb | Some g \<Rightarrow> if e_temp g \<noteq> None then e_temp g else fb"
  have leaf: "0 \<le> y \<and> y \<le> 1" if "map_of (e_children e) k = Some c" "e_temp c = Some y" for k c y
    using wf_iff [THEN iffD1, OF wf_child [OF 2(2) that(1)]] that(2) by blast
  have fb: "0 \<le> y \<and> y \<le> 1" if "?fb = Some y" for y
    using that 2(3) leaf by (auto split: option.splits if_splits)
  show ?case
  proof (cases "map_of (e_children e) seg")
    case None
    with 2(4) fb show ?thesis by simp
  next
    case (Some c)
    with 2(4) leaf [OF Some] 2(1) [OF refl Some _ wf_child [OF 2(2) Some] fb] show ?thesis
      by (cases "e_temp c") (simp_all add: Let_def)
  qed
qed simp

lemma load_temps_range:
  assumes "load_temps decode file = Inr r" "resolve_temp r rel = Some x"
  shows "0 \<le> x \<and> x \<le> 1"
proof -
  obtain e where e: "r = Some e" "resolve_parts e None (split_on (CHR ''/'') rel) = Some x"
    using assms(2) by (auto simp: resolve_temp_def split: option.splits)
  then have "wf_entry e"
    using assms(1) build_wf(2) [OF wf_no_entry]
    by (auto simp: load_temps_def build_entry_def no_entry_def elim!: bind_result_InrE split: sum.splits error.splits)
  with e(2) show ?thesis using resolve_parts_range by blast
qed

end
