(* ===== verification/Source_Walk.thy ===== *)
theory Source_Walk
  imports Path_Match Tempfile Compiler Store_Temperature
begin

text \<open>
  The entries of a compile: \<open>CompileDir\<close>, \<open>CompileFile\<close>, the sidecar files and the reseeding of
  \<open>pkg/compiler/compiler.go\<close>, and the tool \<open>MemoryCompile\<close> (\<open>pkg/mcp/tools/compile.go\<close>). The operating
  system is a parameter: the tree below a directory as \<open>filepath.WalkDir\<close> sees it (a symbolic link is an
  entry of its own and is not followed), the resolution of links, and the reading of files.
\<close>

subsection \<open>The file system\<close>

text \<open>
  An entry that is no directory: whether it is a symbolic link, and its modification time when it can be
  read; a directory with its entries in the order of their names, or one that cannot be read.
\<close>

datatype file_tree =
    Leaf bool "int option"
  | Dir "(bytes \<times> file_tree) list option"

record os =
  os_cwd :: bytes
  os_tree :: "bytes \<Rightarrow> file_tree option"
  os_links :: "bytes \<Rightarrow> bytes result"
  os_file :: "bytes \<Rightarrow> bytes result"
  os_stat_dir :: "bytes \<Rightarrow> bool result"

definition abs_path :: "os \<Rightarrow> bytes \<Rightarrow> bytes" where
  "abs_path s p = (if is_abs p then clean p else clean (os_cwd s @ ''/'' @ p))"

definition path_join :: "bytes \<Rightarrow> bytes \<Rightarrow> bytes" where
  "path_join p n = clean (p @ ''/'' @ n)"

definition unreadable :: error where "unreadable = Failure ''cannot read directory''"

text \<open>\<open>filepath.WalkDir\<close> with a callback that skips directories and fails on unreadable ones.\<close>

type_synonym leaf = "bytes \<times> bool \<times> int option"

fun walk_tree :: "(bytes \<Rightarrow> bytes \<Rightarrow> bool) \<Rightarrow> bytes \<Rightarrow> bytes \<Rightarrow> file_tree \<Rightarrow> leaf list result"
  and walk_entries :: "(bytes \<Rightarrow> bytes \<Rightarrow> bool) \<Rightarrow> bytes \<Rightarrow> (bytes \<times> file_tree) list \<Rightarrow> leaf list result" where
  "walk_tree enter path name (Leaf l m) = Inr [(path, l, m)]"
| "walk_tree enter path name (Dir es) =
     (if \<not> enter path name then Inr []
      else case es of None \<Rightarrow> Inl unreadable | Some es \<Rightarrow> walk_entries enter path es)"
| "walk_entries enter path [] = Inr []"
| "walk_entries enter path ((n, t) # es) =
     bind_result (walk_tree enter (path_join path n) n t) (\<lambda>a.
     bind_result (walk_entries enter path es) (\<lambda>b. Inr (a @ b)))"

definition dir_name :: bytes where "dir_name = ''.remindb''"

definition rel_path :: "bytes \<Rightarrow> bytes \<Rightarrow> bytes" where
  "rel_path base p = (case path_rel base p of None \<Rightarrow> [] | Some r \<Rightarrow> r)"

text \<open>Whether a directory of the walk is entered, and whether a file of it is looked at.\<close>

definition enters :: "matcher \<Rightarrow> bytes \<Rightarrow> bytes \<Rightarrow> bytes \<Rightarrow> bool" where
  "enters m base path name \<longleftrightarrow> \<not> (path \<noteq> base \<and> (should_skip_dir name \<or> name = dir_name))
     \<and> \<not> matcher_match m (rel_path base path) True"

definition takes :: "matcher \<Rightarrow> bytes \<Rightarrow> bytes \<Rightarrow> bool" where
  "takes m base path \<longleftrightarrow> supported path \<and> \<not> matcher_match m (rel_path base path) False"

definition outside :: "bytes option \<Rightarrow> bool" where
  "outside rel = (case rel of None \<Rightarrow> True | Some r \<Rightarrow> r = dotdot \<or> has_prefix r ''../'')"

definition symlink_escapes_root :: "os \<Rightarrow> bytes \<Rightarrow> bytes \<Rightarrow> bool \<Rightarrow> bool" where
  "symlink_escapes_root s base path is_link \<longleftrightarrow>
     is_link \<and> (case os_links s path of Inl _ \<Rightarrow> True | Inr resolved \<Rightarrow> outside (path_rel base resolved))"

definition real_root :: "os \<Rightarrow> bytes \<Rightarrow> bytes" where
  "real_root s base = (case os_links s base of Inl _ \<Rightarrow> base | Inr r \<Rightarrow> r)"

definition no_such_dir :: error where "no_such_dir = Failure ''no such directory''"

definition source_paths :: "os \<Rightarrow> matcher \<Rightarrow> bytes \<Rightarrow> bytes list result" where
  "source_paths s m base =
     (case os_tree s base of
        None \<Rightarrow> Inl no_such_dir
      | Some t \<Rightarrow> bind_result (walk_tree (enters m base) base (file_part base) t) (\<lambda>ls.
          Inr (map fst (filter (\<lambda>(p, l, _). takes m base p \<and> \<not> symlink_escapes_root s (real_root s base) p l) ls))))"

subsection \<open>Sidecar files\<close>

definition sidecar :: "bytes \<Rightarrow> bytes \<Rightarrow> bytes" where
  "sidecar dir name = clean (dir @ ''/'' @ dir_name @ ''/'' @ name)"

definition load_ignore :: "os \<Rightarrow> bytes \<Rightarrow> matcher result" where
  "load_ignore s dir = load_matcher (os_file s (sidecar dir ''ignore''))"

definition load_pinned :: "os \<Rightarrow> bytes \<Rightarrow> matcher result" where
  "load_pinned s dir = load_matcher (os_file s (sidecar dir ''pinned''))"

text \<open>The map of the pinned paths, as the list of its keys.\<close>

definition resolve_pins :: "bytes \<Rightarrow> bytes list \<Rightarrow> matcher \<Rightarrow> bytes list" where
  "resolve_pins dir paths m =
     (if m = None then []
      else filter (\<lambda>p. case path_rel dir p of None \<Rightarrow> False | Some rel \<Rightarrow> matcher_match m rel False) paths)"

definition resolve_temps :: "(bytes \<Rightarrow> (bytes \<times> json) list result) \<Rightarrow> os \<Rightarrow> bytes \<Rightarrow> bytes list
    \<Rightarrow> (bytes \<times> real) list result" where
  "resolve_temps decode s dir paths =
     bind_result (load_temps decode (os_file s (sidecar dir ''temperatures.json''))) (\<lambda>r.
       if r = None then Inr []
       else if list_ex (\<lambda>p. path_rel dir p = None) paths then Inl (Failure ''failed to resolve relative path'')
       else Inr (concat (map (\<lambda>p. case resolve_temp r (rel_path dir p) of None \<Rightarrow> [] | Some t \<Rightarrow> [(p, t)]) paths)))"

subsection \<open>Reseeding\<close>

text \<open>The groups of equal temperatures; a Go map visits them in any order, which makes no difference.\<close>

definition group_by_temp :: "bytes \<Rightarrow> (bytes \<times> real) list \<Rightarrow> (real \<times> bytes list) list" where
  "group_by_temp base temps =
     map (\<lambda>t. (t, map (rel_path base \<circ> fst) (filter (\<lambda>x. snd x = t) temps))) (first_occs (map snd temps))"

definition pin_paths_rel :: "bytes \<Rightarrow> bytes list \<Rightarrow> bytes list" where
  "pin_paths_rel base pins = map (rel_path base) pins"

definition reset_groups :: "(real \<times> bytes list) list \<Rightarrow> db \<Rightarrow> db" where
  "reset_groups = fold (\<lambda>(t, paths). reset_temperatures_by_files paths t)"

definition reseed :: "(nat \<Rightarrow> error option) \<Rightarrow> (nat \<Rightarrow> bool) \<Rightarrow> bytes \<Rightarrow> (bytes \<times> real) list \<Rightarrow> bytes list
    \<Rightarrow> bool \<Rightarrow> bool \<Rightarrow> db \<Rightarrow> unit result \<times> db" where
  "reseed fault awake base temps pins reseed_temps reseed_pins db =
     (let want_temps = (reseed_temps \<and> temps \<noteq> []); want_pins = (reseed_pins \<and> pins \<noteq> [])
      in if want_temps \<and> want_pins then
           (case store_tx fault awake (\<lambda>d. Inr ((), reset_groups (group_by_temp base temps)
               (reset_pinned_by_files (pin_paths_rel base pins) d))) db of (r, db', _) \<Rightarrow> (r, db'))
         else if want_temps then (Inr (), reset_groups (group_by_temp base temps) db)
         else if want_pins then (Inr (), reset_pinned_by_files (pin_paths_rel base pins) db)
         else (Inr (), db))"

subsection \<open>Compiling a directory or a file\<close>

record dir_options =
  do_ignore :: "matcher option"
  do_pinned :: "matcher option"
  do_reseed_temps :: bool
  do_reseed_pins :: bool

definition given_or :: "'a option \<Rightarrow> 'a result \<Rightarrow> 'a result" where
  "given_or given loaded = (case given of Some x \<Rightarrow> Inr x | None \<Rightarrow> loaded)"

definition no_result :: compile_result where
  "no_result = \<lparr>cr_added = 0, cr_modified = 0, cr_removed = 0, cr_total = 0\<rparr>"

text \<open>What the walk gives the compile: the paths, the pinned ones and the seed temperatures.\<close>

definition dir_sources :: "(bytes \<Rightarrow> (bytes \<times> json) list result) \<Rightarrow> os \<Rightarrow> dir_options \<Rightarrow> bytes
    \<Rightarrow> (bytes list \<times> bytes list \<times> (bytes \<times> real) list) result" where
  "dir_sources decode s d base =
     bind_result (given_or (do_ignore d) (load_ignore s base)) (\<lambda>ig.
     bind_result (given_or (do_pinned d) (load_pinned s base)) (\<lambda>pin.
     bind_result (source_paths s ig base) (\<lambda>paths.
       if paths = [] then Inr ([], [], [])
       else bind_result (resolve_temps decode s base paths) (\<lambda>temps.
         Inr (paths, resolve_pins base paths pin, temps)))))"

definition dir_compile_options :: "compile_options \<Rightarrow> bytes \<Rightarrow> bytes
    \<Rightarrow> bytes list \<times> bytes list \<times> (bytes \<times> real) list \<Rightarrow> compile_options" where
  "dir_compile_options o' base msg src =
     (case src of (paths, pins, temps) \<Rightarrow>
        o'\<lparr>co_paths := paths, co_message := msg, co_root := base, co_temps := map_of temps,
          co_pins := (\<lambda>p. p \<in> set pins), co_full_rescan := True\<rparr>)"

definition compile_dir :: "hash64 \<Rightarrow> (bytes \<Rightarrow> (bytes \<times> json) list result) \<Rightarrow> os \<Rightarrow> compile_env
    \<Rightarrow> compile_options \<Rightarrow> dir_options \<Rightarrow> bytes \<Rightarrow> bytes \<Rightarrow> db \<Rightarrow> compile_result result \<times> db" where
  "compile_dir xxh decode s env o' d dir msg db =
     (let base = abs_path s dir
      in case dir_sources decode s d base of
           Inl e \<Rightarrow> (Inl e, db)
         | Inr src \<Rightarrow>
             if fst src = [] then (Inr no_result, db)
             else (case compile xxh env (dir_compile_options o' base msg src) db of
                 (Inl e, db') \<Rightarrow> (Inl e, db')
               | (Inr r, db') \<Rightarrow>
                   (case reseed (ce_fault env) (ce_awake env) base (snd (snd src)) (fst (snd src))
                       (do_reseed_temps d) (do_reseed_pins d) db' of
                      (Inl e, db'') \<Rightarrow> (Inl e, db'')
                    | (Inr _, db'') \<Rightarrow> (Inr r, db''))))"

definition file_compile_options :: "os \<Rightarrow> compile_options \<Rightarrow> matcher \<Rightarrow> bytes \<Rightarrow> bytes \<Rightarrow> compile_options" where
  "file_compile_options s o' pin path msg =
     (let abs = abs_path s path; pins = resolve_pins (path_dir abs) [abs] pin
      in o'\<lparr>co_paths := [path], co_message := msg, co_root := path_dir abs, co_pins := (\<lambda>p. p \<in> set pins)\<rparr>)"

definition compile_file :: "hash64 \<Rightarrow> os \<Rightarrow> compile_env \<Rightarrow> compile_options \<Rightarrow> dir_options \<Rightarrow> bytes \<Rightarrow> bytes
    \<Rightarrow> db \<Rightarrow> compile_result result \<times> db" where
  "compile_file xxh s env o' d path msg db =
     (if \<not> supported path then (Inl err_unsupported_ext, db)
      else case given_or (do_pinned d) (load_pinned s (path_dir (abs_path s path))) of
        Inl e \<Rightarrow> (Inl e, db)
      | Inr pin \<Rightarrow> compile xxh env (file_compile_options s o' pin path msg) db)"

subsection \<open>The tool\<close>

definition real_path :: "os \<Rightarrow> bytes \<Rightarrow> bytes" where
  "real_path s p = (case os_links s (abs_path s p) of Inl _ \<Rightarrow> abs_path s p | Inr r \<Rightarrow> r)"

definition canonicalize_path :: "os \<Rightarrow> bytes \<Rightarrow> bytes \<Rightarrow> bytes result" where
  "canonicalize_path s input source =
     (if input = [] then Inr []
      else if source = [] then Inl (Failure ''compile requires a configured source root'')
      else let rel = path_rel (real_path s source) (real_path s input)
        in if outside rel then Inl (Failure ''path is outside source root'')
           else Inr (path_join source (the rel)))"

definition handle_compile :: "hash64 \<Rightarrow> (bytes \<Rightarrow> (bytes \<times> json) list result) \<Rightarrow> os \<Rightarrow> compile_env
    \<Rightarrow> compile_options \<Rightarrow> bytes \<Rightarrow> bytes \<Rightarrow> bytes \<Rightarrow> db \<Rightarrow> bytes result \<times> db" where
  "handle_compile xxh decode s env o' source input message db =
     (case canonicalize_path s input source of
        Inl e \<Rightarrow> (Inl e, db)
      | Inr path \<Rightarrow>
          let msg = (if message = [] then ''compile:'' @ path else message);
              d = \<lparr>do_ignore = None, do_pinned = None, do_reseed_temps = False, do_reseed_pins = False\<rparr>
          in case os_stat_dir s path of
               Inl e \<Rightarrow> (Inl e, db)
             | Inr is_dir \<Rightarrow>
                 (case (if is_dir then compile_dir xxh decode s env o' d path msg db
                        else compile_file xxh s env o' d path msg db) of
                    (Inl e, db') \<Rightarrow> (Inl e, db')
                  | (Inr r, db') \<Rightarrow> (Inr (''compiled: '' @ itoa (cr_added r) @ '' added, '' @ itoa (cr_modified r)
                      @ '' modified, '' @ itoa (cr_removed r) @ '' removed ('' @ itoa (cr_total r) @ '' ops)''), db')))"

text \<open>\<open>MaybeInitialCompile\<close>: without a redactor, and only on an empty store.\<close>

definition initial_compile :: "hash64 \<Rightarrow> (bytes \<Rightarrow> (bytes \<times> json) list result) \<Rightarrow> os \<Rightarrow> compile_env \<Rightarrow> bytes
    \<Rightarrow> db \<Rightarrow> unit result \<times> db" where
  "initial_compile xxh decode s env dir db =
     (if db_nodes db \<noteq> [] then (Inr (), db)
      else case compile_dir xxh decode s env
          \<lparr>co_paths = [], co_message = [], co_root = [], co_temps = \<lambda>_. None, co_pins = \<lambda>_. False, co_max_size = 0,
            co_timeout = 0, co_full_rescan = False, co_redactor = None\<rparr>
          \<lparr>do_ignore = None, do_pinned = None, do_reseed_temps = False, do_reseed_pins = False\<rparr> dir ''initial'' db of
        (r, db') \<Rightarrow> (map_sum id (\<lambda>_. ()) r, db'))"

subsection \<open>What the walk finds\<close>

inductive leaf_at :: "file_tree \<Rightarrow> bytes list \<Rightarrow> bool \<Rightarrow> int option \<Rightarrow> bool" where
  here: "leaf_at (Leaf l m) [] l m"
| below: "(n, t) \<in> set es \<Longrightarrow> leaf_at t ns l m \<Longrightarrow> leaf_at (Dir (Some es)) (n # ns) l m"

inductive_simps leaf_at_Leaf: "leaf_at (Leaf l' m') ns l m"
inductive_simps leaf_at_Dir: "leaf_at (Dir es) ns l m"

definition descend :: "bytes \<Rightarrow> bytes list \<Rightarrow> bytes" where
  "descend base ns = foldl path_join base ns"

lemma descend_simps [simp]: "descend base [] = base" "descend base (n # ns) = descend (path_join base n) ns"
  by (simp_all add: descend_def)

text \<open>Every directory on the way is entered.\<close>

fun way_in :: "(bytes \<Rightarrow> bytes \<Rightarrow> bool) \<Rightarrow> bytes \<Rightarrow> bytes \<Rightarrow> bytes list \<Rightarrow> bool" where
  "way_in enter path name [] = True"
| "way_in enter path name (n # ns) = (enter path name \<and> way_in enter (path_join path n) n ns)"

lemma walk_finds:
  "walk_tree enter path name t = Inr ls \<Longrightarrow>
     (p, l, m) \<in> set ls \<longleftrightarrow> (\<exists>ns. leaf_at t ns l m \<and> p = descend path ns \<and> way_in enter path name ns)"
  "walk_entries enter path es = Inr ls \<Longrightarrow>
     (p, l, m) \<in> set ls \<longleftrightarrow> (\<exists>n t ns. (n, t) \<in> set es \<and> leaf_at t ns l m \<and> p = descend (path_join path n) ns
        \<and> way_in enter (path_join path n) n ns)"
proof (induction enter path name t and enter path es arbitrary: ls and ls rule: walk_tree_walk_entries.induct)
  case (1 enter path name l' m')
  then show ?case by (auto simp: leaf_at_Leaf)
next
  case (2 enter path name es)
  show ?case
  proof (cases "enter path name")
    case False
    with 2(2) show ?thesis by (auto simp: leaf_at_Dir)
  next
    case True
    with 2(2) obtain es' where es: "es = Some es'" "walk_entries enter path es' = Inr ls"
      by (auto split: option.splits)
    with 2(1) [OF _ es(1) es(2)] True show ?thesis by (auto simp: leaf_at_Dir) fastforce+
  qed
next
  case (3 enter path)
  then show ?case by simp
next
  case (4 enter path n t es)
  from 4(3) obtain a b where ab: "walk_tree enter (path_join path n) n t = Inr a" "walk_entries enter path es = Inr b" "ls = a @ b"
    by (auto elim!: bind_result_InrE)
  show ?case unfolding ab(3) set_append Un_iff 4(1) [OF ab(1)] 4(2) [OF ab(2)] by auto
qed

text \<open>
  The files a compile of the directory may read: they are below it, through directories that are neither
  skipped nor ignored, have a supported extension, are not ignored, and, when they are links, resolve to a
  place inside the directory.
\<close>

definition inside :: "bytes \<Rightarrow> bytes \<Rightarrow> bool" where
  "inside base p \<longleftrightarrow> (\<exists>r. path_rel base p = Some r \<and> r \<noteq> dotdot \<and> \<not> has_prefix r ''../'')"

definition eligible :: "os \<Rightarrow> matcher \<Rightarrow> bytes \<Rightarrow> bytes \<Rightarrow> bool" where
  "eligible s m base p \<longleftrightarrow> (\<exists>t ns l mt. os_tree s base = Some t \<and> leaf_at t ns l mt \<and> p = descend base ns
     \<and> way_in (enters m base) base (file_part base) ns \<and> supported p \<and> \<not> matcher_match m (rel_path base p) False
     \<and> (l \<longrightarrow> (\<exists>r. os_links s p = Inr r \<and> inside (real_root s base) r)))"

lemma outside_inside: "outside (path_rel base p) \<longleftrightarrow> \<not> inside base p"
  by (auto simp: outside_def inside_def split: option.split)

lemma escapes_iff: "symlink_escapes_root s base p l \<longleftrightarrow> l \<and> \<not> (\<exists>r. os_links s p = Inr r \<and> inside base r)"
  by (auto simp: symlink_escapes_root_def outside_inside split: sum.split)

lemma source_paths_eligible:
  assumes "source_paths s m base = Inr ps"
  shows "p \<in> set ps \<longleftrightarrow> eligible s m base p"
proof -
  from assms obtain t ls where t: "os_tree s base = Some t" "walk_tree (enters m base) base (file_part base) t = Inr ls"
    "ps = map fst (filter (\<lambda>(p, l, _). takes m base p \<and> \<not> symlink_escapes_root s (real_root s base) p l) ls)"
    by (auto simp: source_paths_def elim!: bind_result_InrE split: option.splits)
  have "p \<in> set ps \<longleftrightarrow> (\<exists>l mt. (p, l, mt) \<in> set ls \<and> takes m base p \<and> \<not> symlink_escapes_root s (real_root s base) p l)"
    by (force simp: t(3))
  then show ?thesis
    by (auto simp: walk_finds(1) [OF t(2)] eligible_def t(1) takes_def escapes_iff)
qed

definition agree_on :: "(bytes \<Rightarrow> bool) \<Rightarrow> file_io \<Rightarrow> file_io \<Rightarrow> bool" where
  "agree_on P io io' \<longleftrightarrow> (\<forall>p. P p \<longrightarrow> io_size io p = io_size io' p \<and> io_read io p = io_read io' p \<and> io_parse io p = io_parse io' p)"

lemma read_one_agree: "agree_on P io io' \<Longrightarrow> P p \<Longrightarrow> read_one io o' p = read_one io' o' p"
proof -
  assume "agree_on P io io'" "P p"
  then have "io_size io p = io_size io' p" "io_read io p = io_read io' p" "io_parse io p = io_parse io' p"
    by (simp_all add: agree_on_def)
  then show ?thesis by (simp only: read_one_def)
qed

lemma compile_agree:
  assumes "agree_on P io io'" "\<And>p. p \<in> set (co_paths o') \<Longrightarrow> P p"
  shows "compile xxh (env\<lparr>ce_io := io\<rparr>) o' db = compile xxh (env\<lparr>ce_io := io'\<rparr>) o' db"
proof -
  have same: "reader_results io stopped o' = reader_results io' stopped o'" for stopped
    unfolding reader_results_def
    by (intro map_cong refl) (auto simp: in_set_enumerate_eq assms(2) intro!: read_one_agree [OF assms(1)])
  have env: "ce_sched (env\<lparr>ce_io := j\<rparr>) = ce_sched env" "ce_stopped (env\<lparr>ce_io := j\<rparr>) = ce_stopped env"
    "ce_fault (env\<lparr>ce_io := j\<rparr>) = ce_fault env" "ce_awake (env\<lparr>ce_io := j\<rparr>) = ce_awake env"
    "ce_io (env\<lparr>ce_io := j\<rparr>) = j" for j by simp_all
  show ?thesis unfolding compile_def env same ..
qed


subsection \<open>On a small tree\<close>

definition sample_os :: os where
  "sample_os = \<lparr>os_cwd = ''/'', os_tree = (\<lambda>p. if p = ''/m'' then Some (Dir (Some
       [(''.git'', Dir (Some [(''x.md'', Leaf False None)])), (''a.md'', Leaf False (Some 1)),
        (''b.txt'', Leaf False None), (''l.md'', Leaf True None)])) else None),
     os_links = (\<lambda>p. if p = ''/m/l.md'' then Inr ''/etc/secret.md'' else Inr p),
     os_file = (\<lambda>_. Inl NoRows), os_stat_dir = (\<lambda>_. Inr True)\<rparr>"

definition plain_dir :: dir_options where
  "plain_dir = \<lparr>do_ignore = None, do_pinned = None, do_reseed_temps = False, do_reseed_pins = False\<rparr>"

lemma sample_paths: "source_paths sample_os None ''/m'' = Inr [''/m/a.md'']"
  by code_simp

lemma sample_base: "abs_path sample_os ''/m'' = ''/m''" by code_simp

lemma sample_ignore: "load_ignore sample_os p = Inr None"
  by (simp add: load_ignore_def load_matcher_def sample_os_def)

definition sample_io :: "bytes \<Rightarrow> file_io" where
  "sample_io secret = \<lparr>io_size = (\<lambda>_. Inr 6), io_read = (\<lambda>p. Inr (if p = ''/m/a.md'' then ''# Note'' else secret)),
     io_parse = (\<lambda>_ _. Inr [])\<rparr>"


end
