(* ===== verification/Rescan.thy ===== *)
theory Rescan
  imports Source_Walk Workspace_Config
begin

text \<open>
  The loop of \<open>pkg/mcp/rescan\<close> that keeps the store in step with a source tree while the server runs: at
  every tick it reloads its part of the configuration, walks the tree, removes the nodes of the files that
  are gone and compiles the files that changed and have settled. Instants and durations are integers of
  nanoseconds. A tick is a function of what the environment shows during it (\<open>scan_env\<close>): the tree with
  its modification times, the clock, the configuration file and the faults of the two transactions.
\<close>

subsection \<open>State\<close>

record purged_file =
  pf_path :: bytes
  pf_nodes :: int

record scan_snapshot =
  ss_run_at :: int
  ss_error :: "error option"
  ss_added :: int
  ss_modified :: int
  ss_removed :: int
  ss_purged :: "purged_file list"

record scan_loop =
  rl_dir :: bytes
  rl_bootstrap :: int
  rl_interval :: int
  rl_settle :: int
  rl_enabled :: bool
  rl_hash :: bytes
  rl_mod_times :: "(bytes \<times> int) list"
  rl_ignore :: matcher
  rl_pinned :: matcher
  rl_compile :: compile_config

record scan_env =
  sc_os :: os
  sc_now :: int
  sc_config :: file_read
  sc_fault :: "nat \<Rightarrow> error option"
  sc_awake :: "nat \<Rightarrow> bool"
  sc_compile :: compile_env

definition default_interval :: int where "default_interval = 30 * 1000000000"
definition default_settle :: int where "default_settle = 500 * 1000000"

definition effective_interval :: "int \<Rightarrow> rescan_config \<Rightarrow> int" where
  "effective_interval flag rc =
     (let interval = (if flag \<le> 0 then default_interval else flag)
      in case rs_interval rc of None \<Rightarrow> interval | Some i \<Rightarrow> i)"

definition new_loop :: "os \<Rightarrow> bytes \<Rightarrow> int \<Rightarrow> compile_config \<Rightarrow> scan_loop result" where
  "new_loop s dir interval cc =
     (let iv = (if interval \<le> 0 then default_interval else interval)
      in bind_result (load_ignore s dir) (\<lambda>ig. bind_result (load_pinned s dir) (\<lambda>pin.
         Inr \<lparr>rl_dir = dir, rl_bootstrap = iv, rl_interval = iv, rl_settle = default_settle, rl_enabled = True,
           rl_hash = [], rl_mod_times = [], rl_ignore = ig, rl_pinned = pin, rl_compile = cc\<rparr>)))"

text \<open>Answers whether the tick interval changed; a configuration that cannot be used keeps the last good one.\<close>

definition reload_rescan :: "hash64 \<Rightarrow> (bytes \<Rightarrow> decoded) \<Rightarrow> file_read \<Rightarrow> scan_loop \<Rightarrow> bool \<times> scan_loop" where
  "reload_rescan xxh decode f r =
     (case f of
        Unreadable \<Rightarrow> (False, r)
      | _ \<Rightarrow>
          let text = (case f of Contents s \<Rightarrow> s | _ \<Rightarrow> []); h = content_hash xxh text
          in if h = rl_hash r then (False, r)
             else case parse_config decode text of
               Inl _ \<Rightarrow> (False, r)
             | Inr cfg \<Rightarrow>
                 let rc = cf_rescan cfg; interval = effective_interval (rl_bootstrap r) rc
                 in (interval \<noteq> rl_interval r,
                     r\<lparr>rl_hash := h, rl_enabled := (case rs_enabled rc of None \<Rightarrow> True | Some b \<Rightarrow> b),
                       rl_interval := interval,
                       rl_settle := (case rs_settle rc of None \<Rightarrow> default_settle | Some d \<Rightarrow> d)\<rparr>))"

subsection \<open>One scan\<close>

text \<open>The files the walk looks at; it has no check of symbolic links.\<close>

definition scan_files :: "os \<Rightarrow> scan_loop \<Rightarrow> leaf list result" where
  "scan_files s r =
     (case os_tree s (rl_dir r) of
        None \<Rightarrow> Inl no_such_dir
      | Some t \<Rightarrow> bind_result (walk_tree (enters (rl_ignore r) (rl_dir r)) (rl_dir r) (file_part (rl_dir r)) t)
          (\<lambda>ls. Inr (filter (\<lambda>(p, _). takes (rl_ignore r) (rl_dir r) p) ls)))"

definition changed_files :: "int \<Rightarrow> scan_loop \<Rightarrow> leaf list \<Rightarrow> (bytes \<times> int) list" where
  "changed_files now r fs =
     concat (map (\<lambda>(p, _, mt). case mt of
         None \<Rightarrow> []
       | Some m \<Rightarrow> if now - m < rl_settle r then []
           else case map_of (rl_mod_times r) p of
               None \<Rightarrow> [(p, m)]
             | Some prev \<Rightarrow> if prev < m then [(p, m)] else []) fs)"

definition gone_files :: "scan_loop \<Rightarrow> leaf list \<Rightarrow> bytes list" where
  "gone_files r fs = filter (\<lambda>p. p \<notin> fst ` set fs) (map fst (rl_mod_times r))"

definition gone_key :: "bytes \<Rightarrow> bytes \<Rightarrow> bytes" where
  "gone_key dir p = (case path_rel dir p of None \<Rightarrow> p | Some rel \<Rightarrow> rel)"

definition purge_delta :: "node \<Rightarrow> delta" where
  "purge_delta n = \<lparr>d_node = n_id n, d_old_hash = n_hash n, d_new_hash = [], d_old_content = n_content n,
     d_new_content = [], d_op = OpRem\<rparr>"

definition purged_files :: "node list \<Rightarrow> purged_file list" where
  "purged_files ns = map (\<lambda>p. \<lparr>pf_path = p, pf_nodes = int (length (filter (\<lambda>n. n_source n = p) ns))\<rparr>)
     (sort (first_occs (map n_source ns)))"

text \<open>The failure of the purge is only logged; the answer says whether it went through.\<close>

definition reconcile_deleted :: "hash64 \<Rightarrow> scan_env \<Rightarrow> bytes list \<Rightarrow> db \<Rightarrow> (purged_file list \<times> bool) \<times> db" where
  "reconcile_deleted xxh e gone db =
     (if gone = [] then (([], True), db)
      else let ns = nodes_by_files db gone
        in if ns = [] then (([], True), db)
           else let ds = map purge_delta ns
             in case emit_in_store (sc_fault e) (sc_awake e)
                 \<lparr>e_roots = [], e_deltas = ds, e_cursor = cursor_hash_for_change xxh (head_snapshot_id db) ds,
                   e_message = ''rescan: purged '' @ itoa (int (length gone)) @ '' files'', e_root = []\<rparr> db of
               (Inl _, db', _) \<Rightarrow> (([], False), db')
             | (Inr _, db', _) \<Rightarrow> ((purged_files ns, True), db'))"

definition rescan_compile_options :: "scan_loop \<Rightarrow> bytes list \<Rightarrow> compile_options" where
  "rescan_compile_options r paths =
     \<lparr>co_paths = paths, co_message = ''rescan'', co_root = rl_dir r, co_temps = (\<lambda>_. None),
       co_pins = (\<lambda>p. p \<in> set (resolve_pins (rl_dir r) paths (rl_pinned r))),
       co_max_size = (case cc_max_file_size (rl_compile r) of None \<Rightarrow> 0 | Some n \<Rightarrow> n),
       co_timeout = (case cc_timeout (rl_compile r) of None \<Rightarrow> 0 | Some d \<Rightarrow> d),
       co_full_rescan = False, co_redactor = None\<rparr>"

definition blank_snapshot :: "int \<Rightarrow> scan_snapshot" where
  "blank_snapshot now = \<lparr>ss_run_at = now div 1000000000, ss_error = None, ss_added = 0, ss_modified = 0,
     ss_removed = 0, ss_purged = []\<rparr>"

definition forget_files :: "bytes list \<Rightarrow> scan_loop \<Rightarrow> scan_loop" where
  "forget_files gone r = r\<lparr>rl_mod_times := filter (\<lambda>(p, _). p \<notin> set gone) (rl_mod_times r)\<rparr>"

definition note_files :: "(bytes \<times> int) list \<Rightarrow> scan_loop \<Rightarrow> scan_loop" where
  "note_files cs r = r\<lparr>rl_mod_times := fold (\<lambda>(p, m). AList.update p m) cs (rl_mod_times r)\<rparr>"

text \<open>The answer: the loop, the store, the tick's result, and whether the observer of changes is called.\<close>

type_synonym scan_result = "scan_loop \<times> db \<times> scan_snapshot \<times> bool"

definition scan_compile :: "hash64 \<Rightarrow> scan_env \<Rightarrow> (bytes \<times> int) list \<Rightarrow> scan_loop \<Rightarrow> scan_snapshot \<Rightarrow> db
    \<Rightarrow> scan_result" where
  "scan_compile xxh e changed r snap db =
     (case compile xxh (sc_compile e) (rescan_compile_options r (map fst changed)) db of
        (Inl err, db') \<Rightarrow> (r, db', snap\<lparr>ss_error := Some err\<rparr>, False)
      | (Inr res, db') \<Rightarrow> (note_files changed r, db',
          snap\<lparr>ss_added := cr_added res, ss_modified := cr_modified res, ss_removed := cr_removed res\<rparr>, True))"

definition scan :: "hash64 \<Rightarrow> scan_env \<Rightarrow> scan_loop \<Rightarrow> db \<Rightarrow> scan_result" where
  "scan xxh e r db =
     (let snap = blank_snapshot (sc_now e)
      in case scan_files (sc_os e) r of
           Inl err \<Rightarrow> (r, db, snap\<lparr>ss_error := Some err\<rparr>, False)
         | Inr fs \<Rightarrow>
             let changed = changed_files (sc_now e) r fs; gone = gone_files r fs;
                 ((purged, ok), db1) = reconcile_deleted xxh e (map (gone_key (rl_dir r)) gone) db;
                 snap1 = snap\<lparr>ss_purged := purged\<rparr>; r1 = (if ok then forget_files gone r else r)
             in if changed = [] then (r1, db1, snap1, ok \<and> gone \<noteq> [])
                else scan_compile xxh e changed r1 snap1 db1)"

subsection \<open>The loop\<close>

record rescan_status =
  st_interval :: int
  st_last :: scan_snapshot

definition rescan_turn :: "hash64 \<Rightarrow> (bytes \<Rightarrow> decoded) \<Rightarrow> scan_env
    \<Rightarrow> scan_loop \<times> db \<times> rescan_status \<Rightarrow> scan_loop \<times> db \<times> rescan_status" where
  "rescan_turn xxh decode e s =
     (case s of (r, db, st) \<Rightarrow>
        let r1 = snd (reload_rescan xxh decode (sc_config e) r)
        in if \<not> rl_enabled r1 then (r1, db, st)
           else case scan xxh e r1 db of
             (r2, db2, snap, _) \<Rightarrow> (r2, db2, \<lparr>st_interval = rl_interval r1 div 1000000000, st_last = snap\<rparr>))"

definition rescan_run :: "hash64 \<Rightarrow> (bytes \<Rightarrow> decoded) \<Rightarrow> scan_env list
    \<Rightarrow> scan_loop \<times> db \<times> rescan_status \<Rightarrow> scan_loop \<times> db \<times> rescan_status" where
  "rescan_run xxh decode es s = fold (rescan_turn xxh decode) es s"

subsection \<open>What a purge leaves\<close>

lemma delete_node_nodes:
  "set (db_nodes (delete_node i db)) \<subseteq> {n \<in> set (db_nodes db). n_id n \<noteq> i}"
proof
  fix n assume n: "n \<in> set (db_nodes (delete_node i db))"
  then have "n \<in> set (db_nodes db)" "n_id n \<notin> doomed [i] db" by (auto simp: delete_node_def db_nodes_delete_rows)
  moreover from this have "n_id n \<noteq> i" by (auto simp: doomed_def node_ids_def)
  ultimately show "n \<in> {n \<in> set (db_nodes db). n_id n \<noteq> i}" by simp
qed

lemma fold_removals_nodes:
  assumes "fold_result (emit_delta m) (map purge_delta ns) db = Inr db'"
  shows "set (db_nodes db') \<subseteq> {b \<in> set (db_nodes db). n_id b \<notin> n_id ` set ns}"
  using assms
proof (induction ns arbitrary: db)
  case (Cons n ns)
  have "emit_delta m (purge_delta n) db = Inr (delete_node (n_id n) db)"
    by (simp add: emit_delta_def purge_delta_def)
  with Cons.prems have "fold_result (emit_delta m) (map purge_delta ns) (delete_node (n_id n) db) = Inr db'"
    by simp
  from Cons.IH [OF this] delete_node_nodes [of "n_id n" db] show ?case by auto
qed simp

lemma create_snapshot_nodes: "create_snapshot o' db = Inr (sid, db') \<Longrightarrow> db_nodes db' = db_nodes db"
  by (auto simp: create_snapshot_def Let_def split: if_splits option.splits)

lemma insert_diffs_nodes: "fold_result (\<lambda>d. insert_diff (f d)) ds db = Inr db' \<Longrightarrow> db_nodes db' = db_nodes db"
  by (rule fold_result_invariant [where P = "\<lambda>d. db_nodes d = db_nodes db"])
    (auto simp: insert_diff_def split: if_splits)

lemma advance_cursor_nodes: "advance_cursor sid db = Inr db' \<Longrightarrow> db_nodes db' = db_nodes db"
  by (auto simp: advance_cursor_def split: if_splits)

lemma emit_nodes:
  assumes "emit o' db = Inr db'"
  shows "\<exists>db1. fold_result (emit_delta (flatten_map (e_roots o'))) (e_deltas o') db = Inr db1 \<and> db_nodes db' = db_nodes db1"
  using assms unfolding emit_def Let_def
  by (auto elim!: bind_result_InrE dest!: create_snapshot_nodes insert_diffs_nodes advance_cursor_nodes)

lemma store_tx_Inr:
  assumes "store_tx fault awake fn db = (Inr x, db', n)"
  shows "\<exists>db''. fn db = Inr (x, db'') \<and> db' = db''\<lparr>db_defer := False\<rparr>"
  using tx_loop_result [of fault awake fn 0 db "Inr x" db' n] assms by (auto simp: store_tx_def)

lemma store_tx_Inl: "store_tx fault awake fn db = (Inl e, db', n) \<Longrightarrow> db' = db"
  using tx_loop_result [of fault awake fn 0 db "Inl e" db' n] by (auto simp: store_tx_def)

lemma reconcile_deleted_rows:
  assumes "reconcile_deleted xxh e gone db = ((purged, True), db')"
  shows "set (db_nodes db') \<subseteq> {n \<in> set (db_nodes db). n_source n \<notin> set gone}"
proof (cases "gone = [] \<or> nodes_by_files db gone = []")
  case True
  with assms show ?thesis
    by (auto simp: reconcile_deleted_def nodes_by_files_def filter_empty_conv split: if_splits)
next
  case False
  let ?ns = "nodes_by_files db gone"
  obtain o' n where o: "emit_in_store (sc_fault e) (sc_awake e) o' db = (Inr (), db', n)"
    "e_deltas o' = map purge_delta ?ns"
    using assms False
    by (auto simp: reconcile_deleted_def Let_def split: prod.splits sum.splits)
  then have "store_tx (sc_fault e) (sc_awake e) (emit_tx o') db = (Inr (), db', n)"
    using False by (simp add: emit_in_store_def)
  from store_tx_Inr [OF this] obtain db'' where db'': "emit o' db = Inr db''" "db_nodes db' = db_nodes db''"
    using False o(2) by (auto simp: emit_tx_def elim!: bind_result_InrE)
  obtain db1 where "fold_result (emit_delta (flatten_map (e_roots o'))) (map purge_delta ?ns) db = Inr db1"
    "db_nodes db'' = db_nodes db1"
    using emit_nodes [OF db''(1)] o(2) by auto
  from fold_removals_nodes [OF this(1)] this(2) db''(2)
  have "set (db_nodes db') \<subseteq> {b \<in> set (db_nodes db). n_id b \<notin> n_id ` set ?ns}" by simp
  then show ?thesis using False by (auto simp: nodes_by_files_def)
qed

lemma reconcile_deleted_failed:
  "reconcile_deleted xxh e gone db = ((purged, False), db') \<Longrightarrow> db' = db \<and> gone \<noteq> []"
  by (auto simp: reconcile_deleted_def emit_in_store_def Let_def dest: store_tx_Inl split: prod.splits sum.splits if_splits)

lemma reconcile_nothing [simp]: "reconcile_deleted xxh e [] db = (([], True), db)"
  by (simp add: reconcile_deleted_def)

subsection \<open>A settled tree\<close>

text \<open>Every file with a modification time is known at that time or a later one, and no other file is known.\<close>

definition tracks :: "scan_loop \<Rightarrow> leaf list \<Rightarrow> bool" where
  "tracks r fs \<longleftrightarrow> (\<forall>(p, l, mt)\<in>set fs. \<forall>m. mt = Some m \<longrightarrow> (\<exists>t. map_of (rl_mod_times r) p = Some t \<and> m \<le> t))
     \<and> gone_files r fs = []"

definition settled :: "int \<Rightarrow> int \<Rightarrow> leaf list \<Rightarrow> bool" where
  "settled now settle fs \<longleftrightarrow> (\<forall>(p, l, mt)\<in>set fs. \<forall>m. mt = Some m \<longrightarrow> settle \<le> now - m)"

lemma tracks_quiet: "tracks r fs \<Longrightarrow> changed_files now r fs = []"
  by (fastforce simp: tracks_def changed_files_def split: option.splits)

lemma changed_files_iff:
  "(p, m) \<in> set (changed_files now r fs) \<longleftrightarrow>
     (\<exists>l. (p, l, Some m) \<in> set fs) \<and> rl_settle r \<le> now - m
     \<and> (\<forall>t. map_of (rl_mod_times r) p = Some t \<longrightarrow> t < m)"
  by (force simp: changed_files_def split: option.splits if_splits)

lemma map_of_notes:
  "map_of (rl_mod_times (note_files cs r)) p =
     (case map_of (rev cs) p of Some m \<Rightarrow> Some m | None \<Rightarrow> map_of (rl_mod_times r) p)"
proof -
  have "map_of (fold (\<lambda>(p, m). AList.update p m) cs ms) p = (case map_of (rev cs) p of Some m \<Rightarrow> Some m | None \<Rightarrow> map_of ms p)"
    for ms :: "(bytes \<times> int) list"
    by (induction cs arbitrary: ms) (auto simp: update_conv map_add_def split: option.splits)
  then show ?thesis by (simp add: note_files_def)
qed

lemma map_of_forget: "map_of (rl_mod_times (forget_files gone r)) p = (if p \<in> set gone then None else map_of (rl_mod_times r) p)"
proof -
  have "map_of (filter (\<lambda>(p, _). p \<notin> set gone) ms) p = (if p \<in> set gone then None else map_of ms p)"
    for ms :: "(bytes \<times> int) list"
    by (induction ms) auto
  then show ?thesis by (simp add: forget_files_def)
qed

lemma loop_frame [frame_simps]:
  "rl_dir (forget_files gone r) = rl_dir r" "rl_ignore (forget_files gone r) = rl_ignore r"
  "rl_dir (note_files cs r) = rl_dir r" "rl_ignore (note_files cs r) = rl_ignore r"
  by (simp_all add: forget_files_def note_files_def)

lemma gone_not_seen: "p \<in> set (gone_files r fs) \<Longrightarrow> (p, l, mt) \<notin> set fs"
  by (force simp: gone_files_def)

text \<open>What a scan that walked the tree does, on each of its branches.\<close>

lemma scan_walked:
  assumes "scan_files (sc_os e) r = Inr fs" "scan xxh e r db = (r', db', snap, notified)"
  obtains purged ok db1 r1 where
    "reconcile_deleted xxh e (map (gone_key (rl_dir r)) (gone_files r fs)) db = ((purged, ok), db1)"
    "r1 = (if ok then forget_files (gone_files r fs) r else r)"
    "changed_files (sc_now e) r fs = [] \<Longrightarrow> r' = r1 \<and> db' = db1 \<and> notified = (ok \<and> gone_files r fs \<noteq> [])"
    "changed_files (sc_now e) r fs \<noteq> [] \<Longrightarrow>
       scan_compile xxh e (changed_files (sc_now e) r fs) r1 ((blank_snapshot (sc_now e))\<lparr>ss_purged := purged\<rparr>) db1
         = (r', db', snap, notified)"
proof -
  obtain purged ok db1 where rc: "reconcile_deleted xxh e (map (gone_key (rl_dir r)) (gone_files r fs)) db = ((purged, ok), db1)"
    by (metis surj_pair)
  show ?thesis by (rule that [OF rc refl]) (use assms in \<open>simp_all add: scan_def Let_def rc\<close>)
qed

lemma scan_compile_result:
  assumes "scan_compile xxh e cs r snap db = (r', db', snap', notified)"
  shows "r' = r \<and> ss_error snap' \<noteq> None \<and> \<not> notified \<or> r' = note_files cs r \<and> ss_error snap' = ss_error snap \<and> notified"
  using assms by (auto simp: scan_compile_def split: prod.splits sum.splits)

lemma scan_frame:
  assumes "scan xxh e r db = (r', db', snap, notified)"
  shows "rl_dir r' = rl_dir r \<and> rl_ignore r' = rl_ignore r"
proof (cases "scan_files (sc_os e) r")
  case (Inl err)
  with assms show ?thesis by (simp add: scan_def Let_def)
next
  case (Inr fs)
  show ?thesis
    by (rule scan_walked [OF Inr assms]; cases "changed_files (sc_now e) r fs = []")
      (auto simp: frame_simps dest!: scan_compile_result)
qed

lemma scan_tracks:
  assumes "scan_files (sc_os e) r = Inr fs" "scan xxh e r db = (r', db', snap, notified)" "ss_error snap = None"
    and "distinct (map fst fs)" "settled (sc_now e) (rl_settle r) fs" "gone_files r' fs = []"
  shows "tracks r' fs"
  unfolding tracks_def
proof (intro conjI assms(6) ballI, clarify)
  fix p l m assume p: "(p, l, Some m) \<in> set fs"
  obtain purged ok db1 r1 where r1: "r1 = (if ok then forget_files (gone_files r fs) r else r)"
    and quiet: "changed_files (sc_now e) r fs = [] \<Longrightarrow> r' = r1"
    and busy: "changed_files (sc_now e) r fs \<noteq> [] \<Longrightarrow>
       scan_compile xxh e (changed_files (sc_now e) r fs) r1 ((blank_snapshot (sc_now e))\<lparr>ss_purged := purged\<rparr>) db1
         = (r', db', snap, notified)"
    using scan_walked [OF assms(1,2)] by metis
  let ?cs = "changed_files (sc_now e) r fs"
  have r': "r' = note_files ?cs r1"
  proof (cases "?cs = []")
    case True
    then show ?thesis using quiet by (simp add: note_files_def)
  next
    case False
    from scan_compile_result [OF busy [OF this]] assms(3) show ?thesis by auto
  qed
  have kept: "map_of (rl_mod_times r1) p = map_of (rl_mod_times r) p"
    using gone_not_seen [of p r fs l "Some m"] p by (auto simp: r1 map_of_forget)
  have ripe: "rl_settle r \<le> sc_now e - m" using assms(5) p by (auto simp: settled_def)
  show "\<exists>t. map_of (rl_mod_times r') p = Some t \<and> m \<le> t"
  proof (cases "map_of (rev ?cs) p")
    case None
    then have "(p, m) \<notin> set ?cs" by (force simp: map_of_eq_None_iff)
    then obtain t where "map_of (rl_mod_times r) p = Some t" "m \<le> t"
      using p ripe by (auto simp: changed_files_iff not_less)
    then show ?thesis using None kept by (simp add: r' map_of_notes)
  next
    case (Some m')
    then have "(p, m') \<in> set ?cs" by (auto dest: map_of_SomeD)
    then obtain l' where "(p, l', Some m') \<in> set fs" by (auto simp: changed_files_iff)
    with p assms(4) have "m' = m"
      using inj_onD [of fst "set fs" "(p, l, Some m)" "(p, l', Some m')"] by (simp add: distinct_map)
    then show ?thesis using Some by (simp add: r' map_of_notes)
  qed
qed

text \<open>A turn on a tree that the loop tracks changes neither its bookkeeping nor the store.\<close>

lemma reload_frame_rescan [frame_simps]:
  "rl_dir (snd (reload_rescan xxh decode f r)) = rl_dir r"
  "rl_ignore (snd (reload_rescan xxh decode f r)) = rl_ignore r"
  "rl_mod_times (snd (reload_rescan xxh decode f r)) = rl_mod_times r"
  by (auto simp: reload_rescan_def Let_def split: file_read.splits sum.splits)

lemma forget_nothing [simp]: "forget_files [] r = r"
  by (simp add: forget_files_def)

lemma scan_files_cong:
  assumes "os_tree s (rl_dir r) = os_tree s' (rl_dir r)" "rl_dir r' = rl_dir r" "rl_ignore r' = rl_ignore r"
  shows "scan_files s' r' = scan_files s r"
  unfolding scan_files_def assms ..

lemma tracks_cong: "rl_mod_times r' = rl_mod_times r \<Longrightarrow> tracks r' fs = tracks r fs"
  by (simp only: tracks_def gone_files_def)

lemma scan_tracked:
  assumes "scan_files (sc_os e) r = Inr fs" "tracks r fs"
  shows "scan xxh e r db = (r, db, blank_snapshot (sc_now e), False)"
  using assms(2) by (simp add: scan_def Let_def assms(1) tracks_quiet) (simp add: tracks_def blank_snapshot_def)

lemma turn_tracked:
  assumes "scan_files (sc_os e) r = Inr fs" "tracks r fs" "rescan_turn xxh decode e (r, db, st) = (r', db', st')"
  shows "db' = db \<and> rl_dir r' = rl_dir r \<and> rl_ignore r' = rl_ignore r \<and> rl_mod_times r' = rl_mod_times r
    \<and> (st' = st \<or> st_last st' = blank_snapshot (sc_now e))"
proof -
  let ?r = "snd (reload_rescan xxh decode (sc_config e) r)"
  have "scan_files (sc_os e) ?r = Inr fs" "tracks ?r fs"
    using assms(1,2) scan_files_cong [of "sc_os e" r "sc_os e" ?r] tracks_cong [of ?r r] by (simp_all add: frame_simps)
  from scan_tracked [OF this] assms(3) show ?thesis
    by (auto simp: rescan_turn_def Let_def frame_simps split: if_splits)
qed

lemma run_tracked:
  assumes "\<And>e. e \<in> set es \<Longrightarrow> scan_files (sc_os e) r = Inr fs" "tracks r fs"
  shows "fst (snd (rescan_run xxh decode es (r, db, st))) = db
    \<and> rl_mod_times (fst (rescan_run xxh decode es (r, db, st))) = rl_mod_times r"
  using assms
proof (induction es arbitrary: r st)
  case (Cons e es)
  obtain r1 db1 st1 where t: "rescan_turn xxh decode e (r, db, st) = (r1, db1, st1)" by (metis surj_pair)
  from turn_tracked [OF Cons.prems(1) Cons.prems(2) t]
  have same: "db1 = db" "rl_dir r1 = rl_dir r" "rl_ignore r1 = rl_ignore r" "rl_mod_times r1 = rl_mod_times r" by simp_all
  have "scan_files (sc_os e') r1 = Inr fs" if "e' \<in> set es" for e'
    using Cons.prems(1) [of e'] that scan_files_cong [of "sc_os e'" r "sc_os e'" r1] same by simp
  moreover have "tracks r1 fs" using Cons.prems(2) tracks_cong [of r1 r] same by simp
  ultimately show ?case using Cons.IH [of r1 st1] by (simp add: rescan_run_def t same)
qed (simp add: rescan_run_def)

text \<open>C31::
  The rescan loop settles. Once a scan over a tree whose files have all settled ends without an error and
  no file it knew is missing, every file is known at its modification time or a later one, and however many
  turns follow while the tree stays as it is, whatever the clock, the configuration file and the driver do
  meanwhile, none of them compiles, purges or writes anything.
\<close>

theorem rescan_settles:
  assumes "scan_files (sc_os e) r = Inr fs" "distinct (map fst fs)" "settled (sc_now e) (rl_settle r) fs"
    and "scan xxh e r db = (r', db', snap, notified)" "ss_error snap = None" "gone_files r' fs = []"
    and "list_all (\<lambda>e'. os_tree (sc_os e') (rl_dir r) = os_tree (sc_os e) (rl_dir r)) es"
  shows "tracks r' fs \<and> fst (snd (rescan_run xxh decode es (r', db', st))) = db'
    \<and> rl_mod_times (fst (rescan_run xxh decode es (r', db', st))) = rl_mod_times r'"
proof -
  have t: "tracks r' fs" by (rule scan_tracks [OF assms(1,4,5,2,3,6)])
  have "scan_files (sc_os e') r' = Inr fs" if "e' \<in> set es" for e'
    using assms(1,7) that scan_frame [OF assms(4)] scan_files_cong [of "sc_os e" r "sc_os e'" r']
    by (simp add: list_all_iff)
  from run_tracked [OF this t] t show ?thesis by simp
qed


definition sample_scan :: scan_env where
  "sample_scan = \<lparr>sc_os = sample_os, sc_now = 1000000000, sc_config = Absent, sc_fault = (\<lambda>_. None),
     sc_awake = (\<lambda>_. True), sc_compile = sample_env\<rparr>"

definition sample_loop :: scan_loop where
  "sample_loop = \<lparr>rl_dir = ''/m'', rl_bootstrap = 1, rl_interval = 1, rl_settle = default_settle, rl_enabled = True,
     rl_hash = [], rl_mod_times = [], rl_ignore = None, rl_pinned = None,
     rl_compile = \<lparr>cc_max_file_size = None, cc_max_parallelism = None, cc_timeout = None\<rparr>\<rparr>"

lemma sample_scan_files: "scan_files (sc_os sample_scan) sample_loop = Inr [(''/m/a.md'', False, Some 1), (''/m/l.md'', True, None)]"
  by code_simp

lemma sample_first_scan:
  "\<exists>r' db' snap n. scan (\<lambda>_. 0) sample_scan sample_loop empty_db = (r', db', snap, n) \<and> ss_error snap = None
     \<and> rl_mod_times r' = [(''/m/a.md'', 1)]"
proof -
  have ch: "changed_files (sc_now sample_scan) sample_loop [(''/m/a.md'', False, Some 1), (''/m/l.md'', True, None)]
      = [(''/m/a.md'', 1)]" "gone_files sample_loop [(''/m/a.md'', False, Some 1), (''/m/l.md'', True, None)] = []"
    by (simp_all add: changed_files_def gone_files_def sample_scan_def sample_loop_def default_settle_def)
  obtain r db' where "compile (\<lambda>_. 0) (sc_compile sample_scan) (rescan_compile_options sample_loop [''/m/a.md'']) empty_db = (Inr r, db')"
    using sample_compile_runs [of "rescan_compile_options sample_loop [''/m/a.md'']" "''/m/a.md''"]
    by (auto simp: rescan_compile_options_def sample_loop_def resolve_pins_def sample_scan_def)
  then show ?thesis
    by (simp add: scan_def sample_scan_files ch scan_compile_def note_files_def blank_snapshot_def)
      (simp add: sample_loop_def ex_bool_eq)
qed

theorem rescan_settles_witness:
  "\<exists>r' db' snap n. scan (\<lambda>_. 0) sample_scan sample_loop empty_db = (r', db', snap, n) \<and> rl_mod_times r' = [(''/m/a.md'', 1)]
     \<and> (\<forall>decode st. fst (snd (rescan_run (\<lambda>_. 0) decode [sample_scan, sample_scan\<lparr>sc_now := 2000000000\<rparr>] (r', db', st))) = db')"
proof -
  let ?fs = "[(''/m/a.md'', False, Some 1), (''/m/l.md'', True, None)] :: leaf list"
  obtain r' db' snap n where s: "scan (\<lambda>_. 0) sample_scan sample_loop empty_db = (r', db', snap, n)"
    "ss_error snap = None" "rl_mod_times r' = [(''/m/a.md'', 1)]"
    using sample_first_scan by blast
  have "distinct (map fst ?fs)" "settled (sc_now sample_scan) (rl_settle sample_loop) ?fs" "gone_files r' ?fs = []"
    by (simp_all add: settled_def sample_scan_def sample_loop_def default_settle_def gone_files_def s(3))
  from rescan_settles [OF sample_scan_files this(1,2) s(1,2) this(3),
      of "[sample_scan, sample_scan\<lparr>sc_now := 2000000000\<rparr>]"] s
  show ?thesis by simp
qed

end
