(* ===== verification/Server_Feeds.thy ===== *)
theory Server_Feeds
  imports Go_Strings Workspace_Config "HOL-Library.AList"
begin

text \<open>
  What the server shows of itself while it runs: the ring buffer of log records (\<open>pkg/logbuf\<close>) and the
  publisher of resource updates (\<open>pkg/mcp/notify\<close>). The mutexes make every operation atomic; timers
  are the instants at which they are to fire.
\<close>

subsection \<open>The log buffer\<close>

record 'v log_record =
  lr_time :: int
  lr_level :: bytes
  lr_msg :: bytes
  lr_attrs :: "(bytes \<times> 'v) list"

record 'r log_buffer =
  lb_records :: "'r list"
  lb_size :: nat
  lb_next :: nat
  lb_count :: nat
  lb_dropped :: nat

text \<open>The slots start out with the zero value of a record.\<close>

definition new_buffer :: "'r \<Rightarrow> nat \<Rightarrow> 'r log_buffer" where
  "new_buffer zero n =
     \<lparr>lb_records = replicate n zero, lb_size = n, lb_next = 0, lb_count = 0, lb_dropped = 0\<rparr>"

definition append_record :: "'r \<Rightarrow> 'r log_buffer \<Rightarrow> 'r log_buffer" where
  "append_record r b =
     b\<lparr>lb_dropped := (if lb_count b = lb_size b then lb_dropped b + 1 else lb_dropped b),
       lb_records := (lb_records b)[lb_next b := r], lb_next := (lb_next b + 1) mod lb_size b,
       lb_count := (if lb_count b < lb_size b then lb_count b + 1 else lb_count b)\<rparr>"

definition buffered :: "'r log_buffer \<Rightarrow> 'r list" where
  "buffered b =
     (if lb_count b < lb_size b then take (lb_count b) (lb_records b)
      else drop (lb_next b) (lb_records b) @ take (lb_next b) (lb_records b))"

text \<open>The handler: a group prefixes the attributes that follow, the record's own win over the handler's.\<close>

record 'v log_handler =
  lh_prefix :: bytes
  lh_attrs :: "(bytes \<times> 'v) list"

definition put_attrs :: "bytes \<Rightarrow> (bytes \<times> 'v) list \<Rightarrow> (bytes \<times> 'v) list \<Rightarrow> (bytes \<times> 'v) list" where
  "put_attrs pre new old = fold (\<lambda>(k, v). AList.update (pre @ k) v) new old"

definition handle_record :: "'v log_handler \<Rightarrow> int \<Rightarrow> bytes \<Rightarrow> bytes \<Rightarrow> (bytes \<times> 'v) list
    \<Rightarrow> 'v log_record log_buffer \<Rightarrow> 'v log_record log_buffer" where
  "handle_record h time level msg new b =
     append_record \<lparr>lr_time = time, lr_level = level, lr_msg = msg,
       lr_attrs = put_attrs (lh_prefix h) new (lh_attrs h)\<rparr> b"

definition handler_with_attrs :: "(bytes \<times> 'v) list \<Rightarrow> 'v log_handler \<Rightarrow> 'v log_handler" where
  "handler_with_attrs new h = h\<lparr>lh_attrs := put_attrs (lh_prefix h) new (lh_attrs h)\<rparr>"

definition handler_with_group :: "bytes \<Rightarrow> 'v log_handler \<Rightarrow> 'v log_handler" where
  "handler_with_group name h = (if name = [] then h else h\<lparr>lh_prefix := lh_prefix h @ name @ ''.''\<rparr>)"

text \<open>
  The abstract buffer is the list of the records ever appended; the ring holds as many of the last ones as fit. The
  relation says which slot holds which.
\<close>

definition holds :: "nat \<Rightarrow> 'r list \<Rightarrow> 'r log_buffer \<Rightarrow> bool" where
  "holds n rs b \<longleftrightarrow> lb_size b = n \<and> length (lb_records b) = n \<and> lb_count b = min n (length rs)
     \<and> lb_dropped b = length rs - n \<and> lb_next b = length rs mod n
     \<and> buffered b = drop (length rs - n) rs"

lemma new_buffer_holds: "0 < n \<Longrightarrow> holds n [] (new_buffer zero n)"
  by (simp add: holds_def new_buffer_def buffered_def)

lemma append_fill:
  assumes "holds n rs b" "length rs < n"
  shows "holds n (rs @ [r]) (append_record r b)"
proof -
  have b: "lb_size b = n" "length (lb_records b) = n" "lb_count b = length rs" "lb_next b = length rs"
    "lb_dropped b = 0" "take (length rs) (lb_records b) = rs"
    using assms by (auto simp: holds_def buffered_def)
  have t: "take (Suc (length rs)) ((lb_records b)[length rs := r]) = rs @ [r]"
    using assms(2) b(2,6) by (simp add: take_Suc_conv_app_nth)
  show ?thesis
  proof (cases "Suc (length rs) < n")
    case True
    then show ?thesis using b t assms(2) by (simp add: holds_def append_record_def buffered_def)
  next
    case False
    then have n: "n = Suc (length rs)" using assms(2) by simp
    then show ?thesis using b t by (simp add: holds_def append_record_def buffered_def)
  qed
qed

lemma append_full:
  assumes "holds n rs b" "n \<le> length rs" "0 < n"
  shows "holds n (rs @ [r]) (append_record r b)"
proof -
  let ?k = "length rs mod n" and ?xs = "lb_records b"
  have b: "lb_size b = n" "length ?xs = n" "lb_count b = n" "lb_next b = ?k" "lb_dropped b = length rs - n"
    "drop ?k ?xs @ take ?k ?xs = drop (length rs - n) rs"
    using assms by (auto simp: holds_def buffered_def)
  have k: "?k < n" using assms(3) by simp
  have d: "drop ?k ?xs = ?xs ! ?k # drop (Suc ?k) ?xs" using k b(2) by (simp add: Cons_nth_drop_Suc)
  have rest: "drop (Suc ?k) ?xs @ take ?k ?xs = drop (Suc (length rs - n)) rs"
    using arg_cong [OF b(6), of tl] d by (simp add: drop_Suc tl_drop)
  have u: "take ?k (?xs[?k := r]) = take ?k ?xs" "drop (Suc ?k) (?xs[?k := r]) = drop (Suc ?k) ?xs"
    "take (Suc ?k) (?xs[?k := r]) = take ?k ?xs @ [r]"
    using k b(2) by (simp_all add: take_Suc_conv_app_nth)
  have new: "drop (Suc ?k mod n) (?xs[?k := r]) @ take (Suc ?k mod n) (?xs[?k := r]) = drop (Suc (length rs - n)) rs @ [r]"
  proof (cases "Suc ?k = n")
    case True
    then have "drop (Suc ?k) ?xs = []" using b(2) by simp
    then have "drop (Suc (length rs - n)) rs = take ?k ?xs" using rest by simp
    moreover have "?xs[?k := r] = take ?k ?xs @ [r]" using u(3) True b(2) by simp
    ultimately show ?thesis using True by simp
  next
    case False
    then have "Suc ?k < n" using k by simp
    then show ?thesis using rest u by (simp flip: append_assoc)
  qed
  let ?b = "append_record r b"
  have b': "lb_size ?b = n" "lb_records ?b = ?xs[?k := r]" "lb_count ?b = n" "lb_next ?b = Suc ?k mod n"
    "lb_dropped ?b = Suc (length rs - n)"
    using b(1,3,4,5) by (simp_all add: append_record_def)
  then have "buffered ?b = drop (Suc (length rs - n)) rs @ [r]" using new by (simp add: buffered_def)
  moreover have "Suc ?k mod n = Suc (length rs) mod n" by (rule mod_Suc_eq)
  moreover have "Suc (length rs - n) = Suc (length rs) - n" using assms(2) by simp
  moreover have "Suc 0 - n = 0" using assms(3) by simp
  ultimately show ?thesis using b' b(2) assms(2) by (simp add: holds_def)
qed

lemma append_holds: "holds n rs b \<Longrightarrow> 0 < n \<Longrightarrow> holds n (rs @ [r]) (append_record r b)"
  by (cases "length rs < n") (auto intro: append_fill append_full)

lemma appends_hold: "holds n rs b \<Longrightarrow> 0 < n \<Longrightarrow> holds n (rs @ news) (fold append_record news b)"
proof (induction news arbitrary: rs b)
  case (Cons r news)
  from Cons.IH [OF append_holds [OF Cons.prems, of r] Cons.prems(2)] show ?case by simp
qed simp

text \<open>C32::
  The log buffer refines the list of all records ever logged: after any sequence of records it shows the
  last ones, as many as its capacity, oldest first, and counts exactly those that it no longer shows.
\<close>

theorem log_buffer_keeps_last:
  assumes "0 < n"
  shows "let b = fold append_record rs (new_buffer zero n)
    in buffered b = drop (length rs - n) rs \<and> lb_dropped b + length (buffered b) = length rs"
  using appends_hold [OF new_buffer_holds [OF assms, of zero] assms, of rs] by (simp add: holds_def Let_def)

theorem log_buffer_keeps_last_witness:
  "buffered (fold append_record ''abcde'' (new_buffer CHR 0x00 3)) = ''cde''"
  using log_buffer_keeps_last [of 3 "''abcde''" "CHR 0x00"] by (simp add: Let_def)

subsection \<open>Resource updates\<close>

definition subscribable :: "(bytes \<times> bytes) list" where
  "subscribable = map (\<lambda>name. (name, ''remindb://'' @ name))
     [''graph'', ''snapshots'', ''temperature'', ''tree'', ''files'', ''logs'', ''rescan'']"

definition default_debounce :: int where "default_debounce = 500 * 1000000"

definition builtin_overrides :: "(bytes \<times> int) list" where
  "builtin_overrides = [(''logs'', 1000000000), (''temperature'', 2000000000)]"

record publisher =
  pb_per_uri :: "(bytes \<times> int) list"
  pb_timers :: "(bytes \<times> int) list"

fun apply_overrides :: "(bytes \<times> int option) list \<Rightarrow> (bytes \<times> int) list \<Rightarrow> (bytes \<times> int) list result" where
  "apply_overrides [] per = Inr per"
| "apply_overrides ((name, d) # os) per =
     (case map_of subscribable name of
        None \<Rightarrow> Inl (Failure (''server.resources.overrides: unknown resource '' @ name))
      | Some uri \<Rightarrow> (case d of
            None \<Rightarrow> Inl (Failure ''nil pointer dereference'')
          | Some x \<Rightarrow> apply_overrides os (AList.update uri x per)))"

definition new_publisher :: "server_config \<Rightarrow> publisher result" where
  "new_publisher c =
     (let def = (case sv_debounce c of None \<Rightarrow> default_debounce | Some d \<Rightarrow> d);
          per = map (\<lambda>(name, uri). (uri, case map_of builtin_overrides name of None \<Rightarrow> def | Some b \<Rightarrow> b)) subscribable
      in bind_result (apply_overrides (sv_overrides c) per) (\<lambda>per'. Inr \<lparr>pb_per_uri = per', pb_timers = []\<rparr>))"

text \<open>A touch starts the timer of the resource, or puts a running one off.\<close>

definition touch :: "int \<Rightarrow> bytes \<Rightarrow> publisher \<Rightarrow> publisher" where
  "touch now uri p =
     (case map_of (pb_per_uri p) uri of
        None \<Rightarrow> p
      | Some d \<Rightarrow> p\<lparr>pb_timers := AList.update uri (now + d) (pb_timers p)\<rparr>)"

text \<open>The timers that are due at an instant fire in the order of their deadlines.\<close>

definition fire_due :: "int \<Rightarrow> publisher \<Rightarrow> (int \<times> bytes) list \<times> publisher" where
  "fire_due now p =
     (sort_key fst (map prod.swap (filter (\<lambda>(uri, t). t \<le> now) (pb_timers p))),
      p\<lparr>pb_timers := filter (\<lambda>(uri, t). now < t) (pb_timers p)\<rparr>)"

definition fire_all :: "publisher \<Rightarrow> (int \<times> bytes) list" where
  "fire_all p = sort_key fst (map prod.swap (pb_timers p))"

definition handle_subscribe :: "bytes \<Rightarrow> publisher \<Rightarrow> unit result" where
  "handle_subscribe uri p =
     (if map_of (pb_per_uri p) uri = None then Inl (Failure (''resource is not subscribable: '' @ uri)) else Inr ())"

definition close_publisher :: "publisher \<Rightarrow> publisher" where
  "close_publisher p = p\<lparr>pb_timers := []\<rparr>"

text \<open>The notifications sent while the resources are touched at the given instants, and afterwards.\<close>

fun notifications :: "publisher \<Rightarrow> (int \<times> bytes) list \<Rightarrow> (int \<times> bytes) list" where
  "notifications p [] = fire_all p"
| "notifications p ((now, uri) # ts) =
     (case fire_due now p of (sent, p') \<Rightarrow> sent @ notifications (touch now uri p') ts)"

text \<open>The reference: a notification follows exactly those touches that no other one follows soon enough.\<close>

fun burst_ends :: "int \<Rightarrow> int list \<Rightarrow> int list" where
  "burst_ends d [] = []"
| "burst_ends d [t] = [t + d]"
| "burst_ends d (t # u # ts) = (if t + d \<le> u then [t + d] else []) @ burst_ends d (u # ts)"

definition sent_for :: "bytes \<Rightarrow> (int \<times> bytes) list \<Rightarrow> int list" where
  "sent_for uri es = map fst (filter (\<lambda>(_, u). u = uri) es)"

lemma sent_for_append: "sent_for uri (a @ b) = sent_for uri a @ sent_for uri b"
  by (simp add: sent_for_def)

lemma filter_key_timers:
  assumes "distinct (map fst ts)"
  shows "filter (\<lambda>(u, t). u = uri \<and> P t) ts = (case map_of ts uri of None \<Rightarrow> [] | Some t \<Rightarrow> if P t then [(uri, t)] else [])"
  using assms
proof (induction ts)
  case (Cons a ts)
  obtain u t where a: "a = (u, t)" by fastforce
  show ?case
  proof (cases "u = uri")
    case True
    then have "map_of ts uri = None" using Cons.prems by (simp add: a map_of_eq_None_iff)
    then show ?thesis using Cons True by (auto simp: a)
  next
    case False
    then show ?thesis using Cons by (simp add: a)
  qed
qed simp

lemma sent_for_sorted:
  assumes "distinct (map fst ts)"
  shows "sent_for uri (sort_key fst (map prod.swap (filter (\<lambda>(u, t). P t) ts)))
    = (case map_of ts uri of None \<Rightarrow> [] | Some t \<Rightarrow> if P t then [t] else [])"
proof -
  have "filter (\<lambda>(_, u). u = uri) (sort_key fst (map prod.swap (filter (\<lambda>(u, t). P t) ts)))
    = sort_key fst (map prod.swap (filter (\<lambda>(u, t). u = uri \<and> P t) ts))"
    by (simp add: filter_sort filter_map comp_def case_prod_unfold conj_commute)
  then show ?thesis
    by (simp add: sent_for_def filter_key_timers [OF assms] split: option.splits)
qed

text \<open>What is still due for a resource whose timer runs.\<close>

definition due_after :: "int option \<Rightarrow> int \<Rightarrow> int list \<Rightarrow> int list" where
  "due_after t d us = (case t of None \<Rightarrow> [] | Some t \<Rightarrow> (case us of [] \<Rightarrow> [t] | u # _ \<Rightarrow> if t \<le> u then [t] else []))
     @ burst_ends d us"

lemma map_of_filter_timers:
  assumes "distinct (map fst ts)"
  shows "map_of (filter (\<lambda>(u, t). P t) ts) uri = (case map_of ts uri of None \<Rightarrow> None | Some t \<Rightarrow> if P t then Some t else None)"
  using assms by (induction ts) (auto simp: map_of_eq_None_iff dest: map_of_SomeD split: option.splits)

lemma distinct_filter_keys: "distinct (map fst ts) \<Longrightarrow> distinct (map fst (filter P ts))"
  by (simp add: distinct_map_filter)

lemma burst_ends_Cons: "burst_ends d (t # us) = due_after (Some (t + d)) d us"
  by (cases us) (simp_all add: due_after_def)

lemma touch_timer:
  "map_of (pb_per_uri p) uri = Some d \<Longrightarrow> map_of (pb_timers (touch now u p)) uri =
     (if u = uri then Some (now + d) else map_of (pb_timers p) uri)"
  by (auto simp: touch_def update_conv split: option.splits)

lemma touch_frame [frame_simps]:
  "pb_per_uri (touch now u p) = pb_per_uri p"
  "distinct (map fst (pb_timers p)) \<Longrightarrow> distinct (map fst (pb_timers (touch now u p)))"
  by (auto simp: touch_def distinct_update split: option.splits)

lemma notifications_burst_ends:
  assumes "distinct (map fst (pb_timers p))" "map_of (pb_per_uri p) uri = Some d" "sorted (map fst ts)"
  shows "sent_for uri (notifications p ts) = due_after (map_of (pb_timers p) uri) d (sent_for uri ts)"
  using assms
proof (induction p ts rule: notifications.induct)
  case (1 p)
  have "sent_for uri (fire_all p) = (case map_of (pb_timers p) uri of None \<Rightarrow> [] | Some t \<Rightarrow> [t])"
    using sent_for_sorted [OF 1(1), of uri "\<lambda>_. True"] by (simp add: fire_all_def cong: option.case_cong)
  then show ?case by (simp add: due_after_def sent_for_def split: option.split)
next
  case (2 p now u ts)
  let ?p = "p\<lparr>pb_timers := filter (\<lambda>(u, t). now < t) (pb_timers p)\<rparr>"
  have fire: "fire_due now p = (fst (fire_due now p), ?p)" by (simp add: fire_due_def)
  have sent: "sent_for uri (fst (fire_due now p))
      = (case map_of (pb_timers p) uri of None \<Rightarrow> [] | Some t \<Rightarrow> if t \<le> now then [t] else [])"
    using sent_for_sorted [OF 2(2), of uri "\<lambda>t. t \<le> now"] by (simp add: fire_due_def)
  have kept: "map_of (pb_timers ?p) uri = (case map_of (pb_timers p) uri of None \<Rightarrow> None | Some t \<Rightarrow> if now < t then Some t else None)"
    using map_of_filter_timers [OF 2(2), of "\<lambda>t. now < t"] by simp
  have "distinct (map fst (pb_timers (touch now u ?p)))"
    using distinct_filter_keys [OF 2(2)] by (intro touch_frame) simp
  from 2(1) [OF fire [symmetric] this] 2(3,4)
  have IH: "sent_for uri (notifications (touch now u ?p) ts)
      = due_after (map_of (pb_timers (touch now u ?p)) uri) d (sent_for uri ts)"
    by (simp add: frame_simps)
  have later: "\<forall>t\<in>set (sent_for uri ts). now \<le> t" using 2(4) by (auto simp: sent_for_def)
  have split: "sent_for uri (notifications p ((now, u) # ts))
      = (case map_of (pb_timers p) uri of None \<Rightarrow> [] | Some t \<Rightarrow> if t \<le> now then [t] else [])
        @ due_after (if u = uri then Some (now + d) else map_of (pb_timers ?p) uri) d (sent_for uri ts)"
  proof -
    have "notifications p ((now, u) # ts) = fst (fire_due now p) @ notifications (touch now u ?p) ts"
      by (simp add: fire_due_def)
    moreover have "map_of (pb_timers (touch now u ?p)) uri = (if u = uri then Some (now + d) else map_of (pb_timers ?p) uri)"
      by (rule touch_timer) (simp add: 2(3))
    ultimately show ?thesis by (simp only: sent_for_append sent IH)
  qed
  show ?case
  proof (cases "u = uri")
    case True
    then have same: "sent_for uri ((now, u) # ts) = now # sent_for uri ts" by (simp add: sent_for_def)
    show ?thesis
      unfolding split same using True by (simp add: burst_ends_Cons [symmetric]) (simp add: due_after_def split: option.split)
  next
    case False
    then have same: "sent_for uri ((now, u) # ts) = sent_for uri ts" by (simp add: sent_for_def)
    show ?thesis
      unfolding split same using False kept later
      by (cases "sent_for uri ts") (auto simp: due_after_def split: option.splits)
  qed
qed

lemma apply_overrides_keys:
  "apply_overrides os per = Inr per' \<Longrightarrow> map_of per uri \<noteq> None \<Longrightarrow> map_of per' uri \<noteq> None"
  by (induction os per rule: apply_overrides.induct) (auto simp: update_conv split: option.splits if_splits)

text \<open>C33::
  The publisher coalesces without losing a change. Whatever resources are touched at whatever instants, the
  updates sent for a resource are exactly one after each touch that no other touch of it follows within its
  debounce time, sent that time after it. So the last change is always announced, and a resource that keeps
  changing faster than its debounce time is not announced before it pauses.
\<close>

theorem updates_follow_bursts:
  assumes "new_publisher c = Inr p" "map_of (pb_per_uri p) uri = Some d" "sorted (map fst ts)"
  shows "sent_for uri (notifications p ts) = burst_ends d (sent_for uri ts)"
proof -
  have "pb_timers p = []" using assms(1) by (auto simp: new_publisher_def Let_def elim!: bind_result_InrE)
  then show ?thesis using notifications_burst_ends [OF _ assms(2,3)] by (simp add: due_after_def)
qed

definition sample_publisher :: publisher where
  "sample_publisher = \<lparr>pb_per_uri = map (\<lambda>(name, uri). (uri, case map_of builtin_overrides name of
     None \<Rightarrow> default_debounce | Some b \<Rightarrow> b)) subscribable, pb_timers = []\<rparr>"

theorem updates_follow_bursts_witness:
  "sent_for ''remindb://logs'' (notifications sample_publisher
     [(0, ''remindb://logs''), (600000000, ''remindb://logs''), (700000000, ''remindb://tree''), (5000000000, ''remindb://logs'')])
   = [1600000000, 6000000000]"
proof -
  have p: "new_publisher (cf_server zero_config) = Inr sample_publisher"
    by (simp add: new_publisher_def zero_config_def sample_publisher_def)
  have "map_of (pb_per_uri sample_publisher) ''remindb://logs'' = Some 1000000000"
    by code_simp
  from updates_follow_bursts [OF p this, of "[(0, ''remindb://logs''), (600000000, ''remindb://logs''),
      (700000000, ''remindb://tree''), (5000000000, ''remindb://logs'')]"]
  show ?thesis by (simp add: sent_for_def)
qed

end
