(* ===== verification/Sessions.thy ===== *)
theory Sessions
  imports Content_Id Path_Match "HOL-Library.AList"
begin

text \<open>
  Sessions of clients: the registry (\<open>pkg/mcp/session\<close>), the ledger with its files of checkpoints
  (\<open>pkg/mcp/ledger\<close>) and the capped files of records (\<open>pkg/mcp/jsonlsink\<close>, \<open>pkg/mcp/sessionlog\<close>).
  The JSON codec of a record is a parameter, a directory is the list of its files with their contents. What
  the SDK knows of a session when a request arrives (its raw identifier and what its client has told) is an
  argument of the operations; a session is a handle. Instants are integers of seconds.
\<close>

subsection \<open>Capped files\<close>

type_synonym directory = "(bytes \<times> bytes) list"

definition contents :: "directory \<Rightarrow> bytes \<Rightarrow> bytes" where
  "contents d name = (case map_of d name of None \<Rightarrow> [] | Some s \<Rightarrow> s)"

definition rotate_if_over_cap :: "int \<Rightarrow> error option \<Rightarrow> bytes \<Rightarrow> int \<Rightarrow> directory \<Rightarrow> directory result" where
  "rotate_if_over_cap cap rename_fault name len d =
     (let old = contents d name
      in if cap \<le> 0 \<or> old = [] \<or> int (length old) + len \<le> cap then Inr d
         else case rename_fault of
             Some e \<Rightarrow> Inl e
           | None \<Rightarrow> Inr (AList.update (name @ ''.1'') old (AList.delete name d)))"

definition append_line :: "int \<Rightarrow> error option \<Rightarrow> error option \<Rightarrow> bytes \<Rightarrow> bytes \<Rightarrow> directory
    \<Rightarrow> unit result \<times> directory" where
  "append_line cap rename_fault write_fault name line d =
     (case rotate_if_over_cap cap rename_fault name (int (length line)) d of
        Inl e \<Rightarrow> (Inl e, d)
      | Inr d' \<Rightarrow> (case write_fault of
            Some e \<Rightarrow> (Inl e, d')
          | None \<Rightarrow> (Inr (), AList.update name (contents d' name @ line) d')))"

text \<open>A live file never outgrows the cap by more than one line that is longer than the cap itself.\<close>

lemma contents_update [simp]: "contents (AList.update k v d) name = (if name = k then v else contents d name)"
  by (simp add: contents_def update_conv)

lemma append_line_bounded:
  assumes "0 < cap" "append_line cap rf fw name line d = (Inr (), d')"
    and "int (length (contents d name)) \<le> max cap k" "int (length line) \<le> k"
  shows "int (length (contents d' name)) \<le> max cap k"
proof -
  have gone: "contents (AList.update (name @ ''.1'') old (AList.delete name d)) name = []" for old
    by (simp add: contents_def update_conv delete_conv)
  show ?thesis
    using assms gone
    by (auto simp: append_line_def rotate_if_over_cap_def Let_def split: if_splits option.splits)
qed

subsection \<open>Checkpoints\<close>

record client_meta =
  cm_name :: bytes
  cm_title :: bytes
  cm_version :: bytes
  cm_protocol :: bytes

record session_record =
  sr_id :: bytes
  sr_client :: client_meta
  sr_transport :: bytes
  sr_connected :: int
  sr_last_seen :: int
  sr_disconnected :: int
  sr_calls :: int

record client_ledger =
  cl_hash :: bytes
  cl_client :: client_meta
  cl_transport :: bytes
  cl_sessions :: int
  cl_lifetime :: int
  cl_last_disconnect :: int
  cl_calls :: int

definition no_client :: client_meta where
  "no_client = \<lparr>cm_name = [], cm_title = [], cm_version = [], cm_protocol = []\<rparr>"

definition client_hash :: "hash64 \<Rightarrow> client_meta \<Rightarrow> bytes \<Rightarrow> bytes" where
  "client_hash xxh c transport =
     identify_payload xxh ''client'' (join_with [byte 0] [cm_name c, cm_title c, cm_version c, cm_protocol c, transport])"

definition slug_max :: nat where "slug_max = 40"

text \<open>The bytes of a rune beyond ASCII count like one rune that is no letter: dashes collapse.\<close>

fun slug_loop :: "bytes \<Rightarrow> bool \<Rightarrow> bytes \<Rightarrow> bytes" where
  "slug_loop out dash [] = out"
| "slug_loop out dash (c # cs) =
     (if is_lower c \<or> is_digit c then slug_loop (out @ [c]) False cs
      else if \<not> dash \<and> out \<noteq> [] then slug_loop (out @ ''-'') True cs
      else slug_loop out dash cs)"

definition slug :: "bytes \<Rightarrow> bytes" where
  "slug name =
     (let s = trim_set (set ''-'') (slug_loop [] False (to_lower name));
          s' = (if slug_max < length s then trim_set (set ''-'') (take slug_max s) else s)
      in if s' = [] then ''client'' else s')"

definition file_name :: "hash64 \<Rightarrow> client_meta \<Rightarrow> bytes \<Rightarrow> bytes" where
  "file_name xxh c transport = slug (cm_name c) @ ''-'' @ client_hash xxh c transport @ ''.jsonl''"

definition ledger_append :: "hash64 \<Rightarrow> (session_record \<Rightarrow> bytes result) \<Rightarrow> error option \<Rightarrow> session_record \<Rightarrow> directory
    \<Rightarrow> unit result \<times> directory" where
  "ledger_append xxh enc write_fault r d =
     (case enc r of
        Inl e \<Rightarrow> (Inl e, d)
      | Inr line \<Rightarrow> append_line 0 None write_fault (file_name xxh (sr_client r) (sr_transport r)) (line @ [newline]) d)"

definition scan_max_line :: nat where "scan_max_line = 2 ^ 20"

definition drop_cr :: "bytes \<Rightarrow> bytes" where
  "drop_cr l = (if l \<noteq> [] \<and> last l = byte 13 then butlast l else l)"

text \<open>\<open>bufio.Scanner\<close>: at a line that does not fit the buffer the scan ends, and nobody asks why.\<close>

fun scanned :: "bytes list \<Rightarrow> bytes list" where
  "scanned [] = []"
| "scanned (l # ls) = (if scan_max_line \<le> length l then [] else drop_cr l # scanned ls)"

definition parsed_records :: "(bytes \<Rightarrow> session_record option) \<Rightarrow> bytes \<Rightarrow> session_record list" where
  "parsed_records dec data = List.map_filter dec (filter (\<lambda>l. l \<noteq> []) (scanned (split_on newline data)))"

text \<open>The last checkpoint of each session, in the order in which the sessions first appear.\<close>

definition by_session :: "session_record list \<Rightarrow> (bytes \<times> session_record) list" where
  "by_session rs = fold (\<lambda>r. AList.update (sr_id r) r) rs []"

definition latest_per_session :: "(bytes \<Rightarrow> session_record option) \<Rightarrow> bytes \<Rightarrow> session_record list" where
  "latest_per_session dec data = map snd (by_session (parsed_records dec data))"

definition session_end :: "session_record \<Rightarrow> int" where
  "session_end r = (if sr_disconnected r = 0 then sr_last_seen r else sr_disconnected r)"

definition summarize_step :: "session_record \<Rightarrow> client_ledger \<times> int \<Rightarrow> client_ledger \<times> int" where
  "summarize_step r s =
     (case s of (cl, newest) \<Rightarrow>
        let d = session_end r - sr_connected r;
            cl1 = cl\<lparr>cl_lifetime := cl_lifetime cl + (if 0 < d then d else 0), cl_calls := cl_calls cl + sr_calls r,
              cl_last_disconnect := max (cl_last_disconnect cl) (sr_disconnected r)\<rparr>
        in if newest \<le> sr_last_seen r
           then (cl1\<lparr>cl_client := sr_client r, cl_transport := sr_transport r\<rparr>, sr_last_seen r) else (cl1, newest))"

definition summarize_records :: "hash64 \<Rightarrow> session_record list \<Rightarrow> client_ledger option" where
  "summarize_records xxh rs =
     (if rs = [] then None
      else let cl = fst (fold summarize_step rs
          (\<lparr>cl_hash = [], cl_client = no_client, cl_transport = [], cl_sessions = int (length rs), cl_lifetime = 0,
             cl_last_disconnect = 0, cl_calls = 0\<rparr>, -1))
        in Some (cl\<lparr>cl_hash := client_hash xxh (cl_client cl) (cl_transport cl)\<rparr>))"

definition summarize_client :: "hash64 \<Rightarrow> (bytes \<Rightarrow> session_record option) \<Rightarrow> bytes \<Rightarrow> client_ledger option" where
  "summarize_client xxh dec data = summarize_records xxh (latest_per_session dec data)"

definition ledger_files :: "directory \<Rightarrow> bytes list" where
  "ledger_files d = sort (filter (\<lambda>n. has_suffix n ''.jsonl'') (map fst d))"

definition clients :: "hash64 \<Rightarrow> (bytes \<Rightarrow> session_record option) \<Rightarrow> directory \<Rightarrow> client_ledger list" where
  "clients xxh dec d = List.map_filter (\<lambda>n. summarize_client xxh dec (contents d n)) (ledger_files d)"

text \<open>The pattern is built from the hash as given; a malformed one is the error of \<open>filepath.Glob\<close>.\<close>

definition client :: "hash64 \<Rightarrow> (bytes \<Rightarrow> session_record option) \<Rightarrow> directory \<Rightarrow> bytes \<Rightarrow> client_ledger result" where
  "client xxh dec d hash =
     (let pat = ''*-'' @ hash @ ''.jsonl''; unknown = Inl (Failure (''unknown client '' @ hash))
      in case glob pat [] of
           Inl e \<Rightarrow> Inl e
         | Inr _ \<Rightarrow> (case filter (\<lambda>n. glob pat n = Inr True) (sort (map fst d)) of
               [] \<Rightarrow> unknown
             | n # _ \<Rightarrow> (case summarize_client xxh dec (contents d n) of None \<Rightarrow> unknown | Some cl \<Rightarrow> Inr cl)))"

text \<open>
  Compaction: one line per session, ordered by the start of the session. A failure leaves the file as it is.
\<close>

definition session_order :: "session_record list \<Rightarrow> session_record list" where
  "session_order rs = sort_key sr_connected (sort_key sr_id rs)"

fun encode_lines :: "(session_record \<Rightarrow> bytes result) \<Rightarrow> session_record list \<Rightarrow> bytes result" where
  "encode_lines enc [] = Inr []"
| "encode_lines enc (r # rs) =
     bind_result (enc r) (\<lambda>l. bind_result (encode_lines enc rs) (\<lambda>s. Inr (l @ [newline] @ s)))"

definition compact_file :: "(session_record \<Rightarrow> bytes result) \<Rightarrow> (bytes \<Rightarrow> session_record option) \<Rightarrow> bool \<Rightarrow> bytes
    \<Rightarrow> bytes" where
  "compact_file enc dec write_ok data =
     (let rs = latest_per_session dec data
      in if rs = [] then data
         else case encode_lines enc (session_order rs) of
             Inl _ \<Rightarrow> data
           | Inr s \<Rightarrow> if write_ok then s else data)"

definition compact :: "(session_record \<Rightarrow> bytes result) \<Rightarrow> (bytes \<Rightarrow> session_record option) \<Rightarrow> (bytes \<Rightarrow> bool)
    \<Rightarrow> directory \<Rightarrow> directory" where
  "compact enc dec write_ok d =
     map (\<lambda>(n, s). (n, if has_suffix n ''.jsonl'' then compact_file enc dec (write_ok n) s else s)) d"

subsection \<open>The registry\<close>

record session_meta =
  mt_id :: bytes
  mt_client :: client_meta
  mt_connected :: int
  mt_last :: int
  mt_calls :: int

record session_info =
  si_id :: bytes
  si_client :: client_meta
  si_transport :: bytes
  si_listen :: bytes
  si_connected :: int
  si_last :: int
  si_calls :: int

record registry =
  rg_transport :: bytes
  rg_listen :: bytes
  rg_sessions :: "(nat \<times> session_meta) list"

text \<open>What the SDK shows of a session: its handle, its raw identifier and its client, once initialized.\<close>

type_synonym sdk_session = "nat \<times> bytes \<times> client_meta option"

definition client_meta_of :: "client_meta option \<Rightarrow> client_meta" where
  "client_meta_of ip = (case ip of None \<Rightarrow> no_client | Some c \<Rightarrow> c)"

definition session_id :: "hash64 \<Rightarrow> bytes \<Rightarrow> bytes \<Rightarrow> int \<Rightarrow> bytes" where
  "session_id xxh raw transport since =
     (if raw \<noteq> [] then raw else identify_payload xxh ''session'' (transport @ itoa since))"

definition new_meta :: "int \<Rightarrow> session_meta" where
  "new_meta now = \<lparr>mt_id = [], mt_client = no_client, mt_connected = now, mt_last = now, mt_calls = 0\<rparr>"

definition meta_at :: "int \<Rightarrow> nat \<Rightarrow> registry \<Rightarrow> session_meta" where
  "meta_at now h g = (case map_of (rg_sessions g) h of None \<Rightarrow> new_meta now | Some m \<Rightarrow> m)"

definition observe :: "hash64 \<Rightarrow> int \<Rightarrow> sdk_session \<Rightarrow> bytes \<Rightarrow> registry \<Rightarrow> bytes \<times> registry" where
  "observe xxh now ss meth g =
     (case ss of (h, raw, ip) \<Rightarrow>
        let m = meta_at now h g;
            m1 = m\<lparr>mt_id := session_id xxh raw (rg_transport g) (mt_connected m), mt_client := client_meta_of ip,
              mt_last := (if meth \<noteq> ''ping'' then now else mt_last m),
              mt_calls := (if meth = ''tools/call'' then mt_calls m + 1 else mt_calls m)\<rparr>
        in (mt_id m1, g\<lparr>rg_sessions := AList.update h m1 (rg_sessions g)\<rparr>))"

definition to_info :: "hash64 \<Rightarrow> registry \<Rightarrow> bytes \<Rightarrow> session_meta \<Rightarrow> client_meta \<Rightarrow> session_info" where
  "to_info xxh g raw m c =
     \<lparr>si_id = session_id xxh raw (rg_transport g) (mt_connected m), si_client = c, si_transport = rg_transport g,
       si_listen = (if rg_transport g = ''http'' then rg_listen g else []), si_connected = mt_connected m,
       si_last = mt_last m, si_calls = mt_calls m\<rparr>"

text \<open>A session that was not known yet is entered.\<close>

definition enter_live :: "int \<Rightarrow> sdk_session list \<Rightarrow> registry \<Rightarrow> registry" where
  "enter_live now live g =
     g\<lparr>rg_sessions := fold (\<lambda>(h, _). if map_of (rg_sessions g) h = None then AList.update h (new_meta now) else id)
       live (rg_sessions g)\<rparr>"

definition registry_snapshot :: "hash64 \<Rightarrow> int \<Rightarrow> sdk_session list \<Rightarrow> registry \<Rightarrow> session_info list \<times> registry" where
  "registry_snapshot xxh now live g =
     (let g1 = enter_live now live g;
          infos = map (\<lambda>(h, raw, ip). to_info xxh g1 raw (meta_at now h g1) (client_meta_of ip)) live
      in (sort_key si_connected (sort_key si_id infos), g1))"

definition to_record :: "registry \<Rightarrow> session_meta \<Rightarrow> int \<Rightarrow> session_record" where
  "to_record g m disconnected =
     \<lparr>sr_id = mt_id m, sr_client = mt_client m, sr_transport = rg_transport g, sr_connected = mt_connected m,
       sr_last_seen = mt_last m, sr_disconnected = disconnected, sr_calls = mt_calls m\<rparr>"

text \<open>
  A checkpoint of every session; those that the SDK no longer lists get their last one and are dropped. The
  map is visited in any order, here in the order of its entries.
\<close>

definition refresh :: "hash64 \<Rightarrow> registry \<Rightarrow> sdk_session \<Rightarrow> session_meta \<Rightarrow> session_meta" where
  "refresh xxh g ss m = (case ss of (h, raw, ip) \<Rightarrow>
     m\<lparr>mt_id := session_id xxh raw (rg_transport g) (mt_connected m), mt_client := client_meta_of ip\<rparr>)"

definition flush_records :: "hash64 \<Rightarrow> int \<Rightarrow> sdk_session list \<Rightarrow> registry \<Rightarrow> session_record list \<times> registry" where
  "flush_records xxh now live g =
     (let g1 = enter_live now live g;
          ms = map (\<lambda>(h, m). (h, case find (\<lambda>(k, _). k = h) live of None \<Rightarrow> m | Some ss \<Rightarrow> refresh xxh g1 ss m)) (rg_sessions g1);
          is_live = (\<lambda>h. h \<in> fst ` set live);
          recs = concat (map (\<lambda>(h, m). if is_live h then [to_record g1 m 0]
            else if mt_id m \<noteq> [] then [to_record g1 m (mt_last m)] else []) ms)
      in (recs, g1\<lparr>rg_sessions := filter (\<lambda>(h, _). is_live h) ms\<rparr>))"

text \<open>A checkpoint that cannot be written is logged and left out.\<close>

definition flush :: "hash64 \<Rightarrow> (session_record \<Rightarrow> bytes result) \<Rightarrow> (nat \<Rightarrow> error option) \<Rightarrow> int \<Rightarrow> sdk_session list
    \<Rightarrow> registry \<times> directory option \<Rightarrow> registry \<times> directory option" where
  "flush xxh enc write_fault now live s =
     (case flush_records xxh now live (fst s) of (recs, g) \<Rightarrow>
        (g, map_option (fold (\<lambda>(i, r) d. snd (ledger_append xxh enc (write_fault i) r d)) (enumerate 0 recs)) (snd s)))"

subsection \<open>What the aggregation depends on\<close>

lemma map_of_by_session:
  "map_of (fold (\<lambda>r. AList.update (sr_id r) r) rs al) = fold (\<lambda>r m. m(sr_id r \<mapsto> r)) rs (map_of al)"
  by (induction rs arbitrary: al) (simp_all add: update_conv')

lemma distinct_by_session: "distinct (map fst (by_session rs))"
proof -
  have "distinct (map fst al) \<Longrightarrow> distinct (map fst (fold (\<lambda>r. AList.update (sr_id r) r) rs al))" for al
    by (induction rs arbitrary: al) (simp_all add: distinct_update)
  then show ?thesis by (simp add: by_session_def)
qed

definition session_map :: "session_record list \<Rightarrow> (bytes \<rightharpoonup> session_record) \<Rightarrow> bytes \<rightharpoonup> session_record" where
  "session_map rs m = fold (\<lambda>r m. m(sr_id r \<mapsto> r)) rs m"

lemma map_of_session: "map_of (by_session rs) = session_map rs Map.empty"
  using map_of_by_session [of rs "[]"] by (simp add: by_session_def session_map_def)

lemma session_map_append: "session_map (a @ b) m = session_map b (session_map a m)"
  by (simp add: session_map_def)

lemma session_map_keyed:
  assumes "\<And>k r. m k = Some r \<Longrightarrow> sr_id r = k" "session_map rs m k = Some r"
  shows "sr_id r = k"
proof -
  have "session_map rs m k = Some r \<Longrightarrow> (\<And>k r. m k = Some r \<Longrightarrow> sr_id r = k) \<Longrightarrow> sr_id r = k" for m
  proof (induction rs arbitrary: m)
    case (Cons a rs)
    from Cons.prems(1) have "session_map rs (m(sr_id a \<mapsto> a)) k = Some r" by (simp add: session_map_def)
    then show ?case
    proof (rule Cons.IH)
      fix k r assume "(m(sr_id a \<mapsto> a)) k = Some r"
      then show "sr_id r = k" using Cons.prems(2) [of k r] by (cases "k = sr_id a") simp_all
    qed
  next
    case Nil
    from Nil(2) [of k r] Nil(1) show ?case by (simp add: session_map_def)
  qed
  with assms show ?thesis by blast
qed

text \<open>Replaying the latest records, in any order, gives the same map.\<close>

lemma session_map_distinct:
  assumes "distinct (map sr_id rs)"
  shows "session_map rs m k = (case lookup_by sr_id k rs of Some r \<Rightarrow> Some r | None \<Rightarrow> m k)"
  using assms
proof (induction rs arbitrary: m)
  case (Cons r rs)
  have step: "session_map (r # rs) m k = session_map rs (m(sr_id r \<mapsto> r)) k" by (simp add: session_map_def)
  show ?case
  proof (cases "sr_id r = k")
    case True
    have "k \<notin> sr_id ` set rs" using True Cons.prems by auto
    then have "lookup_by sr_id k rs = None" by (simp add: lookup_by_None_iff)
    then show ?thesis using Cons True by (simp add: step)
  next
    case False
    then show ?thesis using Cons by (simp add: step split: option.split)
  qed
qed (simp add: session_map_def)

lemma latest_ids: "map sr_id (map snd (by_session rs)) = map fst (by_session rs)"
proof -
  have "sr_id r = k" if "(k, r) \<in> set (by_session rs)" for k r
  proof -
    have "map_of (by_session rs) k = Some r" using that distinct_by_session by simp
    then show ?thesis unfolding map_of_session by (rule session_map_keyed [rotated]) simp
  qed
  then show ?thesis by auto
qed

lemma session_map_latest:
  assumes "mset xs = mset (map snd (by_session rs))"
  shows "session_map xs Map.empty = session_map rs Map.empty"
proof
  fix k
  have d: "distinct (map sr_id xs)"
    using latest_ids [of rs] distinct_by_session [of rs] assms by (metis mset_map mset_eq_imp_distinct_iff)
  have "lookup_by sr_id k xs = map_of (by_session rs) k"
  proof (cases "map_of (by_session rs) k")
    case None
    then have "k \<notin> set (map sr_id (map snd (by_session rs)))"
      unfolding latest_ids by (simp add: map_of_eq_None_iff)
    then have "k \<notin> sr_id ` set xs" using mset_eq_setD [OF assms] by (simp add: image_image)
    then show ?thesis using None by (simp add: lookup_by_None_iff)
  next
    case (Some r)
    then have "r \<in> set xs" "sr_id r = k"
      using mset_eq_setD [OF assms] map_of_SomeD [OF Some] session_map_keyed [of Map.empty rs k r]
      by (auto simp: map_of_session [symmetric] intro!: image_eqI [where x = "(k, r)"])
    then show ?thesis using lookup_by_mem [OF d, of r] Some by auto
  qed
  then show "session_map xs Map.empty k = session_map rs Map.empty k"
    by (simp only: session_map_distinct [OF d]) (simp add: map_of_session [symmetric] split: option.split)
qed

subsection \<open>Compaction\<close>

definition of_one :: "client_meta \<Rightarrow> bytes \<Rightarrow> session_record list \<Rightarrow> bool" where
  "of_one c t rs \<longleftrightarrow> list_all (\<lambda>r. sr_client r = c \<and> sr_transport r = t) rs"

definition lifetime :: "session_record \<Rightarrow> int" where
  "lifetime r = (let d = session_end r - sr_connected r in if 0 < d then d else 0)"

lemma Max_insert_max: "finite S \<Longrightarrow> Max (insert (max a b) S) = Max (insert a (insert b S))" for a :: "'a :: linorder"
  by (cases "S = {}") (simp_all add: max.assoc)

lemma summarize_fold:
  assumes "of_one c t rs"
  shows "cl_lifetime (fst (fold summarize_step rs (cl, w))) = cl_lifetime cl + sum_list (map lifetime rs)"
    "cl_calls (fst (fold summarize_step rs (cl, w))) = cl_calls cl + sum_list (map sr_calls rs)"
    "cl_last_disconnect (fst (fold summarize_step rs (cl, w))) = Max (insert (cl_last_disconnect cl) (sr_disconnected ` set rs))"
    "cl_client (fst (fold summarize_step rs (cl, w))) = (if \<exists>r\<in>set rs. w \<le> sr_last_seen r then c else cl_client cl)"
    "cl_transport (fst (fold summarize_step rs (cl, w))) = (if \<exists>r\<in>set rs. w \<le> sr_last_seen r then t else cl_transport cl)"
    "cl_sessions (fst (fold summarize_step rs (cl, w))) = cl_sessions cl"
    "cl_hash (fst (fold summarize_step rs (cl, w))) = cl_hash cl"
  using assms
  by (induction rs arbitrary: cl w)
    (auto simp: summarize_step_def lifetime_def of_one_def Let_def Max_insert_max max.assoc)

lemma summarize_mset:
  assumes "of_one c t xs" "mset xs = mset ys"
  shows "summarize_records xxh xs = summarize_records xxh ys"
proof -
  have ys: "of_one c t ys" "set xs = set ys" "length xs = length ys" "xs = [] \<longleftrightarrow> ys = []"
    using assms mset_eq_setD [OF assms(2)] mset_eq_length [OF assms(2)] by (auto simp: of_one_def list_all_iff)
  have sums: "sum_list (map lifetime xs) = sum_list (map lifetime ys)" "sum_list (map sr_calls xs) = sum_list (map sr_calls ys)"
    using arg_cong [OF assms(2), of "image_mset lifetime"] arg_cong [OF assms(2), of "image_mset sr_calls"]
    by (metis mset_map sum_mset_sum_list)+
  have "fst (fold summarize_step xs (cl, w)) = fst (fold summarize_step ys (cl, w))" for cl w
    by (rule client_ledger.equality) (simp_all add: summarize_fold [OF assms(1)] summarize_fold [OF ys(1)] ys(2) sums)
  then show ?thesis by (simp add: summarize_records_def ys(3,4) Let_def)
qed

definition unlines :: "bytes list \<Rightarrow> bytes" where
  "unlines ls = concat (map (\<lambda>l. l @ [newline]) ls)"

definition whole_line :: "bytes \<Rightarrow> bool" where
  "whole_line l \<longleftrightarrow> newline \<notin> set l \<and> length l < scan_max_line"

lemma split_unlines: "list_all whole_line ls \<Longrightarrow> split_on newline (unlines ls) = ls @ [[]]"
  by (induction ls) (simp_all add: unlines_def whole_line_def split_on_append)

lemma scanned_whole: "list_all whole_line ls \<Longrightarrow> scanned (ls @ [[]]) = map drop_cr ls @ [[]]"
  by (induction ls) (simp_all add: whole_line_def scan_max_line_def drop_cr_def)

lemma parsed_unlines:
  "list_all whole_line ls \<Longrightarrow> parsed_records dec (unlines ls) = List.map_filter dec (filter (\<lambda>l. l \<noteq> []) (map drop_cr ls))"
  by (simp add: parsed_records_def split_unlines scanned_whole)

lemma parsed_append:
  assumes "list_all whole_line ls" "list_all whole_line later"
  shows "parsed_records dec (unlines ls @ unlines later) = parsed_records dec (unlines ls) @ parsed_records dec (unlines later)"
proof -
  have "unlines ls @ unlines later = unlines (ls @ later)" by (simp add: unlines_def)
  then show ?thesis using assms by (simp add: parsed_unlines map_filter_def)
qed

text \<open>What is asked of the codec: a record is one line, which decodes to the record again.\<close>

definition codec_ok :: "(session_record \<Rightarrow> bytes result) \<Rightarrow> (bytes \<Rightarrow> session_record option) \<Rightarrow> session_record \<Rightarrow> bool" where
  "codec_ok enc dec r \<longleftrightarrow> (case enc r of Inl _ \<Rightarrow> False
     | Inr l \<Rightarrow> whole_line l \<and> l \<noteq> [] \<and> last l \<noteq> byte 13 \<and> dec l = Some r)"

lemma encoded_lines:
  assumes "list_all (codec_ok enc dec) rs"
  shows "\<exists>ls. encode_lines enc rs = Inr (unlines ls) \<and> list_all whole_line ls \<and> parsed_records dec (unlines ls) = rs"
proof -
  have "\<exists>ls. encode_lines enc rs = Inr (unlines ls) \<and> list_all whole_line ls
      \<and> List.map_filter dec (filter (\<lambda>l. l \<noteq> []) (map drop_cr ls)) = rs"
    using assms
  proof (induction rs)
    case Nil
    then show ?case by (intro exI [of _ "[]"]) (simp add: unlines_def map_filter_def)
  next
    case (Cons r rs)
    then obtain ls l where ls: "encode_lines enc rs = Inr (unlines ls)" "list_all whole_line ls"
      "List.map_filter dec (filter (\<lambda>l. l \<noteq> []) (map drop_cr ls)) = rs" "enc r = Inr l"
      "whole_line l" "l \<noteq> []" "last l \<noteq> byte 13" "dec l = Some r"
      by (auto simp: codec_ok_def split: sum.splits)
    then have "drop_cr l = l" by (simp add: drop_cr_def)
    with ls show ?case by (intro exI [of _ "l # ls"]) (simp add: unlines_def map_filter_def)
  qed
  then show ?thesis using parsed_unlines by metis
qed

lemma mset_session_order [simp]: "mset (session_order rs) = mset rs"
  by (simp add: session_order_def)

lemma mset_by_session:
  assumes "session_map xs Map.empty = session_map ys Map.empty"
  shows "mset (map snd (by_session xs)) = mset (map snd (by_session ys))"
proof -
  have "map_of (by_session xs) = map_of (by_session ys)" using assms by (simp add: map_of_session)
  then have "(k, r) \<in> set (by_session xs) \<longleftrightarrow> (k, r) \<in> set (by_session ys)" for k r
    using map_of_eq_Some_iff [OF distinct_by_session [of xs], of k r]
      map_of_eq_Some_iff [OF distinct_by_session [of ys], of k r] by simp
  then have "set (by_session xs) = set (by_session ys)" by auto
  then have "mset (by_session xs) = mset (by_session ys)"
    using distinct_by_session by (metis distinct_map set_eq_iff_mset_eq_distinct)
  then show ?thesis by (metis mset_map)
qed

lemma set_by_session: "set (map snd (by_session rs)) \<subseteq> set rs"
proof -
  have "set (map snd (fold (\<lambda>r. AList.update (sr_id r) r) rs al)) \<subseteq> set (map snd al) \<union> set rs" for al
  proof (induction rs arbitrary: al)
    case (Cons r rs)
    have "snd ` set (AList.update (sr_id r) r al) \<subseteq> insert r (snd ` set al)"
      by (induction al) auto
    with Cons [of "AList.update (sr_id r) r al"] show ?case by auto
  qed simp
  from this [of "[]"] show ?thesis by (simp add: by_session_def)
qed

text \<open>C34::
  Compacting the ledger loses nothing that it reports. For a file of whole lines, corrupt ones among them,
  and whatever is appended after the compaction, the summary of the client, which is its sessions, their
  lifetime, its tool calls and the last disconnect, is the one that the file would give without the
  compaction, provided the file holds the records of one client and the codec reads back what it writes.
\<close>

theorem compaction_keeps_ledger:
  assumes "list_all whole_line ls" "list_all whole_line later"
    and "of_one c t (parsed_records dec (unlines (ls @ later)))"
    and "list_all (codec_ok enc dec) (latest_per_session dec (unlines ls))"
  shows "summarize_client xxh dec (compact_file enc dec ok (unlines ls) @ unlines later)
    = summarize_client xxh dec (unlines ls @ unlines later)"
proof -
  let ?rs = "parsed_records dec (unlines ls)" and ?ms = "parsed_records dec (unlines later)"
  let ?latest = "map snd (by_session ?rs)"
  have "list_all (codec_ok enc dec) (session_order ?latest)"
    using assms(4) mset_eq_setD [OF mset_session_order [of ?latest]] by (simp add: list_all_iff latest_per_session_def)
  from encoded_lines [OF this] obtain ls' where ls': "encode_lines enc (session_order ?latest) = Inr (unlines ls')"
    "list_all whole_line ls'" "parsed_records dec (unlines ls') = session_order ?latest" by blast
  have one: "of_one c t (map snd (by_session (?rs @ ?ms)))"
    using assms(3) set_by_session [of "?rs @ ?ms"] parsed_append [OF assms(1,2), of dec]
    by (auto simp: of_one_def list_all_iff unlines_def)
  have "session_map (session_order ?latest @ ?ms) Map.empty = session_map (?rs @ ?ms) Map.empty"
    by (simp add: session_map_append session_map_latest [of "session_order ?latest" ?rs])
  then have "mset (map snd (by_session (?rs @ ?ms))) = mset (map snd (by_session (session_order ?latest @ ?ms)))"
    using mset_by_session by metis
  from summarize_mset [OF one this]
  have "summarize_client xxh dec (unlines ls' @ unlines later) = summarize_client xxh dec (unlines ls @ unlines later)"
    by (simp add: summarize_client_def latest_per_session_def parsed_append assms(1,2) ls'(2,3))
  then show ?thesis
    by (simp add: compact_file_def Let_def latest_per_session_def ls'(1))
qed

definition sample_checkpoint :: "int \<Rightarrow> session_record" where
  "sample_checkpoint calls = \<lparr>sr_id = ''s'', sr_client = no_client, sr_transport = ''http'', sr_connected = 10,
     sr_last_seen = 10 + calls, sr_disconnected = 0, sr_calls = calls\<rparr>"

definition sample_enc :: "session_record \<Rightarrow> bytes result" where
  "sample_enc r = Inr (itoa (sr_calls r))"

definition sample_dec :: "bytes \<Rightarrow> session_record option" where
  "sample_dec l = (if l = ''1'' then Some (sample_checkpoint 1) else if l = ''2'' then Some (sample_checkpoint 2)
     else if l = ''3'' then Some (sample_checkpoint 3) else None)"

lemma return_code: "byte 13 = CHR 0x0D" by code_simp

lemma sample_lines:
  "list_all whole_line [''1'', ''oops'', ''2'']" "list_all whole_line [''3'']"
  "parsed_records sample_dec (unlines ([''1'', ''oops'', ''2''] @ [''3''])) = [sample_checkpoint 1, sample_checkpoint 2, sample_checkpoint 3]"
  "parsed_records sample_dec (unlines [''1'', ''oops'', ''2'']) = [sample_checkpoint 1, sample_checkpoint 2]"
proof -
  show w: "list_all whole_line [''1'', ''oops'', ''2'']" "list_all whole_line [''3'']"
    by (simp_all add: whole_line_def scan_max_line_def newline_def) code_simp+
  then have "list_all whole_line ([''1'', ''oops'', ''2''] @ [''3''])" by simp
  from parsed_unlines [OF this] parsed_unlines [OF w(1)] show
    "parsed_records sample_dec (unlines ([''1'', ''oops'', ''2''] @ [''3''])) = [sample_checkpoint 1, sample_checkpoint 2, sample_checkpoint 3]"
    "parsed_records sample_dec (unlines [''1'', ''oops'', ''2'']) = [sample_checkpoint 1, sample_checkpoint 2]"
    by (simp_all add: drop_cr_def map_filter_def sample_dec_def return_code)
qed

theorem compaction_keeps_ledger_witness:
  "compact_file sample_enc sample_dec True (unlines [''1'', ''oops'', ''2'']) = unlines [''2'']
   \<and> summarize_client (\<lambda>_. 0) sample_dec (unlines [''2''] @ unlines [''3''])
     = summarize_client (\<lambda>_. 0) sample_dec (unlines [''1'', ''oops'', ''2''] @ unlines [''3''])"
proof -
  have l: "latest_per_session sample_dec (unlines [''1'', ''oops'', ''2'']) = [sample_checkpoint 2]"
    by (simp add: latest_per_session_def sample_lines(4) by_session_def) (simp add: sample_checkpoint_def)
  have e: "sample_enc (sample_checkpoint 2) = Inr ''2''"
    by (simp add: sample_enc_def sample_checkpoint_def itoa_def digits_of.simps) code_simp
  have "compact_file sample_enc sample_dec True (unlines [''1'', ''oops'', ''2'']) = unlines [''2'']"
    unfolding compact_file_def l by (simp add: session_order_def e) (simp add: unlines_def)
  moreover have "of_one no_client ''http'' (parsed_records sample_dec (unlines ([''1'', ''oops'', ''2''] @ [''3''])))"
    by (simp only: sample_lines(3)) (simp add: of_one_def sample_checkpoint_def)
  moreover have "whole_line ''2''" by (simp add: whole_line_def scan_max_line_def newline_def) code_simp
  then have "list_all (codec_ok sample_enc sample_dec) (latest_per_session sample_dec (unlines [''1'', ''oops'', ''2'']))"
    by (simp add: l codec_ok_def e sample_dec_def return_code)
  ultimately show ?thesis
    using compaction_keeps_ledger [OF sample_lines(1,2), of no_client "''http''" sample_dec sample_enc "\<lambda>_. 0" True] by simp
qed

end
