(* ===== verification/Session_Log.thy ===== *)
theory Session_Log
  imports Sessions
begin

text \<open>
  The files of a session's log records (\<open>pkg/mcp/sessionlog\<close>) and the resource that lists them
  (\<open>pkg/mcp/resources/sessions_logs.go\<close>). The value of an attribute is of a type of its own, with the
  test whether it is blank and the JSON codec as parameters.
\<close>

definition is_safe_slug_char :: "char \<Rightarrow> bool" where
  "is_safe_slug_char c \<longleftrightarrow> is_lower c \<or> is_upper c \<or> is_digit c \<or> c \<in> set ''._-''"

text \<open>Every rune that is not safe becomes one dash.\<close>

function safe_runes :: "bytes \<Rightarrow> bytes" where
  "safe_runes [] = []"
| "safe_runes (c # cs) =
     (if is_safe_slug_char c then c # safe_runes cs else CHR ''-'' # safe_runes (drop (rune_width (c # cs)) (c # cs)))"
  by pat_completeness auto
termination
proof (relation "measure length", goal_cases)
  case (3 c cs)
  show ?case using rune_width_pos [of "c # cs"] by (simp del: rune_width_pos)
qed simp_all

definition log_slug_max :: nat where "log_slug_max = 64"

definition log_slug :: "bytes \<Rightarrow> bytes" where
  "log_slug sid = (let s = take log_slug_max (safe_runes sid) in if s = [] then ''session'' else s)"

lemma safe_runes_safe: "c \<in> set (safe_runes s) \<Longrightarrow> is_safe_slug_char c"
  by (induction s rule: safe_runes.induct) (auto simp: is_safe_slug_char_def split: if_splits)

text \<open>A client cannot reach outside the directory with its session identifier.\<close>

lemma log_slug_no_slash: "CHR 0x2F \<notin> set (log_slug sid)"
proof -
  have "\<not> is_safe_slug_char (CHR 0x2F)" by code_simp
  then show ?thesis using safe_runes_safe [of "CHR 0x2F" sid]
    by (auto simp: log_slug_def Let_def dest!: in_set_takeD split: if_splits)
qed

lemma log_slug_length: "length (log_slug sid) \<le> 64"
  by (simp add: log_slug_def Let_def log_slug_max_def)

subsection \<open>The handler\<close>

record 'v trace =
  tr_time :: int
  tr_level :: int
  tr_msg :: bytes
  tr_attrs :: "(bytes \<times> 'v) list"

record 'v trace_handler =
  th_prefix :: bytes
  th_attrs :: "(bytes \<times> 'v) list"

definition level_warn :: int where "level_warn = 4"

definition captures :: "'v trace \<Rightarrow> bool" where
  "captures r \<longleftrightarrow> level_warn \<le> tr_level r \<or> tr_msg r \<in> {''mcp call'', ''mcp call failed''}"

text \<open>The fields of the line: blank values are left out, the record's own win over the handler's.\<close>

definition trace_fields :: "('v \<Rightarrow> bool) \<Rightarrow> 'v trace_handler \<Rightarrow> 'v trace \<Rightarrow> (bytes \<times> 'v) list" where
  "trace_fields blank h r =
     fold (\<lambda>(k, v). AList.update k v)
       (filter (\<lambda>(k, v). \<not> blank v) (map (\<lambda>(k, v). (th_prefix h @ k, v)) (tr_attrs r)))
       (filter (\<lambda>(k, v). \<not> blank v) (th_attrs h))"

text \<open>A record whose fields have no JSON form is written without them.\<close>

definition render :: "('v trace \<Rightarrow> bytes option) \<Rightarrow> ('v \<Rightarrow> bool) \<Rightarrow> 'v trace_handler \<Rightarrow> 'v trace \<Rightarrow> bytes" where
  "render enc blank h r =
     (let line = (case enc (r\<lparr>tr_attrs := trace_fields blank h r\<rparr>) of
          Some l \<Rightarrow> l
        | None \<Rightarrow> (case enc (r\<lparr>tr_attrs := []\<rparr>) of Some l \<Rightarrow> l | None \<Rightarrow> []))
      in line @ [newline])"

definition write_log :: "int \<Rightarrow> error option \<Rightarrow> error option \<Rightarrow> bytes \<Rightarrow> bytes \<Rightarrow> directory \<Rightarrow> unit result \<times> directory" where
  "write_log cap rename_fault write_fault sid line d =
     append_line cap rename_fault write_fault (log_slug sid @ ''.log'') line d"

definition handle_trace :: "('v trace \<Rightarrow> bytes option) \<Rightarrow> ('v \<Rightarrow> bool) \<Rightarrow> int \<Rightarrow> error option \<Rightarrow> error option
    \<Rightarrow> bytes \<Rightarrow> 'v trace_handler \<Rightarrow> 'v trace \<Rightarrow> directory \<Rightarrow> directory" where
  "handle_trace enc blank cap rename_fault write_fault sid h r d =
     (if sid \<noteq> [] \<and> captures r then snd (write_log cap rename_fault write_fault sid (render enc blank h r) d) else d)"

definition trace_with_attrs :: "(bytes \<times> 'v) list \<Rightarrow> 'v trace_handler \<Rightarrow> 'v trace_handler" where
  "trace_with_attrs new h = h\<lparr>th_attrs := fold (\<lambda>(k, v). AList.update (th_prefix h @ k) v) new (th_attrs h)\<rparr>"

definition trace_with_group :: "bytes \<Rightarrow> 'v trace_handler \<Rightarrow> 'v trace_handler" where
  "trace_with_group name h = (if name = [] then h else h\<lparr>th_prefix := th_prefix h @ name @ ''.''\<rparr>)"

subsection \<open>Reading back\<close>

fun parse_lines :: "(bytes \<Rightarrow> 'v trace option) \<Rightarrow> bytes list \<Rightarrow> 'v trace list result" where
  "parse_lines dec [] = Inr []"
| "parse_lines dec (l # ls) =
     (if scan_max_line \<le> length l then Inl (Failure ''failed to read: session log: token too long'')
      else bind_result (parse_lines dec ls) (\<lambda>rs.
        let t = trim_space l
        in if t = [] then Inr rs else (case dec t of None \<Rightarrow> Inr rs | Some r \<Rightarrow> Inr (r # rs))))"

definition parse_log :: "(bytes \<Rightarrow> 'v trace option) \<Rightarrow> bytes \<Rightarrow> 'v trace list result" where
  "parse_log dec data = parse_lines dec (split_on newline data)"

record log_entry =
  le_name :: bytes
  le_is_dir :: bool
  le_size :: "int result"
  le_modified :: int

record log_info =
  li_session :: bytes
  li_size :: int
  li_rotated :: bool
  li_modified :: int

definition rotated_stems :: "log_entry list \<Rightarrow> bytes list" where
  "rotated_stems es = map (\<lambda>e. trim_suffix (le_name e) ''.log.1'') (filter (\<lambda>e. has_suffix (le_name e) ''.log.1'') es)"

fun log_infos :: "bytes list \<Rightarrow> log_entry list \<Rightarrow> log_info list result" where
  "log_infos rotated [] = Inr []"
| "log_infos rotated (e # es) =
     (if le_is_dir e \<or> \<not> has_suffix (le_name e) ''.log'' then log_infos rotated es
      else bind_result (le_size e) (\<lambda>n. bind_result (log_infos rotated es) (\<lambda>is.
        let stem = trim_suffix (le_name e) ''.log''
        in Inr (\<lparr>li_session = stem, li_size = n, li_rotated = (stem \<in> set rotated), li_modified = le_modified e\<rparr> # is))))"

definition scan_session_logs :: "log_entry list result \<Rightarrow> log_info list result" where
  "scan_session_logs dir =
     (case dir of
        Inl NoRows \<Rightarrow> Inr []
      | Inl e \<Rightarrow> Inl e
      | Inr es \<Rightarrow> log_infos (rotated_stems es) es)"

text \<open>What a URI of the resource names: everything behind \<open>/logs/\<close>, if it is one path element.\<close>

definition log_id_of_path :: "bytes \<Rightarrow> bytes result" where
  "log_id_of_path path =
     (let i = trim_prefix path ''/logs/''
      in if i = [] \<or> CHR 0x2F \<in> set i then Inl (Failure ''sessions log uri missing session id'') else Inr i)"

definition read_session_log :: "(bytes \<Rightarrow> 'v trace option) \<Rightarrow> bytes \<Rightarrow> bytes \<Rightarrow> directory
    \<Rightarrow> (bytes \<times> 'v trace list) result" where
  "read_session_log dec log_dir path d =
     bind_result (log_id_of_path path) (\<lambda>i.
       if log_dir = [] then Inl (Failure (''unknown session '' @ i))
       else case map_of d (log_slug i @ ''.log'') of
           None \<Rightarrow> Inl (Failure (''unknown session '' @ i))
         | Some data \<Rightarrow> bind_result (parse_log dec data) (\<lambda>rs. Inr (log_slug i, rs)))"

text \<open>What was written for a session is read back under its identifier.\<close>

lemma trim_space_Nil [simp]: "trim_space [] = []"
  using trim_space_infix [of "[]"] by simp

lemma parse_lines_append:
  assumes "parse_lines dec ls = Inr rs" "whole_line l" "trim_space l \<noteq> []" "dec (trim_space l) = Some r"
  shows "parse_lines dec (ls @ [l, []]) = Inr (rs @ [r])"
  using assms
proof (induction ls arbitrary: rs)
  case Nil
  then show ?case by (simp add: whole_line_def scan_max_line_def Let_def)
next
  case (Cons k ls)
  from Cons.prems(1) obtain rs' where "parse_lines dec ls = Inr rs'" by (auto elim!: bind_result_InrE split: if_splits)
  with Cons show ?case by (auto simp: Let_def split: if_splits option.splits)
qed

end
