(* ===== verification/Parse_Sections.thy ===== *)
theory Parse_Sections
  imports Context_Tree
begin

text \<open>
  How the parsers of prose build their trees (\<open>pkg/parser/markdown.go\<close>: \<open>frame\<close>, \<open>attachNode\<close>,
  \<open>popSections\<close>; also used by \<open>html.go\<close>). In the code the frames of the stack point to nodes that are
  already linked into the tree and get further children; in the model a frame holds its node with the
  children so far, and is linked into the tree when it is popped. The sentinel at the bottom of the stack,
  which is never popped, is the empty stack.
\<close>

datatype sect = Section (s_node: cnode) (s_level: "int option") (s_kids: "sect list")

record frame =
  fr_node :: cnode
  fr_level :: int
  fr_kids :: "sect list"

record builder =
  bd_out :: "sect list"
  bd_stack :: "frame list"

definition closed_frame :: "frame \<Rightarrow> sect" where
  "closed_frame f = Section (fr_node f) (Some (fr_level f)) (fr_kids f)"

definition put_section :: "sect \<Rightarrow> builder \<Rightarrow> builder" where
  "put_section s b =
     (case bd_stack b of
        [] \<Rightarrow> b\<lparr>bd_out := bd_out b @ [s]\<rparr>
      | f # fs \<Rightarrow> b\<lparr>bd_stack := f\<lparr>fr_kids := fr_kids f @ [s]\<rparr> # fs\<rparr>)"

definition depth_here :: "builder \<Rightarrow> int" where
  "depth_here b = (case bd_stack b of [] \<Rightarrow> 1 | f # _ \<Rightarrow> c_depth (fr_node f) + 1)"

definition attach_node :: "cnode \<Rightarrow> builder \<Rightarrow> builder" where
  "attach_node n b = put_section (Section (n\<lparr>c_depth := depth_here b\<rparr>) None []) b"

function pop_sections :: "int \<Rightarrow> builder \<Rightarrow> builder" where
  "pop_sections level b =
     (case bd_stack b of
        [] \<Rightarrow> b
      | f # fs \<Rightarrow> if level \<le> fr_level f then pop_sections level (put_section (closed_frame f) (b\<lparr>bd_stack := fs\<rparr>)) else b)"
  by pat_completeness auto
termination
  by (relation "measure (\<lambda>(_, b). length (bd_stack b))") (auto simp: put_section_def split: list.splits)

declare pop_sections.simps [simp del]

definition push_heading :: "int \<Rightarrow> cnode \<Rightarrow> builder \<Rightarrow> builder" where
  "push_heading level n b =
     (let b1 = pop_sections level b
      in b1\<lparr>bd_stack := \<lparr>fr_node = n\<lparr>c_depth := depth_here b1\<rparr>, fr_level = level, fr_kids = []\<rparr> # bd_stack b1\<rparr>)"

datatype block = Heading int cnode | Plain cnode

fun place_block :: "block \<Rightarrow> builder \<Rightarrow> builder" where
  "place_block (Heading level n) b = push_heading level n b"
| "place_block (Plain n) b = attach_node n b"

fun close_all :: "sect list \<Rightarrow> frame list \<Rightarrow> sect list" where
  "close_all out [] = out"
| "close_all out [f] = out @ [closed_frame f]"
| "close_all out (f # g # fs) = close_all out (g\<lparr>fr_kids := fr_kids g @ [closed_frame f]\<rparr> # fs)"

definition finish_sections :: "builder \<Rightarrow> sect list" where
  "finish_sections b = close_all (bd_out b) (bd_stack b)"

definition sections_of :: "block list \<Rightarrow> sect list" where
  "sections_of bs = finish_sections (fold place_block bs \<lparr>bd_out = [], bd_stack = []\<rparr>)"

fun section_tree :: "sect \<Rightarrow> ctree" where
  "section_tree (Section n l ks) = CTree n (map section_tree ks)"

subsection \<open>Well-sectioned forests\<close>

text \<open>
  In a list of sections the plain nodes come first; then come headings, all of a greater level than the
  heading above (\<open>lo\<close>), none of a greater level than the heading before it (\<open>hi\<close>).
\<close>

fun sectioned :: "int option \<Rightarrow> int option \<Rightarrow> int \<Rightarrow> sect list \<Rightarrow> bool" where
  "sectioned lo hi d [] = True"
| "sectioned lo hi d (Section n None ks # ts) =
     (ks = [] \<and> c_depth n = d \<and> hi = None \<and> sectioned lo hi d ts)"
| "sectioned lo hi d (Section n (Some l) ks # ts) =
     ((case lo of None \<Rightarrow> True | Some l' \<Rightarrow> l' < l) \<and> (case hi of None \<Rightarrow> True | Some l' \<Rightarrow> l \<le> l') \<and> c_depth n = d
      \<and> sectioned (Some l) None (d + 1) ks \<and> sectioned lo (Some l) d ts)"

text \<open>The blocks of a forest in document order, with the depth that they had before they were attached.\<close>

definition bare :: "cnode \<Rightarrow> cnode" where "bare n = n\<lparr>c_depth := 0\<rparr>"

fun blocks_of :: "sect list \<Rightarrow> block list" where
  "blocks_of [] = []"
| "blocks_of (Section n None ks # ts) = Plain (bare n) # blocks_of ks @ blocks_of ts"
| "blocks_of (Section n (Some l) ks # ts) = Heading l (bare n) # blocks_of ks @ blocks_of ts"

fun bare_block :: "block \<Rightarrow> block" where
  "bare_block (Heading l n) = Heading l (bare n)"
| "bare_block (Plain n) = Plain (bare n)"

lemma blocks_of_append [simp]: "blocks_of (xs @ ys) = blocks_of xs @ blocks_of ys"
  by (induction xs rule: blocks_of.induct) simp_all

text \<open>The level of the last heading of a list.\<close>

fun last_level :: "int option \<Rightarrow> sect list \<Rightarrow> int option" where
  "last_level hi [] = hi"
| "last_level hi (Section n None ks # ts) = last_level hi ts"
| "last_level hi (Section n (Some l) ks # ts) = last_level (Some l) ts"

lemma last_level_append [simp]: "last_level hi (xs @ ys) = last_level (last_level hi xs) ys"
  by (induction hi xs rule: last_level.induct) simp_all

lemma sectioned_append:
  "sectioned lo hi d (xs @ ys) \<longleftrightarrow> sectioned lo hi d xs \<and> sectioned lo (last_level hi xs) d ys"
  by (induction lo hi d xs rule: sectioned.induct) auto

subsection \<open>The stack\<close>

text \<open>The level, the depth and the finished sections at the top of a stack.\<close>

fun top_level :: "frame list \<Rightarrow> int option" where
  "top_level [] = None"
| "top_level (f # fs) = Some (fr_level f)"

fun top_depth :: "frame list \<Rightarrow> int" where
  "top_depth [] = 1"
| "top_depth (f # fs) = c_depth (fr_node f) + 1"

fun top_kids :: "sect list \<Rightarrow> frame list \<Rightarrow> sect list" where
  "top_kids out [] = out"
| "top_kids out (f # fs) = fr_kids f"

text \<open>Every open heading could be closed in its place.\<close>

fun open_ok :: "sect list \<Rightarrow> frame list \<Rightarrow> bool" where
  "open_ok out [] = sectioned None None 1 out"
| "open_ok out (f # fs) =
     (open_ok out fs \<and> sectioned (Some (fr_level f)) None (c_depth (fr_node f) + 1) (fr_kids f)
      \<and> sectioned (top_level fs) (last_level None (top_kids out fs)) (top_depth fs) [Section (fr_node f) (Some (fr_level f)) []])"

lemma open_ok_top: "open_ok out fs \<Longrightarrow> sectioned (top_level fs) None (top_depth fs) (top_kids out fs)"
  by (cases fs) auto

lemma sectioned_heading:
  "sectioned lo hi d [Section n (Some l) ks] \<longleftrightarrow>
     sectioned lo hi d [Section n (Some l) []] \<and> sectioned (Some l) None (d + 1) ks"
  by simp

text \<open>What is put at the top stays well-sectioned when it fits there.\<close>

lemma put_section_frame [simp]:
  "map fr_level (bd_stack (put_section s b)) = map fr_level (bd_stack b)"
  "map fr_node (bd_stack (put_section s b)) = map fr_node (bd_stack b)"
  "length (bd_stack (put_section s b)) = length (bd_stack b)"
  "top_level (bd_stack (put_section s b)) = top_level (bd_stack b)"
  "top_depth (bd_stack (put_section s b)) = top_depth (bd_stack b)"
  "top_kids (bd_out (put_section s b)) (bd_stack (put_section s b)) = top_kids (bd_out b) (bd_stack b) @ [s]"
  by (auto simp: put_section_def split: list.splits)

lemma put_section_ok:
  assumes "open_ok (bd_out b) (bd_stack b)"
    and "sectioned (top_level (bd_stack b)) (last_level None (top_kids (bd_out b) (bd_stack b))) (top_depth (bd_stack b)) [s]"
  shows "open_ok (bd_out (put_section s b)) (bd_stack (put_section s b))"
  using assms by (auto simp: put_section_def sectioned_append split: list.splits)

lemma depth_here_top: "depth_here b = top_depth (bd_stack b)"
  by (auto simp: depth_here_def split: list.splits)

lemma pop_sections_ok:
  assumes "open_ok (bd_out b) (bd_stack b)"
    and "\<And>l. last_level None (top_kids (bd_out b) (bd_stack b)) = Some l \<Longrightarrow> level \<le> l"
  shows "open_ok (bd_out (pop_sections level b)) (bd_stack (pop_sections level b))
    \<and> (\<forall>l. last_level None (top_kids (bd_out (pop_sections level b)) (bd_stack (pop_sections level b))) = Some l \<longrightarrow> level \<le> l)
    \<and> (\<forall>l. top_level (bd_stack (pop_sections level b)) = Some l \<longrightarrow> l < level)"
  using assms
proof (induction level b rule: pop_sections.induct)
  case (1 level b)
  show ?case
  proof (cases "bd_stack b")
    case Nil
    then show ?thesis using 1(2,3) by (simp add: pop_sections.simps [of level b])
  next
    case (Cons f fs)
    show ?thesis
    proof (cases "level \<le> fr_level f")
      case False
      then have "pop_sections level b = b" using Cons by (simp add: pop_sections.simps [of level b])
      moreover have "top_level (bd_stack b) = Some (fr_level f)" using Cons by simp
      ultimately show ?thesis using 1(2,3) False by simp
    next
      case True
      let ?b = "b\<lparr>bd_stack := fs\<rparr>"
      have fits: "sectioned (top_level fs) (last_level None (top_kids (bd_out b) fs)) (top_depth fs) [closed_frame f]"
        using 1(2) Cons by (auto simp: closed_frame_def)
      have "open_ok (bd_out (put_section (closed_frame f) ?b)) (bd_stack (put_section (closed_frame f) ?b))"
        using 1(2) Cons fits by (intro put_section_ok) simp_all
      moreover have "level \<le> l"
        if "last_level None (top_kids (bd_out (put_section (closed_frame f) ?b)) (bd_stack (put_section (closed_frame f) ?b))) = Some l" for l
        using that True by (simp add: closed_frame_def)
      ultimately show ?thesis
        using 1(1) [OF Cons True] Cons True by (simp add: pop_sections.simps [of level b])
    qed
  qed
qed

definition builder_ok :: "builder \<Rightarrow> bool" where
  "builder_ok b \<longleftrightarrow> open_ok (bd_out b) (bd_stack b) \<and> last_level None (top_kids (bd_out b) (bd_stack b)) = None"

lemma add_block_ok: "builder_ok b \<Longrightarrow> builder_ok (place_block k b)"
proof (cases k)
  case (Plain n)
  assume "builder_ok b"
  then show ?thesis
    using put_section_ok [of b "Section (n\<lparr>c_depth := depth_here b\<rparr>) None []"]
    by (simp add: Plain attach_node_def builder_ok_def depth_here_top)
next
  case (Heading l n)
  assume b: "builder_ok b"
  let ?b = "pop_sections l b"
  have p: "open_ok (bd_out ?b) (bd_stack ?b)"
    "\<And>m. last_level None (top_kids (bd_out ?b) (bd_stack ?b)) = Some m \<Longrightarrow> l \<le> m"
    "\<And>m. top_level (bd_stack ?b) = Some m \<Longrightarrow> m < l"
    using pop_sections_ok [of b l] b by (auto simp: builder_ok_def)
  then show ?thesis
    by (auto simp: Heading push_heading_def Let_def builder_ok_def depth_here_top split: option.splits)
qed

lemma close_all_ok: "open_ok out fs \<Longrightarrow> sectioned None None 1 (close_all out fs)"
proof (induction out fs rule: close_all.induct)
  case (2 out f)
  then show ?case by (auto simp: closed_frame_def sectioned_append)
next
  case (3 out f g fs)
  then show ?case by (auto simp: closed_frame_def sectioned_append)
qed simp

lemma sections_of_sectioned: "sectioned None None 1 (sections_of bs)"
proof -
  have "builder_ok b \<Longrightarrow> builder_ok (fold place_block bs b)" for b
    by (induction bs arbitrary: b) (simp_all add: add_block_ok)
  moreover have "builder_ok \<lparr>bd_out = [], bd_stack = []\<rparr>" by (simp add: builder_ok_def)
  ultimately show ?thesis by (simp add: sections_of_def finish_sections_def builder_ok_def close_all_ok)
qed

subsection \<open>No block is lost or moved\<close>

fun stack_blocks :: "frame list \<Rightarrow> block list" where
  "stack_blocks [] = []"
| "stack_blocks (f # fs) = stack_blocks fs @ Heading (fr_level f) (bare (fr_node f)) # blocks_of (fr_kids f)"

definition builder_blocks :: "builder \<Rightarrow> block list" where
  "builder_blocks b = blocks_of (bd_out b) @ stack_blocks (bd_stack b)"

lemma bare_depth [simp]: "bare (n\<lparr>c_depth := d\<rparr>) = bare n"
  by (simp add: bare_def)

lemma blocks_put: "builder_blocks (put_section s b) = builder_blocks b @ blocks_of [s]"
  by (auto simp: builder_blocks_def put_section_def split: list.splits)

lemma blocks_closed: "blocks_of [closed_frame f] = Heading (fr_level f) (bare (fr_node f)) # blocks_of (fr_kids f)"
  by (simp add: closed_frame_def)

lemma blocks_pop: "builder_blocks (pop_sections l b) = builder_blocks b"
proof (induction l b rule: pop_sections.induct)
  case (1 l b)
  show ?case
  proof (cases "bd_stack b")
    case (Cons f fs)
    have "builder_blocks (put_section (closed_frame f) (b\<lparr>bd_stack := fs\<rparr>)) = builder_blocks b"
      using Cons by (simp add: blocks_put blocks_closed) (simp add: builder_blocks_def)
    then show ?thesis using 1 [OF Cons] Cons by (simp add: pop_sections.simps [of l b])
  qed (simp add: pop_sections.simps [of l b])
qed

lemma blocks_add: "builder_blocks (place_block k b) = builder_blocks b @ [bare_block k]"
proof (cases k)
  case (Plain n)
  then show ?thesis by (simp add: attach_node_def blocks_put)
next
  case (Heading l n)
  have "builder_blocks (push_heading l n b) = builder_blocks (pop_sections l b) @ [Heading l (bare n)]"
    by (simp add: push_heading_def Let_def builder_blocks_def)
  then show ?thesis by (simp add: Heading blocks_pop)
qed

lemma blocks_close: "blocks_of (close_all out fs) = blocks_of out @ stack_blocks fs"
  by (induction out fs rule: close_all.induct) (simp_all add: blocks_closed del: blocks_of.simps(2,3))

lemma sections_of_blocks: "blocks_of (sections_of bs) = map bare_block bs"
proof -
  have "builder_blocks (fold place_block bs b) = builder_blocks b @ map bare_block bs" for b
    by (induction bs arbitrary: b) (simp_all add: blocks_add)
  from this [of "\<lparr>bd_out = [], bd_stack = []\<rparr>"] show ?thesis
    by (simp add: sections_of_def finish_sections_def blocks_close) (simp add: builder_blocks_def)
qed

subsection \<open>Only one forest\<close>

fun section_levels :: "sect list \<Rightarrow> int set" where
  "section_levels [] = {}"
| "section_levels (Section n None ks # ts) = section_levels ts"
| "section_levels (Section n (Some l) ks # ts) = insert l (section_levels ts)"

lemma finite_levels [simp]: "finite (section_levels ts)"
  by (induction ts rule: section_levels.induct) simp_all

lemma sectioned_levels: "sectioned (Some l) hi d ts \<Longrightarrow> m \<in> section_levels ts \<Longrightarrow> l < m"
  by (induction "Some l" hi d ts rule: sectioned.induct) auto

lemma pop_stops:
  assumes "\<And>l. top_level (bd_stack b) = Some l \<Longrightarrow> l < m"
  shows "pop_sections m b = b"
  using assms by (auto simp: pop_sections.simps [of m b] split: list.splits)

lemma pop_closes:
  assumes "bd_stack b = f # fs" "m \<le> fr_level f"
  shows "pop_sections m b = pop_sections m (put_section (closed_frame f) (b\<lparr>bd_stack := fs\<rparr>))"
  using assms by (simp add: pop_sections.simps [of m b])

lemma pop_pop:
  assumes "m \<le> l"
  shows "pop_sections m (pop_sections l b) = pop_sections m b"
  using assms
proof (induction l b rule: pop_sections.induct)
  case (1 l b)
  show ?case
  proof (cases "\<exists>f fs. bd_stack b = f # fs \<and> l \<le> fr_level f")
    case True
    then obtain f fs where f: "bd_stack b = f # fs" "l \<le> fr_level f" by blast
    with 1(1) [OF f 1(2)] 1(2) show ?thesis by (simp add: pop_closes)
  next
    case False
    then have "pop_sections l b = b" by (intro pop_stops) (cases "bd_stack b"; auto)
    then show ?thesis by simp
  qed
qed

lemma bare_kept [simp]: "bare n\<lparr>c_depth := c_depth n\<rparr> = n"
  by (simp add: bare_def)

lemma push_heading_fits:
  assumes "\<And>l'. top_level (bd_stack b) = Some l' \<Longrightarrow> l' < l" "top_depth (bd_stack b) = c_depth n"
  shows "push_heading l (bare n) b = b\<lparr>bd_stack := \<lparr>fr_node = n, fr_level = l, fr_kids = []\<rparr> # bd_stack b\<rparr>"
  using assms pop_stops [of b l] by (simp add: push_heading_def Let_def depth_here_top)

lemma put_kids_frame:
  "fold put_section ks (b\<lparr>bd_stack := f # fs\<rparr>) = b\<lparr>bd_stack := f\<lparr>fr_kids := fr_kids f @ ks\<rparr> # fs\<rparr>"
  by (induction ks arbitrary: f) (simp_all add: put_section_def)

text \<open>Reading a forest block by block and closing what was opened appends the forest.\<close>

lemma blocks_rebuild:
  assumes "sectioned lo hi d ts"
    and "top_level (bd_stack b) = lo" "top_depth (bd_stack b) = d"
    and "\<And>l. lo = Some l \<Longrightarrow> l < m" "\<And>l. l \<in> section_levels ts \<Longrightarrow> m \<le> l"
  shows "pop_sections m (fold place_block (blocks_of ts) b) = fold put_section ts b"
  using assms
proof (induction lo hi d ts arbitrary: b m rule: sectioned.induct)
  case (1 lo hi d)
  then show ?case using pop_stops [of b m] by simp
next
  case (2 lo hi d n ks ts)
  then have "ks = []" "c_depth n = top_depth (bd_stack b)" by auto
  then have "ks = []" "attach_node (bare n) b = put_section (Section n None []) b"
    using bare_kept [of n] by (simp_all add: attach_node_def depth_here_top)
  moreover have "pop_sections m (fold place_block (blocks_of ts) (put_section (Section n None []) b))
      = fold put_section ts (put_section (Section n None []) b)"
    by (rule 2(1)) (use 2 in \<open>auto\<close>)
  ultimately show ?case by simp
next
  case (3 lo hi d n l ks ts)
  let ?f = "\<lparr>fr_node = n, fr_level = l, fr_kids = []\<rparr>"
  let ?b1 = "b\<lparr>bd_stack := ?f # bd_stack b\<rparr>" and ?s = "Section n (Some l) ks"
  from 3(3) have lo: "\<And>l'. lo = Some l' \<Longrightarrow> l' < l" and d: "c_depth n = d"
    and ks: "sectioned (Some l) None (d + 1) ks" and ts: "sectioned lo (Some l) d ts" by (auto split: option.splits)
  have push: "place_block (Heading l (bare n)) b = ?b1" using push_heading_fits [of b l n] lo d 3(4,5) by simp
  let ?x = "fold place_block (blocks_of ks) ?b1"
  have "pop_sections (l + 1) ?x = fold put_section ks ?b1"
    using d sectioned_levels [OF ks] by (intro 3(1) ks) (auto simp: add1_zle_eq)
  also have "\<dots> = b\<lparr>bd_stack := ?f\<lparr>fr_kids := ks\<rparr> # bd_stack b\<rparr>" by (simp add: put_kids_frame)
  finally have x: "pop_sections (l + 1) ?x = b\<lparr>bd_stack := ?f\<lparr>fr_kids := ks\<rparr> # bd_stack b\<rparr>" .
  have closed: "pop_sections k ?x = put_section ?s b" if k: "k \<le> l" "\<And>l'. lo = Some l' \<Longrightarrow> l' < k" for k
  proof -
    have "pop_sections k ?x = pop_sections k (pop_sections (l + 1) ?x)" using k(1) by (simp add: pop_pop)
    also have "\<dots> = pop_sections k (put_section ?s b)"
      unfolding x using pop_closes [of "b\<lparr>bd_stack := ?f\<lparr>fr_kids := ks\<rparr> # bd_stack b\<rparr>" "?f\<lparr>fr_kids := ks\<rparr>" "bd_stack b" k] k(1)
      by (simp add: closed_frame_def)
    finally show ?thesis using pop_stops [of "put_section ?s b" k] k(2) 3(4) by simp
  qed
  have step: "fold place_block (blocks_of (?s # ts)) b = fold place_block (blocks_of ts) ?x" using push by simp
  show ?case
  proof (cases ts)
    case Nil
    then show ?thesis using closed [of m] 3(6,7) step by simp
  next
    case (Cons t ts')
    from ts Cons obtain n2 l2 ks2 where t: "t = Section n2 (Some l2) ks2"
      by (cases t; cases "s_level t") auto
    have l2: "l2 \<le> l" "\<And>l'. lo = Some l' \<Longrightarrow> l' < l2" using ts by (auto simp: Cons t)
    have "pop_sections l2 (put_section ?s b) = put_section ?s b" using l2(2) 3(4) by (intro pop_stops) auto
    then have "place_block (Heading l2 (bare n2)) ?x = place_block (Heading l2 (bare n2)) (put_section ?s b)"
      using closed [OF l2] by (simp add: push_heading_def)
    then have "fold place_block (blocks_of ts) ?x = fold place_block (blocks_of ts) (put_section ?s b)"
      by (simp add: Cons t)
    moreover have "pop_sections m (fold place_block (blocks_of ts) (put_section ?s b)) = fold put_section ts (put_section ?s b)"
      using 3(4-7) by (intro 3(2) ts) auto
    ultimately show ?thesis using step by simp
  qed
qed

lemma finish_pop: "finish_sections (pop_sections m b) = finish_sections b"
proof (induction m b rule: pop_sections.induct)
  case (1 m b)
  show ?case
  proof (cases "\<exists>f fs. bd_stack b = f # fs \<and> m \<le> fr_level f")
    case True
    then obtain f fs where f: "bd_stack b = f # fs" "m \<le> fr_level f" by blast
    have "finish_sections (put_section (closed_frame f) (b\<lparr>bd_stack := fs\<rparr>)) = finish_sections b"
      by (cases fs) (simp_all add: finish_sections_def put_section_def f(1))
    with 1 [OF f] f show ?thesis by (simp add: pop_closes)
  next
    case False
    then have "pop_sections m b = b" by (intro pop_stops) (cases "bd_stack b"; auto)
    then show ?thesis by simp
  qed
qed

lemma put_sections_out: "fold put_section ts \<lparr>bd_out = out, bd_stack = []\<rparr> = \<lparr>bd_out = out @ ts, bd_stack = []\<rparr>"
  by (induction ts arbitrary: out) (simp_all add: put_section_def)

lemma sections_rebuild:
  assumes "sectioned None None 1 ts"
  shows "sections_of (blocks_of ts) = ts"
proof -
  let ?b = "\<lparr>bd_out = [], bd_stack = []\<rparr>"
  define m where "m = Min (insert 0 (section_levels ts))"
  have "pop_sections m (fold place_block (blocks_of ts) ?b) = fold put_section ts ?b"
    using assms by (rule blocks_rebuild) (simp_all add: m_def)
  then have "finish_sections (fold place_block (blocks_of ts) ?b) = finish_sections \<lparr>bd_out = ts, bd_stack = []\<rparr>"
    using finish_pop [of m "fold place_block (blocks_of ts) ?b"] by (simp add: put_sections_out)
  then show ?thesis by (simp add: sections_of_def finish_sections_def)
qed

lemma add_bare: "place_block (bare_block k) b = place_block k b"
  by (cases k) (simp_all add: attach_node_def push_heading_def bare_def)

text \<open>
  C35: The outline of a document. Whatever headings and other blocks a parser meets, the forest it builds lists
  them all in document order; below a heading first stand the blocks without a heading of their own and
  then only headings of greater level, each at least as high in rank as the next; depths count from one.
  And it is the only forest with these properties.
\<close>

theorem sections_unique:
  "ts = sections_of bs \<longleftrightarrow> blocks_of ts = map bare_block bs \<and> sectioned None None 1 ts"
proof
  assume "blocks_of ts = map bare_block bs \<and> sectioned None None 1 ts"
  then have "ts = sections_of (map bare_block bs)" using sections_rebuild by metis
  moreover have "fold place_block (map bare_block bs) b = fold place_block bs b" for b
    by (induction bs arbitrary: b) (simp_all add: add_bare)
  ultimately show "ts = sections_of bs" by (simp add: sections_of_def)
qed (simp add: sections_of_blocks sections_of_sectioned)

end
