(* ===== verification/Parse_Mathml.thy ===== *)
theory Parse_Mathml
  imports Go_Strings
begin

text \<open>
  MathML to LaTeX (\<open>pkg/parser/mathml.go\<close>), over the trees of the HTML parser, which is a library: an
  element with its name and attributes, a text, or a node of another kind. \<open>None\<close> is the answer that there
  is no LaTeX form.
\<close>

datatype html =
    HText bytes
  | HElem bytes "(bytes \<times> bytes) list" "html list"
  | HComment bytes
  | HOther "html list"

definition get_attr :: "(bytes \<times> bytes) list \<Rightarrow> bytes \<Rightarrow> bytes" where
  "get_attr as key = (case map_of as key of None \<Rightarrow> [] | Some v \<Rightarrow> v)"

subsection \<open>Tables\<close>

definition esc :: "bytes \<Rightarrow> bytes" where "esc s = byte 92 # s"

definition unicode_latex :: "(bytes \<times> bytes) list" where
  "unicode_latex = map (\<lambda>(b, s). ([byte 0xE2, byte 0x88, byte b], esc s))
     [(0x91, ''sum''), (0x8F, ''prod''), (0xAB, ''int''), (0xAC, ''iint''), (0xAD, ''iiint''), (0xAE, ''oint'')]"

definition function_latex :: "(bytes \<times> bytes) list" where
  "function_latex = map (\<lambda>s. (s, esc s)) [''lim'', ''inf'', ''sup'', ''min'', ''max'']"

definition limit_operators :: "bytes list" where
  "limit_operators = map esc [''sum'', ''prod'', ''int'', ''iint'', ''iiint'', ''oint'', ''lim'', ''inf'', ''sup'', ''min'', ''max'']"

definition latex_special :: bytes where "latex_special = ''{}'' @ byte 92 # ''$&%#_^''"

definition matrix_column_separator :: bytes where "matrix_column_separator = '' & ''"
definition matrix_row_separator :: bytes where "matrix_row_separator = '' '' @ [byte 92, byte 92] @ '' ''"

definition replacement_rune :: bytes where "replacement_rune = [byte 0xEF, byte 0xBF, byte 0xBD]"

text \<open>A loop over the runes of a string; an invalid byte is written as the replacement rune.\<close>

definition first_rune :: "bytes \<Rightarrow> bytes" where
  "first_rune s = (if code (hd s) < 0x80 \<or> multibyte_at s then take (rune_width s) s else replacement_rune)"

function map_runes :: "bytes \<Rightarrow> bytes" where
  "map_runes [] = []"
| "map_runes (c # cs) =
     (case find (\<lambda>(r, _). has_prefix (c # cs) r) unicode_latex of
        Some (_, l) \<Rightarrow> l
      | None \<Rightarrow> first_rune (c # cs)) @ map_runes (drop (rune_width (c # cs)) (c # cs))"
  by pat_completeness auto
termination
proof (relation "measure length", goal_cases)
  case (2 c cs)
  show ?case using rune_width_pos [of "c # cs"] by (simp del: rune_width_pos)
qed simp

definition is_ascii_letter :: "char \<Rightarrow> bool" where
  "is_ascii_letter c \<longleftrightarrow> is_lower c \<or> is_upper c"

definition is_simple_atom :: "bytes \<Rightarrow> bool" where
  "is_simple_atom s \<longleftrightarrow> s \<noteq> [] \<and> (rune_width s = length s \<or> (hd s = byte 92 \<and> list_all is_ascii_letter (tl s)))"

definition braced :: "bytes \<Rightarrow> bytes" where "braced s = ''{'' @ s @ ''}''"

definition wrap_atom :: "bytes \<Rightarrow> bytes" where
  "wrap_atom s = (if is_simple_atom s then s else braced s)"

subsection \<open>Leaves\<close>

fun collect_text :: "html list \<Rightarrow> bytes" where
  "collect_text [] = []"
| "collect_text (HText s # ns) = s @ collect_text ns"
| "collect_text (HElem t as ks # ns) = collect_text ks @ collect_text ns"
| "collect_text (HComment s # ns) = collect_text ns"
| "collect_text (HOther ks # ns) = collect_text ks @ collect_text ns"

definition leaf_text :: "html list \<Rightarrow> bytes" where
  "leaf_text ks = trim_space (collect_text ks)"

definition convert_ident :: "html list \<Rightarrow> bytes option" where
  "convert_ident ks =
     (let raw = leaf_text ks
      in if raw = [] then Some [] else case map_of function_latex raw of Some f \<Rightarrow> Some f | None \<Rightarrow> Some (map_runes raw))"

definition convert_number :: "html list \<Rightarrow> bytes option" where
  "convert_number ks = Some (leaf_text ks)"

definition convert_op :: "html list \<Rightarrow> bytes option" where
  "convert_op ks = (let raw = leaf_text ks in if raw = [] then Some [] else Some (map_runes raw))"

definition convert_textual :: "bytes \<Rightarrow> bytes \<Rightarrow> html list \<Rightarrow> bytes option" where
  "convert_textual open_wrap close_wrap ks =
     (let s = leaf_text ks
      in if s = [] then Some [] else if list_ex (\<lambda>c. c \<in> set latex_special) s then None
         else Some (open_wrap @ s @ close_wrap))"

definition convert_string :: "html list \<Rightarrow> bytes option" where
  "convert_string = convert_textual (esc ''text{'' @ [CHR 0x22]) (CHR 0x22 # ''}'')"

definition convert_text :: "html list \<Rightarrow> bytes option" where
  "convert_text = convert_textual (esc ''text{'') ''}''"

subsection \<open>Layout\<close>

text \<open>
  What a construct makes of the converted element children; a child without a LaTeX form, or a wrong number
  of children, leaves the construct without one.
\<close>

definition two_parts :: "(bytes \<Rightarrow> bytes \<Rightarrow> bytes) \<Rightarrow> bytes option list \<Rightarrow> bytes option" where
  "two_parts f ps = (case ps of [Some a, Some b] \<Rightarrow> Some (f a b) | _ \<Rightarrow> None)"

definition three_parts :: "(bytes \<Rightarrow> bytes \<Rightarrow> bytes \<Rightarrow> bytes) \<Rightarrow> bytes option list \<Rightarrow> bytes option" where
  "three_parts f ps = (case ps of [Some a, Some b, Some c] \<Rightarrow> Some (f a b c) | _ \<Rightarrow> None)"

fun all_parts :: "bytes option list \<Rightarrow> bytes list option" where
  "all_parts [] = Some []"
| "all_parts (None # ps) = None"
| "all_parts (Some a # ps) = map_option (\<lambda>as. a # as) (all_parts ps)"

definition convert_frac :: "bytes option list \<Rightarrow> bytes option" where
  "convert_frac = two_parts (\<lambda>num den. esc ''frac'' @ braced num @ braced den)"

definition convert_root :: "bytes option list \<Rightarrow> bytes option" where
  "convert_root = two_parts (\<lambda>radicand index. esc ''sqrt['' @ index @ '']'' @ braced radicand)"

definition convert_sub :: "bytes option list \<Rightarrow> bytes option" where
  "convert_sub = two_parts (\<lambda>base sub. wrap_atom base @ ''_'' @ braced sub)"

definition convert_sup :: "bytes option list \<Rightarrow> bytes option" where
  "convert_sup = two_parts (\<lambda>base sup. wrap_atom base @ ''^'' @ braced sup)"

definition convert_subsup :: "bytes option list \<Rightarrow> bytes option" where
  "convert_subsup = three_parts (\<lambda>base sub sup. wrap_atom base @ ''_'' @ braced sub @ ''^'' @ braced sup)"

definition convert_stacked :: "bytes \<Rightarrow> bytes \<Rightarrow> bytes option list \<Rightarrow> bytes option" where
  "convert_stacked position cmd = two_parts (\<lambda>base mark.
     if base \<in> set limit_operators then base @ position @ braced mark else cmd @ braced mark @ braced base)"

definition convert_under :: "bytes option list \<Rightarrow> bytes option" where
  "convert_under = convert_stacked ''_'' (esc ''underset'')"

definition convert_over :: "bytes option list \<Rightarrow> bytes option" where
  "convert_over = convert_stacked ''^'' (esc ''overset'')"

definition convert_underover :: "bytes option list \<Rightarrow> bytes option" where
  "convert_underover = three_parts (\<lambda>base under over.
     if base \<in> set limit_operators then base @ ''_'' @ braced under @ ''^'' @ braced over
     else esc ''underset'' @ braced under @ ''{'' @ esc ''overset'' @ braced over @ braced base @ ''}'')"

definition attr_or :: "(bytes \<times> bytes) list \<Rightarrow> bytes \<Rightarrow> bytes \<Rightarrow> bytes" where
  "attr_or as key dflt = (let v = get_attr as key in if v = [] then dflt else v)"

definition convert_fenced :: "(bytes \<times> bytes) list \<Rightarrow> bytes option list \<Rightarrow> bytes option" where
  "convert_fenced as ps =
     map_option (\<lambda>parts. esc ''left'' @ attr_or as ''open'' ''('' @
         join_with (first_rune (attr_or as ''separators'' '','') @ '' '') parts @ esc ''right'' @ attr_or as ''close'' '')'')
       (all_parts ps)"

definition in_command :: "bytes \<Rightarrow> bytes option \<Rightarrow> bytes option" where
  "in_command cmd inner = map_option (\<lambda>s. esc cmd @ braced s) inner"

definition convert_sqrt :: "bytes option \<Rightarrow> bytes option" where
  "convert_sqrt = in_command ''sqrt''"

definition convert_phantom :: "bytes option \<Rightarrow> bytes option" where
  "convert_phantom = in_command ''phantom''"

definition convert_enclose :: "bytes option \<Rightarrow> bytes option" where
  "convert_enclose = in_command ''boxed''"

definition convert_tr :: "bytes list option \<Rightarrow> bytes option" where
  "convert_tr cells = map_option (join_with matrix_column_separator) cells"

definition convert_table :: "bytes list option \<Rightarrow> bytes option" where
  "convert_table rows = map_option (\<lambda>rows. esc ''begin{matrix} '' @ join_with matrix_row_separator rows
     @ '' '' @ esc ''end{matrix}'') rows"

text \<open>A text child counts when it is not blank, an element child when its form is not empty.\<close>

definition join_parts :: "bytes list option \<Rightarrow> bytes option" where
  "join_parts ps = map_option (join_with '' '') ps"

fun convert :: "html \<Rightarrow> bytes option"
  and convert_elems :: "html list \<Rightarrow> bytes option list"
  and convert_parts :: "html list \<Rightarrow> bytes list option"
  and convert_semantics :: "html list \<Rightarrow> bytes option"
  and convert_rows :: "html list \<Rightarrow> bytes list option"
  and convert_cells :: "html list \<Rightarrow> bytes list option" where
  "convert (HText s) = Some (trim_space s)"
| "convert (HComment s) = Some []"
| "convert (HOther ks) = Some []"
| "convert (HElem t as ks) =
     (let name = to_lower t
      in if name \<in> {''math'', ''mrow'', ''mpadded'', ''mstyle'', ''maction''} then join_parts (convert_parts ks)
         else if name = ''mi'' then convert_ident ks
         else if name = ''mn'' then convert_number ks
         else if name = ''mo'' then convert_op ks
         else if name = ''ms'' then convert_string ks
         else if name = ''mtext'' then convert_text ks
         else if name = ''mspace'' then Some (esc '','')
         else if name = ''mfrac'' then convert_frac (convert_elems ks)
         else if name = ''msqrt'' then convert_sqrt (join_parts (convert_parts ks))
         else if name = ''mroot'' then convert_root (convert_elems ks)
         else if name = ''msup'' then convert_sup (convert_elems ks)
         else if name = ''msub'' then convert_sub (convert_elems ks)
         else if name = ''msubsup'' then convert_subsup (convert_elems ks)
         else if name = ''mover'' then convert_over (convert_elems ks)
         else if name = ''munder'' then convert_under (convert_elems ks)
         else if name = ''munderover'' then convert_underover (convert_elems ks)
         else if name = ''mfenced'' then convert_fenced as (convert_elems ks)
         else if name = ''mtable'' then convert_table (convert_rows ks)
         else if name = ''mtr'' then convert_tr (convert_cells ks)
         else if name = ''mtd'' then join_parts (convert_parts ks)
         else if name = ''mphantom'' then convert_phantom (join_parts (convert_parts ks))
         else if name = ''menclose'' then convert_enclose (join_parts (convert_parts ks))
         else if name = ''semantics'' then convert_semantics ks
         else None)"
| "convert_elems [] = []"
| "convert_elems (n # ns) = (case n of HElem t as ks \<Rightarrow> convert n # convert_elems ns | _ \<Rightarrow> convert_elems ns)"
| "convert_parts [] = Some []"
| "convert_parts (n # ns) =
     (case n of
        HText s \<Rightarrow> map_option (\<lambda>ps. if trim_space s = [] then ps else trim_space s # ps) (convert_parts ns)
      | HElem t as ks \<Rightarrow>
          (case convert n of
             None \<Rightarrow> None
           | Some s \<Rightarrow> map_option (\<lambda>ps. if s = [] then ps else s # ps) (convert_parts ns))
      | _ \<Rightarrow> convert_parts ns)"
| "convert_semantics [] = None"
| "convert_semantics (n # ns) =
     (case n of
        HElem t as ks \<Rightarrow> if to_lower t \<in> {''annotation'', ''annotation-xml''} then convert_semantics ns else convert n
      | _ \<Rightarrow> convert_semantics ns)"
| "convert_rows [] = Some []"
| "convert_rows (n # ns) =
     (case n of
        HElem t as ks \<Rightarrow>
          if to_lower t \<noteq> ''mtr'' then None
          else (case convert_tr (convert_cells ks) of
              None \<Rightarrow> None
            | Some row \<Rightarrow> map_option (\<lambda>rows. row # rows) (convert_rows ns))
      | _ \<Rightarrow> convert_rows ns)"
| "convert_cells [] = Some []"
| "convert_cells (n # ns) =
     (case n of
        HElem t as ks \<Rightarrow>
          if to_lower t \<noteq> ''mtd'' then None
          else (case join_parts (convert_parts ks) of
              None \<Rightarrow> None
            | Some cell \<Rightarrow> map_option (\<lambda>cells. cell # cells) (convert_cells ns))
      | _ \<Rightarrow> convert_cells ns)"

definition mathml_to_latex :: "html \<Rightarrow> bytes option" where
  "mathml_to_latex n = convert n"

text \<open>
  The fraction is computed in floating point; its rounding does not change the comparison, as lengths are
  far below \<open>2 ^ 45\<close>.
\<close>

definition savings_threshold :: real where "savings_threshold = 15 / 100"

definition beats_xml :: "bytes \<Rightarrow> bytes \<Rightarrow> bool" where
  "beats_xml xml latex \<longleftrightarrow> xml \<noteq> []
     \<and> savings_threshold \<le> (real (length xml) - real (length latex)) / real (length xml)"


subsection \<open>Braces\<close>

text \<open>
  The nesting of braces after reading a LaTeX text from nesting \<open>d\<close>; a backslash takes the next byte out of
  the count. \<open>None\<close>: a group is closed that is not open, or the text ends in a backslash.
\<close>

fun brace_depth :: "nat \<Rightarrow> bytes \<Rightarrow> nat option" where
  "brace_depth d [] = Some d"
| "brace_depth d [c] =
     (if c = byte 92 then None else if c = CHR ''{'' then Some (Suc d)
      else if c = CHR ''}'' then (if d = 0 then None else Some (d - 1)) else Some d)"
| "brace_depth d (c # c' # s) =
     (if c = byte 92 then brace_depth d s else if c = CHR ''{'' then brace_depth (Suc d) (c' # s)
      else if c = CHR ''}'' then (if d = 0 then None else brace_depth (d - 1) (c' # s)) else brace_depth d (c' # s))"

definition braces_balanced :: "bytes \<Rightarrow> bool" where
  "braces_balanced s \<longleftrightarrow> brace_depth 0 s = Some 0"

definition plain_char :: "char \<Rightarrow> bool" where
  "plain_char c \<longleftrightarrow> c \<noteq> byte 92 \<and> c \<noteq> CHR ''{'' \<and> c \<noteq> CHR ''}''"

definition plain_text :: "bytes \<Rightarrow> bool" where
  "plain_text s \<longleftrightarrow> list_all plain_char s"

text \<open>No text and no attribute below the node has a brace or a backslash.\<close>

fun plain_nodes :: "html list \<Rightarrow> bool" where
  "plain_nodes [] = True"
| "plain_nodes (HText s # ns) = (plain_text s \<and> plain_nodes ns)"
| "plain_nodes (HElem t as ks # ns) = (list_all (\<lambda>a. plain_text (snd a)) as \<and> plain_nodes ks \<and> plain_nodes ns)"
| "plain_nodes (HComment s # ns) = plain_nodes ns"
| "plain_nodes (HOther ks # ns) = (plain_nodes ks \<and> plain_nodes ns)"

text \<open>A text that leaves the nesting as it is, whatever follows.\<close>

definition neutral :: "bytes \<Rightarrow> bool" where
  "neutral s \<longleftrightarrow> (\<forall>d t. brace_depth d (s @ t) = brace_depth d t)"

lemma neutral_balanced: "neutral s \<Longrightarrow> braces_balanced s"
  using append_Nil2 [of s] by (metis brace_depth.simps(1) braces_balanced_def neutral_def)

lemma neutral_Nil [simp]: "neutral []" by (simp add: neutral_def)

lemma neutral_append [simp]: "neutral a \<Longrightarrow> neutral b \<Longrightarrow> neutral (a @ b)"
  by (simp add: neutral_def)

lemma neutral_plain_Cons: "plain_char c \<Longrightarrow> neutral s \<Longrightarrow> neutral (c # s)"
  unfolding neutral_def plain_char_def
proof (intro allI)
  fix d t assume "c \<noteq> byte 92 \<and> c \<noteq> CHR ''{'' \<and> c \<noteq> CHR ''}''" "\<forall>d t. brace_depth d (s @ t) = brace_depth d t"
  then show "brace_depth d ((c # s) @ t) = brace_depth d t" by (cases "s @ t") (auto, metis brace_depth.simps(1) append_Nil2)
qed

lemma neutral_plain: "plain_text s \<Longrightarrow> neutral s"
  by (induction s) (simp_all add: plain_text_def neutral_plain_Cons)

lemma neutral_escaped: "neutral s \<Longrightarrow> neutral (byte 92 # c # s)"
  by (simp add: neutral_def)

lemma neutral_braced [simp]:
  assumes "neutral s"
  shows "neutral (braced s)"
  unfolding neutral_def braced_def
proof (intro allI)
  fix d t
  have b: "CHR ''{'' \<noteq> byte 92" "CHR ''}'' \<noteq> byte 92" by code_simp+
  have "brace_depth d (CHR ''{'' # u) = brace_depth (Suc d) u" for u using b by (cases u) simp_all
  moreover have "brace_depth (Suc d) (CHR ''}'' # t) = brace_depth d t" using b by (cases t) simp_all
  moreover have "brace_depth (Suc d) (s @ CHR ''}'' # t) = brace_depth (Suc d) (CHR ''}'' # t)"
    using assms unfolding neutral_def by blast
  ultimately show "brace_depth d ((''{'' @ s @ ''}'') @ t) = brace_depth d t" by simp
qed

lemma neutral_esc [simp]: "w \<noteq> [] \<Longrightarrow> plain_text w \<Longrightarrow> neutral (esc w)"
  by (cases w) (auto simp: esc_def neutral_plain plain_text_def intro: neutral_escaped)

lemma plain_text_code: "plain_text s \<longleftrightarrow> list_all (\<lambda>c. c \<noteq> byte 92 \<and> c \<noteq> CHR ''{'' \<and> c \<noteq> CHR ''}'') s"
  by (simp add: plain_text_def plain_char_def [abs_def])

lemma byte_backslash: "byte 92 = CHR 0x5C"
  by code_simp

lemma plain_words [simp]:
  "list_all (\<lambda>w. plain_text w \<and> w \<noteq> []) [''frac'', ''sqrt'', ''phantom'', ''boxed'', ''text'', ''left'', ''right'', ''begin'',
     ''end'', ''matrix'', ''underset'', ''overset'', '','', ''sqrt['', '']'', ''('', '')'', ''_'', ''^'', [CHR 0x22], '' '',
     '' & '', ''sum'', ''prod'', ''int'', ''iint'', ''iiint'', ''oint'', ''lim'', ''inf'', ''sup'', ''min'', ''max'']"
  by (simp add: plain_text_def plain_char_def byte_backslash)

lemma neutral_words [simp]:
  "neutral ''('' " "neutral '')''" "neutral ''_''" "neutral ''^''" "neutral '' ''" "neutral [CHR 0x22]" "neutral '']''"
  using plain_words by (simp_all add: neutral_plain)

lemma plain_append [simp]: "plain_text (a @ b) \<longleftrightarrow> plain_text a \<and> plain_text b"
  by (simp add: plain_text_def)

lemma plain_Nil [simp]: "plain_text []"
  by (simp add: plain_text_def)

lemma plain_take [simp]: "plain_text s \<Longrightarrow> plain_text (take n s)"
  and plain_drop [simp]: "plain_text s \<Longrightarrow> plain_text (drop n s)"
  by (auto simp: plain_text_def list_all_iff dest: in_set_takeD in_set_dropD)

lemma plain_trim [simp]: "plain_text s \<Longrightarrow> plain_text (trim_space s)"
  using set_trim_space [of s] by (auto simp: plain_text_def list_all_iff)

lemma plain_collect: "plain_nodes ks \<Longrightarrow> plain_text (collect_text ks)"
  by (induction ks rule: collect_text.induct) simp_all

lemma plain_leaf: "plain_nodes ks \<Longrightarrow> plain_text (leaf_text ks)"
  by (simp add: leaf_text_def plain_collect)

lemma plain_replacement: "plain_text replacement_rune"
  by code_simp

lemma plain_first_rune: "plain_text s \<Longrightarrow> plain_text (first_rune s)"
  by (simp add: first_rune_def plain_replacement)

lemma neutral_unicode: "list_all (\<lambda>(r, l). neutral l) unicode_latex"
  using plain_words by (simp add: unicode_latex_def)

lemma neutral_map_runes: "plain_text s \<Longrightarrow> neutral (map_runes s)"
proof (induction s rule: map_runes.induct)
  case (2 c cs)
  have "plain_text (drop (rune_width (c # cs)) (c # cs))" using 2(2) by (rule plain_drop)
  note rest = 2(1) [OF this]
  have "neutral l" if "find (\<lambda>(r, _). has_prefix (c # cs) r) unicode_latex = Some (r, l)" for r l
    using that neutral_unicode by (fastforce simp: find_Some_iff list_all_iff dest: nth_mem)
  then show ?case using rest neutral_plain [OF plain_first_rune [OF 2(2)]]
    by (auto split: option.splits)
qed simp

lemma neutral_function: "map_of function_latex w = Some l \<Longrightarrow> neutral l"
proof -
  have "list_all (\<lambda>(r, l). neutral l) function_latex" using plain_words by (simp add: function_latex_def)
  then show "map_of function_latex w = Some l \<Longrightarrow> neutral l" by (auto simp: list_all_iff dest: map_of_SomeD)
qed

lemma neutral_literal [simp]:
  "neutral s \<Longrightarrow> neutral (CHR ''_'' # s)" "neutral s \<Longrightarrow> neutral (CHR ''^'' # s)" "neutral s \<Longrightarrow> neutral (CHR '']'' # s)"
  using plain_words by (auto simp: plain_text_def intro: neutral_plain_Cons)

lemma neutral_join: "neutral sep \<Longrightarrow> list_all neutral ws \<Longrightarrow> neutral (join_with sep ws)"
  by (induction sep ws rule: join_with.induct) simp_all

lemma neutral_wrap [simp]: "neutral s \<Longrightarrow> neutral (wrap_atom s)"
  by (simp add: wrap_atom_def)

text \<open>Every construct keeps the nesting when its parts do.\<close>

lemma two_parts_neutral:
  "two_parts f ps = Some s \<Longrightarrow> (\<And>a. Some a \<in> set ps \<Longrightarrow> neutral a)
    \<Longrightarrow> (\<And>a b. neutral a \<Longrightarrow> neutral b \<Longrightarrow> neutral (f a b)) \<Longrightarrow> neutral s"
  by (auto simp: two_parts_def split: list.splits option.splits)

lemma three_parts_neutral:
  "three_parts f ps = Some s \<Longrightarrow> (\<And>a. Some a \<in> set ps \<Longrightarrow> neutral a)
    \<Longrightarrow> (\<And>a b c. neutral a \<Longrightarrow> neutral b \<Longrightarrow> neutral c \<Longrightarrow> neutral (f a b c)) \<Longrightarrow> neutral s"
  by (auto simp: three_parts_def split: list.splits option.splits)

lemma all_parts_set: "all_parts ps = Some as \<Longrightarrow> a \<in> set as \<Longrightarrow> Some a \<in> set ps"
  by (induction ps arbitrary: as rule: all_parts.induct) auto

lemma esc_braced: "w \<noteq> [] \<Longrightarrow> plain_text w \<Longrightarrow> neutral s \<Longrightarrow> neutral (esc w @ braced s)"
  by simp

lemma latex_plain: "\<not> list_ex (\<lambda>c. c \<in> set latex_special) s \<Longrightarrow> plain_text s"
  by (auto simp: latex_special_def plain_text_def plain_char_def list_all_iff list_ex_iff)

lemma neutral_text: "convert_text ks = Some s \<Longrightarrow> neutral s"
proof -
  have e: "esc ''text{'' @ t @ ''}'' = esc ''text'' @ braced t" for t by (simp add: esc_def braced_def)
  show "convert_text ks = Some s \<Longrightarrow> neutral s"
    using latex_plain neutral_plain plain_words unfolding convert_text_def convert_textual_def Let_def e
    by (auto split: if_splits intro!: esc_braced)
qed

lemma neutral_string: "convert_string ks = Some s \<Longrightarrow> neutral s"
proof -
  have q: "(esc ''text{'' @ [CHR 0x22]) @ t @ CHR 0x22 # ''}'' = esc ''text'' @ braced ([CHR 0x22] @ t @ [CHR 0x22])" for t
    by (simp add: esc_def braced_def)
  have "neutral (esc ''text'' @ braced ([CHR 0x22] @ t @ [CHR 0x22]))" if "neutral t" for t
    by (intro esc_braced neutral_append that neutral_words) (use plain_words in simp_all)
  then show "convert_string ks = Some s \<Longrightarrow> neutral s"
    using latex_plain neutral_plain unfolding convert_string_def convert_textual_def Let_def q by (auto split: if_splits)
qed

lemma neutral_constructs:
  assumes "\<And>a. Some a \<in> set ps \<Longrightarrow> neutral a"
  shows "convert_frac ps = Some s \<Longrightarrow> neutral s" "convert_root ps = Some s \<Longrightarrow> neutral s"
    "convert_sub ps = Some s \<Longrightarrow> neutral s" "convert_sup ps = Some s \<Longrightarrow> neutral s"
    "convert_subsup ps = Some s \<Longrightarrow> neutral s" "convert_under ps = Some s \<Longrightarrow> neutral s"
    "convert_over ps = Some s \<Longrightarrow> neutral s" "convert_underover ps = Some s \<Longrightarrow> neutral s"
proof -
  note two = two_parts_neutral [OF _ assms] and three = three_parts_neutral [OF _ assms]
  have w: "neutral (esc ''frac'')" "neutral (esc ''underset'')" "neutral (esc ''overset'')" "neutral (esc ''sqrt['')"
    using plain_words by simp_all
  show "convert_frac ps = Some s \<Longrightarrow> neutral s"
    unfolding convert_frac_def by (erule two) (use w in auto)
  show "convert_root ps = Some s \<Longrightarrow> neutral s"
    unfolding convert_root_def by (erule two) (use w in auto)
  show "convert_sub ps = Some s \<Longrightarrow> neutral s"
    unfolding convert_sub_def by (erule two) auto
  show "convert_sup ps = Some s \<Longrightarrow> neutral s"
    unfolding convert_sup_def by (erule two) auto
  show "convert_subsup ps = Some s \<Longrightarrow> neutral s"
    unfolding convert_subsup_def by (erule three) auto
  show "convert_under ps = Some s \<Longrightarrow> neutral s"
    unfolding convert_under_def convert_stacked_def by (erule two) (use w in auto)
  show "convert_over ps = Some s \<Longrightarrow> neutral s"
    unfolding convert_over_def convert_stacked_def by (erule two) (use w in auto)
  have "''{'' @ esc ''overset'' @ braced a @ braced b @ ''}'' = braced (esc ''overset'' @ braced a @ braced b)" for a b
    by (simp add: braced_def)
  then show "convert_underover ps = Some s \<Longrightarrow> neutral s"
    unfolding convert_underover_def
    by - (erule three, use w in auto)
qed

lemma neutral_fenced:
  assumes "\<And>a. Some a \<in> set ps \<Longrightarrow> neutral a" "list_all (\<lambda>a. plain_text (snd a)) as" "convert_fenced as ps = Some s"
  shows "neutral s"
proof -
  have "plain_text (get_attr as k)" for k
    using assms(2) by (force simp: get_attr_def list_all_iff split: option.splits dest: map_of_SomeD)
  then have attr: "plain_text (attr_or as k v)" if "plain_text v" for k v
    using that by (simp add: attr_or_def Let_def)
  have lits: "plain_text ''(''" "plain_text '')''" "plain_text '',''" "plain_text '' ''"
    "neutral (esc ''left'')" "neutral (esc ''right'')"
    using plain_words by simp_all
  then have sep: "neutral (first_rune (attr_or as ''separators'' '','') @ '' '')"
    using attr by (intro neutral_plain) (simp add: plain_first_rune)
  obtain parts where parts: "all_parts ps = Some parts"
    "s = esc ''left'' @ attr_or as ''open'' ''('' @ join_with (first_rune (attr_or as ''separators'' '','') @ '' '') parts
       @ esc ''right'' @ attr_or as ''close'' '')''"
    using assms(3) by (auto simp: convert_fenced_def)
  have "list_all neutral parts" using all_parts_set [OF parts(1)] assms(1) by (auto simp: list_all_iff)
  from neutral_join [OF sep this] show ?thesis
    unfolding parts(2) by (intro neutral_append lits(5,6) neutral_plain [OF attr [OF lits(1)]] neutral_plain [OF attr [OF lits(2)]])
qed

lemma neutral_command:
  "in_command cmd inner = Some s \<Longrightarrow> cmd \<noteq> [] \<Longrightarrow> plain_text cmd \<Longrightarrow> (\<And>t. inner = Some t \<Longrightarrow> neutral t) \<Longrightarrow> neutral s"
  by (auto simp: in_command_def)

lemma neutral_separators: "neutral matrix_column_separator" "neutral matrix_row_separator"
proof -
  show "neutral matrix_column_separator"
    using plain_words by (simp add: matrix_column_separator_def neutral_plain)
  have "neutral ('' '' @ (byte 92 # byte 92 # []) @ '' '')" by (intro neutral_append neutral_words neutral_escaped) simp
  then show "neutral matrix_row_separator" by (simp add: matrix_row_separator_def)
qed

lemma neutral_matrix:
  assumes "list_all neutral rows"
  shows "neutral (esc ''begin{matrix} '' @ join_with matrix_row_separator rows @ '' '' @ esc ''end{matrix}'')"
proof -
  have "esc ''begin{matrix} '' = (esc ''begin'' @ braced ''matrix'') @ '' ''" "esc ''end{matrix}'' = esc ''end'' @ braced ''matrix''"
    by (simp_all add: esc_def braced_def)
  moreover have "neutral (esc ''begin'' @ braced ''matrix'')" "neutral (esc ''end'' @ braced ''matrix'')"
    using plain_words by (simp_all add: neutral_plain)
  ultimately show ?thesis using neutral_join [OF neutral_separators(2) assms] neutral_words(5) by (metis neutral_append)
qed

lemma neutral_parts: "join_parts ps = Some s \<Longrightarrow> (\<And>as. ps = Some as \<Longrightarrow> list_all neutral as) \<Longrightarrow> neutral s"
  using neutral_join [OF neutral_words(5)] by (auto simp: join_parts_def)

lemma neutral_leaves:
  assumes "plain_nodes ks"
  shows "convert_ident ks = Some s \<Longrightarrow> neutral s" "convert_number ks = Some s \<Longrightarrow> neutral s" "convert_op ks = Some s \<Longrightarrow> neutral s"
  using plain_leaf [OF assms] neutral_map_runes neutral_function neutral_plain
  by (auto simp: convert_ident_def convert_number_def convert_op_def Let_def split: if_splits option.splits)

lemma plain_nodes_elem: "plain_nodes ns \<Longrightarrow> n \<in> set ns \<Longrightarrow> plain_nodes [n]"
  by (induction ns rule: plain_nodes.induct) auto

definition all_neutral :: "html list \<Rightarrow> bool" where
  "all_neutral ns \<longleftrightarrow> (\<forall>a. Some a \<in> set (convert_elems ns) \<longrightarrow> neutral a)
     \<and> (\<forall>ps. convert_parts ns = Some ps \<longrightarrow> list_all neutral ps) \<and> (\<forall>s. convert_semantics ns = Some s \<longrightarrow> neutral s)
     \<and> (\<forall>ps. convert_rows ns = Some ps \<longrightarrow> list_all neutral ps) \<and> (\<forall>ps. convert_cells ns = Some ps \<longrightarrow> list_all neutral ps)"

definition node_neutral :: "html \<Rightarrow> bool" where
  "node_neutral n \<longleftrightarrow> (\<forall>s. convert n = Some s \<longrightarrow> neutral s)
     \<and> (case n of HText s \<Rightarrow> plain_text s | HElem t as ks \<Rightarrow> all_neutral ks | _ \<Rightarrow> True)"

lemma neutral_cells: "all_neutral ns \<Longrightarrow> convert_tr (convert_cells ns) = Some s \<Longrightarrow> neutral s"
  by (auto simp: all_neutral_def neutral_join neutral_separators convert_tr_def)

lemma neutral_children: "all_neutral ns \<Longrightarrow> join_parts (convert_parts ns) = Some s \<Longrightarrow> neutral s"
  by (rule neutral_parts) (auto simp: all_neutral_def)

lemma all_neutralI:
  assumes "\<And>a. Some a \<in> set (convert_elems ns) \<Longrightarrow> neutral a"
    and "\<And>ps. convert_parts ns = Some ps \<Longrightarrow> list_all neutral ps" "\<And>s. convert_semantics ns = Some s \<Longrightarrow> neutral s"
    and "\<And>ps. convert_rows ns = Some ps \<Longrightarrow> list_all neutral ps" "\<And>ps. convert_cells ns = Some ps \<Longrightarrow> list_all neutral ps"
  shows "all_neutral ns"
  using assms by (simp add: all_neutral_def)

lemma all_neutralD:
  assumes "all_neutral ns"
  shows "Some a \<in> set (convert_elems ns) \<Longrightarrow> neutral a"
    "convert_parts ns = Some ps \<Longrightarrow> list_all neutral ps" "convert_semantics ns = Some s \<Longrightarrow> neutral s"
    "convert_rows ns = Some ps \<Longrightarrow> list_all neutral ps" "convert_cells ns = Some ps \<Longrightarrow> list_all neutral ps"
  using assms by (simp_all add: all_neutral_def)

lemma all_neutral_Cons:
  assumes n: "node_neutral n" and ns: "all_neutral ns"
  shows "all_neutral (n # ns)"
proof (cases n)
  case (HElem t as ks)
  note [simp del] = convert.simps(4)
  from n have s: "\<And>s. convert n = Some s \<Longrightarrow> neutral s" and ks: "all_neutral ks" by (simp_all add: node_neutral_def HElem)
  show ?thesis
  proof (rule all_neutralI)
    show "neutral a" if "Some a \<in> set (convert_elems (n # ns))" for a
      using that s [of a] all_neutralD(1) [OF ns, of a] by (auto simp: HElem)
    show "list_all neutral ps" if "convert_parts (n # ns) = Some ps" for ps
      using that s all_neutralD(2) [OF ns] by (auto simp: HElem split: option.splits if_splits)
    show "neutral a" if "convert_semantics (n # ns) = Some a" for a
      using that s [of a] all_neutralD(3) [OF ns, of a] by (auto simp: HElem split: if_splits)
    show "list_all neutral ps" if "convert_rows (n # ns) = Some ps" for ps
      using that neutral_cells [OF ks] all_neutralD(4) [OF ns] by (auto simp: HElem split: option.splits if_splits)
    show "list_all neutral ps" if "convert_cells (n # ns) = Some ps" for ps
      using that neutral_children [OF ks] all_neutralD(5) [OF ns] by (auto simp: HElem split: option.splits if_splits)
  qed
next
  case (HText s)
  with n ns show ?thesis by (auto simp: node_neutral_def all_neutral_def neutral_plain)
qed (use ns in \<open>auto simp: all_neutral_def\<close>)

definition keeps :: "bytes option \<Rightarrow> bool" where
  "keeps r \<longleftrightarrow> (\<forall>s. r = Some s \<longrightarrow> neutral s)"

lemma keepsI: "(\<And>s. r = Some s \<Longrightarrow> neutral s) \<Longrightarrow> keeps r"
  by (simp add: keeps_def)

lemma keeps_if: "keeps a \<Longrightarrow> keeps b \<Longrightarrow> keeps (if c then a else b)"
  by simp

lemma keeps_Some: "neutral s \<Longrightarrow> keeps (Some s)"
  and keeps_None: "keeps None"
  by (simp_all add: keeps_def)

lemma all_neutral_Nil: "all_neutral []"
  by (simp add: all_neutral_def)

lemma convert_elem_neutral:
  assumes "all_neutral ks" "plain_nodes ks" "list_all (\<lambda>a. plain_text (snd a)) as"
  shows "keeps (convert (HElem t as ks))"
proof -
  note elems = all_neutralD(1) [OF assms(1)]
  have commands: "keeps (in_command cmd (join_parts (convert_parts ks)))" if "cmd \<noteq> []" "plain_text cmd" for cmd
    using that neutral_command neutral_children [OF assms(1)] by (blast intro: keepsI)
  have words: "plain_text ''sqrt''" "plain_text ''phantom''" "plain_text ''boxed''" "neutral (esc '','')"
    using plain_words by simp_all
  have table: "keeps (convert_table (convert_rows ks))"
    unfolding convert_table_def by (rule keepsI) (use neutral_matrix all_neutralD(4) [OF assms(1)] in auto)
  have row: "keeps (convert_tr (convert_cells ks))"
    by (rule keepsI) (rule neutral_cells [OF assms(1)])
  have leaves: "keeps (convert_ident ks)" "keeps (convert_number ks)" "keeps (convert_op ks)"
    "keeps (convert_string ks)" "keeps (convert_text ks)"
    unfolding keeps_def using neutral_leaves [OF assms(2)] neutral_string neutral_text by blast+
  have layout: "keeps (convert_frac (convert_elems ks))" "keeps (convert_root (convert_elems ks))"
    "keeps (convert_sub (convert_elems ks))" "keeps (convert_sup (convert_elems ks))"
    "keeps (convert_subsup (convert_elems ks))" "keeps (convert_under (convert_elems ks))"
    "keeps (convert_over (convert_elems ks))" "keeps (convert_underover (convert_elems ks))"
    unfolding keeps_def using neutral_constructs [OF elems] by blast+
  have rest: "keeps (convert_fenced as (convert_elems ks))" "keeps (join_parts (convert_parts ks))" "keeps (convert_semantics ks)"
    unfolding keeps_def
    using neutral_fenced [OF elems assms(3)] neutral_children [OF assms(1)] all_neutralD(3) [OF assms(1)] by blast+
  show ?thesis
    unfolding convert.simps Let_def convert_sqrt_def convert_phantom_def convert_enclose_def
    by (intro keeps_if leaves layout rest commands table row words keeps_None keeps_Some) simp_all
qed

lemma node_neutral_plain: "plain_nodes [n] \<Longrightarrow> node_neutral n"
proof (induction n)
  case (HElem t as ks)
  have "all_neutral ns" if "\<forall>k\<in>set ns. node_neutral k" for ns
    using that by (induction ns) (simp_all add: all_neutral_Cons all_neutral_Nil)
  moreover have "plain_nodes [k]" if "k \<in> set ks" for k
    using HElem.prems that by (auto intro: plain_nodes_elem)
  ultimately have "all_neutral ks" using HElem.IH by blast
  then show ?case
    using convert_elem_neutral [of ks as t] HElem.prems by (simp add: node_neutral_def keeps_def del: convert.simps)
qed (simp_all add: node_neutral_def neutral_plain)

text \<open>
  C36: When no text and no attribute of a formula has a brace or a backslash, every group that its LaTeX form
  opens is closed, in the right order, with backslashes read as escapes.
\<close>

theorem latex_braces_balanced:
  "plain_nodes [n] \<Longrightarrow> mathml_to_latex n = Some s \<Longrightarrow> braces_balanced s"
  using node_neutral_plain [of n] neutral_balanced by (simp add: node_neutral_def mathml_to_latex_def)

definition sample_formula :: html where
  "sample_formula = HElem ''math'' [] [HElem ''mfrac'' [] [HElem ''mi'' [] [HText ''a''], HElem ''mn'' [] [HText ''2'']]]"

lemma replace_all_absent: "c \<notin> set s \<Longrightarrow> replace_all (c # cs) new s = s"
  by (induction s) (auto simp: has_prefix_def)

lemma to_lower_ascii:
  assumes "list_all (\<lambda>c. code c < 128) s"
  shows "to_lower s = ascii_lower s"
proof -
  have "code (byte 0xE2) = 0xE2" "code (byte 0xC4) = 0xC4" by code_simp+
  then have "byte 0xE2 \<notin> set s" "byte 0xC4 \<notin> set s" using assms by (auto simp: list_all_iff)
  then show ?thesis by (simp add: to_lower_def replace_all_absent)
qed

lemma sample_names: "to_lower ''math'' = ''math''" "to_lower ''mfrac'' = ''mfrac''" "to_lower ''mi'' = ''mi''" "to_lower ''mn'' = ''mn''"
proof -
  have "list_all (\<lambda>s. list_all (\<lambda>c. code c < 128) s \<and> ascii_lower s = s) [''math'', ''mfrac'', ''mi'', ''mn'']" by code_simp
  then show "to_lower ''math'' = ''math''" "to_lower ''mfrac'' = ''mfrac''" "to_lower ''mi'' = ''mi''" "to_lower ''mn'' = ''mn''"
    using to_lower_ascii by simp_all
qed

lemma trim_space_same: "leading_space s = None \<Longrightarrow> trailing_space s = None \<Longrightarrow> trim_space s = s"
  by (simp add: trim_space_def trim_left_space.simps [of s] trim_right_space.simps [of s])

lemma sample_spaces: "list_all (\<lambda>s. leading_space s = None \<and> trailing_space s = None) [''a'', ''2'']"
  by code_simp

lemma sample_texts: "trim_space ''a'' = ''a''" "trim_space ''2'' = ''2''"
  using sample_spaces by (simp_all add: trim_space_same)

lemma sample_rune: "find (\<lambda>(r, _). has_prefix ''a'' r) unicode_latex = None" "first_rune ''a'' = ''a''" "rune_width ''a'' = 1"
  by code_simp+

lemma sample_ident: "convert_ident [HText ''a''] = Some ''a''"
  by (simp add: convert_ident_def leaf_text_def sample_texts function_latex_def esc_def sample_rune Let_def)

lemma sample_formula_latex: "plain_nodes [sample_formula]"
  "mathml_to_latex sample_formula = Some (byte 92 # ''frac{a}{2}'')"
proof -
  show "plain_nodes [sample_formula]" by code_simp
  show "mathml_to_latex sample_formula = Some (byte 92 # ''frac{a}{2}'')"
    by (simp add: mathml_to_latex_def sample_formula_def sample_names sample_texts convert_frac_def two_parts_def
        sample_ident convert_number_def leaf_text_def join_parts_def esc_def braced_def Let_def)
qed

lemma latex_braces_balanced_witness: "braces_balanced (byte 92 # ''frac{a}{2}'')"
  by (rule latex_braces_balanced [OF sample_formula_latex])

end
