(* ===== verification/Parse_Html.thy ===== *)
theory Parse_Html
  imports Parse_Sections Parse_Mathml Text_Label
begin

text \<open>
  The HTML parser (\<open>pkg/parser/html.go\<close>), over the trees of the HTML library. Two functions of that library
  and \<open>strconv.ParseFloat\<close> are parameters: \<open>render\<close> writes a tree back as HTML, and may fail, and \<open>pf\<close>
  reads a number. \<open>DataAtom\<close> is the name of a known tag, so comparing it is comparing the name.
\<close>

subsection \<open>White space\<close>

definition br_sentinel :: "char" where "br_sentinel = byte 1"

text \<open>The state is the output so far, \<open>pendingSpace\<close> and \<open>afterBreak\<close>.\<close>

function normalize_loop :: "bytes \<Rightarrow> bool \<Rightarrow> bool \<Rightarrow> bytes \<Rightarrow> bytes" where
  "normalize_loop out pending after [] = out"
| "normalize_loop out pending after (c # cs) =
     (if c = br_sentinel then normalize_loop (out @ [nl]) False True cs
      else case leading_space (c # cs) of
        Some n \<Rightarrow> normalize_loop out (if after then pending else True) after (drop n (c # cs))
      | None \<Rightarrow>
          normalize_loop ((if pending \<and> out \<noteq> [] then out @ '' '' else out) @ first_rune (c # cs)) False False
            (drop (rune_width (c # cs)) (c # cs)))"
  by pat_completeness auto
termination
proof (relation "measure (\<lambda>(out, pending, after, s). length s)", goal_cases)
  case (3 out pending after c cs)
  show ?case using rune_width_pos [of "c # cs"] by (simp del: rune_width_pos)
qed (auto dest: leading_space_bounds)

definition normalize_whitespace :: "bytes \<Rightarrow> bytes" where
  "normalize_whitespace s = trim_space (normalize_loop [] False False s)"

subsection \<open>Inline text\<close>

fun write_literal :: "html \<Rightarrow> bytes" where
  "write_literal (HText s) = s"
| "write_literal (HElem t as ks) =
     (if t \<in> {''script'', ''style''} then [] else concat (map write_literal ks))"
| "write_literal (HComment s) = []"
| "write_literal (HOther ks) = concat (map write_literal ks)"

definition write_image :: "(bytes \<times> bytes) list \<Rightarrow> bytes" where
  "write_image as = ''!['' @ get_attr as ''alt'' @ '']('' @ get_attr as ''src'' @ '')''"

definition write_link :: "(bytes \<times> bytes) list \<Rightarrow> bytes \<times> wikilink_ref list \<Rightarrow> bytes \<times> wikilink_ref list" where
  "write_link as r = (''['' @ fst r @ '']('' @ get_attr as ''href'' @ '')'', snd r)"

definition write_knowledge :: "(bytes \<Rightarrow> real option) \<Rightarrow> html \<Rightarrow> (bytes \<times> bytes) list \<Rightarrow> bytes \<times> wikilink_ref list" where
  "write_knowledge pf n as =
     (let label = trim_space (write_literal n)
      in if label = [] then ([], [])
         else
           let weight = (if get_attr as ''weight'' = [] then None else pf (get_attr as ''weight''));
               r1 = (case weight of None \<Rightarrow> with_label label | Some f \<Rightarrow> with_label label\<lparr>ref_weight := f\<rparr>);
               r2 = (if get_attr as ''source'' = [] then r1 else r1\<lparr>ref_source := get_attr as ''source''\<rparr>);
               r3 = (if get_attr as ''id'' = [] then r2 else r2\<lparr>ref_id_hint := get_attr as ''id''\<rparr>)
           in (''[['' @ label @ '']]'', [r3]))"

text \<open>What is appended to the text and to the references.\<close>

fun write_inline :: "(bytes \<Rightarrow> real option) \<Rightarrow> html \<Rightarrow> bytes \<times> wikilink_ref list"
  and write_inlines :: "(bytes \<Rightarrow> real option) \<Rightarrow> html list \<Rightarrow> bytes \<times> wikilink_ref list" where
  "write_inline pf (HText s) = extract_wikilinks pf s"
| "write_inline pf (HElem t as ks) =
     (if t \<in> {''script'', ''style''} then ([], [])
      else if t = ''br'' then ([br_sentinel], [])
      else if t = ''a'' then write_link as (write_inlines pf ks)
      else if t = ''img'' then (write_image as, [])
      else if t = ''code'' then (write_literal (HElem t as ks), [])
      else if t = ''knowledge'' then write_knowledge pf (HElem t as ks) as
      else write_inlines pf ks)"
| "write_inline pf (HComment s) = ([], [])"
| "write_inline pf (HOther ks) = write_inlines pf ks"
| "write_inlines pf [] = ([], [])"
| "write_inlines pf (n # ns) =
     (case write_inline pf n of (s, rs) \<Rightarrow> case write_inlines pf ns of (s', rs') \<Rightarrow> (s @ s', rs @ rs'))"

definition inline_text :: "(bytes \<Rightarrow> real option) \<Rightarrow> html \<Rightarrow> bytes \<times> wikilink_ref list" where
  "inline_text pf n = (case write_inline pf n of (s, rs) \<Rightarrow> (normalize_whitespace s, rs))"

subsection \<open>Lists and tables\<close>

definition is_list_tag :: "bytes \<Rightarrow> bool" where
  "is_list_tag t \<longleftrightarrow> t \<in> {''ul'', ''ol'', ''dl''}"

text \<open>The part of an item that is not a nested list.\<close>

fun is_nested_list :: "html \<Rightarrow> bool" where
  "is_nested_list (HElem t as ks) = is_list_tag t"
| "is_nested_list n = False"

definition item_text :: "(bytes \<Rightarrow> real option) \<Rightarrow> html list \<Rightarrow> bytes \<times> wikilink_ref list" where
  "item_text pf ks =
     (case write_inlines pf (filter (\<lambda>k. \<not> is_nested_list k) ks) of (s, rs) \<Rightarrow> (normalize_whitespace s, rs))"

definition item_line :: "bytes \<Rightarrow> bytes \<times> wikilink_ref list \<Rightarrow> bytes list \<times> wikilink_ref list" where
  "item_line indent r = (if fst r = [] then ([], []) else ([indent @ ''- '' @ fst r], snd r))"

definition both :: "'a list \<times> 'b list \<Rightarrow> 'a list \<times> 'b list \<Rightarrow> 'a list \<times> 'b list" where
  "both p q = (fst p @ fst q, snd p @ snd q)"

text \<open>\<open>collectListItems\<close>: the lines and references of the children of a list.\<close>

fun html_items :: "(bytes \<Rightarrow> real option) \<Rightarrow> bytes \<Rightarrow> html list \<Rightarrow> bytes list \<times> wikilink_ref list"
  and nested_items :: "(bytes \<Rightarrow> real option) \<Rightarrow> bytes \<Rightarrow> html list \<Rightarrow> bytes list \<times> wikilink_ref list" where
  "html_items pf indent [] = ([], [])"
| "html_items pf indent (n # ns) =
     both (case n of
         HElem t as ks \<Rightarrow>
           if t \<in> {''li'', ''dt'', ''dd''} then both (item_line indent (item_text pf ks)) (nested_items pf (indent @ [CHR 0x09]) ks)
           else if is_list_tag t then html_items pf indent ks
           else ([], [])
       | _ \<Rightarrow> ([], []))
       (html_items pf indent ns)"
| "nested_items pf indent [] = ([], [])"
| "nested_items pf indent (n # ns) =
     both (case n of
         HElem t as ks \<Rightarrow> if is_list_tag t then html_items pf indent ks else ([], [])
       | _ \<Rightarrow> ([], []))
       (nested_items pf indent ns)"

definition row_cells :: "(bytes \<Rightarrow> real option) \<Rightarrow> html list \<Rightarrow> bytes \<times> wikilink_ref list" where
  "row_cells pf ks =
     (let cells = map (inline_text pf)
        (filter (\<lambda>k. case k of HElem t as js \<Rightarrow> t \<in> {''td'', ''th''} | _ \<Rightarrow> False) ks)
      in (join_with [CHR 0x09] (map fst cells), concat (map snd cells)))"

fun collect_rows :: "(bytes \<Rightarrow> real option) \<Rightarrow> html \<Rightarrow> bytes list \<times> wikilink_ref list" where
  "collect_rows pf (HElem t as ks) =
     (if t = ''tr'' then (case row_cells pf ks of (row, rs) \<Rightarrow> ([row], rs))
      else foldr both (map (collect_rows pf) ks) ([], []))"
| "collect_rows pf (HOther ks) = foldr both (map (collect_rows pf) ks) ([], [])"
| "collect_rows pf n = ([], [])"

definition joined_lines :: "bytes list \<times> wikilink_ref list \<Rightarrow> bytes \<times> wikilink_ref list" where
  "joined_lines r = (join_with [nl] (fst r), snd r)"

subsection \<open>Embedded content\<close>

definition fallback_src :: "bytes \<Rightarrow> (bytes \<times> bytes) list \<Rightarrow> html list \<Rightarrow> bytes" where
  "fallback_src t as ks =
     (if t \<in> {''video'', ''audio''} then
        (case filter (\<lambda>s. s \<noteq> []) (map (\<lambda>k. case k of
             HElem t' as' ks' \<Rightarrow> if t' = ''source'' then get_attr as' ''src'' else []
           | _ \<Rightarrow> []) ks) of
           [] \<Rightarrow> []
         | s # _ \<Rightarrow> s)
      else if t = ''object'' then get_attr as ''data''
      else [])"

definition format_embed_content :: "bytes \<Rightarrow> bytes \<Rightarrow> bytes \<Rightarrow> bytes" where
  "format_embed_content t alt src =
     (if t = ''img'' then ''!['' @ alt @ '']('' @ src @ '')'' else ''['' @ alt @ '']('' @ src @ '')'')"

definition embed_format :: "bytes \<Rightarrow> bytes" where
  "embed_format t =
     (if t = ''img'' then ''image'' else if t \<in> {''video'', ''audio'', ''iframe''} then t else ''embed'')"

definition parsed_node :: "bytes \<Rightarrow> bytes \<Rightarrow> bytes \<Rightarrow> bytes \<Rightarrow> wikilink_ref list \<Rightarrow> cnode" where
  "parsed_node path ty content fmt refs =
     zero_cnode\<lparr>c_source := path, c_type := ty, c_content := content, c_format := fmt, c_refs := refs\<rparr>"

definition embed_node :: "bytes \<Rightarrow> bytes \<Rightarrow> (bytes \<times> bytes) list \<Rightarrow> html list \<Rightarrow> cnode option" where
  "embed_node path t as ks =
     (let src = (if get_attr as ''src'' = [] then fallback_src t as ks else get_attr as ''src'');
          alt = (if get_attr as ''alt'' = [] then get_attr as ''title'' else get_attr as ''alt'')
      in if src = [] then None
         else Some (parsed_node path node_embed (format_embed_content t alt src) (embed_format t) []))"

text \<open>The attributes and the inner markup of a drawing; a child that cannot be written drops the drawing.\<close>

definition attr_text :: "(bytes \<times> bytes) list \<Rightarrow> bytes" where
  "attr_text as = join_with '' '' (map (\<lambda>(k, v). k @ ''='' @ [CHR 0x22] @ v @ [CHR 0x22]) as)"

definition inline_markup_content :: "(html \<Rightarrow> bytes option) \<Rightarrow> (bytes \<times> bytes) list \<Rightarrow> html list \<Rightarrow> bytes" where
  "inline_markup_content render as ks =
     (case those (map render ks) of
        None \<Rightarrow> []
      | Some parts \<Rightarrow>
          let inner = trim_space (concat parts)
          in if attr_text as \<noteq> [] \<and> inner \<noteq> [] then attr_text as @ [nl] @ inner
             else if attr_text as \<noteq> [] then attr_text as
             else inner)"

definition serialize_node :: "(html \<Rightarrow> bytes option) \<Rightarrow> html \<Rightarrow> bytes" where
  "serialize_node render n = (case render n of None \<Rightarrow> [] | Some s \<Rightarrow> trim_space s)"

subsection \<open>The walk\<close>

text \<open>A node with text and references is attached unless its text is empty.\<close>

definition attach_content :: "bytes \<Rightarrow> bytes \<Rightarrow> bytes \<times> wikilink_ref list \<Rightarrow> builder \<Rightarrow> builder" where
  "attach_content path ty r b =
     (if fst r = [] then b else attach_node (parsed_node path ty (fst r) format_plain (snd r)) b)"

definition attach_heading :: "(bytes \<Rightarrow> real option) \<Rightarrow> bytes \<Rightarrow> html \<Rightarrow> bytes \<Rightarrow> builder \<Rightarrow> builder" where
  "attach_heading pf path n t b =
     (case inline_text pf n of (content, refs) \<Rightarrow>
        if content = [] then b
        else push_heading (int (code (t ! 1)) - 48) (parsed_node path node_heading content format_plain refs) b)"

definition attach_list :: "(bytes \<Rightarrow> real option) \<Rightarrow> bytes \<Rightarrow> html list \<Rightarrow> builder \<Rightarrow> builder" where
  "attach_list pf path ks = attach_content path node_list (joined_lines (html_items pf [] ks))"

definition attach_table :: "(bytes \<Rightarrow> real option) \<Rightarrow> bytes \<Rightarrow> html \<Rightarrow> builder \<Rightarrow> builder" where
  "attach_table pf path n = attach_content path node_table (joined_lines (collect_rows pf n))"

definition attach_code :: "bytes \<Rightarrow> html \<Rightarrow> builder \<Rightarrow> builder" where
  "attach_code path n = attach_content path node_code (trim_right_set {nl} (write_literal n), [])"

definition attach_text :: "(bytes \<Rightarrow> real option) \<Rightarrow> bytes \<Rightarrow> html \<Rightarrow> builder \<Rightarrow> builder" where
  "attach_text pf path n = attach_content path node_text (inline_text pf n)"

definition attach_math :: "(html \<Rightarrow> bytes option) \<Rightarrow> bytes \<Rightarrow> html \<Rightarrow> builder \<Rightarrow> builder" where
  "attach_math render path n b =
     (let xml = serialize_node render n
      in if xml = [] then b
         else case mathml_to_latex n of
             Some latex \<Rightarrow>
               if beats_xml xml latex then attach_node (parsed_node path node_code latex format_latex []) b
               else attach_node (parsed_node path node_code xml format_mathml []) b
           | None \<Rightarrow> attach_node (parsed_node path node_code xml format_mathml []) b)"

definition attach_embed :: "bytes \<Rightarrow> bytes \<Rightarrow> (bytes \<times> bytes) list \<Rightarrow> html list \<Rightarrow> builder \<Rightarrow> builder" where
  "attach_embed path t as ks b = (case embed_node path t as ks of None \<Rightarrow> b | Some n \<Rightarrow> attach_node n b)"

definition attach_inline_markup :: "(html \<Rightarrow> bytes option) \<Rightarrow> bytes \<Rightarrow> bytes \<Rightarrow> (bytes \<times> bytes) list \<Rightarrow> html list \<Rightarrow> builder \<Rightarrow> builder" where
  "attach_inline_markup render path t as ks b =
     (let content = inline_markup_content render as ks
      in if content = [] then b else attach_node (parsed_node path node_code content t []) b)"

fun walk_html :: "(bytes \<Rightarrow> real option) \<Rightarrow> (html \<Rightarrow> bytes option) \<Rightarrow> bytes \<Rightarrow> html \<Rightarrow> builder \<Rightarrow> builder"
  and walk_children :: "(bytes \<Rightarrow> real option) \<Rightarrow> (html \<Rightarrow> bytes option) \<Rightarrow> bytes \<Rightarrow> html list \<Rightarrow> builder \<Rightarrow> builder" where
  "walk_html pf render path (HComment s) b = b"
| "walk_html pf render path (HText s) b = b"
| "walk_html pf render path (HOther ks) b = walk_children pf render path ks b"
| "walk_html pf render path (HElem t as ks) b =
     (if t \<in> {''script'', ''style'', ''head''} then b
      else if t \<in> {''h1'', ''h2'', ''h3'', ''h4'', ''h5'', ''h6''} then attach_heading pf path (HElem t as ks) t b
      else if is_list_tag t then attach_list pf path ks b
      else if t = ''table'' then attach_table pf path (HElem t as ks) b
      else if t = ''pre'' then attach_code path (HElem t as ks) b
      else if t = ''math'' then attach_math render path (HElem t as ks) b
      else if t \<in> {''p'', ''blockquote'', ''figcaption''} then attach_text pf path (HElem t as ks) b
      else if t \<in> {''img'', ''video'', ''audio'', ''iframe'', ''embed'', ''object''} then attach_embed path t as ks b
      else if t \<in> {''svg'', ''canvas''} then attach_inline_markup render path t as ks b
      else walk_children pf render path ks b)"
| "walk_children pf render path [] b = b"
| "walk_children pf render path (n # ns) b = walk_children pf render path ns (walk_html pf render path n b)"

definition parse_html :: "(bytes \<Rightarrow> real option) \<Rightarrow> (html \<Rightarrow> bytes option) \<Rightarrow> (bytes \<Rightarrow> html result) \<Rightarrow> bytes \<Rightarrow> bytes \<Rightarrow> ctree list result" where
  "parse_html pf render html_parse path input =
     bind_result (html_parse input) (\<lambda>doc.
       Inr (map section_tree (finish_sections (walk_html pf render path doc \<lparr>bd_out = [], bd_stack = []\<rparr>))))"

end
