(* ===== verification/Parse_Data.thy ===== *)
theory Parse_Data
  imports Context_Tree
begin

text \<open>
  The parsers of data (\<open>pkg/parser/split.go\<close>, \<open>json.go\<close>, \<open>yaml.go\<close>, \<open>toon.go\<close>). The decoders and the TOON
  encoder are libraries and parameters here. A decoded value is a tree: a scalar is given with the text
  that \<open>fmt.Sprint\<close> makes of it, a map by its entries, in any order, with distinct keys.
\<close>

datatype data =
    DNull
  | DString bytes
  | DScalar bytes
  | DMap "(bytes \<times> data) list"
  | DAnyMap "(data \<times> data) list"
  | DList "data list"

definition sorted_entries :: "(bytes \<times> 'a) list \<Rightarrow> (bytes \<times> 'a) list" where
  "sorted_entries m = sort_key fst m"

fun promotes :: "data \<Rightarrow> bool" where
  "promotes (DMap m) \<longleftrightarrow> max_inline_fields \<le> length m"
| "promotes (DList xs) \<longleftrightarrow> max_inline_fields \<le> length xs"
| "promotes v \<longleftrightarrow> False"

text \<open>\<open>fmt.Sprint\<close> of a map with keys of any type, which only the YAML decoder makes, is a parameter.\<close>

fun format_scalar :: "(data \<Rightarrow> bytes) \<Rightarrow> data \<Rightarrow> bytes" where
  "format_scalar sprint DNull = ''null''"
| "format_scalar sprint (DString s) = s"
| "format_scalar sprint (DScalar s) = s"
| "format_scalar sprint v = sprint v"

subsection \<open>Rendering\<close>

definition line_break :: bytes where "line_break = [CHR 0x0A]"

lemma sorted_entries_set [simp]: "set (sorted_entries m) = set m"
  by (simp add: sorted_entries_def)

lemma sorted_entries_size [termination_simp]:
  "(k, v) \<in> set (sorted_entries m) \<Longrightarrow> size v < Suc (size_list (size_prod (\<lambda>_. 0) size) m)"
  using size_list_estimation' [of "(k, v)" m "size v" "size_prod (\<lambda>_. 0) size"] by simp

fun write_value :: "(data \<Rightarrow> bytes) \<Rightarrow> bytes \<Rightarrow> data \<Rightarrow> bytes" where
  "write_value sprint indent (DMap m) =
     (if m = [] then '' {}''
      else line_break @ join_with line_break (map (\<lambda>(k, v). (indent @ ''  '') @ k @ '':'' @ write_value sprint (indent @ ''  '') v)
        (sorted_entries m)))"
| "write_value sprint indent (DList xs) =
     (if xs = [] then '' []''
      else line_break @ join_with line_break (map (\<lambda>v. indent @ ''-'' @ write_value sprint indent v) xs))"
| "write_value sprint indent v = '' '' @ format_scalar sprint v"

definition write_map :: "(data \<Rightarrow> bytes) \<Rightarrow> bytes \<Rightarrow> (bytes \<times> data) list \<Rightarrow> bytes" where
  "write_map sprint indent m =
     join_with line_break (map (\<lambda>(k, v). indent @ k @ '':'' @ write_value sprint indent v) (sorted_entries m))"

definition write_list :: "(data \<Rightarrow> bytes) \<Rightarrow> bytes \<Rightarrow> data list \<Rightarrow> bytes" where
  "write_list sprint indent xs = join_with line_break (map (\<lambda>v. indent @ ''-'' @ write_value sprint indent v) xs)"

lemma write_value_map: "m \<noteq> [] \<Longrightarrow> write_value sprint indent (DMap m) = line_break @ write_map sprint (indent @ ''  '') m"
  and write_value_list: "xs \<noteq> [] \<Longrightarrow> write_value sprint indent (DList xs) = line_break @ write_list sprint indent xs"
  by (simp_all add: write_map_def write_list_def)

definition render_map :: "(data \<Rightarrow> bytes) \<Rightarrow> bytes \<Rightarrow> (bytes \<times> data) list \<Rightarrow> bytes" where
  "render_map sprint key m =
     (if key = [] then write_map sprint [] m
      else if m = [] then key @ '':''
      else key @ '':'' @ line_break @ write_map sprint ''  '' m)"

definition render_list :: "(data \<Rightarrow> bytes) \<Rightarrow> bytes \<Rightarrow> data list \<Rightarrow> bytes" where
  "render_list sprint key xs =
     (if key = [] then write_list sprint [] xs
      else if xs = [] then key @ '': []''
      else key @ '':'' @ line_break @ write_list sprint [] xs)"

subsection \<open>TOON\<close>

fun is_scalar :: "data \<Rightarrow> bool" where
  "is_scalar (DMap m) \<longleftrightarrow> False"
| "is_scalar (DAnyMap m) \<longleftrightarrow> False"
| "is_scalar (DList xs) \<longleftrightarrow> False"
| "is_scalar v \<longleftrightarrow> True"

fun uniform_with :: "(bytes \<times> data) list \<Rightarrow> data \<Rightarrow> bool" where
  "uniform_with first (DMap m) \<longleftrightarrow> length m = length first \<and> list_all (\<lambda>(k, v). k \<in> fst ` set first \<and> is_scalar v) m"
| "uniform_with first v \<longleftrightarrow> False"

definition is_toon_friendly :: "data list \<Rightarrow> bool" where
  "is_toon_friendly xs =
     (case xs of
        [] \<Rightarrow> False
      | DMap first # _ \<Rightarrow> list_all (uniform_with first) xs
      | _ \<Rightarrow> list_all is_scalar xs)"

definition toon_savings_threshold :: real where "toon_savings_threshold = 15 / 100"

definition beats_plain :: "bytes \<Rightarrow> bytes \<Rightarrow> bool" where
  "beats_plain plain encoded \<longleftrightarrow> plain \<noteq> []
     \<and> toon_savings_threshold \<le> (real (length plain) - real (length encoded)) / real (length plain)"

definition try_toon_list :: "(data \<Rightarrow> bytes option) \<Rightarrow> bytes \<Rightarrow> data list \<Rightarrow> bytes \<Rightarrow> bytes option" where
  "try_toon_list marshal key xs plain =
     (if \<not> is_toon_friendly xs then None
      else case marshal (if key = [] then DList xs else DMap [(key, DList xs)]) of
          None \<Rightarrow> None
        | Some encoded \<Rightarrow>
            let e = trim_right_set {CHR 0x0A} encoded in if beats_plain plain e then Some e else None)"

subsection \<open>Nodes\<close>

record codec =
  cd_sprint :: "data \<Rightarrow> bytes"
  cd_marshal :: "data \<Rightarrow> bytes option"

definition data_node :: "bytes \<Rightarrow> int \<Rightarrow> bytes \<Rightarrow> bytes \<Rightarrow> bytes \<Rightarrow> cnode" where
  "data_node path d ty content fmt =
     zero_cnode\<lparr>c_source := path, c_type := ty, c_content := content, c_depth := d, c_format := fmt\<rparr>"

definition build_list :: "codec \<Rightarrow> bytes \<Rightarrow> bytes \<Rightarrow> data list \<Rightarrow> int \<Rightarrow> ctree" where
  "build_list cd path key xs d =
     (let plain = render_list (cd_sprint cd) key xs
      in case try_toon_list (cd_marshal cd) key xs plain of
          Some encoded \<Rightarrow> CTree (data_node path d node_list encoded format_toon) []
        | None \<Rightarrow> CTree (data_node path d node_list plain format_plain) [])"

definition build_scalar :: "codec \<Rightarrow> bytes \<Rightarrow> bytes \<Rightarrow> data \<Rightarrow> int \<Rightarrow> ctree" where
  "build_scalar cd path key v d =
     (let content = format_scalar (cd_sprint cd) v
      in CTree (data_node path d node_kv (if key = [] then content else key @ '': '' @ content) format_plain) [])"

text \<open>The promoted entries of a map become children, the others are rendered together.\<close>

definition map_content :: "codec \<Rightarrow> bytes \<Rightarrow> (bytes \<times> data) list \<Rightarrow> bytes" where
  "map_content cd key m = render_map (cd_sprint cd) key (filter (\<lambda>(k, v). \<not> promotes v) (sorted_entries m))"

fun build_node :: "codec \<Rightarrow> bytes \<Rightarrow> bytes \<Rightarrow> data \<Rightarrow> int \<Rightarrow> ctree" where
  "build_node cd path key (DMap m) d =
     CTree (data_node path d node_kv (map_content cd key m) format_plain)
       (map (\<lambda>(k, v). build_node cd path k v (d + 1)) (filter (\<lambda>(k, v). promotes v) (sorted_entries m)))"
| "build_node cd path key (DList xs) d = build_list cd path key xs d"
| "build_node cd path key v d = build_scalar cd path key v d"

subsection \<open>The parsers\<close>

text \<open>
  Keys of any type become strings. Two keys with one text would leave either value, by the order of the map's
  iteration; here it is the last one.
\<close>

fun key_text :: "(data \<Rightarrow> bytes) \<Rightarrow> data \<Rightarrow> bytes" where
  "key_text sprint (DString s) = s"
| "key_text sprint (DScalar s) = s"
| "key_text sprint v = sprint v"

fun last_entries :: "(bytes \<times> 'a) list \<Rightarrow> (bytes \<times> 'a) list" where
  "last_entries [] = []"
| "last_entries ((k, v) # m) = (if k \<in> fst ` set m then last_entries m else (k, v) # last_entries m)"

fun normalize :: "(data \<Rightarrow> bytes) \<Rightarrow> data \<Rightarrow> data" where
  "normalize sprint (DAnyMap m) = DMap (last_entries (map (\<lambda>(k, v). (key_text sprint k, normalize sprint v)) m))"
| "normalize sprint (DMap m) = DMap (map (\<lambda>(k, v). (k, normalize sprint v)) m)"
| "normalize sprint (DList xs) = DList (map (normalize sprint) xs)"
| "normalize sprint v = v"

definition build_root :: "codec \<Rightarrow> bytes \<Rightarrow> data \<Rightarrow> ctree list" where
  "build_root cd path v = (if v = DNull then [] else [build_node cd path [] v 1])"

end
