(* ===== verification/Parse_Markdown.thy ===== *)
theory Parse_Markdown
  imports Parse_Html Parse_Data
begin

text \<open>
  The Markdown parser (\<open>pkg/parser/markdown.go\<close>) with the preamble of a file (\<open>preamble.go\<close>), over the
  nodes of the Markdown library: the kinds that the code distinguishes, and \<open>MOther\<close> for every other
  container or leaf.
\<close>

datatype md =
    MHeading int "md list"
  | MCodeBlock bytes bytes
  | MList "md list"
  | MTable "md list"
  | MRow "md list"
  | MHtmlBlock bytes
  | MRule
  | MText bytes
  | MCode bytes
  | MSoftbreak
  | MHardbreak
  | MLink bytes bytes "md list"
  | MImage bytes bytes "md list"
  | MOther "md list"

fun md_children :: "md \<Rightarrow> md list" where
  "md_children (MHeading l ks) = ks"
| "md_children (MList ks) = ks"
| "md_children (MTable ks) = ks"
| "md_children (MRow ks) = ks"
| "md_children (MLink dest title ks) = ks"
| "md_children (MImage dest title ks) = ks"
| "md_children (MOther ks) = ks"
| "md_children _ = []"

lemma md_children_size [termination_simp]: "k \<in> set (md_children n) \<Longrightarrow> size k < size n"
  by (cases n) (auto simp: less_Suc_eq_le intro: size_list_estimation')

subsection \<open>Text\<close>

definition link_tail :: "bytes \<Rightarrow> bytes \<Rightarrow> bytes" where
  "link_tail dest title =
     ''](''  @ dest @ (if title = [] then [] else '' '' @ [CHR 0x22] @ title @ [CHR 0x22]) @ '')''"

definition glue :: "(bytes \<times> wikilink_ref list) list \<Rightarrow> bytes \<times> wikilink_ref list" where
  "glue rs = (concat (map fst rs), concat (map snd rs))"

fun walk_text :: "(bytes \<Rightarrow> real option) \<Rightarrow> md \<Rightarrow> bytes \<times> wikilink_ref list" where
  "walk_text pf (MText s) = extract_wikilinks pf s"
| "walk_text pf (MCode s) = (s, [])"
| "walk_text pf MSoftbreak = ('' '', [])"
| "walk_text pf MHardbreak = ([CHR 0x0A], [])"
| "walk_text pf (MLink dest title ks) =
     (case glue (map (walk_text pf) ks) of (s, rs) \<Rightarrow> (''['' @ s @ link_tail dest title, rs))"
| "walk_text pf (MImage dest title ks) =
     (case glue (map (walk_text pf) ks) of (s, rs) \<Rightarrow> (''!['' @ s @ link_tail dest title, rs))"
| "walk_text pf (MHeading l ks) = glue (map (walk_text pf) ks)"
| "walk_text pf (MList ks) = glue (map (walk_text pf) ks)"
| "walk_text pf (MTable ks) = glue (map (walk_text pf) ks)"
| "walk_text pf (MRow ks) = glue (map (walk_text pf) ks)"
| "walk_text pf (MOther ks) = glue (map (walk_text pf) ks)"
| "walk_text pf _ = ([], [])"

definition extract_text :: "(bytes \<Rightarrow> real option) \<Rightarrow> md \<Rightarrow> bytes \<times> wikilink_ref list" where
  "extract_text pf n = (case walk_text pf n of (s, rs) \<Rightarrow> (trim_space s, rs))"

definition extract_list_text :: "(bytes \<Rightarrow> real option) \<Rightarrow> md list \<Rightarrow> bytes \<times> wikilink_ref list" where
  "extract_list_text pf items =
     (let kept = filter (\<lambda>r. fst r \<noteq> []) (map (extract_text pf) items)
      in (join_with line_break (map (\<lambda>r. ''- '' @ fst r) kept), concat (map snd kept)))"

text \<open>The walk over a table skips what is below a row.\<close>

definition table_row :: "(bytes \<Rightarrow> real option) \<Rightarrow> md list \<Rightarrow> bytes \<times> wikilink_ref list" where
  "table_row pf cells =
     (let rs = map (extract_text pf) cells in (join_with [CHR 0x09] (map fst rs), concat (map snd rs)))"

fun table_rows :: "(bytes \<Rightarrow> real option) \<Rightarrow> md \<Rightarrow> (bytes \<times> wikilink_ref list) list" where
  "table_rows pf n =
     (case n of MRow cells \<Rightarrow> [table_row pf cells] | _ \<Rightarrow> concat (map (table_rows pf) (md_children n)))"

definition extract_table_text :: "(bytes \<Rightarrow> real option) \<Rightarrow> md \<Rightarrow> bytes \<times> wikilink_ref list" where
  "extract_table_text pf n =
     (let rows = table_rows pf n in (join_with line_break (map fst rows), concat (map snd rows)))"

subsection \<open>Blocks\<close>

definition nonempty_node :: "bytes \<Rightarrow> bytes \<Rightarrow> bytes \<times> wikilink_ref list \<Rightarrow> cnode option" where
  "nonempty_node path ty r =
     (if fst r = [] then None else Some (parsed_node path ty (fst r) format_plain (snd r)))"

definition code_content :: "bytes \<Rightarrow> bytes \<Rightarrow> bytes" where
  "code_content info literal =
     trim_right_set {CHR 0x0A} (if trim_space info = [] then literal else trim_space info @ line_break @ literal)"

fun node_from_block :: "(bytes \<Rightarrow> real option) \<Rightarrow> bytes \<Rightarrow> md \<Rightarrow> cnode option" where
  "node_from_block pf path (MCodeBlock info literal) = nonempty_node path node_code (code_content info literal, [])"
| "node_from_block pf path (MList items) = nonempty_node path node_list (extract_list_text pf items)"
| "node_from_block pf path (MTable ks) = nonempty_node path node_table (extract_table_text pf (MTable ks))"
| "node_from_block pf path (MHtmlBlock literal) = nonempty_node path node_text (trim_space literal, [])"
| "node_from_block pf path MRule = None"
| "node_from_block pf path n = nonempty_node path node_text (extract_text pf n)"

fun attach_block :: "(bytes \<Rightarrow> real option) \<Rightarrow> bytes \<Rightarrow> md \<Rightarrow> builder \<Rightarrow> builder" where
  "attach_block pf path (MHeading level ks) b =
     (case extract_text pf (MHeading level ks) of (content, refs) \<Rightarrow>
        push_heading level (parsed_node path node_heading content format_plain refs) b)"
| "attach_block pf path n b = (case node_from_block pf path n of None \<Rightarrow> b | Some c \<Rightarrow> attach_node c b)"

subsection \<open>The preamble\<close>

datatype preamble_kind = PreambleNone | PreambleYaml | PreambleToml

definition has_delim_line :: "bytes \<Rightarrow> bytes \<Rightarrow> bool" where
  "has_delim_line s delim \<longleftrightarrow> has_prefix s (delim @ line_break) \<or> has_prefix s (delim @ CHR 0x0D # line_break)"

definition trim_leading_newline :: "bytes \<Rightarrow> bytes" where
  "trim_leading_newline s =
     (if has_prefix s (CHR 0x0D # line_break) then drop 2 s else if has_prefix s line_break then drop 1 s else s)"

definition split_at_delim :: "bytes \<Rightarrow> bytes \<Rightarrow> preamble_kind \<Rightarrow> bytes \<times> bytes \<times> preamble_kind" where
  "split_at_delim s delim kind =
     (case cut (trim_leading_newline (drop (length delim) s)) (line_break @ delim) of (front, rest, ok) \<Rightarrow>
        if \<not> ok then ([], s, PreambleNone)
        else if rest = [] then (front, [], kind)
        else if has_prefix rest (CHR 0x0D # line_break) then (front, drop 2 rest, kind)
        else if has_prefix rest line_break then (front, drop 1 rest, kind)
        else ([], s, PreambleNone))"

definition split_preamble :: "bytes \<Rightarrow> bytes \<times> bytes \<times> preamble_kind" where
  "split_preamble s =
     (if has_delim_line s ''---'' then split_at_delim s ''---'' PreambleYaml
      else if has_delim_line s ''+++'' then split_at_delim s ''+++'' PreambleToml
      else ([], s, PreambleNone))"

fun set_type :: "bytes \<Rightarrow> ctree \<Rightarrow> ctree" where
  "set_type ty (CTree n ks) = CTree (n\<lparr>c_type := ty\<rparr>) ks"

text \<open>The YAML parser is the argument \<open>yaml\<close>.\<close>

definition preamble_node :: "(bytes \<Rightarrow> bytes \<Rightarrow> ctree list result) \<Rightarrow> bytes \<Rightarrow> bytes \<Rightarrow> preamble_kind \<Rightarrow> ctree list result" where
  "preamble_node yaml path front kind =
     (case kind of
        PreambleNone \<Rightarrow> Inr []
      | PreambleYaml \<Rightarrow> bind_result (yaml path front) (\<lambda>ts.
          Inr (case ts of [] \<Rightarrow> [] | t # _ \<Rightarrow> [set_type node_preamble t]))
      | PreambleToml \<Rightarrow> Inr [CTree (data_node path 1 node_preamble (trim_space front) format_plain) []])"

definition parse_markdown ::
  "(bytes \<Rightarrow> real option) \<Rightarrow> (bytes \<Rightarrow> md list) \<Rightarrow> (bytes \<Rightarrow> bytes \<Rightarrow> ctree list result) \<Rightarrow> bytes \<Rightarrow> bytes \<Rightarrow> ctree list result" where
  "parse_markdown pf md_parse yaml path input =
     (case split_preamble input of (front, body, kind) \<Rightarrow>
        bind_result (preamble_node yaml path front kind) (\<lambda>pre.
          Inr (pre @ map section_tree (finish_sections
            (fold (attach_block pf path) (md_parse body) \<lparr>bd_out = [], bd_stack = []\<rparr>)))))"

end
