(* ===== verification/Parser.thy ===== *)
theory Parser
  imports Compiler Parse_Markdown
begin

text \<open>
  The dispatch on the extension (\<open>pkg/parser/parser.go\<close>) and the entry points of the data parsers
  (\<open>json.go\<close>, \<open>yaml.go\<close>, \<open>toon.go\<close>). The record \<open>libraries\<close> holds what other packages do: number syntax,
  the HTML, Markdown, YAML, JSON and TOON libraries. The JSON decoder of a file is the list of the results of
  its successive calls, up to the end of the file.
\<close>

record libraries = codec +
  lib_float :: "bytes \<Rightarrow> real option"
  lib_html :: "bytes \<Rightarrow> html result"
  lib_render :: "html \<Rightarrow> bytes option"
  lib_markdown :: "bytes \<Rightarrow> md list"
  lib_yaml :: "bytes \<Rightarrow> data result"
  lib_json :: "bytes \<Rightarrow> data result list"
  lib_toon :: "bytes \<Rightarrow> data result"

definition err_invalid_utf8 :: error where "err_invalid_utf8 = Failure ''invalid UTF-8''"
definition err_parse :: error where "err_parse = Failure ''failed to parse''"

definition as_parse_error :: "'a result \<Rightarrow> 'a result" where
  "as_parse_error r = (case r of Inl e \<Rightarrow> Inl err_parse | Inr x \<Rightarrow> Inr x)"

definition lib_codec :: "libraries \<Rightarrow> codec" where
  "lib_codec ls = \<lparr>cd_sprint = cd_sprint ls, cd_marshal = cd_marshal ls\<rparr>"

definition parse_yaml :: "libraries \<Rightarrow> bytes \<Rightarrow> bytes \<Rightarrow> ctree list result" where
  "parse_yaml ls path input =
     bind_result (as_parse_error (lib_yaml ls input)) (\<lambda>v.
       Inr (build_root (lib_codec ls) path (normalize (cd_sprint ls) v)))"

definition parse_toon :: "libraries \<Rightarrow> bytes \<Rightarrow> bytes \<Rightarrow> ctree list result" where
  "parse_toon ls path input =
     bind_result (as_parse_error (lib_toon ls input)) (\<lambda>v. Inr (build_root (lib_codec ls) path v))"

text \<open>Only the first value of a JSON file is read.\<close>

definition parse_json :: "libraries \<Rightarrow> bytes \<Rightarrow> bytes \<Rightarrow> ctree list result" where
  "parse_json ls path input =
     (case lib_json ls input of
        Inr v # _ \<Rightarrow> Inr (build_root (lib_codec ls) path v)
      | _ \<Rightarrow> Inl err_malformed)"

fun json_records :: "data result list \<Rightarrow> data list result" where
  "json_records [] = Inr []"
| "json_records (Inl e # rs) = Inl err_malformed"
| "json_records (Inr v # rs) = bind_result (json_records rs) (\<lambda>vs. Inr (v # vs))"

definition parse_json_lines :: "libraries \<Rightarrow> bytes \<Rightarrow> bytes \<Rightarrow> ctree list result" where
  "parse_json_lines ls path input =
     bind_result (json_records (lib_json ls input)) (\<lambda>vs.
       Inr (if vs = [] then [] else [build_node (lib_codec ls) path [] (DList vs) 1]))"

definition parse_bytes :: "libraries \<Rightarrow> bytes \<Rightarrow> bytes \<Rightarrow> ctree list result" where
  "parse_bytes ls path input =
     (if \<not> utf8_valid input then Inl err_invalid_utf8
      else let ext = to_lower (path_ext path)
        in if ext \<in> {''.md'', ''.markdown''} then parse_markdown (lib_float ls) (lib_markdown ls) (parse_yaml ls) path input
           else if ext \<in> {''.htm'', ''.html''} then parse_html (lib_float ls) (lib_render ls) (as_parse_error \<circ> lib_html ls) path input
           else if ext \<in> {''.yml'', ''.yaml''} then parse_yaml ls path input
           else if ext = ''.json'' then parse_json ls path input
           else if ext \<in> {''.jsonl'', ''.ndjson''} then parse_json_lines ls path input
           else if ext = ''.toon'' then parse_toon ls path input
           else Inl err_unsupported_ext)"

subsection \<open>Well-typed trees\<close>

definition node_types :: "bytes set" where
  "node_types = {node_heading, node_list, node_table, node_code, node_text, node_kv, node_preamble, node_embed}"

definition formats :: "bytes set" where
  "formats = {format_plain, format_toon, format_mathml, format_latex, ''image'', ''video'', ''audio'', ''iframe'', ''embed'',
     ''svg'', ''canvas''}"

text \<open>
  What a parser hands over: the file, a known type and format, a text where the type needs one (a formula
  without content has an empty LaTeX form and is kept), and none of the fields that the transformer or the
  seeds fill in.
\<close>

definition typed_node :: "bytes \<Rightarrow> cnode \<Rightarrow> bool" where
  "typed_node path n \<longleftrightarrow> c_source n = path \<and> c_type n \<in> node_types \<and> c_format n \<in> formats
     \<and> (c_type n \<in> {node_table, node_code, node_text, node_embed} \<and> c_format n \<noteq> format_latex \<longrightarrow> c_content n \<noteq> [])
     \<and> c_id n = [] \<and> c_parent n = [] \<and> c_label n = [] \<and> c_hash n = [] \<and> c_tokens n = 0 \<and> c_temp n = None \<and> \<not> c_pin n"

fun typed_tree :: "bytes \<Rightarrow> int \<Rightarrow> ctree \<Rightarrow> bool" where
  "typed_tree path d (CTree n ks) \<longleftrightarrow> typed_node path n \<and> c_depth n = d \<and> list_all (typed_tree path (d + 1)) ks"

fun typed_block :: "bytes \<Rightarrow> block \<Rightarrow> bool" where
  "typed_block path (Heading l n) = typed_node path n"
| "typed_block path (Plain n) = typed_node path n"

lemma typed_bare [simp]: "typed_node path (bare n) = typed_node path n"
  by (simp add: typed_node_def bare_def)

lemma typed_bare_block [simp]: "typed_block path (bare_block k) = typed_block path k"
  by (cases k) simp_all

lemma typed_sections:
  "sectioned lo hi d ts \<Longrightarrow> list_all (typed_block path) (blocks_of ts) \<Longrightarrow> list_all (typed_tree path d) (map section_tree ts)"
  by (induction lo hi d ts rule: sectioned.induct) (auto simp: list.pred_map)

lemma typed_sections_of:
  assumes "list_all (typed_block path) bs"
  shows "list_all (typed_tree path 1) (map section_tree (sections_of bs))"
proof (rule typed_sections [OF sections_of_sectioned])
  have "list_all (typed_block path) (map bare_block bs)" using assms by (simp add: list.pred_map comp_def)
  then show "list_all (typed_block path) (blocks_of (sections_of bs))" by (simp add: sections_of_blocks)
qed

text \<open>A step of a parser adds a few well-typed blocks.\<close>

definition adds :: "bytes \<Rightarrow> builder \<Rightarrow> builder \<Rightarrow> bool" where
  "adds path b b' \<longleftrightarrow> (\<exists>bs. b' = fold place_block bs b \<and> list_all (typed_block path) bs)"

lemma adds_refl [simp]: "adds path b b"
  unfolding adds_def by (rule exI [of _ "[]"]) simp

lemma adds_trans:
  assumes "adds path b b'" "adds path b' b''"
  shows "adds path b b''"
proof -
  obtain bs bs' where "b' = fold place_block bs b" "b'' = fold place_block bs' b'" "list_all (typed_block path) (bs @ bs')"
    using assms by (auto simp: adds_def)
  then have "b'' = fold place_block (bs @ bs') b" by simp
  then show ?thesis using \<open>list_all (typed_block path) (bs @ bs')\<close> unfolding adds_def by blast
qed

lemma adds_plain: "typed_node path n \<Longrightarrow> adds path b (attach_node n b)"
  unfolding adds_def by (rule exI [of _ "[Plain n]"]) simp

lemma adds_heading: "typed_node path n \<Longrightarrow> adds path b (push_heading l n b)"
  unfolding adds_def by (rule exI [of _ "[Heading l n]"]) simp

lemma adds_finish:
  assumes "adds path \<lparr>bd_out = [], bd_stack = []\<rparr> b"
  shows "list_all (typed_tree path 1) (map section_tree (finish_sections b))"
proof -
  obtain bs where "b = fold place_block bs \<lparr>bd_out = [], bd_stack = []\<rparr>" "list_all (typed_block path) bs"
    using assms by (auto simp: adds_def)
  then show ?thesis using typed_sections_of [of path bs] by (simp add: sections_of_def)
qed

lemma typed_parsed_node:
  "ty \<in> node_types \<Longrightarrow> fmt \<in> formats \<Longrightarrow> content \<noteq> [] \<or> ty = node_heading \<or> fmt = format_latex \<Longrightarrow> typed_node path (parsed_node path ty content fmt refs)"
  by (auto simp: typed_node_def parsed_node_def zero_cnode_def node_type_defs)

lemmas known = node_types_def formats_def

lemma adds_content: "ty \<in> node_types \<Longrightarrow> adds path b (attach_content path ty r b)"
  by (auto simp: attach_content_def known intro!: adds_plain typed_parsed_node)

lemma adds_if: "(c \<Longrightarrow> adds path b x) \<Longrightarrow> (\<not> c \<Longrightarrow> adds path b y) \<Longrightarrow> adds path b (if c then x else y)"
  by simp

lemma adds_math: "adds path b (attach_math render path n b)"
proof -
  have node: "adds path b (attach_node (parsed_node path node_code s fmt []) b)"
    if "fmt \<in> {format_mathml, format_latex}" "s \<noteq> [] \<or> fmt = format_latex" for s fmt
    using that by (intro adds_plain typed_parsed_node) (auto simp: known)
  show ?thesis
    unfolding attach_math_def Let_def
    by (cases "mathml_to_latex n") (auto intro!: adds_if node)
qed

lemma adds_embed: "adds path b (attach_embed path t as ks b)"
proof -
  have "embed_format t \<in> formats" by (simp add: embed_format_def known)
  moreover have "format_embed_content t alt src \<noteq> []" for alt src by (simp add: format_embed_content_def)
  ultimately have "adds path b (attach_node (parsed_node path node_embed (format_embed_content t alt src) (embed_format t) []) b)" for alt src
    by (intro adds_plain typed_parsed_node) (simp_all add: node_types_def)
  then show ?thesis by (simp add: attach_embed_def embed_node_def Let_def)
qed

lemma adds_walk_html:
  "adds path b (walk_html pf render path n b)" "adds path b (walk_children pf render path ns b)"
proof (induction pf render path n b and pf render path ns b rule: walk_html_walk_children.induct)
  case (4 pf render path t as ks b)
  have heading: "adds path b (attach_heading pf path n t b)" for n
    by (auto simp: attach_heading_def known intro!: adds_heading typed_parsed_node split: prod.splits)
  have blocks: "adds path b (attach_list pf path ks b)" "adds path b (attach_table pf path n b)"
    "adds path b (attach_code path n b)" "adds path b (attach_text pf path n b)" for n
    unfolding attach_list_def attach_table_def attach_code_def attach_text_def
    by (rule adds_content; simp add: known)+
  have markup: "adds path b (attach_inline_markup render path t as ks b)" if "t \<in> {''svg'', ''canvas''}"
    using that by (auto simp: attach_inline_markup_def Let_def known intro!: adds_plain typed_parsed_node)
  show ?case
    unfolding walk_html.simps
    by (intro adds_if adds_refl heading blocks adds_math adds_embed) (assumption | rule markup 4)+
qed (auto intro: adds_trans)

lemma adds_markdown: "adds path b (attach_block pf path n b)"
proof -
  have block: "typed_node path c" if "node_from_block pf path n = Some c" for c
    using that by (cases n) (auto simp: nonempty_node_def known split: if_splits intro!: typed_parsed_node)
  show ?thesis
    using block by (cases n)
      (auto simp: known split: prod.splits option.splits intro!: adds_heading adds_plain typed_parsed_node)
qed

lemma adds_fold: "(\<And>x b. adds path b (f x b)) \<Longrightarrow> adds path b (fold f xs b)"
  by (induction xs arbitrary: b) (auto intro: adds_trans)

lemma typed_data_node:
  "ty \<in> {node_kv, node_list, node_preamble} \<Longrightarrow> fmt \<in> {format_plain, format_toon} \<Longrightarrow> typed_node path (data_node path d ty content fmt)"
  by (auto simp: typed_node_def data_node_def zero_cnode_def known node_type_defs format_defs)

lemma data_node_depth [simp]: "c_depth (data_node path d ty content fmt) = d"
  by (simp add: data_node_def)

lemma typed_build: "typed_tree path d (build_node cd path key v d)"
proof (induction cd path key v d rule: build_node.induct)
  case (1 cd path key m d)
  then have "list_all (\<lambda>(k, v). typed_tree path (d + 1) (build_node cd path k v (d + 1)))
      (filter (\<lambda>(k, v). promotes v) (sorted_entries m))"
    by (auto simp: list_all_iff)
  then show ?case by (auto simp: list_all_iff intro!: typed_data_node)
qed (auto simp: build_list_def build_scalar_def Let_def intro!: typed_data_node split: option.splits)

lemma typed_value: "list_all (typed_tree path 1) (build_root cd path v)"
  by (simp add: build_root_def typed_build)

definition typed_result :: "bytes \<Rightarrow> ctree list result \<Rightarrow> bool" where
  "typed_result path r \<longleftrightarrow>
     (case r of
        Inl e \<Rightarrow> e \<in> {err_invalid_utf8, err_unsupported_ext, err_malformed, err_parse}
      | Inr ts \<Rightarrow> list_all (typed_tree path 1) ts)"

lemma typed_result_if: "typed_result path r \<Longrightarrow> typed_result path r' \<Longrightarrow> typed_result path (if c then r else r')"
  by simp

lemma typed_result_bind:
  assumes "\<And>x. typed_result path (f x)" "\<And>e. r = Inl e \<Longrightarrow> typed_result path (Inl e)"
  shows "typed_result path (bind_result r f)"
  using assms by (cases r) (auto simp: bind_result_def)

lemma typed_result_parse: "as_parse_error r = Inl e \<Longrightarrow> typed_result path (Inl e)"
  by (auto simp: as_parse_error_def typed_result_def split: sum.splits)

lemma typed_yaml: "typed_result path (parse_yaml ls path input)"
  unfolding parse_yaml_def
  by (rule typed_result_bind [OF _ typed_result_parse]) (simp_all add: typed_result_def typed_value)

lemma typed_toon: "typed_result path (parse_toon ls path input)"
  unfolding parse_toon_def
  by (rule typed_result_bind [OF _ typed_result_parse]) (simp_all add: typed_result_def typed_value)

lemma typed_json: "typed_result path (parse_json ls path input)"
  by (auto simp: parse_json_def typed_result_def typed_value split: list.splits sum.splits)

lemma json_records_error: "json_records rs = Inl e \<Longrightarrow> e = err_malformed"
  by (induction rs rule: json_records.induct) (auto simp: bind_result_def split: sum.splits)

lemma typed_json_lines: "typed_result path (parse_json_lines ls path input)"
  unfolding parse_json_lines_def
  by (rule typed_result_bind) (auto simp: typed_result_def typed_build simp del: build_node.simps dest: json_records_error)

lemma typed_html: "typed_result path (parse_html pf render (as_parse_error \<circ> html) path input)"
  unfolding parse_html_def
  by (rule typed_result_bind [OF _ typed_result_parse]) (auto simp: typed_result_def adds_finish adds_walk_html)

lemma typed_set_type: "typed_tree path d t \<Longrightarrow> typed_tree path d (set_type node_preamble t)"
  by (cases t) (auto simp: typed_node_def known node_type_defs)

lemma typed_preamble: "typed_result path (preamble_node (parse_yaml ls) path front kind)"
proof (cases kind)
  case PreambleYaml
  show ?thesis
    using typed_yaml [of path ls front] typed_set_type
    by (auto simp: PreambleYaml preamble_node_def typed_result_def bind_result_def split: sum.splits list.splits)
qed (auto simp: preamble_node_def typed_result_def typed_data_node)

lemma typed_markdown: "typed_result path (parse_markdown pf md_parse (parse_yaml ls) path input)"
proof (cases "split_preamble input")
  case (fields front body kind)
  have "list_all (typed_tree path 1) (map section_tree
      (finish_sections (fold (attach_block pf path) (md_parse body) \<lparr>bd_out = [], bd_stack = []\<rparr>)))"
    by (intro adds_finish adds_fold adds_markdown)
  with typed_preamble [of path ls front kind] show ?thesis
    by (auto simp: parse_markdown_def fields typed_result_def bind_result_def split: sum.splits)
qed

lemma typed_error: "e \<in> {err_invalid_utf8, err_unsupported_ext} \<Longrightarrow> typed_result path (Inl e)"
  by (auto simp: typed_result_def)

text \<open>
  C37: Whatever the bytes of a file and whatever the libraries answer, parsing it gives one of four errors or a
  forest in which every node belongs to the file, has one of the known types and formats, a text where its
  type needs one, the depth of its place in the forest, counted from one, and nothing yet in the fields
  that later passes fill in.
\<close>

theorem parse_bytes_typed: "typed_result path (parse_bytes ls path input)"
  unfolding parse_bytes_def Let_def
  by (intro typed_result_if typed_error typed_markdown typed_html typed_yaml typed_json typed_json_lines typed_toon) simp_all

subsection \<open>Files that cannot be parsed\<close>

lemma yaml_fails:
  assumes "to_lower (path_ext path) \<in> {''.yml'', ''.yaml''}" "isl (lib_yaml ls input)"
  shows "parse_bytes ls path input \<in> {Inl err_invalid_utf8, Inl err_parse}"
proof -
  have "parse_yaml ls path input = Inl err_parse"
    using assms(2) by (cases "lib_yaml ls input") (auto simp: parse_yaml_def as_parse_error_def)
  then show ?thesis using assms(1) by (auto simp: parse_bytes_def)
qed

lemma read_one_aborts:
  assumes "io_parse io = parse_bytes ls" "io_read io p = Inr input" "co_max_size o' \<le> 0"
    and "parse_bytes ls p input \<in> {Inl err_invalid_utf8, Inl err_parse}"
  shows "isl (read_one io o' p)"
  using assms
  by (auto simp: read_one_def err_invalid_utf8_def err_parse_def err_unsupported_ext_def err_malformed_def)

lemma read_one_skips:
  assumes "io_parse io = parse_bytes ls" "io_read io p = Inr input" "co_max_size o' \<le> 0"
    and "parse_bytes ls p input \<in> {Inl err_unsupported_ext, Inl err_malformed}"
  shows "read_one io o' p = Inr []"
  using assms by (auto simp: read_one_def)

lemma gather_fails: "x \<in> set rs \<Longrightarrow> isl x \<Longrightarrow> \<exists>e. gather sched rs = Inl e"
  by (cases "gather sched rs") (auto dest!: gather_InrD)

lemma reader_fails:
  assumes "p \<in> set (co_paths o')" "isl (read_one io o' p)"
  shows "\<exists>x \<in> set (reader_results io stopped o'). isl x"
proof -
  obtain i where "i < length (co_paths o')" "co_paths o' ! i = p" using assms(1) by (auto simp: in_set_conv_nth)
  then have "(i, p) \<in> set (enumerate 0 (co_paths o'))" by (auto simp: in_set_enumerate_eq)
  moreover have "isl (case (i, p) of (i, p) \<Rightarrow> if stopped i then Inl Cancelled else read_one io o' p)"
    using assms(2) by simp
  ultimately show ?thesis unfolding reader_results_def set_map by (blast intro: bexI [OF _ imageI])
qed

text \<open>
  C38: One YAML file that does not parse fails the whole compile, whatever the other files are: nothing is
  stored. (A malformed JSON file and a file with an unknown extension are skipped.)
\<close>

theorem bad_yaml_blocks_compile:
  assumes "io_parse (ce_io env) = parse_bytes ls" "co_max_size o' \<le> 0"
    and "p \<in> set (co_paths o')" "io_read (ce_io env) p = Inr input"
    and "to_lower (path_ext p) \<in> {''.yml'', ''.yaml''}" "isl (lib_yaml ls input)"
  shows "\<exists>e. compile xxh env o' db = (Inl e, db)"
proof -
  have "isl (read_one (ce_io env) o' p)"
    using read_one_aborts [OF assms(1,4,2) yaml_fails [OF assms(5,6)]] .
  then obtain e where "gather (ce_sched env) (reader_results (ce_io env) (ce_stopped env) o') = Inl e"
    using reader_fails [OF assms(3)] gather_fails by metis
  then show ?thesis by (auto simp: compile_def)
qed

definition sample_libraries :: libraries where
  "sample_libraries = \<lparr>cd_sprint = \<lambda>_. [], cd_marshal = \<lambda>_. None, lib_float = \<lambda>_. None, lib_html = \<lambda>_. Inr (HOther []),
     lib_render = \<lambda>_. None, lib_markdown = \<lambda>_. [], lib_yaml = \<lambda>_. Inl (Failure ''unexpected token''), lib_json = \<lambda>_. [],
     lib_toon = \<lambda>_. Inr DNull\<rparr>"

definition yaml_env :: compile_env where
  "yaml_env = sample_env\<lparr>ce_io := \<lparr>io_size = \<lambda>_. Inr 3, io_read = \<lambda>_. Inr ''a: ['', io_parse = parse_bytes sample_libraries\<rparr>\<rparr>"

lemma bad_yaml_blocks_compile_witness:
  "\<exists>e. compile (\<lambda>_. 0) yaml_env (sample_compile\<lparr>co_paths := [''/m/b.md'', ''/m/a.yml'']\<rparr>) empty_db = (Inl e, empty_db)"
proof -
  have "path_ext ''/m/a.yml'' = ''.yml''" "list_all (\<lambda>c. code c < 128) ''.yml''" "ascii_lower ''.yml'' = ''.yml''"
    by code_simp+
  then have "to_lower (path_ext ''/m/a.yml'') = ''.yml''" by (simp add: to_lower_ascii)
  then show ?thesis
    by (intro bad_yaml_blocks_compile [of yaml_env sample_libraries _ "''/m/a.yml''" "''a: [''"])
      (simp_all add: yaml_env_def sample_libraries_def sample_compile_def)
qed

end
