(* ===== verification/Inspect.thy ===== *)
theory Inspect
  imports Memory_Read
begin

text \<open>
  The statistics of a database and their text form (\<open>pkg/inspect\<close>), with the tool \<open>MemoryStats\<close>
  (\<open>pkg/mcp/tools/stats.go\<close>). The clock, the size of the file and the number formats are parameters.
\<close>

record latest_snapshot =
  la_id :: int
  la_cursor :: bytes
  la_message :: bytes
  la_age :: int

record inspect_stats =
  is_path :: bytes
  is_bytes :: int
  is_core :: stats
  is_hot :: real
  is_cold :: real
  is_by_type :: "(bytes \<times> int) list"
  is_relations :: int
  is_by_origin :: "(bytes \<times> int) list"
  is_latest :: "latest_snapshot option"

record host =
  ho_path :: bytes
  ho_size :: "bytes \<Rightarrow> int option"
  ho_now :: int
  ho_fixed1 :: "real \<Rightarrow> bytes"
  ho_fixed2 :: "real \<Rightarrow> bytes"
  ho_quote :: "bytes \<Rightarrow> bytes"

definition db_size :: "host \<Rightarrow> int" where
  "db_size h = (if ho_path h = [] \<or> ho_path h = '':memory:'' then 0
     else case ho_size h (ho_path h) of None \<Rightarrow> 0 | Some n \<Rightarrow> n)"

definition collect_stats :: "host \<Rightarrow> real \<Rightarrow> real \<Rightarrow> db \<Rightarrow> inspect_stats" where
  "collect_stats h hot cold db =
     (let core = get_stats db hot cold; origins = relation_counts_by_origin db
      in \<lparr>is_path = ho_path h, is_bytes = db_size h, is_core = core, is_hot = hot, is_cold = cold,
          is_by_type = node_counts_by_type db,
          is_relations = sum_list (map snd origins) + st_pending core, is_by_origin = origins,
          is_latest = (case list_snapshots db 1 of
              [] \<Rightarrow> None
            | s # _ \<Rightarrow> Some \<lparr>la_id = s_id s, la_cursor = s_cursor s, la_message = s_message s, la_age = ho_now h - s_created s\<rparr>)\<rparr>)"

subsection \<open>Text\<close>

definition branch_pad :: nat where "branch_pad = 4"
definition glyph_width :: nat where "glyph_width = 2"
definition sub_key_pad :: nat where "sub_key_pad = 14"
definition label_pad :: nat where "label_pad = branch_pad + glyph_width + 1 + sub_key_pad"
definition max_hash_len :: nat where "max_hash_len = 16"

text \<open>\<open>utf8.RuneCountInString\<close>.\<close>

function rune_count :: "bytes \<Rightarrow> nat" where
  "rune_count [] = 0"
| "rune_count (c # cs) = Suc (rune_count (drop (rune_width (c # cs)) (c # cs)))"
  by pat_completeness auto
termination
proof (relation "measure length", goal_cases)
  case (2 c cs)
  show ?case using rune_width_pos [of "c # cs"] by (simp del: rune_width_pos)
qed simp

definition rune_pad :: "bytes \<Rightarrow> nat \<Rightarrow> bytes" where
  "rune_pad s width = s @ replicate (width - rune_count s) (CHR '' '')"

definition truncate_hash :: "bytes \<Rightarrow> bytes" where
  "truncate_hash s = (if length s \<le> max_hash_len then s else take max_hash_len s @ ''...'')"

text \<open>The exponent and the divisor; \<open>n\<close> shrinks to less than 1024.\<close>

fun size_unit :: "nat \<Rightarrow> nat \<times> nat" where
  "size_unit n = (if n < 1024 then (0, 1024) else case size_unit (n div 1024) of (e, d) \<Rightarrow> (Suc e, 1024 * d))"

declare size_unit.simps [simp del]

definition human_size :: "(real \<Rightarrow> bytes) \<Rightarrow> int \<Rightarrow> bytes" where
  "human_size fixed1 n =
     (if n < 1024 then itoa n @ '' B''
      else case size_unit (nat n div 1024) of (e, d) \<Rightarrow> fixed1 (real_of_int n / real d) @ '' '' @ [''KMGTPE'' ! e] @ ''B'')"

definition human_duration :: "int \<Rightarrow> bytes" where
  "human_duration s =
     (if s < 60 then itoa s @ ''s'' else if s < 3600 then itoa (s div 60) @ ''m''
      else if s < 86400 then itoa (s div 3600) @ ''h'' else itoa (s div 86400) @ ''d'')"

definition stats_row :: "bytes \<Rightarrow> bytes \<Rightarrow> bytes" where
  "stats_row label v = (if v = [] then rune_pad label label_pad @ eol else rune_pad label label_pad @ '' '' @ v @ eol)"

definition tee_glyph :: bytes where "tee_glyph = [byte 0xE2, byte 0x94, byte 0x9C, byte 0xE2, byte 0x94, byte 0x80]"
definition end_glyph :: bytes where "end_glyph = [byte 0xE2, byte 0x94, byte 0x94, byte 0xE2, byte 0x94, byte 0x80]"

fun write_branches :: "(bytes \<times> bytes) list \<Rightarrow> bytes" where
  "write_branches [] = []"
| "write_branches ((k, v) # bs) =
     replicate branch_pad (CHR '' '') @ (if bs = [] then end_glyph else tee_glyph) @ '' '' @ rune_pad k sub_key_pad
     @ '' '' @ v @ eol @ write_branches bs"

definition map_branches :: "(bytes \<times> int) list \<Rightarrow> (bytes \<times> bytes) list" where
  "map_branches m = map (\<lambda>(k, n). (k @ '':'', itoa n)) (sort_key fst m)"

definition write_nodes :: "inspect_stats \<Rightarrow> bytes" where
  "write_nodes s =
     stats_row ''Nodes:'' (itoa (st_nodes (is_core s)) @ '' ('' @ itoa (st_tokens (is_core s)) @ '' tokens)'')
     @ write_branches (map_branches (is_by_type s))"

definition write_snapshots :: "host \<Rightarrow> inspect_stats \<Rightarrow> bytes" where
  "write_snapshots h s =
     stats_row ''Snapshots:'' (itoa (st_snapshots (is_core s)))
     @ (case is_latest s of
          None \<Rightarrow> []
        | Some l \<Rightarrow>
            write_branches
              ((''latest:'', ''#'' @ itoa (la_id l) @ '', '' @ human_duration (la_age l) @ '' ago''
                 @ (if la_message l = [] then [] else '', '' @ ho_quote h (la_message l)))
               # (if la_cursor l = [] then [] else [(''cursor:'', truncate_hash (la_cursor l))])))"

definition write_temperature :: "host \<Rightarrow> inspect_stats \<Rightarrow> bytes" where
  "write_temperature h s =
     stats_row ''Temperature:'' []
     @ write_branches
        [(''avg:'', ho_fixed2 h (st_avg_temp (is_core s))), (''median:'', ho_fixed2 h (st_median_temp (is_core s))),
         (''hot (>='' @ ho_fixed1 h (is_hot s) @ ''):'', itoa (st_hot (is_core s))),
         (''cold (<'' @ ho_fixed1 h (is_cold s) @ ''):'', itoa (st_cold (is_core s))),
         (''pinned:'', itoa (st_pinned (is_core s)))]"

definition write_relations :: "inspect_stats \<Rightarrow> bytes" where
  "write_relations s =
     stats_row ''Relations:'' (itoa (is_relations s))
     @ write_branches (map_branches (is_by_origin s)
         @ (if st_pending (is_core s) > 0 then [(''pending:'', itoa (st_pending (is_core s)))] else []))"

definition format_stats :: "host \<Rightarrow> inspect_stats \<Rightarrow> bytes" where
  "format_stats h s =
     ''Database: '' @ is_path s @ (if is_bytes s > 0 then '' ('' @ human_size (ho_fixed1 h) (is_bytes s) @ '')'' else []) @ eol
     @ write_nodes s @ write_snapshots h s @ write_temperature h s @ write_relations s
     @ stats_row ''FTS rows:'' (itoa (st_fts_rows (is_core s)))"

definition handle_stats :: "host \<Rightarrow> real \<Rightarrow> real \<Rightarrow> db \<Rightarrow> bytes" where
  "handle_stats h hot cold db = format_stats h (collect_stats h hot cold db)"

subsection \<open>Lemmas\<close>

text \<open>Sizes of 64-bit integers have a unit of the table, and the number before it is below 1024.\<close>

lemma size_unit_spec:
  "n < 1024 ^ k \<Longrightarrow> 0 < k \<Longrightarrow> case size_unit n of (e, d) \<Rightarrow> e < k \<and> d = 1024 ^ Suc e \<and> n < d \<and> (0 < e \<longrightarrow> 1024 ^ e \<le> n)"
proof (induction n arbitrary: k rule: size_unit.induct)
  case (1 n)
  show ?case
  proof (cases "n < 1024")
    case True
    then show ?thesis using 1(3) by (simp add: size_unit.simps [of n])
  next
    case False
    then have k: "1 < k" using 1(2) by (cases k; cases "k - 1") auto
    have "n div 1024 < 1024 ^ (k - 1)" using 1(2) k by (cases k) (auto simp: less_mult_imp_div_less mult.commute)
    then have ih: "case size_unit (n div 1024) of (e, d) \<Rightarrow> e < k - 1 \<and> d = 1024 ^ Suc e \<and> n div 1024 < d \<and> (0 < e \<longrightarrow> 1024 ^ e \<le> n div 1024)"
      using 1(1) [OF False, of "k - 1"] k by simp
    obtain e d where ed: "size_unit (n div 1024) = (e, d)" by fastforce
    with ih have h: "e < k - 1" "d = 1024 ^ Suc e" "n div 1024 < d" "0 < e \<longrightarrow> 1024 ^ e \<le> n div 1024" by auto
    have "n < 1024 * d" using h(3) by (simp add: div_less_iff_less_mult mult.commute)
    moreover have "1024 ^ Suc e \<le> n"
    proof (cases e)
      case 0
      then show ?thesis using False by simp
    next
      case (Suc e')
      then have "1024 ^ e \<le> n div 1024" using h(4) by simp
      then show ?thesis by (simp add: less_eq_div_iff_mult_less_eq mult.commute)
    qed
    ultimately show ?thesis using h(1,2) False by (simp add: size_unit.simps [of n] ed)
  qed
qed

end
