(* ===== verification/Doctor.thy ===== *)
theory Doctor
  imports Store_Temperature
begin

text \<open>
  The integrity checks and their repairs (\<open>pkg/doctor\<close>), the migrations of the store (\<open>pkg/store/migrate.go\<close>)
  and the command that runs them (\<open>cmd/remindb/doctor.go\<close>). A database file holds, beside the tables, the
  full-text index and the versions of the migrations that were applied. What SQLite does with these two is
  a parameter (\<open>sqlite\<close>): the integrity check and the rebuilding of the index, and running the SQL of a
  migration. A driver may fail any statement; \<open>drv\<close> gives the error by the name of the statement.
\<close>

record 'f damaged =
  dm_db :: db
  dm_fts :: 'f
  dm_applied :: "bytes list"

record 'f sqlite =
  en_fts_check :: "'f \<Rightarrow> node list \<Rightarrow> error option"
  en_fts_rebuild :: "node list \<Rightarrow> 'f"
  en_exec :: "bytes \<Rightarrow> db \<Rightarrow> db result"
  en_embedded :: "(bytes \<times> bytes) list"
  en_missing :: "bytes \<Rightarrow> bool"
  en_text :: "error \<Rightarrow> bytes"

type_synonym driver = "bytes \<Rightarrow> error option"

definition ask :: "driver \<Rightarrow> bytes \<Rightarrow> 'a \<Rightarrow> 'a result" where
  "ask drv q x = (case drv q of Some e \<Rightarrow> Inl e | None \<Rightarrow> Inr x)"

subsection \<open>Migrations\<close>

definition embedded_versions :: "'f sqlite \<Rightarrow> bytes list" where
  "embedded_versions en = sort (filter (\<lambda>n. has_suffix n ''.sql'') (map fst (en_embedded en)))"

definition load_migrations :: "'f sqlite \<Rightarrow> (bytes \<times> bytes) list" where
  "load_migrations en = sort_key fst (filter (\<lambda>(n, body). has_suffix n ''.sql'') (en_embedded en))"

definition apply_migration :: "'f sqlite \<Rightarrow> driver \<Rightarrow> bytes \<times> bytes \<Rightarrow> 'f damaged \<Rightarrow> 'f damaged result" where
  "apply_migration en drv m d =
     bind_result (ask drv ''apply'' ()) (\<lambda>u. bind_result (en_exec en (snd m) (dm_db d)) (\<lambda>db'.
       Inr (d\<lparr>dm_db := db', dm_applied := dm_applied d @ [fst m]\<rparr>)))"

text \<open>The migrations before one that fails stay applied.\<close>

fun migrate_loop :: "'f sqlite \<Rightarrow> driver \<Rightarrow> bytes list \<Rightarrow> (bytes \<times> bytes) list \<Rightarrow> 'f damaged \<Rightarrow> error option \<times> 'f damaged" where
  "migrate_loop en drv applied [] d = (None, d)"
| "migrate_loop en drv applied (m # ms) d =
     (if fst m \<in> set applied then migrate_loop en drv applied ms d
      else case apply_migration en drv m d of
          Inl e \<Rightarrow> (Some e, d)
        | Inr d' \<Rightarrow> migrate_loop en drv applied ms d')"

definition migrate :: "'f sqlite \<Rightarrow> driver \<Rightarrow> 'f damaged \<Rightarrow> error option \<times> 'f damaged" where
  "migrate en drv d =
     (case bind_result (ask drv ''create'' ()) (\<lambda>u. ask drv ''applied'' (dm_applied d)) of
        Inl e \<Rightarrow> (Some e, d)
      | Inr applied \<Rightarrow> migrate_loop en drv applied (load_migrations en) d)"

subsection \<open>Checks\<close>

datatype status = Pass | Warn | Fail

fun status_string :: "status \<Rightarrow> bytes" where
  "status_string Pass = ''pass''"
| "status_string Warn = ''warn''"
| "status_string Fail = ''fail''"

record check_result =
  cr_status :: status
  cr_detail :: bytes

definition outcome :: "status \<Rightarrow> bytes \<Rightarrow> check_result" where
  "outcome s detail = \<lparr>cr_status = s, cr_detail = detail\<rparr>"

record 'f check =
  ck_name :: bytes
  ck_run :: "driver \<Rightarrow> 'f damaged \<Rightarrow> check_result"
  ck_fix :: "(driver \<Rightarrow> 'f damaged \<Rightarrow> error option \<times> 'f damaged) option"

text \<open>A read that fails makes the check fail.\<close>

definition reading :: "'f sqlite \<Rightarrow> bytes \<Rightarrow> 'a result \<Rightarrow> ('a \<Rightarrow> check_result) \<Rightarrow> check_result" where
  "reading en msg r f = (case r of Inl e \<Rightarrow> outcome Fail (msg @ en_text en e) | Inr x \<Rightarrow> f x)"

text \<open>A repair that is one statement.\<close>

definition statement :: "(db \<Rightarrow> db result) \<Rightarrow> bytes \<Rightarrow> driver \<Rightarrow> 'f damaged \<Rightarrow> error option \<times> 'f damaged" where
  "statement f q drv d =
     (case bind_result (ask drv q ()) (\<lambda>u. f (dm_db d)) of
        Inl e \<Rightarrow> (Some e, d)
      | Inr db' \<Rightarrow> (None, d\<lparr>dm_db := db'\<rparr>))"

definition rebuild_fts :: "'f sqlite \<Rightarrow> driver \<Rightarrow> 'f damaged \<Rightarrow> error option \<times> 'f damaged" where
  "rebuild_fts en drv d =
     (case drv ''rebuild'' of
        Some e \<Rightarrow> (Some e, d)
      | None \<Rightarrow> (None, d\<lparr>dm_fts := en_fts_rebuild en (db_nodes (dm_db d))\<rparr>))"

definition check_fts_integrity :: "'f sqlite \<Rightarrow> driver \<Rightarrow> 'f damaged \<Rightarrow> unit result" where
  "check_fts_integrity en drv d =
     bind_result (ask drv ''integrity'' ()) (\<lambda>u.
       case en_fts_check en (dm_fts d) (db_nodes (dm_db d)) of Some e \<Rightarrow> Inl e | None \<Rightarrow> Inr ())"

definition fts_sync_check :: "'f sqlite \<Rightarrow> 'f check" where
  "fts_sync_check en = \<lparr>ck_name = ''fts5_sync'',
     ck_run = (\<lambda>drv d.
       reading en ''FTS5 integrity check failed: '' (check_fts_integrity en drv d) (\<lambda>u.
       reading en ''failed to count nodes: '' (ask drv ''nodes'' (count_nodes (dm_db d))) (\<lambda>n.
         outcome Pass (''FTS5 index in sync with '' @ itoa n @ '' nodes'')))),
     ck_fix = Some (rebuild_fts en)\<rparr>"

definition orphan_parent_check :: "'f sqlite \<Rightarrow> 'f check" where
  "orphan_parent_check en = \<lparr>ck_name = ''orphan_parent_id'',
     ck_run = (\<lambda>drv d.
       reading en ''failed to count orphans: '' (ask drv ''orphans'' (count_orphan_parents (dm_db d))) (\<lambda>n.
         if n = 0 then outcome Pass ''no orphans''
         else outcome Fail (itoa n @ '' nodes reference a missing parent_id''))),
     ck_fix = Some (statement (\<lambda>db. Inr (promote_orphans_to_roots db)) ''promote'')\<rparr>"

definition arrow_rune :: bytes where "arrow_rune = [byte 0xE2, byte 0x86, byte 0x92]"

definition head_cursor_check :: "'f sqlite \<Rightarrow> 'f check" where
  "head_cursor_check en = \<lparr>ck_name = ''head_cursor'',
     ck_run = (\<lambda>drv d.
       reading en ''failed to read HEAD cursor: '' (ask drv ''head'' (head_cursor_ref (dm_db d))) (\<lambda>(i, has).
         if \<not> has then outcome Pass ''no HEAD cursor''
         else reading en ''failed to verify HEAD snapshot: '' (ask drv ''snapshot'' (snapshot_exists (dm_db d) i)) (\<lambda>ex.
           if \<not> ex then outcome Fail (''HEAD points at missing snapshot '' @ itoa i)
           else outcome Pass (''HEAD '' @ arrow_rune @ '' snapshot '' @ itoa i)))),
     ck_fix = Some (statement repoint_head_cursor ''repoint'')\<rparr>"

definition dangling_diffs_check :: "'f sqlite \<Rightarrow> 'f check" where
  "dangling_diffs_check en = \<lparr>ck_name = ''dangling_diffs'',
     ck_run = (\<lambda>drv d.
       reading en ''failed to count dangling diffs: '' (ask drv ''dangling'' (count_dangling_diffs (dm_db d))) (\<lambda>n.
         if n = 0 then outcome Pass ''no dangling diffs''
         else outcome Fail (itoa n @ '' diff rows reference a missing snapshot''))),
     ck_fix = Some (statement (\<lambda>db. Inr (delete_dangling_diffs db)) ''prune'')\<rparr>"

definition diff_sorted :: "bytes list \<Rightarrow> bytes list \<Rightarrow> bytes list" where
  "diff_sorted want have' = filter (\<lambda>v. v \<notin> set have') want"

definition show_list :: "bytes list \<Rightarrow> bytes" where
  "show_list xs = ''['' @ join_with '' '' xs @ '']''"

definition schema_version_check :: "'f sqlite \<Rightarrow> 'f check" where
  "schema_version_check en = \<lparr>ck_name = ''schema_version'',
     ck_run = (\<lambda>drv d.
       reading en ''failed to read schema_migrations: '' (ask drv ''versions'' (sort (dm_applied d))) (\<lambda>applied.
         let embedded = embedded_versions en; missing = diff_sorted embedded applied
         in if missing = []
            then outcome Pass (itoa (int (length applied)) @ ''/'' @ itoa (int (length embedded)) @ '' migrations applied'')
            else outcome Fail (''missing: '' @ show_list missing @ '' (applied='' @ itoa (int (length applied))
              @ '', embedded='' @ itoa (int (length embedded)) @ '')''))),
     ck_fix = Some (migrate en)\<rparr>"

definition stale_compile_root_check :: "'f sqlite \<Rightarrow> 'f check" where
  "stale_compile_root_check en = \<lparr>ck_name = ''stale_compile_root'',
     ck_run = (\<lambda>drv d.
       reading en ''failed to list compile roots: '' (ask drv ''roots'' (distinct_compile_roots (dm_db d))) (\<lambda>roots.
         let missing = filter (en_missing en) roots
         in if missing = [] then outcome Pass (itoa (int (length roots)) @ '' compile roots present'')
            else outcome Warn (itoa (int (length missing)) @ ''/'' @ itoa (int (length roots))
              @ '' compile roots no longer exist: '' @ show_list missing))),
     ck_fix = None\<rparr>"

definition all_checks :: "'f sqlite \<Rightarrow> 'f check list" where
  "all_checks en = [fts_sync_check en, orphan_parent_check en, head_cursor_check en, dangling_diffs_check en,
     schema_version_check en, stale_compile_root_check en]"

subsection \<open>The run\<close>

record check_report =
  rp_name :: bytes
  rp_status :: status
  rp_detail :: bytes
  rp_fixed :: bool
  rp_error :: bytes

definition report_of :: "bytes \<Rightarrow> check_result \<Rightarrow> check_report" where
  "report_of name r = \<lparr>rp_name = name, rp_status = cr_status r, rp_detail = cr_detail r, rp_fixed = False, rp_error = []\<rparr>"

text \<open>The driver may answer the second run of a check differently (\<open>drv2\<close>).\<close>

definition apply_fix ::
  "'f sqlite \<Rightarrow> driver \<Rightarrow> driver \<Rightarrow> 'f check \<Rightarrow> (driver \<Rightarrow> 'f damaged \<Rightarrow> error option \<times> 'f damaged)
    \<Rightarrow> check_report \<Rightarrow> 'f damaged \<Rightarrow> check_report \<times> 'f damaged" where
  "apply_fix en drv drv2 c fix' entry d =
     (case fix' drv d of
        (Some e, d') \<Rightarrow> (entry\<lparr>rp_error := en_text en e\<rparr>, d')
      | (None, d') \<Rightarrow>
          let again = ck_run c drv2 d'
          in (entry\<lparr>rp_fixed := True, rp_status := cr_status again, rp_detail := cr_detail again,
                rp_error := (if cr_status again = Fail then ''fix ran but check still fails: '' @ cr_detail again else [])\<rparr>, d'))"

definition run_check :: "'f sqlite \<Rightarrow> driver \<Rightarrow> driver \<Rightarrow> bool \<Rightarrow> 'f check \<Rightarrow> 'f damaged \<Rightarrow> check_report \<times> 'f damaged" where
  "run_check en drv drv2 heal c d =
     (let res = ck_run c drv d; entry = report_of (ck_name c) res
      in if heal \<and> cr_status res = Fail
         then case ck_fix c of None \<Rightarrow> (entry, d) | Some fix' \<Rightarrow> apply_fix en drv drv2 c fix' entry d
         else (entry, d))"

fun iterate :: "'f sqlite \<Rightarrow> driver \<Rightarrow> driver \<Rightarrow> bool \<Rightarrow> 'f check list \<Rightarrow> 'f damaged \<Rightarrow> check_report list \<times> 'f damaged" where
  "iterate en drv drv2 heal [] d = ([], d)"
| "iterate en drv drv2 heal (c # cs) d =
     (case run_check en drv drv2 heal c d of (entry, d1) \<Rightarrow>
        case iterate en drv drv2 heal cs d1 of (rest, d2) \<Rightarrow> (entry # rest, d2))"

definition run_checks :: "'f sqlite \<Rightarrow> driver \<Rightarrow> 'f damaged \<Rightarrow> check_report list" where
  "run_checks en drv d = fst (iterate en drv drv False (all_checks en) d)"

definition heal_db :: "'f sqlite \<Rightarrow> driver \<Rightarrow> driver \<Rightarrow> 'f damaged \<Rightarrow> check_report list \<times> 'f damaged" where
  "heal_db en drv drv2 d = iterate en drv drv2 True (all_checks en) d"

definition has_failures :: "check_report list \<Rightarrow> bool" where
  "has_failures rs \<longleftrightarrow> list_ex (\<lambda>r. rp_status r = Fail) rs"

definition overall_status :: "check_report list \<Rightarrow> status" where
  "overall_status rs =
     (if has_failures rs then Fail else if list_ex (\<lambda>r. rp_status r = Warn) rs then Warn else Pass)"

text \<open>The command: with \<open>--fix\<close> a failing database is copied before it is repaired.\<close>

definition dispatch_doctor ::
  "'f sqlite \<Rightarrow> driver \<Rightarrow> driver \<Rightarrow> error option \<Rightarrow> bool \<Rightarrow> 'f damaged \<Rightarrow> check_report list result \<times> 'f damaged" where
  "dispatch_doctor en drv drv2 backup fix' d =
     (if \<not> fix' then (Inr (run_checks en drv d), d)
      else if has_failures (run_checks en drv d) \<and> backup \<noteq> None then (Inl (the backup), d)
      else case heal_db en drv drv2 d of (rs, d') \<Rightarrow> (Inr rs, d'))"

definition run_doctor ::
  "'f sqlite \<Rightarrow> driver \<Rightarrow> driver \<Rightarrow> error option \<Rightarrow> bool \<Rightarrow> 'f damaged \<Rightarrow> check_report list result \<times> bool \<times> 'f damaged" where
  "run_doctor en drv drv2 backup fix' d =
     (case migrate en drv d of
        (Some e, d1) \<Rightarrow> (Inl e, False, d1)
      | (None, d1) \<Rightarrow>
          case dispatch_doctor en drv drv2 backup fix' d1 of
            (Inl e, d2) \<Rightarrow> (Inl e, False, d2)
          | (Inr rs, d2) \<Rightarrow> (Inr rs, \<not> has_failures rs, d2))"

subsection \<open>The report\<close>

fun glyph_and_color :: "status \<Rightarrow> bytes \<times> bytes" where
  "glyph_and_color Pass = ([byte 0xE2, byte 0x9C, byte 0x93], byte 0x1B # ''[32m'')"
| "glyph_and_color Warn = ([byte 0xE2, byte 0x9A, byte 0xA0], byte 0x1B # ''[33m'')"
| "glyph_and_color Fail = ([byte 0xE2, byte 0x9C, byte 0x97], byte 0x1B # ''[31m'')"

definition ansi_reset :: bytes where "ansi_reset = byte 0x1B # ''[0m''"

definition paint_glyph :: "status \<Rightarrow> bool \<Rightarrow> bytes" where
  "paint_glyph s color = (case glyph_and_color s of (g, c) \<Rightarrow> if color then c @ g @ ansi_reset else g)"

fun status_phrase :: "status \<Rightarrow> bytes" where
  "status_phrase Pass = ''Database is healthy''"
| "status_phrase Warn = ''Database has warnings''"
| "status_phrase Fail = ''Database is unhealthy''"

text \<open>\<open>%-20s\<close>; the names of the checks are ASCII.\<close>

definition pad_name :: "bytes \<Rightarrow> bytes" where
  "pad_name s = s @ replicate (20 - length s) (CHR '' '')"

definition check_line :: "bool \<Rightarrow> check_report \<Rightarrow> bytes" where
  "check_line color r =
     paint_glyph (rp_status r) color @ '' '' @ pad_name (rp_name r) @ '' '' @ rp_detail r
     @ (if rp_fixed r then ''  (fixed)'' else [])
     @ (if rp_error r = [] then [] else ''  (fix error: '' @ rp_error r @ '')'')"

definition write_text :: "check_report list \<Rightarrow> bool \<Rightarrow> bytes" where
  "write_text rs color =
     paint_glyph (overall_status rs) color @ '' '' @ status_phrase (overall_status rs) @ [CHR 0x0A, CHR 0x0A]
     @ concat (map (\<lambda>r. check_line color r @ [CHR 0x0A]) rs)"

subsection \<open>A repaired database is healthy\<close>

lemma count_fixed:
  "count_orphan_parents (promote_orphans_to_roots db) = 0" "count_dangling_diffs (delete_dangling_diffs db) = 0"
proof -
  have "node_ids (promote_orphans_to_roots db) = node_ids db"
    by (simp add: promote_orphans_to_roots_def update_rows_def node_ids_def comp_def if_distrib cong: if_cong)
  then show "count_orphan_parents (promote_orphans_to_roots db) = 0"
    by (auto simp: count_orphan_parents_def count_zero_iff is_orphan_def)
      (auto simp: promote_orphans_to_roots_def update_rows_def is_orphan_def split: if_splits)
  show "count_dangling_diffs (delete_dangling_diffs db) = 0"
    by (auto simp: count_dangling_diffs_def count_zero_iff delete_dangling_diffs_def is_dangling_def snapshot_ids_def)
qed

definition no_faults :: driver where "no_faults = (\<lambda>_. None)"

lemma ask_no_faults [simp]: "ask no_faults q x = Inr x"
  by (simp add: ask_def no_faults_def)

lemma head_fixed:
  "\<exists>db'. repoint_head_cursor db = Inr db' \<and> db' = db\<lparr>db_head := db_head db'\<rparr>
     \<and> (\<forall>h. db_head db' = Some h \<longrightarrow> h \<in> set (snapshot_ids db))"
proof (cases "db_snapshots db")
  case Nil
  then show ?thesis by (simp add: repoint_head_cursor_def max_snapshot_id_def snapshot_ids_def)
next
  case (Cons s ss)
  let ?m = "fold max (map s_id ss) (s_id s)"
  have "?m \<in> set (snapshot_ids db)" using fold_max_int [of "map s_id ss" "s_id s"] Cons by (auto simp: snapshot_ids_def)
  moreover from this have "advance_cursor ?m db = Inr (db\<lparr>db_head := Some ?m\<rparr>)" by (simp add: advance_cursor_def)
  moreover have "max_snapshot_id db = (?m, True)" using Cons by (simp add: max_snapshot_id_def snapshot_ids_def)
  ultimately show ?thesis using Cons by (simp add: repoint_head_cursor_def)
qed

definition repointed :: "db \<Rightarrow> db" where
  "repointed db = (case repoint_head_cursor db of Inl e \<Rightarrow> db | Inr db' \<Rightarrow> db')"

lemma repointed_Inr: "repoint_head_cursor db = Inr (repointed db)"
  using head_fixed [of db] by (auto simp: repointed_def)

lemma repointed_tables [simp]:
  "db_nodes (repointed db) = db_nodes db" "db_snapshots (repointed db) = db_snapshots db"
  "db_diffs (repointed db) = db_diffs db" "db_relations (repointed db) = db_relations db"
  "db_pending (repointed db) = db_pending db"
proof -
  obtain h where "repointed db = db\<lparr>db_head := h\<rparr>" using head_fixed [of db] by (auto simp: repointed_def)
  then show "db_nodes (repointed db) = db_nodes db" "db_snapshots (repointed db) = db_snapshots db"
    "db_diffs (repointed db) = db_diffs db" "db_relations (repointed db) = db_relations db"
    "db_pending (repointed db) = db_pending db" by simp_all
qed

text \<open>What a check tests.\<close>

definition fts_fine :: "'f sqlite \<Rightarrow> 'f damaged \<Rightarrow> bool" where
  "fts_fine en d \<longleftrightarrow> en_fts_check en (dm_fts d) (db_nodes (dm_db d)) = None"

definition parents_fine :: "'f damaged \<Rightarrow> bool" where
  "parents_fine d \<longleftrightarrow> count_orphan_parents (dm_db d) = 0"

definition head_fine :: "'f damaged \<Rightarrow> bool" where
  "head_fine d \<longleftrightarrow> (\<forall>h. db_head (dm_db d) = Some h \<longrightarrow> h \<in> set (snapshot_ids (dm_db d)))"

definition diffs_fine :: "'f damaged \<Rightarrow> bool" where
  "diffs_fine d \<longleftrightarrow> count_dangling_diffs (dm_db d) = 0"

definition schema_fine :: "'f sqlite \<Rightarrow> 'f damaged \<Rightarrow> bool" where
  "schema_fine en d \<longleftrightarrow> set (embedded_versions en) \<subseteq> set (dm_applied d)"

definition decides :: "'f check \<Rightarrow> ('f damaged \<Rightarrow> bool) \<Rightarrow> bool" where
  "decides c P \<longleftrightarrow> (\<forall>d. cr_status (ck_run c no_faults d) = Fail \<longleftrightarrow> \<not> P d)"

lemma checks_decide:
  "decides (fts_sync_check en) (fts_fine en)" "decides (orphan_parent_check en) parents_fine"
  "decides (head_cursor_check en) head_fine" "decides (dangling_diffs_check en) diffs_fine"
  "decides (schema_version_check en) (schema_fine en)" "decides (stale_compile_root_check en) (\<lambda>d. True)"
  unfolding decides_def
  by (auto simp: fts_sync_check_def fts_fine_def reading_def check_fts_integrity_def outcome_def
      orphan_parent_check_def parents_fine_def head_cursor_check_def head_fine_def head_cursor_ref_def snapshot_exists_def
      dangling_diffs_check_def diffs_fine_def schema_version_check_def schema_fine_def diff_sorted_def filter_empty_conv
      stale_compile_root_check_def Let_def split: option.splits)

definition repairs :: "'f check \<Rightarrow> ('f damaged \<Rightarrow> bool) \<Rightarrow> ('f damaged \<Rightarrow> 'f damaged) \<Rightarrow> bool" where
  "repairs c P g \<longleftrightarrow> (\<exists>fix'. ck_fix c = Some fix' \<and> (\<forall>d. fix' no_faults d = (None, g d) \<and> P (g d)))"

lemma run_check_repairs:
  assumes "decides c P" "repairs c P g"
  shows "\<exists>e. run_check en no_faults no_faults True c d = (e, if P d then d else g d) \<and> rp_status e \<noteq> Fail"
  using assms by (auto simp: decides_def repairs_def run_check_def apply_fix_def report_of_def Let_def)

lemma run_check_reads:
  assumes "decides c P" "P d"
  shows "run_check en no_faults no_faults b c d = (report_of (ck_name c) (ck_run c no_faults d), d)"
    and "rp_status (report_of (ck_name c) (ck_run c no_faults d)) \<noteq> Fail"
  using assms by (auto simp: decides_def run_check_def report_of_def Let_def)

lemma migrate_loop_all:
  assumes "\<And>b db. en_exec en b db = Inr db"
  shows "migrate_loop en no_faults applied ms d
    = (None, d\<lparr>dm_applied := dm_applied d @ filter (\<lambda>v. v \<notin> set applied) (map fst ms)\<rparr>)"
  by (induction ms arbitrary: d) (simp_all add: apply_migration_def assms)

definition migrated :: "'f sqlite \<Rightarrow> 'f damaged \<Rightarrow> 'f damaged" where
  "migrated en d = d\<lparr>dm_applied := dm_applied d @ filter (\<lambda>v. v \<notin> set (dm_applied d)) (map fst (load_migrations en))\<rparr>"

lemma load_versions: "set (map fst (load_migrations en)) = set (embedded_versions en)"
  by (auto simp: load_migrations_def embedded_versions_def image_iff)

lemma checks_repair:
  assumes "\<And>ns. en_fts_check en (en_fts_rebuild en ns) ns = None" "\<And>b db. en_exec en b db = Inr db"
  shows "repairs (fts_sync_check en) (fts_fine en) (\<lambda>d. d\<lparr>dm_fts := en_fts_rebuild en (db_nodes (dm_db d))\<rparr>)"
    "repairs (orphan_parent_check en) parents_fine (\<lambda>d. d\<lparr>dm_db := promote_orphans_to_roots (dm_db d)\<rparr>)"
    "repairs (head_cursor_check en) head_fine (\<lambda>d. d\<lparr>dm_db := repointed (dm_db d)\<rparr>)"
    "repairs (dangling_diffs_check en) diffs_fine (\<lambda>d. d\<lparr>dm_db := delete_dangling_diffs (dm_db d)\<rparr>)"
    "repairs (schema_version_check en) (schema_fine en) (migrated en)"
proof -
  show "repairs (fts_sync_check en) (fts_fine en) (\<lambda>d. d\<lparr>dm_fts := en_fts_rebuild en (db_nodes (dm_db d))\<rparr>)"
    using assms(1) by (simp add: repairs_def fts_sync_check_def rebuild_fts_def no_faults_def fts_fine_def)
  show "repairs (orphan_parent_check en) parents_fine (\<lambda>d. d\<lparr>dm_db := promote_orphans_to_roots (dm_db d)\<rparr>)"
    by (simp add: repairs_def orphan_parent_check_def statement_def parents_fine_def count_fixed)
  show "repairs (dangling_diffs_check en) diffs_fine (\<lambda>d. d\<lparr>dm_db := delete_dangling_diffs (dm_db d)\<rparr>)"
    by (simp add: repairs_def dangling_diffs_check_def statement_def diffs_fine_def count_fixed)
  have "\<forall>h. db_head (repointed db) = Some h \<longrightarrow> h \<in> set (snapshot_ids (repointed db))" for db
  proof -
    have "snapshot_ids (repointed db) = snapshot_ids db" by (simp add: snapshot_ids_def)
    then show ?thesis using head_fixed [of db] by (simp add: repointed_Inr)
  qed
  then show "repairs (head_cursor_check en) head_fine (\<lambda>d. d\<lparr>dm_db := repointed (dm_db d)\<rparr>)"
    by (simp add: repairs_def head_cursor_check_def statement_def head_fine_def repointed_Inr)
  show "repairs (schema_version_check en) (schema_fine en) (migrated en)"
    using load_versions [of en]
    by (auto simp: repairs_def schema_version_check_def migrate_def migrate_loop_all [OF assms(2)] migrated_def schema_fine_def)
qed

text \<open>A repair does not undo another one.\<close>

definition promoted :: "'f damaged \<Rightarrow> 'f damaged" where
  "promoted d = (if parents_fine d then d else d\<lparr>dm_db := promote_orphans_to_roots (dm_db d)\<rparr>)"

definition headed :: "'f damaged \<Rightarrow> 'f damaged" where
  "headed d = (if head_fine d then d else d\<lparr>dm_db := repointed (dm_db d)\<rparr>)"

definition pruned :: "'f damaged \<Rightarrow> 'f damaged" where
  "pruned d = (if diffs_fine d then d else d\<lparr>dm_db := delete_dangling_diffs (dm_db d)\<rparr>)"

definition reindexed :: "'f sqlite \<Rightarrow> 'f damaged \<Rightarrow> 'f damaged" where
  "reindexed en d = (if fts_fine en d then d else d\<lparr>dm_fts := en_fts_rebuild en (db_nodes (dm_db d))\<rparr>)"

definition upgraded :: "'f sqlite \<Rightarrow> 'f damaged \<Rightarrow> 'f damaged" where
  "upgraded en d = (if schema_fine en d then d else migrated en d)"

lemma promoted_nodes: "db_nodes (promote_orphans_to_roots db) =
    map (\<lambda>n. if is_orphan db n then n\<lparr>n_parent := [], n_updated := db_now db\<rparr> else n) (db_nodes db)"
  by (simp add: promote_orphans_to_roots_def update_rows_def)

lemma orphans_same: "db_nodes db = db_nodes db' \<Longrightarrow> count_orphan_parents db = count_orphan_parents db'"
  by (simp add: count_orphan_parents_def is_orphan_def [abs_def] node_ids_def)

lemma kept:
  "parents_fine (headed d) = parents_fine d" "parents_fine (pruned d) = parents_fine d" "parents_fine (upgraded en d) = parents_fine d"
  "fts_fine en (headed d) = fts_fine en d" "fts_fine en (pruned d) = fts_fine en d" "fts_fine en (upgraded en' d) = fts_fine en d"
  "head_fine (pruned d) = head_fine d" "head_fine (upgraded en d) = head_fine d" "diffs_fine (upgraded en d) = diffs_fine d"
  by (simp_all add: headed_def pruned_def upgraded_def migrated_def parents_fine_def fts_fine_def head_fine_def diffs_fine_def
      delete_dangling_diffs_def snapshot_ids_def orphans_same [of "repointed (dm_db d)" "dm_db d"]
      orphans_same [of "(dm_db d)\<lparr>db_diffs := ds\<rparr>" "dm_db d" for ds])

definition healthy :: "'f sqlite \<Rightarrow> 'f damaged \<Rightarrow> bool" where
  "healthy en d \<longleftrightarrow> fts_fine en d \<and> parents_fine d \<and> head_fine d \<and> diffs_fine d \<and> schema_fine en d"

lemma run_no_failures: "has_failures (run_checks en no_faults d) \<longleftrightarrow> \<not> healthy en d"
  using checks_decide [of en]
  by (auto simp: has_failures_def run_checks_def all_checks_def run_check_def report_of_def Let_def healthy_def decides_def)

lemma heal_healthy:
  assumes "healthy en d"
  shows "heal_db en no_faults no_faults d = (run_checks en no_faults d, d)"
  using assms checks_decide [of en]
  by (auto simp: heal_db_def run_checks_def all_checks_def run_check_def Let_def healthy_def decides_def)

definition healed :: "'f sqlite \<Rightarrow> 'f damaged \<Rightarrow> 'f damaged" where
  "healed en d = upgraded en (pruned (headed (promoted (reindexed en d))))"

lemma heal_runs:
  assumes "\<And>ns. en_fts_check en (en_fts_rebuild en ns) ns = None" "\<And>b db. en_exec en b db = Inr db"
  shows "\<exists>rs. heal_db en no_faults no_faults d = (rs, healed en d) \<and> \<not> has_failures rs"
proof -
  let ?run = "run_check en no_faults no_faults True"
  note step = run_check_repairs [where en = en]
  have repair: "\<exists>e. ?run (fts_sync_check en) d = (e, reindexed en d) \<and> rp_status e \<noteq> Fail"
    "\<exists>e. ?run (orphan_parent_check en) d = (e, promoted d) \<and> rp_status e \<noteq> Fail"
    "\<exists>e. ?run (head_cursor_check en) d = (e, headed d) \<and> rp_status e \<noteq> Fail"
    "\<exists>e. ?run (dangling_diffs_check en) d = (e, pruned d) \<and> rp_status e \<noteq> Fail"
    "\<exists>e. ?run (schema_version_check en) d = (e, upgraded en d) \<and> rp_status e \<noteq> Fail" for d
    using step [OF checks_decide(1) checks_repair(1) [OF assms]] step [OF checks_decide(2) checks_repair(2) [OF assms]]
      step [OF checks_decide(3) checks_repair(3) [OF assms]] step [OF checks_decide(4) checks_repair(4) [OF assms]]
      step [OF checks_decide(5) checks_repair(5) [OF assms]]
    unfolding reindexed_def promoted_def headed_def pruned_def upgraded_def by blast+
  have stale: "\<exists>e. ?run (stale_compile_root_check en) d = (e, d) \<and> rp_status e \<noteq> Fail" for d
    using run_check_reads [OF checks_decide(6) TrueI] by blast
  obtain e1 e2 e3 e4 e5 e6 where "?run (fts_sync_check en) d = (e1, reindexed en d)" "rp_status e1 \<noteq> Fail"
    "?run (orphan_parent_check en) (reindexed en d) = (e2, promoted (reindexed en d))" "rp_status e2 \<noteq> Fail"
    "?run (head_cursor_check en) (promoted (reindexed en d)) = (e3, headed (promoted (reindexed en d)))" "rp_status e3 \<noteq> Fail"
    "?run (dangling_diffs_check en) (headed (promoted (reindexed en d))) = (e4, pruned (headed (promoted (reindexed en d))))"
    "rp_status e4 \<noteq> Fail"
    "?run (schema_version_check en) (pruned (headed (promoted (reindexed en d)))) = (e5, healed en d)" "rp_status e5 \<noteq> Fail"
    "?run (stale_compile_root_check en) (healed en d) = (e6, healed en d)" "rp_status e6 \<noteq> Fail"
    using repair stale unfolding healed_def by metis
  then show ?thesis by (simp add: heal_db_def all_checks_def has_failures_def)
qed

text \<open>
  The laws of the engine on which the repair relies: a rebuilt index passes, the check looks neither at the
  parent of a node nor at the time of its update, and the migrations that are missing do not touch the rows.
\<close>

definition engine_ok :: "'f sqlite \<Rightarrow> bool" where
  "engine_ok en \<longleftrightarrow> (\<forall>ns. en_fts_check en (en_fts_rebuild en ns) ns = None)
     \<and> (\<forall>fts P t ns. en_fts_check en fts (map (\<lambda>n. if P n then n\<lparr>n_parent := [], n_updated := t\<rparr> else n) ns) = en_fts_check en fts ns)
     \<and> (\<forall>body db. en_exec en body db = Inr db)"

lemma healed_healthy:
  assumes "engine_ok en"
  shows "healthy en (healed en d)"
proof -
  have "fts_fine en (reindexed en d)" using assms by (simp add: reindexed_def fts_fine_def engine_ok_def)
  then have "fts_fine en (promoted (reindexed en d))"
    using assms by (simp add: promoted_def fts_fine_def promoted_nodes engine_ok_def)
  moreover have "parents_fine (promoted d)" "diffs_fine (pruned d)" for d :: "'a damaged"
    by (simp_all add: promoted_def parents_fine_def pruned_def diffs_fine_def count_fixed)
  moreover have "head_fine (headed d)" for d :: "'a damaged"
    using head_fixed [of "dm_db d"] by (simp add: headed_def head_fine_def repointed_Inr snapshot_ids_def)
  moreover have "schema_fine en (upgraded en d)" for d
    using load_versions [of en] by (auto simp: upgraded_def schema_fine_def migrated_def)
  ultimately show ?thesis by (simp add: healthy_def healed_def kept)
qed

definition same_rows :: "db \<Rightarrow> db \<Rightarrow> bool" where
  "same_rows db db' \<longleftrightarrow> db_snapshots db' = db_snapshots db \<and> db_relations db' = db_relations db
     \<and> map n_content (db_nodes db') = map n_content (db_nodes db) \<and> node_ids db' = node_ids db"

lemma same_rows_trans: "same_rows a b \<Longrightarrow> same_rows b c \<Longrightarrow> same_rows a c"
  by (simp add: same_rows_def)

lemma same_rows_promote: "same_rows db (promote_orphans_to_roots db)"
proof -
  have "map n_content (map (\<lambda>n. if P n then n\<lparr>n_parent := [], n_updated := t\<rparr> else n) ns) = map n_content ns"
    "map n_id (map (\<lambda>n. if P n then n\<lparr>n_parent := [], n_updated := t\<rparr> else n) ns) = map n_id ns" for P t ns
    by (induction ns) simp_all
  then show ?thesis
    by (simp add: same_rows_def node_ids_def promoted_nodes del: map_map) (simp add: promote_orphans_to_roots_def update_rows_def)
qed

lemma same_rows_healed: "same_rows (dm_db d) (dm_db (healed en d))"
proof -
  have "same_rows (dm_db d) (dm_db (reindexed en d))" for d by (simp add: reindexed_def same_rows_def)
  moreover have "same_rows (dm_db d) (dm_db (promoted d))" for d :: "'a damaged"
    by (simp add: promoted_def same_rows_promote) (simp add: same_rows_def)
  moreover have "same_rows (dm_db d) (dm_db (headed d))" for d :: "'a damaged"
    by (simp add: headed_def same_rows_def node_ids_def)
  moreover have "same_rows (dm_db d) (dm_db (pruned d))" for d :: "'a damaged"
    by (simp add: pruned_def same_rows_def node_ids_def delete_dangling_diffs_def)
  moreover have "same_rows (dm_db d) (dm_db (upgraded en d))" for d by (simp add: upgraded_def migrated_def same_rows_def)
  ultimately show ?thesis unfolding healed_def by (metis same_rows_trans)
qed


definition sample_engine :: "node list sqlite" where
  "sample_engine = \<lparr>en_fts_check = \<lambda>fts ns. if map n_content fts = map n_content ns then None else Some (Failure ''malformed''),
     en_fts_rebuild = \<lambda>ns. ns, en_exec = \<lambda>body db. Inr db, en_embedded = [(''1.sql'', [])], en_missing = \<lambda>_. False,
     en_text = \<lambda>_. ''malformed''\<rparr>"

definition sample_damaged :: "node list damaged" where
  "sample_damaged = \<lparr>dm_db = empty_db\<lparr>db_head := Some 7\<rparr>, dm_fts = [], dm_applied = []\<rparr>"

lemma sample_engine_ok: "engine_ok sample_engine"
proof -
  have "map n_content (map (\<lambda>n. if P n then n\<lparr>n_parent := [], n_updated := t\<rparr> else n) ns) = map n_content ns" for P t ns
    by (induction ns) simp_all
  then show ?thesis unfolding engine_ok_def sample_engine_def by simp
qed


end
