(* ===== verification/Resources.thy ===== *)
theory Resources
  imports Inspect Doctor Server_Feeds Sessions Rescan Memory_Forget
begin

text \<open>
  The read-only resources of the server (\<open>pkg/mcp/resources\<close>): what each handler puts into its answer, up to
  the encoding as JSON. \<open>net/url\<close> is the parameter \<open>url\<close>: the path and the query of an address.
\<close>

subsection \<open>Overview\<close>

record nodes_envelope =
  ne_total :: int
  ne_by_type :: "(bytes \<times> int) list"
  ne_tokens :: int

record snapshots_envelope =
  se_count :: int
  se_head :: int
  se_cursor :: bytes
  se_message :: bytes
  se_age :: int

record temp_summary =
  ts_avg :: real
  ts_median :: real
  ts_hot :: int
  ts_cold :: int
  ts_pinned :: int

record relations_envelope =
  re_total :: int
  re_by_origin :: "(bytes \<times> int) list"
  re_pending :: int

record overview_envelope =
  ov_path :: bytes
  ov_bytes :: int
  ov_nodes :: nodes_envelope
  ov_snapshots :: snapshots_envelope
  ov_temperature :: temp_summary
  ov_relations :: relations_envelope
  ov_fts :: int

definition new_overview_envelope :: "inspect_stats \<Rightarrow> overview_envelope" where
  "new_overview_envelope s =
     (let c = is_core s
      in \<lparr>ov_path = is_path s, ov_bytes = is_bytes s,
          ov_nodes = \<lparr>ne_total = st_nodes c, ne_by_type = is_by_type s, ne_tokens = st_tokens c\<rparr>,
          ov_snapshots = (case is_latest s of
              None \<Rightarrow> \<lparr>se_count = st_snapshots c, se_head = 0, se_cursor = [], se_message = [], se_age = 0\<rparr>
            | Some l \<Rightarrow> \<lparr>se_count = st_snapshots c, se_head = la_id l, se_cursor = la_cursor l, se_message = la_message l,
                se_age = la_age l\<rparr>),
          ov_temperature = \<lparr>ts_avg = st_avg_temp c, ts_median = st_median_temp c, ts_hot = st_hot c, ts_cold = st_cold c,
            ts_pinned = st_pinned c\<rparr>,
          ov_relations = \<lparr>re_total = sum_list (map snd (is_by_origin s)), re_by_origin = is_by_origin s,
            re_pending = st_pending c\<rparr>,
          ov_fts = st_fts_rows c\<rparr>)"

definition handle_overview :: "host \<Rightarrow> real \<Rightarrow> real \<Rightarrow> db \<Rightarrow> overview_envelope" where
  "handle_overview h hot cold db = new_overview_envelope (collect_stats h hot cold db)"

subsection \<open>Temperature\<close>

record temp_node =
  tn_id :: bytes
  tn_label :: bytes
  tn_temp :: real
  tn_pinned :: bool

record temperature_envelope =
  te_summary :: temp_summary
  te_cold :: real
  te_hot :: real
  te_nodes :: "temp_node list"

text \<open>The loop adds up the temperatures in the order of the nodes; floating point rounds that sum.\<close>

definition new_temperature_envelope :: "node list \<Rightarrow> real \<Rightarrow> real \<Rightarrow> temperature_envelope" where
  "new_temperature_envelope all cold hot =
     (let temps = map n_temp all
      in \<lparr>te_summary =
            (if all = [] then \<lparr>ts_avg = 0, ts_median = 0, ts_hot = 0, ts_cold = 0, ts_pinned = 0\<rparr>
             else \<lparr>ts_avg = sum_list temps / real (length all), ts_median = sort temps ! (length temps div 2),
               ts_hot = int (length (filter (\<lambda>n. hot \<le> n_temp n) all)),
               ts_cold = int (length (filter (\<lambda>n. n_temp n < cold) all)),
               ts_pinned = int (length (filter n_pinned all))\<rparr>),
          te_cold = cold, te_hot = hot,
          te_nodes = map (\<lambda>n. \<lparr>tn_id = n_id n, tn_label = n_label n, tn_temp = n_temp n, tn_pinned = n_pinned n\<rparr>) all\<rparr>)"

definition handle_temperature :: "real \<Rightarrow> real \<Rightarrow> db \<Rightarrow> temperature_envelope" where
  "handle_temperature hot cold db = new_temperature_envelope (get_all_nodes db) cold hot"

subsection \<open>Files\<close>

record file_entry =
  fe_path :: bytes
  fe_nodes :: int
  fe_tokens :: int

definition file_entry_of :: "file_summary \<Rightarrow> file_entry" where
  "file_entry_of f = \<lparr>fe_path = fs_path f, fe_nodes = fs_nodes f, fe_tokens = fs_tokens f\<rparr>"

text \<open>Groups by compile root, the files without one last.\<close>

definition new_files_envelope :: "file_summary list \<Rightarrow> (bytes \<times> file_entry list) list" where
  "new_files_envelope fs =
     (let order = sort_key (\<lambda>r. (r = [])) (sort (first_occs (map fs_root fs)))
      in map (\<lambda>r. (r, map file_entry_of (filter (\<lambda>f. fs_root f = r) fs))) order)"

definition handle_files :: "db \<Rightarrow> (bytes \<times> file_entry list) list" where
  "handle_files db = new_files_envelope (list_file_summaries db)"

subsection \<open>Graph\<close>

record graph_node =
  gn_id :: bytes
  gn_label :: bytes
  gn_type :: bytes
  gn_temp :: real

record graph_edge =
  ge_source :: bytes
  ge_target :: bytes
  ge_weight :: real
  ge_origin :: bytes

record graph_pending =
  gp_source :: bytes
  gp_label :: bytes
  gp_file :: bytes
  gp_hint :: bytes
  gp_weight :: real
  gp_origin :: bytes

record graph_envelope =
  gr_nodes :: "graph_node list"
  gr_edges :: "graph_edge list"
  gr_pending :: "graph_pending list"

definition graph_body :: "db \<Rightarrow> graph_envelope" where
  "graph_body db =
     (let rs = all_relations db; ps = all_pending db;
          referenced = set (map l_source rs @ map l_target rs @ map p_source ps)
      in \<lparr>gr_nodes = map (\<lambda>n. \<lparr>gn_id = n_id n, gn_label = n_label n, gn_type = n_type n, gn_temp = n_temp n\<rparr>)
            (filter (\<lambda>n. n_id n \<in> referenced) (get_all_nodes db)),
          gr_edges = map (\<lambda>r. \<lparr>ge_source = l_source r, ge_target = l_target r, ge_weight = l_weight r, ge_origin = l_origin r\<rparr>) rs,
          gr_pending = map (\<lambda>p. \<lparr>gp_source = p_source p, gp_label = p_label p, gp_file = p_file p, gp_hint = p_hint p,
            gp_weight = p_weight p, gp_origin = p_origin p\<rparr>) ps\<rparr>)"

subsection \<open>Snapshots\<close>

record snapshot_entry =
  sn_id :: int
  sn_parent :: "int option"
  sn_created :: int
  sn_message :: bytes
  sn_root :: bytes
  sn_is_head :: bool

definition new_snapshots_envelope :: "snapshot list \<Rightarrow> int \<Rightarrow> snapshot_entry list" where
  "new_snapshots_envelope ss head =
     map (\<lambda>s. \<lparr>sn_id = s_id s, sn_parent = s_parent s, sn_created = s_created s, sn_message = s_message s,
       sn_root = s_root s, sn_is_head = (head \<noteq> 0 \<and> s_id s = head)\<rparr>) ss"

definition snapshots_body :: "int \<Rightarrow> db \<Rightarrow> snapshot_entry list" where
  "snapshots_body limit db = new_snapshots_envelope (list_snapshots db limit) (head_snapshot_id db)"

definition snapshot_list_unlimited :: int where "snapshot_list_unlimited = - 1"

definition handle_snapshots :: "db \<Rightarrow> snapshot_entry list" where
  "handle_snapshots = snapshots_body snapshot_list_unlimited"

text \<open>\<open>strconv.Atoi\<close> and \<open>ParseInt\<close> in base 10, for 64 bits.\<close>

definition atoi :: "bytes \<Rightarrow> int option" where
  "atoi s =
     (let neg = has_prefix s ''-''; ds = (if neg \<or> has_prefix s ''+'' then drop 1 s else s)
      in if ds = [] \<or> \<not> list_all is_digit ds then None
         else let i = (if neg then - int (digits_val ds) else int (digits_val ds))
           in if - (2 ^ 63) \<le> i \<and> i < 2 ^ 63 then Some i else None)"

type_synonym url_parser = "bytes \<Rightarrow> (bytes \<times> (bytes \<Rightarrow> bytes)) result"

definition query_number :: "bytes \<Rightarrow> bytes \<Rightarrow> int \<Rightarrow> int \<Rightarrow> int result" where
  "query_number msg v least dflt =
     (if v = [] then Inr dflt
      else case atoi v of None \<Rightarrow> Inl (Failure msg) | Some i \<Rightarrow> if i < least then Inl (Failure msg) else Inr i)"

definition handle_snapshots_limited :: "url_parser \<Rightarrow> bytes \<Rightarrow> db \<Rightarrow> snapshot_entry list result" where
  "handle_snapshots_limited url uri db =
     bind_result (url uri) (\<lambda>(path, query).
     bind_result (query_number ''invalid limit'' (query ''limit'') 1 snapshot_list_unlimited) (\<lambda>limit.
       Inr (snapshots_body limit db)))"

record diff_entry =
  de_op :: bytes
  de_node :: bytes
  de_old_hash :: bytes
  de_new_hash :: bytes
  de_old_content :: bytes
  de_new_content :: bytes

definition new_snapshot_diffs_envelope :: "int \<Rightarrow> diff_row list \<Rightarrow> int \<times> diff_entry list" where
  "new_snapshot_diffs_envelope sid ds =
     (sid, map (\<lambda>d. \<lparr>de_op = r_op d, de_node = r_node d, de_old_hash = r_old_hash d, de_new_hash = r_new_hash d,
        de_old_content = r_old_content d, de_new_content = r_new_content d\<rparr>) ds)"

definition handle_snapshot_diffs :: "url_parser \<Rightarrow> bytes \<Rightarrow> db \<Rightarrow> (int \<times> diff_entry list) result" where
  "handle_snapshot_diffs url uri db =
     bind_result (url uri) (\<lambda>(path, query).
       let seg = trim_suffix (trim_prefix path ''/'') ''/diffs''
       in if seg = [] then Inl (Failure ''snapshot diffs uri missing snapshot id'')
          else bind_result (query_number ''invalid snapshot id'' seg 1 0) (\<lambda>sid.
            Inr (new_snapshot_diffs_envelope sid (diffs_by_snapshot db sid))))"

subsection \<open>Tree\<close>

record tree_fields =
  tf_id :: bytes
  tf_type :: bytes
  tf_label :: bytes
  tf_depth :: int
  tf_tokens :: int
  tf_temp :: real
  tf_source :: bytes

datatype tree_json = TreeJson tree_fields "tree_json list"

definition fields_of :: "bytes \<Rightarrow> node \<Rightarrow> tree_fields" where
  "fields_of rt n = \<lparr>tf_id = n_id n, tf_type = n_type n, tf_label = n_label n, tf_depth = n_depth n, tf_tokens = n_tokens n,
     tf_temp = n_temp n, tf_source = relative_to (n_source n) rt\<rparr>"

text \<open>
  \<open>limit\<close> is the number of levels below the node, or no limit (depth 0). The descent does not end when a node
  is its own ancestor; then no amount of fuel gives a tree.
\<close>

fun build_tree_json :: "(node_id \<Rightarrow> node list) \<Rightarrow> bytes \<Rightarrow> nat option \<Rightarrow> nat \<Rightarrow> node \<Rightarrow> tree_json option" where
  "build_tree_json children rt limit 0 n = None"
| "build_tree_json children rt limit (Suc fuel) n =
     (let kids = (if limit = Some 0 then [] else children (n_id n))
      in map_option (TreeJson (fields_of rt n))
           (those (map (build_tree_json children rt (map_option (\<lambda>k. k - 1) limit) fuel) kids)))"

definition err_no_answer :: error where "err_no_answer = Failure ''stack overflow''"

definition tree_body :: "node_id \<Rightarrow> int \<Rightarrow> db \<Rightarrow> tree_json list result" where
  "tree_body root_id max_depth db =
     (let all = get_all_nodes db; (tops, children) = build_tree all;
          roots = (if root_id = [] then Inr tops
            else case lookup_by n_id root_id all of
                None \<Rightarrow> Inl (Failure (''root node '' @ root_id @ '' not found''))
              | Some n \<Rightarrow> Inr [n])
      in bind_result roots (\<lambda>rs.
           case those (map (build_tree_json children (latest_compile_root db)
               (if max_depth > 0 then Some (nat max_depth) else None) (Suc (length all))) rs) of
             None \<Rightarrow> Inl err_no_answer
           | Some ts \<Rightarrow> Inr ts))"

definition handle_tree_resource :: "db \<Rightarrow> tree_json list result" where
  "handle_tree_resource db = tree_body [] 0 db"

definition handle_tree_by_root :: "url_parser \<Rightarrow> bytes \<Rightarrow> db \<Rightarrow> tree_json list result" where
  "handle_tree_by_root url uri db =
     bind_result (url uri) (\<lambda>(path, query).
       let root_id = trim_prefix path ''/''
       in if root_id = [] then Inl (Failure ''tree uri missing root id'')
          else bind_result (query_number ''invalid depth'' (query ''depth'') 0 0) (\<lambda>depth. tree_body root_id depth db))"

subsection \<open>Views of the server's own state\<close>

definition handle_rescan :: "rescan_status option \<Rightarrow> int \<times> scan_snapshot option" where
  "handle_rescan st = (case st of None \<Rightarrow> (0, None) | Some s \<Rightarrow> (st_interval s, Some (st_last s)))"

definition handle_logs :: "'r log_buffer option \<Rightarrow> 'r list \<times> nat" where
  "handle_logs b = (case b of None \<Rightarrow> ([], 0) | Some lb \<Rightarrow> (buffered lb, lb_dropped lb))"

definition handle_doctor :: "'f sqlite \<Rightarrow> driver \<Rightarrow> 'f damaged \<Rightarrow> status \<times> check_report list" where
  "handle_doctor en drv d = (let rs = run_checks en drv d in (overall_status rs, rs))"

definition handle_sessions :: "hash64 \<Rightarrow> int \<Rightarrow> sdk_session list \<Rightarrow> bytes \<Rightarrow> registry option \<Rightarrow> (bytes \<times> session_info list) \<times> registry option" where
  "handle_sessions xxh now live path g =
     (case g of
        None \<Rightarrow> ((path, []), None)
      | Some r \<Rightarrow> (case registry_snapshot xxh now live r of (infos, r') \<Rightarrow> ((path, infos), Some r')))"

definition handle_sessions_history :: "hash64 \<Rightarrow> (bytes \<Rightarrow> session_record option) \<Rightarrow> bytes \<Rightarrow> directory option \<Rightarrow> bytes \<times> client_ledger list" where
  "handle_sessions_history xxh dec path d = (path, case d of None \<Rightarrow> [] | Some dir \<Rightarrow> clients xxh dec dir)"

definition handle_history_by_hash ::
  "hash64 \<Rightarrow> (bytes \<Rightarrow> session_record option) \<Rightarrow> url_parser \<Rightarrow> bytes \<Rightarrow> directory option \<Rightarrow> client_ledger result" where
  "handle_history_by_hash xxh dec url uri d =
     bind_result (url uri) (\<lambda>(path, query).
       let hash = trim_prefix path ''/history/''
       in if hash = [] \<or> str_contains hash ''/'' then Inl (Failure ''sessions history uri missing client hash'')
          else case d of None \<Rightarrow> Inl (Failure (''unknown client '' @ hash)) | Some dir \<Rightarrow> client xxh dec dir hash)"

subsection \<open>The tree shows every node once\<close>

text \<open>The nodes of a tree with their parents, in the order of the answer.\<close>

fun tree_pairs :: "bytes \<Rightarrow> tree_json \<Rightarrow> (bytes \<times> bytes) list" where
  "tree_pairs par (TreeJson f ks) = (tf_id f, par) # concat (map (tree_pairs (tf_id f)) ks)"

text \<open>The edges of the table with the rows of no parent below the empty identifier.\<close>

definition hang :: "db \<Rightarrow> (node_id \<times> node_id) set" where
  "hang db = {(n_parent n, n_id n) | n. n \<in> set (db_nodes db)}"

lemma hang_tree: "(a, b) \<in> (hang db)\<^sup>+ \<Longrightarrow> a \<noteq> [] \<Longrightarrow> [] \<notin> set (node_ids db) \<Longrightarrow> (a, b) \<in> (tree_edges db)\<^sup>+"
proof (induction rule: trancl_induct)
  case (base b)
  then show ?case by (auto simp: hang_def tree_edges_def)
next
  case (step b c)
  have "b \<in> set (node_ids db)" using step(1) by (cases rule: tranclE) (auto simp: hang_def node_ids_def)
  then have "(b, c) \<in> tree_edges db" using step(2,5) by (auto simp: hang_def tree_edges_def)
  then show ?case using step(3) [OF step(4,5)] by (rule trancl_into_trancl [rotated])
qed

lemma hang_target: "(a, b) \<in> (hang db)\<^sup>+ \<Longrightarrow> b \<in> set (node_ids db)"
  by (cases rule: tranclE) (auto simp: hang_def node_ids_def)

lemma hang_acyclic:
  assumes "forest db"
  shows "acyclic (hang db)"
proof (rule acyclicI, intro allI notI)
  fix x assume x: "(x, x) \<in> (hang db)\<^sup>+"
  have "[] \<notin> set (node_ids db)" "acyclic (tree_edges db)" using assms by (simp_all add: forest_def)
  moreover from this have "x \<noteq> []" using hang_target [OF x] by auto
  ultimately show False using hang_tree [OF x] by (auto simp: acyclic_def)
qed

lemma hang_parent:
  assumes "distinct (node_ids db)" "(a, c) \<in> hang db" "(b, c) \<in> hang db"
  shows "a = b"
  using assms by (auto simp: hang_def node_ids_def distinct_map inj_on_def)

text \<open>A node below \<open>i\<close> is below exactly one child of \<open>i\<close>.\<close>

lemma one_child:
  assumes "forest db" "distinct (node_ids db)" "(i, m) \<in> (hang db)\<^sup>+"
  shows "\<exists>!c. (i, c) \<in> hang db \<and> (c, m) \<in> (hang db)\<^sup>*"
proof (rule ex_ex1I)
  show "\<exists>c. (i, c) \<in> hang db \<and> (c, m) \<in> (hang db)\<^sup>*" using assms(3) by (meson tranclD)
next
  fix c c' assume c: "(i, c) \<in> hang db \<and> (c, m) \<in> (hang db)\<^sup>*" "(i, c') \<in> hang db \<and> (c', m) \<in> (hang db)\<^sup>*"
  have below: False if xy: "(i, x) \<in> hang db" "(i, y) \<in> hang db" "(x, y) \<in> (hang db)\<^sup>+" for x y
  proof -
    obtain z where z: "(x, z) \<in> (hang db)\<^sup>*" "(z, y) \<in> hang db" using xy(3) by (meson tranclD2)
    then have "z = i" using hang_parent [OF assms(2)] xy(2) by blast
    then have "(i, i) \<in> (hang db)\<^sup>+" using xy(1) z(1) by (meson rtrancl_into_trancl2)
    then show False using hang_acyclic [OF assms(1)] by (simp add: acyclic_def)
  qed
  have "single_valued ((hang db)\<inverse>)"
    using hang_parent [OF assms(2)] by (auto simp: single_valued_def)
  then have "(c, c') \<in> (hang db)\<^sup>* \<or> (c', c) \<in> (hang db)\<^sup>*"
    using single_valued_confluent [of "(hang db)\<inverse>" m c c'] c by (simp add: rtrancl_converse) blast
  then show "c = c'" using below c by (metis rtranclD)
qed

lemma mset_by_parts:
  assumes "\<And>m. m \<in> set ms \<Longrightarrow> (if P m then 1 else 0) = (if Q m then 1 else 0) + length (filter (\<lambda>c. R c m) cs)"
  shows "mset (filter P ms) = mset (filter Q ms) + (\<Sum>c\<leftarrow>cs. mset (filter (R c) ms))"
  using assms
proof (induction ms)
  case (Cons m ms)
  have "(\<Sum>c\<leftarrow>cs. mset (filter (R c) (m # ms)))
      = replicate_mset (length (filter (\<lambda>c. R c m) cs)) m + (\<Sum>c\<leftarrow>cs. mset (filter (R c) ms))"
    by (induction cs) simp_all
  moreover have "(if P m then {#m#} else {#}) = (if Q m then {#m#} else {#}) + replicate_mset (length (filter (\<lambda>c. R c m) cs)) m"
  proof -
    have "(if P m then 1 else 0) = (if Q m then 1 else 0) + k \<Longrightarrow>
        (if P m then {#m#} else {#}) = (if Q m then {#m#} else {#}) + replicate_mset k m" for k :: nat
      by (auto split: if_splits)
    then show ?thesis using Cons(2) by simp
  qed
  moreover have "mset (filter P (m # ms)) = (if P m then {#m#} else {#}) + mset (filter P ms)"
    "mset (filter Q (m # ms)) = (if Q m then {#m#} else {#}) + mset (filter Q ms)" by simp_all
  moreover have "mset (filter P ms) = mset (filter Q ms) + (\<Sum>c\<leftarrow>cs. mset (filter (R c) ms))"
    using Cons(2) by (intro Cons(1)) simp
  ultimately show ?case by (simp only: ac_simps)
qed simp

lemma length_filter_one:
  assumes "distinct cs" "\<exists>!c. c \<in> set cs \<and> P c"
  shows "length (filter P cs) = 1"
proof -
  obtain c where "{x \<in> set cs. P x} = {c}" using assms(2) by blast
  then have "card (set (filter P cs)) = 1" by simp
  then show ?thesis using assms(1) by (metis distinct_card distinct_filter)
qed

definition below :: "db \<Rightarrow> node_id \<Rightarrow> node list" where
  "below db i = filter (\<lambda>m. (i, n_id m) \<in> (hang db)\<^sup>*) (get_all_nodes db)"

definition kids_of :: "db \<Rightarrow> node_id \<Rightarrow> node list" where
  "kids_of db i = filter (\<lambda>n. n_parent n = i) (get_all_nodes db)"

lemma set_all_nodes [simp]: "set (get_all_nodes db) = set (db_nodes db)" "mset (get_all_nodes db) = mset (db_nodes db)"
  by (simp_all add: get_all_nodes_def order_nodes_def)

lemma kid_edge: "c \<in> set (kids_of db i) \<Longrightarrow> (i, n_id c) \<in> hang db"
  by (auto simp: kids_of_def hang_def)

lemma one_kid:
  assumes "forest db" "distinct (node_ids db)" "(i, m) \<in> (hang db)\<^sup>+"
  shows "length (filter (\<lambda>c. (n_id c, m) \<in> (hang db)\<^sup>*) (kids_of db i)) = 1"
proof (rule length_filter_one)
  have d: "distinct (map n_id (get_all_nodes db))" using distinct_all_nodes [OF assms(2)] .
  then show "distinct (kids_of db i)" by (simp add: kids_of_def distinct_map)
  obtain x where x: "(i, x) \<in> hang db" "(x, m) \<in> (hang db)\<^sup>*" "\<And>y. (i, y) \<in> hang db \<Longrightarrow> (y, m) \<in> (hang db)\<^sup>* \<Longrightarrow> y = x"
    using one_child [OF assms] by blast
  from x(1) obtain c where c: "c \<in> set (db_nodes db)" "n_parent c = i" "n_id c = x" unfolding hang_def by blast
  show "\<exists>!c. c \<in> set (kids_of db i) \<and> (n_id c, m) \<in> (hang db)\<^sup>*"
  proof (intro ex1I [of _ c] conjI)
    show "c \<in> set (kids_of db i)" "(n_id c, m) \<in> (hang db)\<^sup>*" using c x(2) by (simp_all add: kids_of_def)
    fix c' assume "c' \<in> set (kids_of db i) \<and> (n_id c', m) \<in> (hang db)\<^sup>*"
    then have "n_id c' = n_id c" "c' \<in> set (db_nodes db)" using x(3) c(3) kid_edge by (auto simp: kids_of_def)
    then show "c' = c" using d c(1) by (metis distinct_map inj_onD set_all_nodes(1))
  qed
qed

lemma below_kids:
  assumes "forest db" "distinct (node_ids db)" "n \<in> set (db_nodes db)"
  shows "mset (below db (n_id n)) = {#n#} + (\<Sum>c\<leftarrow>kids_of db (n_id n). mset (below db (n_id c)))"
proof -
  have d: "distinct (map n_id (get_all_nodes db))" using distinct_all_nodes [OF assms(2)] .
  have "mset (below db (n_id n)) = mset (filter (\<lambda>m. m = n) (get_all_nodes db))
      + (\<Sum>c\<leftarrow>kids_of db (n_id n). mset (below db (n_id c)))"
    unfolding below_def
  proof (rule mset_by_parts)
    fix m assume m: "m \<in> set (get_all_nodes db)"
    let ?kids = "length (filter (\<lambda>c. (n_id c, n_id m) \<in> (hang db)\<^sup>*) (kids_of db (n_id n)))"
    show "(if (n_id n, n_id m) \<in> (hang db)\<^sup>* then 1 else 0) = (if m = n then 1 else 0) + ?kids"
    proof (cases "(n_id n, n_id m) \<in> (hang db)\<^sup>+")
      case True
      then have "n_id m \<noteq> n_id n" using hang_acyclic [OF assms(1)] by (auto simp: acyclic_def)
      then show ?thesis using one_kid [OF assms(1,2) True] True by auto
    next
      case False
      have "(n_id c, n_id m) \<notin> (hang db)\<^sup>*" if "c \<in> set (kids_of db (n_id n))" for c
        using False kid_edge [OF that] by (meson rtrancl_into_trancl2)
      then have "?kids = 0" by (simp add: filter_empty_conv)
      moreover have "(n_id n, n_id m) \<in> (hang db)\<^sup>* \<longleftrightarrow> n_id m = n_id n" using False by (metis rtranclD rtrancl.rtrancl_refl)
      moreover have "n_id m = n_id n \<longleftrightarrow> m = n" using d m assms(3) by (metis distinct_map inj_onD set_all_nodes(1))
      ultimately show ?thesis by simp
    qed
  qed
  moreover have "filter (\<lambda>m. m = n) (get_all_nodes db) = [n]"
  proof -
    have "length (filter (\<lambda>m. m = n) (get_all_nodes db)) = 1"
      using d assms(3) by (intro length_filter_one) (auto simp: distinct_map)
    then obtain y where "filter (\<lambda>m. m = n) (get_all_nodes db) = [y]" by (auto simp: length_Suc_conv)
    moreover have "set (filter (\<lambda>m. m = n) (get_all_nodes db)) = {n}" using assms(3) by auto
    ultimately show ?thesis by auto
  qed
  ultimately show ?thesis by simp
qed

definition pair_of :: "node \<Rightarrow> bytes \<times> bytes" where
  "pair_of n = (n_id n, n_parent n)"

lemma tree_json_runs:
  assumes "forest db" "distinct (node_ids db)"
    and "n \<in> set (db_nodes db)" "\<And>m. (n_id n, m) \<notin> hang db ^^ fuel"
  shows "\<exists>t. build_tree_json (snd (build_tree (get_all_nodes db))) rt None fuel n = Some t
    \<and> mset (tree_pairs (n_parent n) t) = image_mset pair_of (mset (below db (n_id n)))"
  using assms(3,4)
proof (induction fuel arbitrary: n)
  case 0
  then show ?case by auto
next
  case (Suc fuel)
  let ?f = "build_tree_json (snd (build_tree (get_all_nodes db))) rt None fuel"
  have "n_id n \<noteq> []" using forest_id [OF assms(1) Suc(2)] .
  then have kids: "snd (build_tree (get_all_nodes db)) (n_id n) = kids_of db (n_id n)"
    by (simp add: build_tree_def kids_of_def)
  have "\<exists>t. ?f c = Some t \<and> mset (tree_pairs (n_id n) t) = image_mset pair_of (mset (below db (n_id c)))"
    if c: "c \<in> set (kids_of db (n_id n))" for c
  proof -
    have "(n_id c, m) \<notin> hang db ^^ fuel" for m using Suc(3) kid_edge [OF c] by (meson relpow_Suc_I2)
    then show ?thesis using Suc(1) [of c] c by (simp add: kids_of_def)
  qed
  then have "\<exists>ts. those (map ?f cs) = Some ts
      \<and> mset (concat (map (tree_pairs (n_id n)) ts)) = (\<Sum>c\<leftarrow>cs. image_mset pair_of (mset (below db (n_id c))))"
    if "set cs \<subseteq> set (kids_of db (n_id n))" for cs
    using that by (induction cs) fastforce+
  then obtain ts where ts: "those (map ?f (kids_of db (n_id n))) = Some ts"
    "mset (concat (map (tree_pairs (n_id n)) ts)) = (\<Sum>c\<leftarrow>kids_of db (n_id n). image_mset pair_of (mset (below db (n_id c))))" by blast
  moreover have "image_mset pair_of (mset (below db (n_id n)))
      = {#pair_of n#} + (\<Sum>c\<leftarrow>kids_of db (n_id n). image_mset pair_of (mset (below db (n_id c))))"
  proof -
    have "image_mset pair_of (\<Sum>c\<leftarrow>cs. mset (below db (n_id c))) = (\<Sum>c\<leftarrow>cs. image_mset pair_of (mset (below db (n_id c))))" for cs :: "node list"
      by (induction cs) simp_all
    then show ?thesis by (simp only: below_kids [OF assms(1,2) Suc(2)] image_mset_union image_mset_single)
  qed
  moreover have "mset (tree_pairs (n_parent n) (TreeJson (fields_of rt n) ts)) = {#pair_of n#} + mset (concat (map (tree_pairs (n_id n)) ts))"
    by (simp add: fields_of_def pair_of_def)
  ultimately show ?case by (simp add: kids Let_def del: tree_pairs.simps)
qed

lemma roots_cover:
  assumes "db_ok db" "forest db"
  shows "mset (get_all_nodes db) = (\<Sum>r\<leftarrow>kids_of db []. mset (below db (n_id r)))"
proof -
  have d: "distinct (node_ids db)" using assms(1) by (simp add: db_ok_def keys_ok_def)
  have acyc: "wf ((hang db)\<inverse>)" if "finite (hang db)"
    using that hang_acyclic [OF assms(2)] by (rule finite_acyclic_wf_converse)
  have fin: "finite (hang db)" by (simp add: hang_def setcompr_eq_image)
  have wf: "wf (hang db)" using fin hang_acyclic [OF assms(2)] by (rule finite_acyclic_wf)
  have top: "([], i) \<in> (hang db)\<^sup>+" if "i \<in> set (node_ids db)" for i
    using that
  proof (induction i rule: wf_induct_rule [OF wf])
    case (1 i)
    from 1(2) obtain n where n: "n \<in> set (db_nodes db)" "n_id n = i" by (auto simp: node_ids_def)
    then have e: "(n_parent n, i) \<in> hang db" by (auto simp: hang_def)
    show ?case
    proof (cases "n_parent n = []")
      case True
      then show ?thesis using e by auto
    next
      case False
      then have "n_parent n \<in> set (node_ids db)"
        using assms(1) n(1) by (auto simp: db_ok_def fk_ok_def parents_ok_def list_all_iff)
      then show ?thesis using 1(1) [OF e] e by (meson trancl_into_trancl)
    qed
  qed
  have "mset (filter (\<lambda>m. True) (get_all_nodes db)) = mset (filter (\<lambda>m. False) (get_all_nodes db))
      + (\<Sum>r\<leftarrow>kids_of db []. mset (filter (\<lambda>m. (n_id r, n_id m) \<in> (hang db)\<^sup>*) (get_all_nodes db)))"
    using one_kid [OF assms(2) d] top by (intro mset_by_parts) (auto simp: node_ids_def)
  then show ?thesis by (simp add: below_def)
qed

text \<open>
  C40: The tree resource answers on every database whose parents form a forest, and its trees list every node
  exactly once, below its parent.
\<close>

theorem tree_shows_all_nodes:
  assumes "db_ok db" "forest db"
  shows "\<exists>ts. handle_tree_resource db = Inr ts
    \<and> mset (concat (map (tree_pairs []) ts)) = mset (map (\<lambda>n. (n_id n, n_parent n)) (db_nodes db))"
proof -
  note [simp del] = build_tree_json.simps
  have d: "distinct (node_ids db)" using assms(1) by (simp add: db_ok_def keys_ok_def)
  let ?fuel = "Suc (length (get_all_nodes db))"
  let ?f = "build_tree_json (snd (build_tree (get_all_nodes db))) (latest_compile_root db) None ?fuel"
  have deep: "(i, m) \<notin> hang db ^^ ?fuel" for i m
  proof
    assume "(i, m) \<in> hang db ^^ ?fuel"
    then have "?fuel \<le> length (node_ids db)"
      by (rule relpow_bound(1) [OF hang_acyclic [OF assms(2)]]) (auto simp: hang_def node_ids_def)
    then show False by (simp add: node_ids_def get_all_nodes_def order_nodes_def)
  qed
  have "\<exists>ts. those (map ?f rs) = Some ts
      \<and> mset (concat (map (tree_pairs []) ts)) = (\<Sum>r\<leftarrow>rs. image_mset pair_of (mset (below db (n_id r))))"
    if "set rs \<subseteq> set (kids_of db [])" for rs
    using that
  proof (induction rs)
    case (Cons r rs)
    have "r \<in> set (db_nodes db)" "n_parent r = []" using Cons(2) by (simp_all add: kids_of_def)
    then obtain t where "?f r = Some t" "mset (tree_pairs [] t) = image_mset pair_of (mset (below db (n_id r)))"
      using tree_json_runs [OF assms(2) d _ deep, of r "latest_compile_root db"] by auto
    then show ?case using Cons by fastforce
  qed simp
  then obtain ts where ts: "those (map ?f (kids_of db [])) = Some ts"
    "mset (concat (map (tree_pairs []) ts)) = (\<Sum>r\<leftarrow>kids_of db []. image_mset pair_of (mset (below db (n_id r))))" by blast
  have "image_mset pair_of (\<Sum>r\<leftarrow>rs. mset (below db (n_id r))) = (\<Sum>r\<leftarrow>rs. image_mset pair_of (mset (below db (n_id r))))"
    for rs :: "node list" by (induction rs) simp_all
  then have "mset (concat (map (tree_pairs []) ts)) = image_mset pair_of (mset (get_all_nodes db))"
    using ts(2) roots_cover [OF assms] by simp
  moreover have "fst (build_tree (get_all_nodes db)) = kids_of db []" by (simp add: build_tree_def kids_of_def)
  ultimately show ?thesis
    using ts(1) by (simp add: handle_tree_resource_def tree_body_def Let_def split_def pair_of_def [abs_def])
qed

lemma tree_shows_all_nodes_witness:
  "\<exists>ts. handle_tree_resource sample_db = Inr ts
    \<and> mset (concat (map (tree_pairs []) ts)) = {#(''r'', []), (''p'', ''r''), (''c'', ''p''), (''x'', [])#}"
proof -
  have "forest sample_db"
    using sample_db_acyclic by (simp add: forest_def max_int32_def node_ids_def) (simp add: sample_db_def empty_db_def blank_node_def)
  from tree_shows_all_nodes [OF sample_db_ok(1) this] show ?thesis
    by (simp add: sample_db_def empty_db_def blank_node_def add_mset_commute)
qed

subsection \<open>The resources agree\<close>

lemma sort_map_mset: "mset xs = mset ys \<Longrightarrow> sort (map f xs) = sort (map f ys)"
  by (rule properties_for_sort) simp_all

text \<open>The summary of the temperature resource is the one of the overview.\<close>

lemma temperature_agrees:
  "te_summary (handle_temperature hot cold db) = ov_temperature (handle_overview h hot cold db)"
proof -
  have m: "mset (get_all_nodes db) = mset (db_nodes db)" by simp
  have l: "length (get_all_nodes db) = length (db_nodes db)" using m by (metis size_mset)
  have f: "length (filter P (get_all_nodes db)) = length (filter P (db_nodes db))" for P
    using m by (metis mset_filter size_mset)
  have "sum_list (map n_temp (get_all_nodes db)) = sum_list (map n_temp (db_nodes db))"
    using m by (metis mset_map sum_mset_sum_list)
  moreover have "sort (map n_temp (get_all_nodes db)) = sort (map n_temp (db_nodes db))" using m by (rule sort_map_mset)
  moreover have "get_all_nodes db = [] \<longleftrightarrow> db_nodes db = []" using l by (metis length_0_conv)
  ultimately show ?thesis
    by (simp add: handle_temperature_def new_temperature_envelope_def handle_overview_def new_overview_envelope_def
        collect_stats_def get_stats_def count_def Let_def l f)
qed

text \<open>The graph has no edge to a node that it does not show.\<close>

lemma graph_closed:
  assumes "db_ok db"
  shows "list_all (\<lambda>e. ge_source e \<in> gn_id ` set (gr_nodes (graph_body db)) \<and> ge_target e \<in> gn_id ` set (gr_nodes (graph_body db)))
    (gr_edges (graph_body db))"
proof -
  have "l_source r \<in> n_id ` set (db_nodes db) \<and> l_target r \<in> n_id ` set (db_nodes db)" if "r \<in> set (all_relations db)" for r
    using assms that by (auto simp: db_ok_def fk_ok_def edges_ok_def all_relations_def node_ids_def list_all_iff)
  then show ?thesis by (fastforce simp: graph_body_def Let_def list_all_iff image_iff)
qed

text \<open>At most one snapshot is marked as HEAD, and it is the one that HEAD names.\<close>

lemma head_marked_once:
  assumes "db_ok db" "db_head db = Some h" "h \<noteq> 0"
  shows "map sn_id (filter sn_is_head (handle_snapshots db)) = [h]"
proof -
  have "distinct (map s_id (db_snapshots db))" "h \<in> set (map s_id (db_snapshots db))"
    using assms by (auto simp: db_ok_def keys_ok_def fk_ok_def snapshots_ok_def snapshot_ids_def)
  then have d: "distinct (map s_id (list_snapshots db (- 1)))" "h \<in> set (map s_id (list_snapshots db (- 1)))"
    by (auto simp: list_snapshots_def sql_limit_def distinct_map)
  have "map sn_id (filter sn_is_head (new_snapshots_envelope ss h)) = filter (\<lambda>i. i = h) (map s_id ss)" for ss
    using assms(3) by (induction ss) (simp_all add: new_snapshots_envelope_def)
  moreover have "filter (\<lambda>i. i = h) xs = [h]" if "distinct xs" "h \<in> set xs" for xs
    using that by (induction xs) (auto simp: filter_empty_conv)
  ultimately show ?thesis
    using d assms(2) by (simp add: handle_snapshots_def snapshots_body_def snapshot_list_unlimited_def head_snapshot_id_def)
qed

end
