(* ===== verification/Http_Transport.thy ===== *)
theory Http_Transport
  imports Go_Strings
begin

text \<open>
  The HTTP transport (\<open>pkg/mcp/http.go\<close>): which addresses count as loopback, the refusal to serve
  any other address without a token, and the bearer check in front of the tools. Of the standard
  library it holds what decides these: \<open>net.ParseIP\<close>, \<open>net.SplitHostPort\<close>, \<open>IP.IsLoopback\<close> and
  \<open>subtle.ConstantTimeCompare\<close>. Requests and answers of the tool handler are type variables.
\<close>

subsection \<open>Addresses: \<open>net.ParseIP\<close>\<close>

type_synonym ip = "nat list"

definition octet_ok :: "bytes \<Rightarrow> bool" where
  "octet_ok d \<longleftrightarrow> d \<noteq> [] \<and> list_all is_digit d \<and> (length d = 1 \<or> hd d \<noteq> CHR ''0'') \<and> digits_val d \<le> 255"

definition ipv4_fields :: "bytes \<Rightarrow> ip option" where
  "ipv4_fields s = (let ps = split_on CHR ''.'' s
     in if length ps = 4 \<and> list_all octet_ok ps then Some (map digits_val ps) else None)"

definition hex_val :: "char \<Rightarrow> nat option" where
  "hex_val c = (let n = code c
     in if 48 \<le> n \<and> n \<le> 57 then Some (n - 48)
        else if 97 \<le> n \<and> n \<le> 102 then Some (n - 87)
        else if 65 \<le> n \<and> n \<le> 70 then Some (n - 55) else None)"

text \<open>The digits of one group: how many, their value, and the rest; more than four are refused.\<close>

fun hex_group :: "nat \<Rightarrow> nat \<Rightarrow> bytes \<Rightarrow> (nat \<times> nat \<times> bytes) option" where
  "hex_group off acc [] = Some (off, acc, [])"
| "hex_group off acc (c # s) =
     (case hex_val c of
        None \<Rightarrow> Some (off, acc, c # s)
      | Some d \<Rightarrow> if 3 < off \<or> 65535 < 16 * acc + d then None else hex_group (Suc off) (16 * acc + d) s)"

text \<open>
  The loop over the groups, of which \<open>k\<close> are still to come: the text left, the place of the
  ellipsis, the bytes so far. Every turn writes two bytes, so \<open>k = 0\<close> is the loop's \<open>i = 16\<close>.
\<close>

fun v6_groups :: "nat \<Rightarrow> bytes \<Rightarrow> nat option \<Rightarrow> ip \<Rightarrow> (bytes \<times> nat option \<times> ip) option" where
  "v6_groups 0 s ell out = Some (s, ell, out)"
| "v6_groups (Suc k) s ell out =
     (case hex_group 0 0 s of
        None \<Rightarrow> None
      | Some (off, acc, rest) \<Rightarrow>
          if off = 0 then None
          else if rest \<noteq> [] \<and> hd rest = CHR ''.'' then
            if ell = None \<and> length out \<noteq> 12 then None
            else if 16 < length out + 4 then None
            else map_option (\<lambda>q. ([], ell, out @ q)) (ipv4_fields s)
          else let out' = out @ [acc div 256, acc mod 256]
            in if rest = [] then Some ([], ell, out')
               else if hd rest \<noteq> CHR '':'' \<or> tl rest = [] then None
               else if hd (tl rest) = CHR '':'' then
                 if ell \<noteq> None then None
                 else if tl (tl rest) = [] then Some ([], Some (length out'), out')
                 else v6_groups k (tl (tl rest)) (Some (length out')) out'
               else v6_groups k (tl rest) ell out')"

declare v6_groups.simps [simp del]

definition parse_ipv6 :: "bytes \<Rightarrow> ip option" where
  "parse_ipv6 s =
     (if s = ''::'' then Some (replicate 16 0)
      else case (if has_prefix s ''::'' then v6_groups 8 (drop 2 s) (Some 0) [] else v6_groups 8 s None []) of
        None \<Rightarrow> None
      | Some (rest, ell, out) \<Rightarrow>
          if rest \<noteq> [] then None
          else case ell of
              None \<Rightarrow> if length out < 16 then None else Some out
            | Some e \<Rightarrow> if length out < 16
                then Some (take e out @ replicate (16 - length out) 0 @ drop e out) else None)"

text \<open>An IPv4 address is kept in the mapped form; an address with a zone is refused.\<close>

definition v4_mapped :: ip where "v4_mapped = replicate 10 0 @ [255, 255]"

definition parse_ip :: "bytes \<Rightarrow> ip option" where
  "parse_ip s = (case dropWhile (\<lambda>c. c \<notin> {CHR ''.'', CHR '':'', CHR ''%''}) s of
       [] \<Rightarrow> None
     | c # _ \<Rightarrow>
         if c = CHR ''.'' then map_option (\<lambda>q. v4_mapped @ q) (ipv4_fields s)
         else if c = CHR '':'' \<and> CHR ''%'' \<notin> set s then parse_ipv6 s else None)"

definition ip_loopback :: "ip \<Rightarrow> bool" where
  "ip_loopback ip = (if take 12 ip = v4_mapped then ip ! 12 = 127 else ip = replicate 15 0 @ [1])"

definition is_loopback_host :: "bytes \<Rightarrow> bool" where
  "is_loopback_host host =
     (if host = [] \<or> host = ''0.0.0.0'' \<or> host = ''::'' then False
      else if host = ''localhost'' then True
      else case parse_ip host of None \<Rightarrow> False | Some ip \<Rightarrow> ip_loopback ip)"

text \<open>The host of \<open>net.SplitHostPort\<close>; None where it fails.\<close>

definition split_host :: "bytes \<Rightarrow> bytes option" where
  "split_host s =
     (let port = rev (takeWhile (\<lambda>c. c \<noteq> CHR '':'') (rev s)); front = take (length s - length port - 1) s
      in if CHR '':'' \<notin> set s then None
         else if s \<noteq> [] \<and> hd s = CHR ''['' then
           let host = takeWhile (\<lambda>c. c \<noteq> CHR '']'') (tl s)
           in if front = CHR ''['' # host @ '']'' \<and> CHR ''['' \<notin> set (tl s) \<and> CHR '']'' \<notin> set port
              then Some host else None
         else if CHR '':'' \<in> set front \<or> CHR ''['' \<in> set s \<or> CHR '']'' \<in> set s then None
         else Some front)"

subsection \<open>The transport\<close>

record http_server =
  ht_listen :: bytes
  ht_token :: bytes
  ht_insecure :: bool

definition bearer_prefix :: bytes where "bearer_prefix = ''Bearer ''"

definition bearer_realm :: bytes where "bearer_realm = ''Bearer realm='' @ byte 34 # ''remindb'' @ [byte 34]"

definition constant_time_compare :: "bytes \<Rightarrow> bytes \<Rightarrow> nat" where
  "constant_time_compare x y =
     (if length x \<noteq> length y then 0
      else if fold (\<lambda>(a, b) v. Bit_Operations.or v (Bit_Operations.xor (code a) (code b))) (zip x y) 0 = 0 then 1 else 0)"

text \<open>A request is refused with the challenge, or passed on to the tool handler.\<close>

datatype 'r http_answer = Unauthorized bytes | Answered 'r

definition bearer_auth :: "bytes \<Rightarrow> ('q \<Rightarrow> bytes) \<Rightarrow> ('q \<Rightarrow> 'r http_answer) \<Rightarrow> 'q \<Rightarrow> 'r http_answer" where
  "bearer_auth token authorization handler q =
     (let h = authorization q
      in if \<not> has_prefix h bearer_prefix then Unauthorized bearer_realm
         else if constant_time_compare (trim_prefix h bearer_prefix) token \<noteq> 1 then Unauthorized bearer_realm
         else handler q)"

text \<open>
  Starting: the listener (its address, or the error of \<open>net.Listen\<close>) is the host's; a refused
  address is closed again.
\<close>

datatype ('q, 'r) http_start =
    ListenFailed error
  | RefusedBind bytes
  | Serving bytes bool "'q \<Rightarrow> 'r http_answer"

definition non_loopback :: "bytes \<Rightarrow> bool" where
  "non_loopback addr = (case split_host addr of None \<Rightarrow> False | Some host \<Rightarrow> \<not> is_loopback_host host)"

definition run_http ::
  "(bytes \<Rightarrow> bytes result) \<Rightarrow> ('q \<Rightarrow> bytes) \<Rightarrow> ('q \<Rightarrow> 'r) \<Rightarrow> http_server \<Rightarrow> ('q, 'r) http_start" where
  "run_http net_listen authorization tools_handler s =
     (case net_listen (ht_listen s) of
        Inl e \<Rightarrow> ListenFailed e
      | Inr addr \<Rightarrow>
          if non_loopback addr \<and> ht_token s = [] \<and> \<not> ht_insecure s then RefusedBind addr
          else Serving addr (non_loopback addr \<and> ht_token s = [] \<and> ht_insecure s)
            (let handler = (\<lambda>q. Answered (tools_handler q))
             in if ht_token s \<noteq> [] then bearer_auth (ht_token s) authorization handler else handler))"

text \<open>How serving ends: with the error of \<open>Serve\<close>, or on cancellation with the one of \<open>Shutdown\<close> first.\<close>

definition http_end :: "bool \<Rightarrow> error option \<Rightarrow> error option \<Rightarrow> error option" where
  "http_end cancelled shutdown_err serve_err =
     (if \<not> cancelled then serve_err
      else case shutdown_err of Some e \<Rightarrow> Some e | None \<Rightarrow> serve_err)"

subsection \<open>What passes the check\<close>

lemma xor_zero_eq: "Bit_Operations.xor (m :: nat) n = 0 \<longleftrightarrow> m = n"
  by (metis bit_eq_iff bit_xor_iff bot_nat_0.extremum_unique xor_self_eq bit_0_eq bot_apply bot_bool_def)

lemma fold_or_zero:
  "fold (\<lambda>(a, b) v. Bit_Operations.or v (Bit_Operations.xor (code a) (code b))) ps v = 0
     \<longleftrightarrow> v = 0 \<and> (\<forall>(a, b) \<in> set ps. code a = code b)"
  by (induction ps arbitrary: v) (auto simp: or_eq_0_iff xor_zero_eq)

lemma constant_time_compare_eq: "constant_time_compare x y = 1 \<longleftrightarrow> x = y"
proof (cases "length x = length y")
  case True
  have "(\<forall>(a, b) \<in> set (zip x y). code a = code b) \<longleftrightarrow> x = y"
    using True
  proof (induction x y rule: list_induct2)
    case (Cons a x b y)
    then show ?case by (auto simp: code_def)
  qed simp
  then show ?thesis using True by (simp add: constant_time_compare_def fold_or_zero)
qed (auto simp: constant_time_compare_def)

lemma bearer_auth_decides:
  "bearer_auth token authorization handler q =
     (if authorization q = bearer_prefix @ token then handler q else Unauthorized bearer_realm)"
proof (cases "has_prefix (authorization q) bearer_prefix")
  case True
  then obtain t where t: "authorization q = bearer_prefix @ t" by (auto simp: has_prefix_iff)
  show ?thesis unfolding bearer_auth_def Let_def t by (simp add: constant_time_compare_eq flip: One_nat_def)
next
  case False
  then show ?thesis by (auto simp: bearer_auth_def Let_def has_prefix_iff)
qed

subsection \<open>Which hosts are loopback\<close>

definition dotted :: "nat \<Rightarrow> nat \<Rightarrow> nat \<Rightarrow> nat \<Rightarrow> bytes" where
  "dotted a b c d = join_with ''.'' (map digits_of [a, b, c, d])"

lemma digits_of_nonempty [simp]: "digits_of n \<noteq> []"
  by (subst digits_of.simps) simp

lemma digits_of_head: "0 < n \<Longrightarrow> hd (digits_of n) \<noteq> CHR ''0''"
proof (induction n rule: digits_of.induct)
  case (1 n)
  show ?case
  proof (cases "n < 10")
    case True
    have "code (byte (48 + n)) \<noteq> 48" using True 1(2) by simp
    then have "byte (48 + n) \<noteq> CHR ''0''" by (auto simp: code_def)
    then show ?thesis using True by (subst digits_of.simps) auto
  next
    case False
    have "digits_of (n div 10) \<noteq> []" by (subst digits_of.simps) simp
    then show ?thesis using False 1 by (subst digits_of.simps) simp
  qed
qed


lemma octet_ok_digits:
  assumes "n < 256"
  shows "octet_ok (digits_of n)"
proof -
  have "length (digits_of n) = 1 \<or> hd (digits_of n) \<noteq> CHR ''0''"
  proof (cases "n = 0")
    case True
    then show ?thesis by (subst (1) digits_of.simps) simp
  qed (use digits_of_head in blast)
  then show ?thesis
    using assms digits_of_nonempty [of n] digits_of_digits [of _ n] by (auto simp: octet_ok_def list_all_iff)
qed

lemma digits_no_sep: "c \<in> set (digits_of n) \<Longrightarrow> c \<noteq> CHR ''.'' \<and> c \<noteq> CHR '':'' \<and> c \<noteq> CHR ''%''"
  using digits_of_digits [of c n] by (auto simp: is_digit_def code_def)

lemma ipv4_fields_dotted:
  assumes "a < 256" "b < 256" "c < 256" "d < 256"
  shows "ipv4_fields (dotted a b c d) = Some [a, b, c, d]"
proof -
  have "split_on CHR ''.'' (dotted a b c d) = map digits_of [a, b, c, d]"
    unfolding dotted_def by (rule split_join) (use digits_no_sep in auto)
  then show ?thesis using assms by (simp add: ipv4_fields_def octet_ok_digits)
qed

lemma parse_ip_dotted:
  assumes "a < 256" "b < 256" "c < 256" "d < 256"
  shows "parse_ip (dotted a b c d) = Some (v4_mapped @ [a, b, c, d])"
proof -
  have "dropWhile (\<lambda>x. x \<notin> {CHR ''.'', CHR '':'', CHR ''%''}) (digits_of a @ CHR ''.'' # s) = CHR ''.'' # s" for s
    using digits_no_sep [of _ a] by (subst dropWhile_append2) auto
  moreover have "dotted a b c d = digits_of a @ CHR ''.'' # join_with ''.'' (map digits_of [b, c, d])"
    by (simp add: dotted_def)
  ultimately have "dropWhile (\<lambda>x. x \<notin> {CHR ''.'', CHR '':'', CHR ''%''}) (dotted a b c d)
      = CHR ''.'' # join_with ''.'' (map digits_of [b, c, d])" by simp
  then show ?thesis using ipv4_fields_dotted [OF assms] by (simp add: parse_ip_def)
qed

lemma loopback_dotted:
  assumes "a < 256" "b < 256" "c < 256" "d < 256"
  shows "is_loopback_host (dotted a b c d) \<longleftrightarrow> a = 127"
proof -
  have dot: "CHR ''.'' \<in> set (dotted a b c d)" by (simp add: dotted_def)
  have zero: "parse_ip ''0.0.0.0'' = Some (v4_mapped @ [0, 0, 0, 0])" by code_simp
  have "dotted a b c d = ''0.0.0.0'' \<Longrightarrow> a = 0"
    using parse_ip_dotted [OF assms] zero by simp
  then have "dotted a b c d = ''0.0.0.0'' \<Longrightarrow> a \<noteq> 127" by simp
  moreover have "ip_loopback (v4_mapped @ [a, b, c, d]) \<longleftrightarrow> a = 127"
    by (simp add: ip_loopback_def v4_mapped_def nth_append)
  moreover have "dotted a b c d \<notin> {[], ''::'', ''localhost''}" using dot by auto
  ultimately show ?thesis
    unfolding is_loopback_host_def parse_ip_dotted [OF assms] by (cases "dotted a b c d = ''0.0.0.0''") auto
qed

lemmas v6_groups_numeral = v6_groups.simps(2) [of "pred_numeral w" for w, folded numeral_eq_Suc]

lemma replicate_numeral: "replicate (numeral w) x = x # replicate (pred_numeral w) x"
  by (simp add: numeral_eq_Suc)

lemma loopback_names:
  "is_loopback_host ''localhost''" "is_loopback_host ''::1''" "is_loopback_host ''0:0:0:0:0:0:0:1''"
  "is_loopback_host ''::ffff:127.0.0.1''" "\<not> is_loopback_host ''::''" "\<not> is_loopback_host ''0.0.0.0''"
  "\<not> is_loopback_host ''''" "\<not> is_loopback_host ''fe80::1''" "\<not> is_loopback_host ''127.0.0.01''"
  "\<not> is_loopback_host ''::1%lo''" "\<not> is_loopback_host ''127.0.0.1.5''" "\<not> is_loopback_host ''example.org''"
  by (simp_all add: is_loopback_host_def parse_ip_def parse_ipv6_def v6_groups.simps(1) v6_groups.simps(2) [of 0]
      v6_groups_numeral replicate_numeral hex_val_def code_def
      ip_loopback_def v4_mapped_def ipv4_fields_def octet_ok_def digits_val_def is_digit_def has_prefix_def)

lemma split_host_examples:
  "split_host ''127.0.0.1:7474'' = Some ''127.0.0.1''" "split_host ''[::1]:80'' = Some ''::1''"
  "split_host ''::1:80'' = None" "split_host '':80'' = Some ''''" "split_host ''localhost'' = None"
  by code_simp+

end
