(* ===== verification/Serve.thy ===== *)
theory Serve
  imports Http_Transport Temperature Rescan Server_Feeds
begin

text \<open>
  The command \<open>serve\<close> (\<open>cmd/remindb/serve.go\<close>) and the server it builds (\<open>pkg/mcp/server.go\<close>): the
  settings from flags, configuration file and environment, the construction of the server, the
  tools it offers, and the start of a run. The flags of cobra are given with the set of those that
  were changed; the process environment, \<open>time.ParseDuration\<close> and the opening of files are
  parameters. Levels are those of \<open>slog\<close>.
\<close>

subsection \<open>The settings of the command\<close>

record serve_vars =
  cv_changed :: "bytes \<Rightarrow> bool"
  cv_db :: bytes
  cv_source :: bytes
  cv_interval :: int
  cv_verbose :: bool
  cv_transport :: bytes
  cv_listen :: bytes
  cv_token :: bytes
  cv_insecure :: bool

record process_env =
  pe_getenv :: "bytes \<Rightarrow> bytes"
  pe_abs :: "bytes \<Rightarrow> bytes result"
  pe_duration :: "bytes \<Rightarrow> int option"

definition transport_stdio :: bytes where "transport_stdio = ''stdio''"
definition transport_http :: bytes where "transport_http = ''http''"
definition default_listen_addr :: bytes where "default_listen_addr = ''127.0.0.1:7474''"

text \<open>\<open>strconv.ParseBool\<close>.\<close>

definition parse_bool :: "bytes \<Rightarrow> bool option" where
  "parse_bool s =
     (if s \<in> set [''1'', ''t'', ''T'', ''TRUE'', ''true'', ''True''] then Some True
      else if s \<in> set [''0'', ''f'', ''F'', ''FALSE'', ''false'', ''False''] then Some False else None)"

definition absolutize_db_path :: "process_env \<Rightarrow> serve_vars \<Rightarrow> serve_vars result" where
  "absolutize_db_path env v =
     (case pe_abs env (cv_db v) of
        Inl e \<Rightarrow> Inl (Failure (''failed to resolve: '' @ cv_db v))
      | Inr p \<Rightarrow> Inr (v\<lparr>cv_db := p\<rparr>))"

text \<open>The four steps of \<open>applyServeEnv\<close>: the database, the source, the interval, and what guards HTTP.\<close>

definition env_db :: "process_env \<Rightarrow> serve_vars \<Rightarrow> serve_vars result" where
  "env_db env v =
     (let d = pe_getenv env ''REMINDB_DB''
      in if \<not> cv_changed v ''db'' \<and> d \<noteq> [] then absolutize_db_path env (v\<lparr>cv_db := d\<rparr>) else Inr v)"

definition env_source :: "process_env \<Rightarrow> serve_vars \<Rightarrow> serve_vars" where
  "env_source env v = (if cv_source v = [] then v\<lparr>cv_source := pe_getenv env ''REMINDB_SOURCE''\<rparr> else v)"

definition env_interval :: "process_env \<Rightarrow> serve_vars \<Rightarrow> serve_vars result" where
  "env_interval env v =
     (let t = pe_getenv env ''REMINDB_RESCAN_INTERVAL'';
          from_env = (\<not> cv_changed v ''rescan-interval'' \<and> t \<noteq> [])
      in bind_result
        (if from_env then (case pe_duration env t of
             None \<Rightarrow> Inl (Failure (''failed to parse: REMINDB_RESCAN_INTERVAL='' @ t))
           | Some d \<Rightarrow> Inr (v\<lparr>cv_interval := d\<rparr>))
         else Inr v)
        (\<lambda>v. if cv_source v = [] \<and> (cv_changed v ''rescan-interval'' \<or> from_env)
             then Inl (Failure ''rescan interval requires --source (or REMINDB_SOURCE)'') else Inr v))"

definition env_guard :: "process_env \<Rightarrow> serve_vars \<Rightarrow> serve_vars result" where
  "env_guard env v0 =
     (let v = v0\<lparr>cv_token := pe_getenv env ''REMINDB_AUTH_TOKEN''\<rparr>; t = pe_getenv env ''REMINDB_INSECURE_PUBLIC''
      in if \<not> cv_changed v ''insecure-public'' \<and> t \<noteq> [] then (case parse_bool t of
             None \<Rightarrow> Inl (Failure (''failed to parse: REMINDB_INSECURE_PUBLIC='' @ t))
           | Some b \<Rightarrow> Inr (v\<lparr>cv_insecure := b\<rparr>))
         else Inr v)"

definition apply_serve_env :: "process_env \<Rightarrow> serve_vars \<Rightarrow> serve_vars result" where
  "apply_serve_env env v =
     bind_result (env_db env v) (\<lambda>v. bind_result (env_interval env (env_source env v)) (env_guard env))"

definition env_ptr :: "process_env \<Rightarrow> bytes \<Rightarrow> bytes option" where
  "env_ptr env key = (if pe_getenv env key \<noteq> [] then Some (pe_getenv env key) else None)"

definition resolve_server_config :: "process_env \<Rightarrow> server_config \<Rightarrow> serve_vars \<Rightarrow> serve_vars result" where
  "resolve_server_config env sc v =
     (let t = resolve_setting (cv_changed v ''transport'') (cv_transport v) (sv_transport sc)
            (env_ptr env ''REMINDB_TRANSPORT'') transport_stdio;
          l = resolve_setting (cv_changed v ''listen'') (cv_listen v) (sv_listen sc)
            (env_ptr env ''REMINDB_LISTEN'') default_listen_addr;
          listen_set = (cv_changed v ''listen'' \<or> sv_listen sc \<noteq> None \<or> env_ptr env ''REMINDB_LISTEN'' \<noteq> None)
      in if t \<noteq> transport_stdio \<and> t \<noteq> transport_http then Inl (Failure (''unsupported transport '' @ t))
         else if t \<noteq> transport_http \<and> listen_set then Inl (Failure ''listen address requires --transport=http'')
         else if t \<noteq> transport_http \<and> cv_insecure v then Inl (Failure ''insecure-public requires --transport=http'')
         else Inr (v\<lparr>cv_transport := t, cv_listen := l\<rparr>))"

definition kind_step :: "bytes list \<Rightarrow> bytes \<Rightarrow> bytes list \<Rightarrow> bytes list result" where
  "kind_step builtin k disabled =
     (if k \<notin> set builtin then Inl (Failure (''unknown built-in redaction kind '' @ k)) else Inr (k # disabled))"

definition apply_redaction_overrides :: "redaction_config \<Rightarrow> redaction_block \<Rightarrow> redaction_config result" where
  "apply_redaction_overrides base rb =
     bind_result
       (if rb_disabled rb = [] then Inr base
        else bind_result (fold_result (kind_step (cfg_builtin base)) (rb_disabled rb) []) (\<lambda>disabled.
          Inr (base\<lparr>cfg_builtin := filter (\<lambda>k. k \<notin> set disabled) (cfg_builtin base)\<rparr>)))
       (\<lambda>c. Inr (c\<lparr>cfg_custom := cfg_custom c @ rb_custom rb\<rparr>))"

subsection \<open>Logging\<close>

definition parse_log_level :: "bytes \<Rightarrow> int" where
  "parse_log_level s =
     (if s = ''debug'' then - 4 else if s = ''warn'' then 4 else if s = ''error'' then 8 else 0)"

definition effective_log_level :: "bool \<Rightarrow> logging_config \<Rightarrow> int" where
  "effective_log_level verbose lg =
     (let level = (case lg_level lg of None \<Rightarrow> 0 | Some s \<Rightarrow> parse_log_level s)
      in if verbose then - 4 else level)"

definition default_log_buffer_size :: int where "default_log_buffer_size = 1000"
definition default_log_file_size :: int where "default_log_file_size = 10 * 2 ^ 20"

record serve_logger =
  sl_level :: int
  sl_json :: bool
  sl_file :: "bytes option"
  sl_buffer_size :: int
  sl_session_cap :: "int option"

definition new_serve_logger :: "(bytes \<Rightarrow> error option) \<Rightarrow> bool \<Rightarrow> logging_config \<Rightarrow> serve_logger result" where
  "new_serve_logger open_file verbose lg =
     (let logger = \<lparr>sl_level = effective_log_level verbose lg, sl_json = (lg_format lg = Some ''json''),
            sl_file = lg_output lg,
            sl_buffer_size = (case lg_buffer_size lg of None \<Rightarrow> default_log_buffer_size | Some n \<Rightarrow> n),
            sl_session_cap = None\<rparr>
      in case lg_output lg of
           None \<Rightarrow> Inr logger
         | Some p \<Rightarrow> (case open_file p of
               None \<Rightarrow> Inr logger
             | Some _ \<Rightarrow> Inl (Failure (''failed to open: log output '' @ p))))"

definition with_session_logs :: "(bytes \<Rightarrow> error option) \<Rightarrow> bytes \<Rightarrow> logging_config \<Rightarrow> serve_logger \<Rightarrow> serve_logger result" where
  "with_session_logs mkdir workspace lg logger =
     (if lg_session_files lg \<noteq> Some True then Inr logger
      else case mkdir workspace of
        Some e \<Rightarrow> Inl e
      | None \<Rightarrow> Inr (logger\<lparr>sl_session_cap := Some (case lg_session_max lg of None \<Rightarrow> default_log_file_size | Some m \<Rightarrow> m)\<rparr>))"

definition new_rescan_log :: "(bytes \<Rightarrow> error option) \<Rightarrow> bytes \<Rightarrow> server_config \<Rightarrow> int option result" where
  "new_rescan_log mkdir workspace sc =
     (if sv_rescan_files sc \<noteq> Some True then Inr None
      else case mkdir workspace of
        Some e \<Rightarrow> Inl e
      | None \<Rightarrow> Inr (Some (case sv_rescan_max sc of None \<Rightarrow> default_log_file_size | Some m \<Rightarrow> m)))"

datatype log_value = Text_Value bytes | Int_Value int | Bool_Value bool

definition startup_attrs ::
  "bytes \<Rightarrow> serve_vars \<Rightarrow> int \<Rightarrow> int \<Rightarrow> int \<Rightarrow> bool \<Rightarrow> bool \<Rightarrow> (bytes \<times> log_value) list" where
  "startup_attrs version v level every interval rescan_enabled temp_enabled =
     [(''db'', Text_Value (cv_db v)), (''transport'', Text_Value (cv_transport v)),
      (''tick_interval'', Int_Value every), (''temperature_enabled'', Bool_Value temp_enabled),
      (''log_level'', Int_Value level), (''version'', Text_Value version)]
     @ (if cv_source v \<noteq> [] then [(''source'', Text_Value (cv_source v)), (''rescan_interval'', Int_Value interval),
          (''rescan_enabled'', Bool_Value rescan_enabled)] else [])
     @ (if cv_transport v = transport_http then [(''listen'', Text_Value (cv_listen v))] else [])"

subsection \<open>The server\<close>

record server_options =
  op_source :: bytes
  op_transport :: bytes
  op_listen :: bytes
  op_token :: bytes
  op_insecure :: bool
  op_config :: config
  op_redactor :: redactor

record mcp_server =
  ms_source :: bytes
  ms_transport :: bytes
  ms_http :: http_server
  ms_threshold :: real
  ms_publisher :: publisher
  ms_flush :: int
  ms_ledger :: bool
  ms_redactor :: redactor
  ms_budgets :: budgets_config
  ms_hot :: real
  ms_cold :: real
  ms_rebound :: real

definition default_session_flush :: int where "default_session_flush = 30 * 1000000000"

definition or_default :: "bytes \<Rightarrow> bytes \<Rightarrow> bytes" where
  "or_default s d = (if s = [] then d else s)"

definition new_server ::
  "regex_engine \<Rightarrow> (bytes \<Rightarrow> error option) \<Rightarrow> temp_policy \<Rightarrow> server_options \<Rightarrow> mcp_server result" where
  "new_server engine mkdir cfg o' =
     bind_result
       (case op_redactor o' of Some r \<Rightarrow> Inr (Some r) | None \<Rightarrow> new_redactor engine default_redaction) (\<lambda>red.
     bind_result (new_publisher (cf_server (op_config o'))) (\<lambda>pub.
     bind_result
       (if op_source o' = [] then Inr False
        else case mkdir (op_source o') of Some e \<Rightarrow> Inl e | None \<Rightarrow> Inr True) (\<lambda>ledger.
     Inr \<lparr>ms_source = op_source o', ms_transport = or_default (op_transport o') transport_stdio,
       ms_http = \<lparr>ht_listen = or_default (op_listen o') default_listen_addr, ht_token = op_token o',
         ht_insecure = op_insecure o'\<rparr>,
       ms_threshold = tp_notify cfg, ms_publisher = pub,
       ms_flush = (case sv_flush (cf_server (op_config o')) of None \<Rightarrow> default_session_flush | Some d \<Rightarrow> d),
       ms_ledger = ledger, ms_redactor = red, ms_budgets = cf_budgets (op_config o'),
       ms_hot = tp_hot cfg, ms_cold = tp_cold cfg, ms_rebound = tp_rebound cfg\<rparr>)))"

text \<open>The tools in the order of their registration; \<open>MemoryCompile\<close> needs a source.\<close>

definition register_tools :: "bytes \<Rightarrow> bytes list" where
  "register_tools source =
     [''MemoryFetch'', ''MemoryFetchBatch'', ''MemorySearch'', ''MemoryWrite'']
     @ (if source \<noteq> [] then [''MemoryCompile''] else [])
     @ [''MemoryDelta'', ''MemoryDiff'', ''MemorySummarize'', ''MemoryHistory'', ''MemoryTree'', ''MemoryRelated'',
        ''MemoryRelate'', ''MemoryForget'', ''MemoryRollback'', ''MemoryPin'', ''MemoryUnpin'', ''MemoryStats'']"

definition touch_resource :: "int \<Rightarrow> bytes \<Rightarrow> mcp_server \<Rightarrow> mcp_server" where
  "touch_resource now name s = s\<lparr>ms_publisher := touch now (''remindb://'' @ name) (ms_publisher s)\<rparr>"

definition notify_temperature_tick :: "int \<Rightarrow> mcp_server \<Rightarrow> mcp_server" where
  "notify_temperature_tick now = touch_resource now ''temperature''"

definition notify_rescan :: "int \<Rightarrow> mcp_server \<Rightarrow> mcp_server" where
  "notify_rescan now s = fold (touch_resource now) [''files'', ''tree'', ''snapshots'', ''rescan''] s"

definition notify_log_record :: "int \<Rightarrow> mcp_server \<Rightarrow> mcp_server" where
  "notify_log_record now = touch_resource now ''logs''"

text \<open>The warning about cold nodes: its entries, and the sessions it reached.\<close>

record cold_entry =
  en_id :: node_id
  en_label :: bytes
  en_file :: bytes
  en_temperature :: real

definition cold_entries :: "node list \<Rightarrow> cold_entry list" where
  "cold_entries ns = map (\<lambda>n. \<lparr>en_id = n_id n, en_label = n_label n, en_file = n_source n,
     en_temperature = n_temp n\<rparr>) ns"

definition send_cold_logging :: "error option list \<Rightarrow> nat" where
  "send_cold_logging sessions = length (filter (\<lambda>r. r = None) sessions)"

datatype ('q, 'r) server_start = Stdio | Http "('q, 'r) http_start" | Unsupported bytes

definition run_server ::
  "(bytes \<Rightarrow> bytes result) \<Rightarrow> ('q \<Rightarrow> bytes) \<Rightarrow> ('q \<Rightarrow> 'r) \<Rightarrow> mcp_server \<Rightarrow> ('q, 'r) server_start" where
  "run_server net_listen authorization tools_handler s =
     (if ms_transport s = transport_stdio then Stdio
      else if ms_transport s = transport_http
        then Http (run_http net_listen authorization tools_handler (ms_http s))
      else Unsupported (ms_transport s))"

subsection \<open>Starting to serve\<close>

text \<open>
  What the start meets outside: \<open>store.Open\<close> and \<open>Migrate\<close>, the configuration file of the source, the
  log file, the directories below \<open>.remindb\<close>, and the files of the source.
\<close>

record serve_world =
  wl_env :: process_env
  wl_open :: "bytes \<Rightarrow> error option"
  wl_migrate :: "error option"
  wl_config :: file_read
  wl_open_log :: "bytes \<Rightarrow> error option"
  wl_mkdir :: "bytes \<Rightarrow> error option"
  wl_regex :: regex_engine
  wl_os :: os
  wl_compile :: compile_env

record serving =
  sg_vars :: serve_vars
  sg_logger :: serve_logger
  sg_server :: mcp_server
  sg_tracker :: tracker
  sg_loop :: "scan_loop option"
  sg_rescan_log :: "int option"

definition unless_failed :: "error option \<Rightarrow> 'a result \<Rightarrow> 'a result" where
  "unless_failed e r = (case e of Some e \<Rightarrow> Inl e | None \<Rightarrow> r)"

text \<open>Up to the construction of the server, the database is only opened and migrated.\<close>

definition prepare_serve :: "(bytes \<Rightarrow> decoded) \<Rightarrow> serve_world \<Rightarrow> serve_vars \<Rightarrow> (serving \<times> config) result" where
  "prepare_serve decode w v0 =
     bind_result (apply_serve_env (wl_env w) v0) (\<lambda>v1.
     unless_failed (wl_open w (cv_db v1)) (
     unless_failed (wl_migrate w) (
     bind_result (if cv_source v1 \<noteq> [] then load_config decode (wl_config w) else Inr zero_config) (\<lambda>cfg.
     bind_result (resolve_server_config (wl_env w) (cf_server cfg) v1) (\<lambda>v.
     bind_result (new_serve_logger (wl_open_log w) (cv_verbose v) (sv_logging (cf_server cfg))) (\<lambda>plain.
     bind_result (if cv_source v \<noteq> []
                  then with_session_logs (wl_mkdir w) (cv_source v) (sv_logging (cf_server cfg)) plain
                  else Inr plain) (\<lambda>logger.
     let policy = with_overrides default_policy (cf_temperature cfg)
     in unless_failed (policy_validate policy) (
     bind_result (apply_redaction_overrides default_redaction (cf_redaction cfg)) (\<lambda>rc.
     bind_result (new_redactor (wl_regex w) rc) (\<lambda>red.
     bind_result (new_tracker (cv_source v) default_policy) (\<lambda>tracker.
     bind_result (new_server (wl_regex w) (wl_mkdir w) policy
         \<lparr>op_source = cv_source v, op_transport = cv_transport v, op_listen = cv_listen v, op_token = cv_token v,
           op_insecure = cv_insecure v, op_config = cfg, op_redactor = red\<rparr>) (\<lambda>srv.
     Inr (\<lparr>sg_vars = v, sg_logger = logger, sg_server = srv, sg_tracker = tracker, sg_loop = None,
            sg_rescan_log = None\<rparr>, cfg)))))))))))))"

text \<open>Then an empty store is filled from the source, and the rescan loop is built.\<close>

definition start_serve :: "hash64 \<Rightarrow> (bytes \<Rightarrow> decoded) \<Rightarrow> (bytes \<Rightarrow> (bytes \<times> json) list result) \<Rightarrow> serve_world
    \<Rightarrow> serve_vars \<Rightarrow> db \<Rightarrow> serving result \<times> db" where
  "start_serve xxh decode decode_temps w v0 db =
     (case prepare_serve decode w v0 of
        Inl e \<Rightarrow> (Inl e, db)
      | Inr (sg, cfg) \<Rightarrow>
          let source = cv_source (sg_vars sg)
          in if source = [] then (Inr sg, db)
             else case initial_compile xxh decode_temps (wl_os w) (wl_compile w) source db of
                 (Inl e, db') \<Rightarrow> (Inl e, db')
               | (Inr _, db') \<Rightarrow>
                   (bind_result (new_rescan_log (wl_mkdir w) source (cf_server cfg)) (\<lambda>rlog.
                    bind_result (new_loop (wl_os w) source (cv_interval (sg_vars sg)) (cf_compile cfg)) (\<lambda>loop.
                    Inr (sg\<lparr>sg_loop := Some loop, sg_rescan_log := rlog\<rparr>))), db'))"

subsection \<open>What reaches the tools over HTTP\<close>

lemma resolved_vars:
  assumes "resolve_server_config env sc v = Inr v'"
  shows "cv_token v' = cv_token v \<and> cv_insecure v' = cv_insecure v \<and> cv_transport v' \<in> {transport_stdio, transport_http}
    \<and> (cv_insecure v' \<longrightarrow> cv_transport v' = transport_http)"
  using assms by (auto simp: resolve_server_config_def Let_def split: if_splits)

lemma env_guarded:
  assumes "apply_serve_env env v = Inr v'"
  shows "cv_token v' = pe_getenv env ''REMINDB_AUTH_TOKEN''
    \<and> (cv_insecure v' \<longrightarrow> cv_insecure v \<or> parse_bool (pe_getenv env ''REMINDB_INSECURE_PUBLIC'') = Some True)"
proof -
  obtain u w where w: "env_db env v = Inr u" "env_interval env (env_source env u) = Inr w" "env_guard env w = Inr v'"
    using assms by (auto simp: apply_serve_env_def elim!: bind_result_InrE)
  have "cv_insecure u = cv_insecure v" using w(1)
    by (auto simp: env_db_def absolutize_db_path_def Let_def split: if_splits sum.splits)
  moreover have "cv_insecure w = cv_insecure (env_source env u)" using w(2)
    by (auto simp: env_interval_def Let_def bind_result_def split: if_splits sum.splits option.splits)
  moreover have "cv_insecure (env_source env u) = cv_insecure u" by (simp add: env_source_def)
  ultimately show ?thesis using w(3) by (auto simp: env_guard_def Let_def split: if_splits option.splits)
qed

lemma prepared_guard:
  assumes "prepare_serve decode w v0 = Inr (sg, cfg)"
  shows "ht_token (ms_http (sg_server sg)) = pe_getenv (wl_env w) ''REMINDB_AUTH_TOKEN''
    \<and> (ht_insecure (ms_http (sg_server sg)) \<longrightarrow>
         cv_insecure v0 \<or> parse_bool (pe_getenv (wl_env w) ''REMINDB_INSECURE_PUBLIC'') = Some True)"
proof -
  obtain v1 v where v: "apply_serve_env (wl_env w) v0 = Inr v1" "resolve_server_config (wl_env w) (cf_server cfg) v1 = Inr v"
    and http: "ht_token (ms_http (sg_server sg)) = cv_token v" "ht_insecure (ms_http (sg_server sg)) = cv_insecure v"
    using assms
    by (auto simp: prepare_serve_def unless_failed_def new_server_def Let_def elim!: bind_result_InrE
        split: option.splits if_splits)
  show ?thesis using env_guarded [OF v(1)] resolved_vars [OF v(2)] http by auto
qed

lemma started_guard:
  assumes "start_serve xxh decode decode_temps w v0 db = (Inr sg, db')"
  shows "ht_token (ms_http (sg_server sg)) = pe_getenv (wl_env w) ''REMINDB_AUTH_TOKEN''
    \<and> (ht_insecure (ms_http (sg_server sg)) \<longrightarrow>
         cv_insecure v0 \<or> parse_bool (pe_getenv (wl_env w) ''REMINDB_INSECURE_PUBLIC'') = Some True)"
proof -
  obtain sg0 cfg where p: "prepare_serve decode w v0 = Inr (sg0, cfg)"
    using assms by (auto simp: start_serve_def split: sum.splits)
  then have "sg_server sg = sg_server sg0"
    using assms by (auto simp: start_serve_def Let_def split: if_splits sum.splits prod.splits elim!: bind_result_InrE)
  then show ?thesis using prepared_guard [OF p] by simp
qed

text \<open>@public_needs_token@:
  A server reachable from other hosts answers nobody without the token. Whatever the flags, the
  configuration file and the environment are: when the command starts and serves HTTP on an address
  whose host is not a loopback one, and neither the flag nor the environment asked for an insecure
  public server, then REMINDB_AUTH_TOKEN is set, and a request reaches the tools exactly when its
  Authorization header is \<open>Bearer\<close>, a blank and that token, byte for byte. All other requests get the
  challenge, and none of them reaches the tools.
\<close>

theorem public_needs_token:
  assumes "start_serve xxh decode decode_temps w v0 db = (Inr sg, db')"
    and "run_server net_listen authorization tools_handler (sg_server sg) = Http (Serving addr warned handler)"
    and "split_host addr = Some host" "\<not> is_loopback_host host"
    and "\<not> cv_insecure v0" "parse_bool (pe_getenv (wl_env w) ''REMINDB_INSECURE_PUBLIC'') \<noteq> Some True"
  shows "pe_getenv (wl_env w) ''REMINDB_AUTH_TOKEN'' \<noteq> []
    \<and> (\<forall>q. handler q = (if authorization q = ''Bearer '' @ pe_getenv (wl_env w) ''REMINDB_AUTH_TOKEN''
                       then Answered (tools_handler q) else Unauthorized bearer_realm))"
proof -
  let ?h = "ms_http (sg_server sg)"
  have secure: "ht_token ?h = pe_getenv (wl_env w) ''REMINDB_AUTH_TOKEN''" "\<not> ht_insecure ?h"
    using started_guard [OF assms(1)] assms(5,6) by auto
  have "run_http net_listen authorization tools_handler ?h = Serving addr warned handler"
    using assms(2) by (auto simp: run_server_def split: if_splits)
  moreover have "non_loopback addr" using assms(3,4) by (simp add: non_loopback_def)
  ultimately have token: "ht_token ?h \<noteq> []"
    and handler: "handler = bearer_auth (ht_token ?h) authorization (\<lambda>q. Answered (tools_handler q))"
    using secure(2) by (auto simp: run_http_def Let_def split: sum.splits if_splits)
  show ?thesis using token unfolding handler secure(1) by (simp add: bearer_auth_decides bearer_prefix_def)
qed

definition sample_env :: process_env where
  "sample_env = \<lparr>pe_getenv = (\<lambda>k. if k = ''REMINDB_AUTH_TOKEN'' then ''s3cret''
       else if k = ''REMINDB_TRANSPORT'' then ''http'' else if k = ''REMINDB_LISTEN'' then '':7474'' else []),
     pe_abs = Inr, pe_duration = (\<lambda>_. None)\<rparr>"

definition sample_world :: serve_world where
  "sample_world = \<lparr>wl_env = sample_env, wl_open = (\<lambda>_. None), wl_migrate = None, wl_config = Absent,
     wl_open_log = (\<lambda>_. None), wl_mkdir = (\<lambda>_. None), wl_regex = (\<lambda>_. Some (\<lambda>_. [])),
     wl_os = \<lparr>os_cwd = ''/'', os_tree = (\<lambda>_. None), os_links = Inr, os_file = (\<lambda>_. Inr []), os_stat_dir = (\<lambda>_. Inr True)\<rparr>,
     wl_compile = \<lparr>ce_io = \<lparr>io_size = (\<lambda>_. Inr 0), io_read = (\<lambda>_. Inr []), io_parse = (\<lambda>_ _. Inr [])\<rparr>, ce_stopped = (\<lambda>_. False),
       ce_sched = [], ce_fault = (\<lambda>_. None), ce_awake = (\<lambda>_. True)\<rparr>\<rparr>"

definition sample_vars :: serve_vars where
  "sample_vars = \<lparr>cv_changed = (\<lambda>_. False), cv_db = ''memory.db'', cv_source = [], cv_interval = 0, cv_verbose = False,
     cv_transport = ''stdio'', cv_listen = default_listen_addr, cv_token = [], cv_insecure = False\<rparr>"

lemma sample_prepared:
  "\<exists>v1. apply_serve_env sample_env sample_vars = Inr v1 \<and> cv_source v1 = [] \<and> resolve_server_config sample_env (cf_server zero_config) v1
     = Inr (v1\<lparr>cv_transport := ''http'', cv_listen := '':7474''\<rparr>) \<and> cv_token v1 = ''s3cret'' \<and> \<not> cv_insecure v1"
  by (simp add: apply_serve_env_def env_db_def env_source_def env_interval_def env_guard_def sample_env_def sample_vars_def
      Let_def resolve_server_config_def resolve_setting_def zero_config_def env_ptr_def transport_stdio_def transport_http_def)

lemma default_policy_valid: "policy_validate (with_overrides default_policy (cf_temperature zero_config)) = None"
  by (simp add: with_overrides_def zero_config_def zero_temperature_def override_def policy_validate_def first_failing_def
      default_policy_def in_unit_def minutes_def)

lemma sample_server:
  "\<exists>sg. start_serve xxh decode decode_temps sample_world sample_vars db = (Inr sg, db)
     \<and> ms_transport (sg_server sg) = ''http''
     \<and> ms_http (sg_server sg) = \<lparr>ht_listen = '':7474'', ht_token = ''s3cret'', ht_insecure = False\<rparr>"
proof -
  obtain v1 where v: "apply_serve_env sample_env sample_vars = Inr v1" "cv_source v1 = []" "cv_token v1 = ''s3cret''"
      "\<not> cv_insecure v1" "resolve_server_config sample_env (cf_server zero_config) v1
     = Inr (v1\<lparr>cv_transport := ''http'', cv_listen := '':7474''\<rparr>)"
    using sample_prepared by blast
  obtain pats where "new_redactor (wl_regex sample_world) default_redaction = Inr (Some pats)"
    using default_redactor_works by blast
  moreover have "apply_redaction_overrides default_redaction (cf_redaction zero_config) = Inr default_redaction"
    by (simp add: apply_redaction_overrides_def zero_config_def)
  moreover have "new_serve_logger (wl_open_log sample_world) (cv_verbose v1) (sv_logging (cf_server zero_config)) \<noteq> Inl e" for e
    by (simp add: new_serve_logger_def zero_config_def)
  moreover have "new_tracker [] default_policy = Inr sample_tracker" by (rule sample_tracker_new)
  moreover have "\<exists>pub. new_publisher (cf_server zero_config) = Inr pub"
    by (simp add: new_publisher_def zero_config_def)
  ultimately show ?thesis using v default_policy_valid
    by (cases "new_serve_logger (wl_open_log sample_world) (cv_verbose v1) (sv_logging (cf_server zero_config))")
      (auto simp: start_serve_def prepare_serve_def unless_failed_def new_server_def Let_def or_default_def sample_world_def)
qed

theorem public_needs_token_witness:
  "\<exists>sg addr warned handler.
     start_serve (\<lambda>_. 0) (\<lambda>_. EndOfInput) (\<lambda>_. Inr []) sample_world sample_vars empty_db = (Inr sg, empty_db)
     \<and> run_server (\<lambda>_. Inr ''[::]:7474'') id (\<lambda>q. q) (sg_server sg) = Http (Serving addr warned handler)
     \<and> handler ''Bearer s3cret'' = Answered ''Bearer s3cret'' \<and> handler ''Bearer s3cre'' = Unauthorized bearer_realm"
proof -
  obtain sg where sg: "start_serve (\<lambda>_. 0) (\<lambda>_. EndOfInput) (\<lambda>_. Inr []) sample_world sample_vars empty_db = (Inr sg, empty_db)"
      "ms_transport (sg_server sg) = ''http''"
      "ms_http (sg_server sg) = \<lparr>ht_listen = '':7474'', ht_token = ''s3cret'', ht_insecure = False\<rparr>"
    using sample_server by blast
  have host: "split_host ''[::]:7474'' = Some ''::''" "\<not> is_loopback_host ''::''" by code_simp+
  obtain handler where run:
      "run_server (\<lambda>_. Inr ''[::]:7474'') id (\<lambda>q. q) (sg_server sg) = Http (Serving ''[::]:7474'' False handler)"
    using sg(2,3) by (simp add: run_server_def transport_stdio_def transport_http_def run_http_def)
  have env: "\<not> cv_insecure sample_vars" "parse_bool (pe_getenv (wl_env sample_world) ''REMINDB_INSECURE_PUBLIC'') \<noteq> Some True"
      "pe_getenv (wl_env sample_world) ''REMINDB_AUTH_TOKEN'' = ''s3cret''"
    by (simp_all add: sample_vars_def sample_world_def sample_env_def parse_bool_def)
  show ?thesis using public_needs_token [OF sg(1) run host env(1,2)] sg(1) run unfolding env(3) by auto
qed

text \<open>The resources the server announces are all ones it can announce.\<close>

lemma announced_resources:
  assumes "new_server engine mkdir cfg o' = Inr s" "name \<in> set (map fst subscribable)"
  shows "map_of (pb_timers (ms_publisher (touch_resource now name s))) (''remindb://'' @ name) \<noteq> None"
proof -
  obtain pub where "new_publisher (cf_server (op_config o')) = Inr pub" "ms_publisher s = pub"
    using assms(1) by (auto simp: new_server_def elim!: bind_result_InrE)
  moreover from this(1) have "map_of (pb_per_uri pub) (''remindb://'' @ name) \<noteq> None"
    using assms(2)
    by (auto simp: new_publisher_def Let_def subscribable_def elim!: bind_result_InrE dest!: apply_overrides_keys
        [where uri = "''remindb://'' @ name"])
  ultimately show ?thesis by (auto simp: touch_resource_def touch_def update_conv split: option.splits)
qed

text \<open>
  Without a source there is no \<open>MemoryCompile\<close>. So \<open>remindb bench\<close>, which runs \<open>serve --db\<close> with the
  REMINDB variables removed and then calls that tool, cannot finish.
\<close>

lemma server_source:
  assumes "start_serve xxh decode decode_temps w v0 db = (Inr sg, db')"
  shows "ms_source (sg_server sg) = (if cv_source v0 = [] then pe_getenv (wl_env w) ''REMINDB_SOURCE'' else cv_source v0)"
proof -
  obtain sg0 cfg where p: "prepare_serve decode w v0 = Inr (sg0, cfg)"
    using assms by (auto simp: start_serve_def split: sum.splits)
  then have same: "sg_server sg = sg_server sg0"
    using assms by (auto simp: start_serve_def Let_def split: if_splits sum.splits prod.splits elim!: bind_result_InrE)
  obtain v1 v where v: "apply_serve_env (wl_env w) v0 = Inr v1" "resolve_server_config (wl_env w) (cf_server cfg) v1 = Inr v"
    and src: "ms_source (sg_server sg0) = cv_source v"
    using p
    by (auto simp: prepare_serve_def unless_failed_def new_server_def Let_def elim!: bind_result_InrE
        split: option.splits if_splits)
  have "cv_source v = cv_source v1"
    using v(2) by (auto simp: resolve_server_config_def Let_def split: if_splits)
  moreover obtain u z where u: "env_db (wl_env w) v0 = Inr u" "env_interval (wl_env w) (env_source (wl_env w) u) = Inr z"
      "env_guard (wl_env w) z = Inr v1"
    using v(1) by (auto simp: apply_serve_env_def elim!: bind_result_InrE)
  have "cv_source v1 = cv_source z" using u(3) by (auto simp: env_guard_def Let_def split: if_splits option.splits)
  moreover have "cv_source z = cv_source (env_source (wl_env w) u)" using u(2)
    by (auto simp: env_interval_def Let_def bind_result_def split: if_splits sum.splits option.splits)
  moreover have "cv_source u = cv_source v0" using u(1)
    by (auto simp: env_db_def absolutize_db_path_def Let_def split: if_splits sum.splits)
  ultimately show ?thesis using same src by (simp add: env_source_def)
qed

lemma bench_server_cannot_compile:
  assumes "start_serve xxh decode decode_temps w v0 db = (Inr sg, db')"
    "cv_source v0 = []" "pe_getenv (wl_env w) ''REMINDB_SOURCE'' = []"
  shows "''MemoryCompile'' \<notin> set (register_tools (ms_source (sg_server sg)))"
  using server_source [OF assms(1)] assms(2,3) by (simp add: register_tools_def)

end
