(* ===== verification/Commands.thy ===== *)
theory Commands
  imports Serve
begin

text \<open>
  The other commands of \<open>cmd/remindb\<close>: where the database lies (\<open>main.go\<close>), the one-shot compile
  (\<open>compile.go\<close>), and the version check of \<open>serve\<close> and \<open>update\<close> (\<open>version.go\<close>, \<open>update.go\<close>). Fetching the
  latest tag and running the installer are the host's; printing is the text returned.
\<close>

subsection \<open>The place of the database\<close>

text \<open>\<open>filepath.Base\<close> of an absolute path.\<close>

definition path_base :: "bytes \<Rightarrow> bytes" where
  "path_base p = (let t = trim_right_set {CHR ''/''} p in if p = [] then ''.'' else if t = [] then ''/'' else file_part t)"

definition derive_default_db_path :: "os \<Rightarrow> bool \<Rightarrow> bytes \<Rightarrow> bytes \<Rightarrow> bytes" where
  "derive_default_db_path s db_changed dir db_path =
     (if db_changed \<or> dir = [] then db_path
      else case os_stat_dir s (abs_path s dir) of
        Inr True \<Rightarrow> abs_path s (path_base (abs_path s dir) @ ''.db'')
      | _ \<Rightarrow> db_path)"

subsection \<open>The command \<open>compile\<close>\<close>

record compile_flags =
  cl_message :: bytes
  cl_reseed_temps :: bool
  cl_reseed_pins :: bool

definition config_options :: "compile_config \<Rightarrow> compile_options \<Rightarrow> compile_options" where
  "config_options cc o' =
     o'\<lparr>co_max_size := (case cc_max_file_size cc of None \<Rightarrow> co_max_size o' | Some n \<Rightarrow> n),
       co_timeout := (case cc_timeout cc of None \<Rightarrow> co_timeout o' | Some t \<Rightarrow> t)\<rparr>"

definition no_options :: "redactor \<Rightarrow> compile_options" where
  "no_options red = \<lparr>co_paths = [], co_message = [], co_root = [], co_temps = (\<lambda>_. None), co_pins = (\<lambda>_. False),
     co_max_size = 0, co_timeout = 0, co_full_rescan = False, co_redactor = red\<rparr>"

definition compiled_message :: "compile_result \<Rightarrow> bytes" where
  "compiled_message r = ''compiled: '' @ itoa (cr_added r) @ '' added, '' @ itoa (cr_modified r) @ '' modified, ''
     @ itoa (cr_removed r) @ '' removed ('' @ itoa (cr_total r) @ '' ops)'' @ [CHR 0x0A]"

text \<open>The configuration is that of the directory, or of the directory of the file.\<close>

definition run_compile :: "hash64 \<Rightarrow> (bytes \<Rightarrow> decoded) \<Rightarrow> (bytes \<Rightarrow> (bytes \<times> json) list result) \<Rightarrow> regex_engine \<Rightarrow> os
    \<Rightarrow> (bytes \<Rightarrow> file_read) \<Rightarrow> compile_env \<Rightarrow> compile_flags \<Rightarrow> bytes \<Rightarrow> db \<Rightarrow> bytes result \<times> db" where
  "run_compile xxh decode decode_temps engine s config_at env fl path db =
     (let msg = (if cl_message fl = [] then ''compile:'' @ path else cl_message fl)
      in case os_stat_dir s path of
           Inl e \<Rightarrow> (Inl e, db)
         | Inr is_dir \<Rightarrow>
             (case bind_result (load_config decode (config_at (if is_dir then path else path_dir path))) (\<lambda>cfg.
                   bind_result (apply_redaction_overrides default_redaction (cf_redaction cfg)) (\<lambda>rc.
                   bind_result (new_redactor engine rc) (\<lambda>red.
                   Inr (config_options (cf_compile cfg) (no_options red))))) of
                Inl e \<Rightarrow> (Inl e, db)
              | Inr o' \<Rightarrow>
                  let d = \<lparr>do_ignore = None, do_pinned = None, do_reseed_temps = is_dir \<and> cl_reseed_temps fl,
                        do_reseed_pins = is_dir \<and> cl_reseed_pins fl\<rparr>
                  in (case (if is_dir then compile_dir xxh decode_temps s env o' d path msg db
                            else compile_file xxh s env o' d path msg db) of
                     (r, db') \<Rightarrow> (map_sum id compiled_message r, db'))))"

subsection \<open>Versions\<close>

definition version_get :: "bytes \<Rightarrow> bytes option \<Rightarrow> bytes" where
  "version_get injected build_info =
     (if injected \<noteq> [] then injected
      else case build_info of
        Some v \<Rightarrow> if v \<noteq> [] \<and> v \<noteq> ''(devel)'' then v else ''dev''
      | None \<Rightarrow> ''dev'')"

definition base_version :: "bytes \<Rightarrow> bytes option" where
  "base_version current =
     (if \<not> has_prefix current ''v'' then None else Some (takeWhile (\<lambda>c. c \<noteq> CHR ''+'') current))"

text \<open>The notice of a newer release; none for a build that is no release.\<close>

definition check_latest_version :: "bytes result \<Rightarrow> bytes \<Rightarrow> (bytes \<times> bytes) option" where
  "check_latest_version fetched current =
     (case base_version current of
        None \<Rightarrow> None
      | Some v \<Rightarrow> (case fetched of
            Inl _ \<Rightarrow> None
          | Inr latest \<Rightarrow> if latest \<noteq> [] \<and> latest \<noteq> v then Some (v, latest) else None))"

definition fetch_latest_tag :: "(nat \<times> bytes) result \<Rightarrow> (bytes \<Rightarrow> bytes result) \<Rightarrow> bytes result" where
  "fetch_latest_tag response decode_tag =
     (case response of
        Inl e \<Rightarrow> Inl (Failure ''failed to fetch'')
      | Inr (status, body) \<Rightarrow>
          if status \<noteq> 200 then Inl (Failure (''non-OK status: '' @ itoa (int status))) else decode_tag body)"

definition already_on_latest :: "bytes result \<Rightarrow> bytes \<Rightarrow> bool" where
  "already_on_latest fetched current =
     (case base_version current of None \<Rightarrow> False | Some v \<Rightarrow> fetched = Inr v)"

datatype platform = Windows | Linux | Darwin | Other_Platform bytes

definition install_command :: "platform \<Rightarrow> bytes list result" where
  "install_command p =
     (let base = ''https://raw.githubusercontent.com/radimsem/remindb/main/''
      in case p of
           Windows \<Rightarrow> Inr [''powershell'', ''-Command'', ''iwr -useb '' @ base @ ''install.ps1 | iex'']
         | Linux \<Rightarrow> Inr [''bash'', ''-c'', ''curl -fsSL '' @ base @ ''install.sh | bash'']
         | Darwin \<Rightarrow> Inr [''bash'', ''-c'', ''curl -fsSL '' @ base @ ''install.sh | bash'']
         | Other_Platform name \<Rightarrow> Inl (Failure (''unsupported platform: '' @ name)))"

text \<open>The command run, if any; running it may fail.\<close>

definition run_update :: "bool \<Rightarrow> bytes result \<Rightarrow> bytes \<Rightarrow> platform \<Rightarrow> (bytes list \<Rightarrow> error option) \<Rightarrow> bytes list option result" where
  "run_update forced fetched current p run =
     (if \<not> forced \<and> already_on_latest fetched current then Inr None
      else bind_result (install_command p) (\<lambda>cmd.
        unless_failed (run cmd) (Inr (Some cmd))))"

lemma latest_not_announced:
  "already_on_latest fetched current \<Longrightarrow> check_latest_version fetched current = None"
  by (auto simp: already_on_latest_def check_latest_version_def split: option.splits)

text \<open>The environment of the server that \<open>bench\<close> runs.\<close>

definition strip_remindb_env :: "bytes list \<Rightarrow> bytes list" where
  "strip_remindb_env env = filter (\<lambda>kv. \<not> has_prefix kv ''REMINDB_'') env"

text \<open>A compile that fails before it reads the sources leaves the store alone.\<close>

lemma run_compile_bad_config:
  assumes "os_stat_dir s path = Inr is_dir"
    "load_config decode (config_at (if is_dir then path else path_dir path)) = Inl e"
  shows "run_compile xxh decode decode_temps engine s config_at env fl path db = (Inl e, db)"
  using assms by (simp add: run_compile_def)

end
