(* ===== verification/Inspect_View.thy ===== *)
theory Inspect_View
  imports Inspect "HOL-Library.AList"
begin

text \<open>
  The command \<open>inspect\<close> (\<open>cmd/remindb/inspect.go\<close>): the statistics, the files and the tree as
  printed on a terminal, with or without colours. The number formats are those of the host record.
\<close>

subsection \<open>Colours\<close>

definition ansi :: "bytes \<Rightarrow> bytes" where "ansi c = byte 0x1B # ''['' @ c @ ''m''"

definition ansi_plain :: bytes where "ansi_plain = ansi ''0''"
definition ansi_bold :: bytes where "ansi_bold = ansi ''1''"
definition ansi_dim :: bytes where "ansi_dim = ansi ''2''"
definition ansi_yellow :: bytes where "ansi_yellow = ansi ''33''"
definition ansi_cyan :: bytes where "ansi_cyan = ansi ''36''"
definition ansi_bright_white :: bytes where "ansi_bright_white = ansi ''97''"

definition paint :: "bool \<Rightarrow> bytes \<Rightarrow> bytes \<Rightarrow> bytes" where
  "paint color c s = (if color then c @ s @ ansi_plain else s)"

definition gradient_green :: int where "gradient_green = 60"

definition temp_paint :: "host \<Rightarrow> bool \<Rightarrow> real \<Rightarrow> bytes" where
  "temp_paint h color t =
     (let s = ho_fixed2 h t; c = (if (if t < 0 then 0 else t) > 1 then 1 else (if t < 0 then 0 else t));
          r = \<lfloor>255 * c\<rfloor>; b = \<lfloor>255 * (1 - c)\<rfloor>
      in if \<not> color then s
         else ansi (''38;2;'' @ itoa r @ '';'' @ itoa gradient_green @ '';'' @ itoa b) @ s @ ansi_plain)"

definition show_num :: "bool \<Rightarrow> int \<Rightarrow> bytes" where
  "show_num color n = paint color ansi_bright_white (itoa n)"

definition abbrev_tokens :: "(real \<Rightarrow> bytes) \<Rightarrow> int \<Rightarrow> bytes" where
  "abbrev_tokens fixed1 n =
     (if n < 1000 then itoa n
      else if n < 1000000 then fixed1 (real_of_int n / 1000) @ ''k''
      else fixed1 (real_of_int n / 1000000) @ ''M'')"

subsection \<open>The statistics\<close>

definition tty_row :: "bool \<Rightarrow> bytes \<Rightarrow> bytes \<Rightarrow> bytes" where
  "tty_row color label v =
     (let padded = paint color ansi_dim (rune_pad label label_pad)
      in if v = [] then padded @ eol else padded @ '' '' @ v @ eol)"

fun tty_branches :: "bool \<Rightarrow> (bytes \<times> bytes) list \<Rightarrow> bytes" where
  "tty_branches color [] = []"
| "tty_branches color ((k, v) # bs) =
     replicate branch_pad (CHR '' '') @ paint color ansi_dim (if bs = [] then end_glyph else tee_glyph) @ '' ''
     @ paint color ansi_dim (rune_pad k sub_key_pad) @ '' '' @ v @ eol @ tty_branches color bs"

definition map_tty_branches :: "bool \<Rightarrow> (bytes \<times> int) list \<Rightarrow> (bytes \<times> bytes) list" where
  "map_tty_branches color m = map (\<lambda>(k, n). (k @ '':'', show_num color n)) (sort_key fst m)"

definition print_header :: "host \<Rightarrow> bool \<Rightarrow> inspect_stats \<Rightarrow> bytes" where
  "print_header h color s =
     paint color (ansi_bold @ ansi_cyan)
       (''=== Database: '' @ is_path s
        @ (if is_bytes s > 0 then '' ('' @ human_size (ho_fixed1 h) (is_bytes s) @ '')'' else []) @ '' ==='') @ eol"

definition print_snapshots :: "host \<Rightarrow> bool \<Rightarrow> inspect_stats \<Rightarrow> bytes" where
  "print_snapshots h color s =
     tty_row color ''Snapshots:'' (show_num color (st_snapshots (is_core s)))
     @ (case is_latest s of
          None \<Rightarrow> []
        | Some l \<Rightarrow>
            tty_branches color
              ((''latest:'', paint color ansi_bright_white (''#'' @ itoa (la_id l)) @ '', ''
                 @ paint color ansi_bright_white (human_duration (la_age l)) @ '' ago''
                 @ (if la_message l = [] then [] else '', '' @ paint color ansi_dim (ho_quote h (la_message l))))
               # (if la_cursor l = [] then []
                  else [(''cursor:'', paint color ansi_dim (truncate_hash (la_cursor l)))])))"

definition at_least :: bytes where "at_least = [byte 0xE2, byte 0x89, byte 0xA5]"

definition print_temperature :: "host \<Rightarrow> bool \<Rightarrow> inspect_stats \<Rightarrow> bytes" where
  "print_temperature h color s =
     tty_row color ''Temperature:'' []
     @ tty_branches color
        [(''avg:'', temp_paint h color (st_avg_temp (is_core s))),
         (''median:'', temp_paint h color (st_median_temp (is_core s))),
         (''hot ('' @ at_least @ ho_fixed1 h (is_hot s) @ ''):'', show_num color (st_hot (is_core s))),
         (''cold (<'' @ ho_fixed1 h (is_cold s) @ ''):'', show_num color (st_cold (is_core s))),
         (''pinned:'', show_num color (st_pinned (is_core s)))]"

definition print_relations :: "bool \<Rightarrow> inspect_stats \<Rightarrow> bytes" where
  "print_relations color s =
     tty_row color ''Relations:'' (show_num color (is_relations s))
     @ tty_branches color (map_tty_branches color (is_by_origin s)
         @ (if st_pending (is_core s) > 0 then [(''pending:'', show_num color (st_pending (is_core s)))] else []))"

definition print_stats :: "host \<Rightarrow> bool \<Rightarrow> inspect_stats \<Rightarrow> bytes" where
  "print_stats h color s =
     print_header h color s
     @ tty_row color ''Nodes:'' (show_num color (st_nodes (is_core s)) @ '' (''
         @ paint color ansi_bright_white (abbrev_tokens (ho_fixed1 h) (st_tokens (is_core s))) @ '' tokens)'')
     @ tty_branches color (map_tty_branches color (is_by_type s))
     @ print_snapshots h color s @ print_temperature h color s @ print_relations color s
     @ tty_row color ''FTS rows:'' (show_num color (st_fts_rows (is_core s))) @ eol"

subsection \<open>The files\<close>

definition group_files_by_root :: "file_summary list \<Rightarrow> (bytes \<times> file_summary list) list" where
  "group_files_by_root fs =
     map (\<lambda>r. (r, filter (\<lambda>f. fs_root f = r) fs)) (sort_key (\<lambda>r. (r = [])) (sort (first_occs (map fs_root fs))))"

datatype file_trie = File_Trie (trie_summary: "file_summary option") (trie_kids: "(bytes \<times> file_trie) list")

definition empty_trie :: file_trie where "empty_trie = File_Trie None []"

definition set_summary :: "file_summary \<Rightarrow> file_trie \<Rightarrow> file_trie" where
  "set_summary f t = File_Trie (Some f) (trie_kids t)"

definition trie_child :: "bytes \<Rightarrow> file_trie \<Rightarrow> file_trie" where
  "trie_child seg t = (case map_of (trie_kids t) seg of None \<Rightarrow> empty_trie | Some u \<Rightarrow> u)"

definition set_child :: "bytes \<Rightarrow> file_trie \<Rightarrow> file_trie \<Rightarrow> file_trie" where
  "set_child seg u t = File_Trie (trie_summary t) (AList.update seg u (trie_kids t))"

fun trie_insert :: "file_summary \<Rightarrow> bytes list \<Rightarrow> file_trie \<Rightarrow> file_trie" where
  "trie_insert f [] t = t"
| "trie_insert f (seg # segs) t =
     (if seg = [] then trie_insert f segs t
      else let u = trie_child seg t
        in set_child seg (trie_insert f segs (if segs = [] then set_summary f u else u)) t)"

definition build_trie :: "file_summary list \<Rightarrow> file_trie" where
  "build_trie fs = fold (\<lambda>f. trie_insert f (split_on CHR ''/'' (fs_path f))) fs empty_trie"

definition trie_branch :: bytes where "trie_branch = tee_glyph @ [byte 0xE2, byte 0x94, byte 0x80, CHR '' '']"
definition trie_last :: bytes where "trie_last = end_glyph @ [byte 0xE2, byte 0x94, byte 0x80, CHR '' '']"
definition trie_bar :: bytes where "trie_bar = [byte 0xE2, byte 0x94, byte 0x82] @ ''   ''"

definition trie_line :: "host \<Rightarrow> bool \<Rightarrow> bytes \<Rightarrow> file_summary option \<Rightarrow> bytes" where
  "trie_line h color k s =
     (case s of
        Some f \<Rightarrow> paint color ansi_bright_white k @ '' ''
          @ paint color ansi_dim (''('' @ itoa (fs_nodes f) @ '' nodes, '' @ abbrev_tokens (ho_fixed1 h) (fs_tokens f) @ '' tok)'')
      | None \<Rightarrow> paint color ansi_yellow (k @ ''/'')) @ eol"

text \<open>The children in the order of their names; each comes with its name, its own line and its subtree.\<close>

fun lay_out :: "bytes \<Rightarrow> (bytes \<times> bytes \<times> (bytes \<Rightarrow> bytes)) list \<Rightarrow> bytes" where
  "lay_out pre [] = []"
| "lay_out pre ((k, line, sub) # rest) =
     (if rest = [] then pre @ trie_last @ line @ sub (pre @ ''    '')
      else pre @ trie_branch @ line @ sub (pre @ trie_bar) @ lay_out pre rest)"

fun render_trie_node :: "host \<Rightarrow> bool \<Rightarrow> file_trie \<Rightarrow> bytes \<Rightarrow> bytes" where
  "render_trie_node h color (File_Trie s kids) pre =
     lay_out pre (sort_key fst
       (map (\<lambda>(k, u). (k, trie_line h color k (trie_summary u), \<lambda>p. render_trie_node h color u p)) kids))"

definition print_files_view :: "host \<Rightarrow> bool \<Rightarrow> file_summary list \<Rightarrow> bytes" where
  "print_files_view h color fs =
     (if fs = [] then ''No files in database.'' @ eol
      else paint color (ansi_bold @ ansi_cyan) ''=== Files ==='' @ eol
        @ concat (map (\<lambda>(r, g). paint color ansi_bold (if r = [] then ''(ungrouped)'' else r) @ eol
             @ render_trie_node h color (build_trie g) [] @ eol) (group_files_by_root fs)))"

subsection \<open>The tree\<close>

definition print_line :: "host \<Rightarrow> bool \<Rightarrow> bytes \<Rightarrow> nat \<Rightarrow> bytes \<Rightarrow> node \<Rightarrow> bytes" where
  "print_line h color rt depth parent_source n =
     concat (replicate depth ''  '') @ paint color ansi_yellow (''['' @ n_type n @ '']'') @ '' ''
     @ paint color ansi_bright_white (n_label n) @ '' ('' @ paint color ansi_dim (''id='' @ n_id n)
     @ (if n_source n \<noteq> parent_source then '' '' @ paint color ansi_dim (''file='' @ relative_to (n_source n) rt) else [])
     @ '' temp='' @ temp_paint h color (n_temp n) @ '' ''
     @ paint color ansi_dim (''tok='' @ abbrev_tokens (ho_fixed1 h) (n_tokens n)) @ '')'' @ eol"

text \<open>The first argument is the number of levels that may still follow, \<open>maxDepth - depth\<close>.\<close>

fun print_tree :: "nat \<Rightarrow> host \<Rightarrow> bool \<Rightarrow> (node_id \<Rightarrow> node list) \<Rightarrow> bytes \<Rightarrow> nat \<Rightarrow> bytes \<Rightarrow> node \<Rightarrow> bytes" where
  "print_tree 0 h color children rt depth parent_source n = print_line h color rt depth parent_source n"
| "print_tree (Suc k) h color children rt depth parent_source n =
     print_line h color rt depth parent_source n
     @ concat (map (print_tree k h color children rt (Suc depth) (n_source n)) (children (n_id n)))"

definition print_node_tree :: "host \<Rightarrow> bool \<Rightarrow> int \<Rightarrow> db \<Rightarrow> bytes" where
  "print_node_tree h color max_depth db =
     (if get_all_nodes db = [] then ''No nodes in database.'' @ eol
      else case build_tree (get_all_nodes db) of (roots, children) \<Rightarrow>
        paint color (ansi_bold @ ansi_cyan) ''=== Node Tree ==='' @ eol
        @ concat (map (print_tree (nat max_depth) h color children (latest_compile_root db) 0 []) roots))"

record inspect_flags =
  if_tree :: bool
  if_files :: bool
  if_depth :: int
  if_depth_changed :: bool

definition run_inspect :: "(bytes \<Rightarrow> decoded) \<Rightarrow> host \<Rightarrow> bool \<Rightarrow> bytes \<Rightarrow> file_read \<Rightarrow> inspect_flags \<Rightarrow> db \<Rightarrow> bytes result" where
  "run_inspect decode h terminal no_color f flags db =
     (let color = (terminal \<and> no_color = [])
      in if \<not> if_tree flags \<and> if_depth_changed flags then Inl (Failure ''--depth requires --tree'')
         else bind_result (load_config decode f) (\<lambda>cfg.
           let policy = with_overrides default_policy (cf_temperature cfg)
           in Inr (print_stats h color (collect_stats h (tp_hot policy) (tp_cold policy) db)
             @ (if if_files flags then print_files_view h color (list_file_summaries db) else [])
             @ (if if_tree flags then print_node_tree h color (if_depth flags) db else []))))"

subsection \<open>What is printed\<close>

text \<open>The tree of the command shows the nodes of \<open>MemoryTree\<close>, in its order, and without colours and large nodes its text.\<close>

lemma concat_map_concat: "concat (map f (concat xss)) = concat (map (\<lambda>xs. concat (map f xs)) xss)"
  by (induction xss) auto

lemma print_tree_visits:
  "print_tree k h color children rt depth (case par of None \<Rightarrow> [] | Some p \<Rightarrow> n_source p) n
     = concat (map (\<lambda>(m, q, d). print_line h color rt d (case q of None \<Rightarrow> [] | Some p \<Rightarrow> n_source p) m)
         (walk_from children k depth par n))"
proof (induction k arbitrary: depth par n)
  case (Suc k)
  have "print_tree k h color children rt (Suc depth) (n_source n) c
      = concat (map (\<lambda>(m, q, d). print_line h color rt d (case q of None \<Rightarrow> [] | Some p \<Rightarrow> n_source p) m)
         (walk_from children k (Suc depth) (Some n) c))" for c
    using Suc [of "Suc depth" "Some n" c] by simp
  then have "map (print_tree k h color children rt (Suc depth) (n_source n)) cs
      = map (\<lambda>c. concat (map (\<lambda>(m, q, d). print_line h color rt d (case q of None \<Rightarrow> [] | Some p \<Rightarrow> n_source p) m)
         (walk_from children k (Suc depth) (Some n) c))) cs" for cs by (intro map_cong refl)
  then show ?case by (simp add: concat_map_concat comp_def del: map_eq_conv)
qed simp

lemma print_line_plain:
  assumes "n_tokens n < 1000"
  shows "print_line h False rt d (case q of None \<Rightarrow> [] | Some p \<Rightarrow> n_source p) n = tree_line (ho_fixed2 h) rt (n, q, d)"
  using assms by (simp add: print_line_def tree_line_def paint_def temp_paint_def Let_def abbrev_tokens_def)

lemma print_tree_plain:
  assumes "\<And>m q d. (m, q, d) \<in> set (walk_from children (nat max_depth) 0 None n) \<Longrightarrow> n_tokens m < 1000"
  shows "print_tree (nat max_depth) h False children rt 0 [] n = write_tree (ho_fixed2 h) children n rt max_depth"
proof -
  have "map (\<lambda>(m, q, d). print_line h False rt d (case q of None \<Rightarrow> [] | Some p \<Rightarrow> n_source p) m)
      (walk_from children (nat max_depth) 0 None n) = map (tree_line (ho_fixed2 h) rt) (walk_from children (nat max_depth) 0 None n)"
    using assms by (auto simp: print_line_plain simp del: option.case)
  then show ?thesis using print_tree_visits [of "nat max_depth" h False children rt 0 None n]
    by (simp add: write_tree_def del: map_eq_conv)
qed

text \<open>The trie holds every file at its path, the last one where two have the same.\<close>

primrec trie_at :: "bytes list \<Rightarrow> file_trie \<Rightarrow> file_summary option" where
  "trie_at [] t = trie_summary t"
| "trie_at (seg # segs) t = (case map_of (trie_kids t) seg of None \<Rightarrow> None | Some u \<Rightarrow> trie_at segs u)"

lemma trie_at_child: "trie_at segs (trie_child seg t) = trie_at (seg # segs) t"
  by (cases segs) (auto simp: trie_child_def empty_trie_def split: option.splits)

lemma trie_at_set_summary: "trie_at segs (set_summary f t) = (if segs = [] then Some f else trie_at segs t)"
  by (cases segs) (auto simp: set_summary_def)

lemma trie_at_set_child:
  "trie_at (s # segs) (set_child seg u t) = (if s = seg then trie_at segs u else trie_at (s # segs) t)"
  by (simp add: set_child_def update_conv')

lemma trie_at_insert:
  assumes "\<forall>s \<in> set segs. s \<noteq> []" "segs \<noteq> []"
  shows "trie_at p (trie_insert f segs t) = (if p = segs then Some f else trie_at p t)"
  using assms
proof (induction segs arbitrary: p t)
  case (Cons seg segs)
  show ?case
  proof (cases p)
    case Nil
    then show ?thesis using Cons.prems by (simp add: Let_def set_child_def)
  next
    case (Cons s q)
    show ?thesis
    proof (cases "segs = []")
      case True
      then show ?thesis using Cons Cons.prems
        by (auto simp: Let_def trie_at_set_child trie_at_set_summary trie_at_child simp del: trie_at.simps(2))
    next
      case False
      then show ?thesis using Cons Cons.prems Cons.IH [of q "trie_child seg t"]
        by (auto simp: Let_def trie_at_set_child trie_at_child simp del: trie_at.simps(2))
    qed
  qed
qed simp

end
