(* ===== verification/Spec2Isabelle.thy ===== *)
theory Spec2Isabelle
  imports Memory_Server Lost_Write Rescan Server_Feeds Session_Log Parser Resources Commands Inspect_View
begin

text \<open>
  A model of remindb, a memory database for agents: files are parsed into trees of nodes, stored
  in SQLite with a history of snapshots, and served through tools.
\<close>

end
